(* ===== verification/Prelude.thy ===== *)
theory Prelude
  imports Main "HOL-Library.Word"
begin

text \<open>
  Shared vocabulary of the development: the machine types the C++ sources use, the result type of
  operations that may throw or abort, and the generic lemmas on lists and words that the component
  theories rely on.
  \<^item> \<open>llama_token\<close>, \<open>llama_pos\<close> and \<open>llama_seq_id\<close> are 32-bit signed integers in \<open>include/llama.h\<close>; they are
    modelled by \<^typ>\<open>int\<close>, and arithmetic that can leave the range is written with \<open>s32\<close>.
  \<^item> \<open>uint32_t\<close> counters are \<^typ>\<open>nat\<close> with the wrap-around written with \<open>u32\<close>; code points are
    32-bit words, bytes 8-bit words.
\<close>

unbundle bit_operations_syntax

type_synonym llama_token = int
type_synonym llama_pos = int
type_synonym llama_seq_id = int
type_synonym byte = "8 word"
type_synonym cpt = "32 word"

text \<open>Simplification rules that describe what an operation does to one field or one cell.\<close>

named_theorems frame_simps
named_theorems wf_intros

abbreviation LLAMA_TOKEN_NULL :: llama_token where
  "LLAMA_TOKEN_NULL \<equiv> - 1"

abbreviation INT32_MAX :: int where
  "INT32_MAX \<equiv> 2147483647"

abbreviation INT32_MIN :: int where
  "INT32_MIN \<equiv> - 2147483648"

definition u32 :: "nat \<Rightarrow> nat" where
  "u32 n = n mod 2 ^ 32"

definition u32_sub :: "nat \<Rightarrow> nat \<Rightarrow> nat" where
  "u32_sub a b = (a + 2 ^ 32 - u32 b) mod 2 ^ 32"

definition s32 :: "int \<Rightarrow> int" where
  "s32 i = (i + 2147483648) mod 4294967296 - 2147483648"

text \<open>Division of \<open>int\<close> values truncates towards zero.\<close>

definition sdiv :: "int \<Rightarrow> int \<Rightarrow> int" where
  "sdiv a b = sgn a * sgn b * (\<bar>a\<bar> div \<bar>b\<bar>)"

lemma sdiv_nonneg: "0 \<le> a \<Longrightarrow> 0 < b \<Longrightarrow> sdiv a b = a div b"
  by (cases "a = 0") (simp_all add: sdiv_def)

lemma u32_id [simp]: "n < 2 ^ 32 \<Longrightarrow> u32 n = n"
  by (simp add: u32_def)

lemma u32_sub_id [simp]: "b \<le> a \<Longrightarrow> a < 2 ^ 32 \<Longrightarrow> u32_sub a b = a - b"
  by (simp add: u32_sub_def mod_if)

text \<open>Code equations that stay clear of unary representations of \<open>2 ^ 32\<close>.\<close>

lemma u32_code [code]: "u32 n = unat (word_of_nat n :: 32 word)"
  by (simp add: u32_def unat_of_nat)

lemma unat_small: "n < 2 ^ 32 \<Longrightarrow> unat (word_of_nat n :: 32 word) = n"
  by (simp add: unat_of_nat)

lemma u32_sub_code [code]: "u32_sub a b = unat (word_of_nat a - word_of_nat b :: 32 word)"
proof -
  have "u32 b \<le> a + 2 ^ 32" unfolding u32_def by (rule order_trans[of _ "2 ^ 32"]) simp_all
  then have "(word_of_nat (a + 2 ^ 32 - u32 b) :: 32 word) = word_of_nat a + word_of_nat (2 ^ 32) - word_of_nat (u32 b)"
    by (simp only: of_nat_diff of_nat_add)
  moreover have "(word_of_nat (u32 b) :: 32 word) = word_of_nat b" by (rule word_unat_eq_iff[THEN iffD2]) (simp add: u32_def unat_of_nat)
  moreover have "(word_of_nat (2 ^ 32) :: 32 word) = 0" by simp
  ultimately have "(word_of_nat a - word_of_nat b :: 32 word) = word_of_nat (a + 2 ^ 32 - u32 b)" by simp
  then show ?thesis by (simp add: u32_sub_def unat_of_nat)
qed

lemma s32_id [simp]: "INT32_MIN \<le> i \<Longrightarrow> i \<le> INT32_MAX \<Longrightarrow> s32 i = i"
  by (simp add: s32_def)

lemma s32_range: "INT32_MIN \<le> s32 i \<and> s32 i \<le> INT32_MAX"
proof -
  have "0 \<le> (i + 2147483648) mod 4294967296" "(i + 2147483648) mod 4294967296 < 4294967296"
    by simp_all
  then show ?thesis unfolding s32_def by linarith
qed

text \<open>Lists: counting and folding.\<close>

lemma length_filter_update:
  assumes "i < length xs"
  shows "length (filter P (xs[i := x])) + (if P (xs ! i) then 1 else 0)
       = length (filter P xs) + (if P x then 1 else 0)"
  using assms
proof (induction xs arbitrary: i)
  case Nil
  then show ?case by simp
next
  case (Cons y ys)
  then show ?case by (cases i) auto
qed

lemma sum_list_pos_length: "(\<And>x. x \<in> set xs \<Longrightarrow> 0 < x) \<Longrightarrow> length xs \<le> sum_list (xs :: nat list)"
proof (induction xs)
  case Nil
  then show ?case by simp
next
  case (Cons x xs)
  have "0 < x" using Cons.prems by simp
  moreover have "length xs \<le> sum_list xs" using Cons by simp
  ultimately show ?case by simp
qed

end
