(* ===== verification/KvCache.thy ===== *)
theory KvCache
  imports Prelude
begin

text \<open>
  The KV cache bookkeeping of \<open>src/llama.cpp\<close> (struct \<open>llama_kv_cache\<close> in \<open>src/llama-context.h\<close>): which cell
  of the ring buffer holds which position of which sequences.  The tensors themselves (the attention
  keys and values) and the NUMA copies of them are not modelled; every field the bookkeeping reads or
  writes is.

  Conventions.  A cell's \<open>std::set<llama_seq_id>\<close> is a finite set.  \<open>cache.cells\<close> has \<open>cache.size\<close> entries
  (\<open>llama_kv_cache_init\<close> resizes it so, and no operation changes it), and an index loop over \<open>cache.size\<close> is a
  recursion over the cell list, \<open>cell_loop\<close>.  \<open>GGML_ASSERT\<close> failures are the error value \<open>Kv_abort\<close>.
  A negative upper bound of a position range means no bound, as in the source.
\<close>

section \<open>Cells and cache\<close>

record kv_cell =
  c_pos :: llama_pos
  c_delta :: llama_pos
  c_src :: int
  c_token :: llama_token
  c_qsa_pos :: llama_pos
  c_pos_h :: llama_pos
  c_pos_w :: llama_pos
  c_pos_e :: llama_pos
  c_seq :: "llama_seq_id set"

definition default_cell :: kv_cell where
  "default_cell = \<lparr>c_pos = - 1, c_delta = 0, c_src = 0, c_token = LLAMA_TOKEN_NULL, c_qsa_pos = - 1,
     c_pos_h = 0, c_pos_w = 0, c_pos_e = 0, c_seq = {}\<rparr>"

definition has_seq_id :: "kv_cell \<Rightarrow> llama_seq_id \<Rightarrow> bool" where
  "has_seq_id c s \<longleftrightarrow> s \<in> c_seq c"

definition is_empty :: "kv_cell \<Rightarrow> bool" where
  "is_empty c \<longleftrightarrow> c_seq c = {}"

text \<open>\<open>kv_s_l\<close> is the list of recurrent-state tensors, each by its slot count \<open>ne[1]\<close>, \<open>None\<close> for a null pointer.\<close>

record kv_cache =
  kv_has_shift :: bool
  kv_do_defrag :: bool
  kv_do_copy :: bool
  kv_recurrent :: bool
  kv_hybrid :: bool
  kv_mrope :: bool
  kv_qsa :: bool
  kv_position_strict :: bool
  kv_head :: nat
  kv_size :: nat
  kv_used :: nat
  kv_row_count :: "nat list"
  kv_size_swa :: nat
  kv_sink_rows :: nat
  kv_window_swa :: nat
  kv_head_swa :: nat
  kv_pos_base_swa :: llama_pos
  kv_n :: nat
  kv_cells :: "kv_cell list"
  kv_s_l :: "nat option list"

datatype kv_error = Kv_abort string

definition any_compacted :: "kv_cache \<Rightarrow> bool" where
  "any_compacted cache \<longleftrightarrow> kv_row_count cache \<noteq> []"

definition live_swa :: "kv_cache \<Rightarrow> nat" where
  "live_swa cache = u32_sub (kv_head_swa cache) (kv_sink_rows cache)"

text \<open>The cast \<open>(uint32_t) x\<close> of a signed value.\<close>

definition u32_of_int :: "int \<Rightarrow> nat" where
  "u32_of_int x = nat (x mod 4294967296)"

fun qnext_state_slots :: "nat option list \<Rightarrow> nat \<Rightarrow> kv_error + nat" where
  "qnext_state_slots [] n_slots = Inr n_slots"
| "qnext_state_slots (None # ts) n_slots = qnext_state_slots ts n_slots"
| "qnext_state_slots (Some layer_slots # ts) n_slots =
     (if n_slots = 0 then qnext_state_slots ts layer_slots
      else if n_slots = layer_slots then qnext_state_slots ts n_slots
      else Inl (Kv_abort ''n_slots == layer_slots''))"

definition llama_kv_qnext_state_slots :: "kv_cache \<Rightarrow> kv_error + nat" where
  "llama_kv_qnext_state_slots cache = qnext_state_slots (kv_s_l cache) 0"

definition llama_kv_has_qnext_state_storage :: "kv_cache \<Rightarrow> kv_error + bool" where
  "llama_kv_has_qnext_state_storage cache =
     (if kv_position_strict cache then Inr False
      else (case llama_kv_qnext_state_slots cache of Inl e \<Rightarrow> Inl e | Inr n \<Rightarrow> Inr (n > 0)))"

definition llama_kv_qnext_seq_id_in_range :: "kv_cache \<Rightarrow> llama_seq_id \<Rightarrow> kv_error + bool" where
  "llama_kv_qnext_seq_id_in_range cache seq_id =
     (case llama_kv_qnext_state_slots cache of Inl e \<Rightarrow> Inl e
      | Inr n_slots \<Rightarrow> Inr (n_slots > 0 \<and> seq_id \<ge> 0 \<and> u32_of_int seq_id < n_slots))"

text \<open>An index loop that may rewrite each cell and threads a state.\<close>

fun cell_loop :: "(nat \<Rightarrow> kv_cell \<Rightarrow> 's \<Rightarrow> kv_cell \<times> 's) \<Rightarrow> nat \<Rightarrow> kv_cell list \<Rightarrow> 's \<Rightarrow> kv_cell list \<times> 's" where
  "cell_loop f i [] s = ([], s)"
| "cell_loop f i (c # cs) s =
     (let (c', s') = f i c s; (cs', s'') = cell_loop f (Suc i) cs s' in (c' # cs', s''))"

section \<open>Clearing\<close>

definition clear_cell :: "nat \<Rightarrow> kv_cell \<Rightarrow> kv_cell" where
  "clear_cell i c = c\<lparr>c_pos := - 1, c_src := int i, c_token := LLAMA_TOKEN_NULL, c_qsa_pos := - 1,
     c_pos_h := 0, c_pos_w := 0, c_pos_e := 0, c_seq := {}\<rparr>"

definition llama_kv_cache_clear :: "kv_cache \<Rightarrow> kv_cache" where
  "llama_kv_cache_clear cache = cache\<lparr>
     kv_cells := fst (cell_loop (\<lambda>i c s. (clear_cell i c, s)) 0 (kv_cells cache) ()),
     kv_head := 0, kv_used := 0, kv_head_swa := kv_sink_rows cache, kv_pos_base_swa := 0\<rparr>"

section \<open>Removing a range of a sequence\<close>

record rm_effect =
  e_qsa_pooled_seq :: llama_seq_id
  e_seq_membership_removed :: bool
  e_qsa_pool_preserved :: bool

text \<open>The locals the loop of \<open>llama_kv_cache_seq_rm\<close> updates.\<close>

record rm_acc =
  a_used :: nat
  a_new_head :: nat
  a_qsa_max_retained :: llama_pos
  a_qsa_min_removed :: llama_pos
  a_qsa_member_removed :: bool
  a_qsa_position_invalid :: bool
  a_membership_removed :: bool

text \<open>Range bounds: a negative \<open>p0\<close> is 0, a negative \<open>p1\<close> the largest position.\<close>

definition lo_pos :: "llama_pos \<Rightarrow> llama_pos" where
  "lo_pos p0 = (if p0 < 0 then 0 else p0)"

definition hi_pos :: "llama_pos \<Rightarrow> llama_pos" where
  "hi_pos p1 = (if p1 < 0 then INT32_MAX else p1)"

definition free_cell :: "bool \<Rightarrow> nat \<Rightarrow> kv_cell \<Rightarrow> kv_cell" where
  "free_cell has_qnext i c =
     (let c' = c\<lparr>c_pos := - 1, c_token := LLAMA_TOKEN_NULL, c_qsa_pos := - 1,
                 c_pos_h := 0, c_pos_w := 0, c_pos_e := 0\<rparr>
      in if has_qnext then c'\<lparr>c_src := int i\<rparr> else c')"

text \<open>One iteration; \<open>pooled\<close> is \<open>effect->qsa_pooled_seq\<close> when \<open>effect\<close> is not null.\<close>

definition rm_track :: "llama_seq_id option \<Rightarrow> llama_seq_id \<Rightarrow> bool \<Rightarrow> kv_cell \<Rightarrow> rm_acc \<Rightarrow> rm_acc" where
  "rm_track pooled seq_id in_range c a =
     (let cell_used = (\<not> is_empty c);
          qsa_pooled_seq = (case pooled of Some q \<Rightarrow> q | None \<Rightarrow> - 1);
          need_target_member = (cell_used \<and> seq_id \<ge> 0 \<and> (in_range \<or> (pooled \<noteq> None \<and> seq_id = qsa_pooled_seq)));
          target_member = (need_target_member \<and> has_seq_id c seq_id);
          pooled_member = (cell_used \<and> pooled \<noteq> None \<and> qsa_pooled_seq \<ge> 0 \<and>
             (if seq_id = qsa_pooled_seq then target_member else has_seq_id c qsa_pooled_seq));
          removes_pooled_member = (pooled_member \<and> in_range \<and> (seq_id < 0 \<or> seq_id = qsa_pooled_seq))
      in if pooled_member then
           (if removes_pooled_member then
              (if c_qsa_pos c < 0 then a\<lparr>a_qsa_member_removed := True, a_qsa_position_invalid := True\<rparr>
               else a\<lparr>a_qsa_member_removed := True, a_qsa_min_removed := min (a_qsa_min_removed a) (c_qsa_pos c)\<rparr>)
            else if c_qsa_pos c < 0 then a\<lparr>a_qsa_position_invalid := True\<rparr>
            else a\<lparr>a_qsa_max_retained := max (a_qsa_max_retained a) (c_qsa_pos c)\<rparr>)
         else a)"

text \<open>After the membership was taken out of the cell, the cell itself is released if it became empty.\<close>

definition rm_release :: "nat \<Rightarrow> bool \<Rightarrow> nat \<Rightarrow> kv_cell \<Rightarrow> rm_acc \<Rightarrow> kv_cell \<times> rm_acc" where
  "rm_release sz has_qnext i c a =
     (if is_empty c then
        (free_cell has_qnext i c,
         a\<lparr>a_used := (if c_pos c \<ge> 0 then u32_sub (a_used a) 1 else a_used a),
           a_new_head := (if a_new_head a = sz then i else a_new_head a)\<rparr>)
      else (c, a))"

definition seq_rm_cell ::
  "nat \<Rightarrow> bool \<Rightarrow> llama_seq_id option \<Rightarrow> llama_seq_id \<Rightarrow> llama_pos \<Rightarrow> llama_pos \<Rightarrow> nat \<Rightarrow> kv_cell \<Rightarrow> rm_acc \<Rightarrow> kv_cell \<times> rm_acc" where
  "seq_rm_cell sz has_qnext pooled seq_id p0 p1 i c a =
     (let in_range = (c_pos c \<ge> p0 \<and> c_pos c < p1);
          a' = rm_track pooled seq_id in_range c a
      in if in_range then
           (if seq_id < 0 then
              rm_release sz has_qnext i (c\<lparr>c_seq := {}\<rparr>)
                (if pooled \<noteq> None \<and> c_seq c \<noteq> {} then a'\<lparr>a_membership_removed := True\<rparr> else a')
            else if \<not> is_empty c \<and> has_seq_id c seq_id then
              rm_release sz has_qnext i (c\<lparr>c_seq := c_seq c - {seq_id}\<rparr>)
                (if pooled \<noteq> None then a'\<lparr>a_membership_removed := True\<rparr> else a')
            else (c, a'))
         else (c, a'))"

text \<open>Recurrent models cannot have a state erased partially.\<close>

definition rm_recurrent_ok :: "kv_cache \<Rightarrow> llama_seq_id \<Rightarrow> llama_pos \<Rightarrow> llama_pos \<Rightarrow> bool" where
  "rm_recurrent_ok cache seq_id p0 p1 =
     (if \<not> kv_recurrent cache then True
      else if seq_id \<ge> int (kv_size cache) then False
      else if 0 \<le> seq_id then
        \<not> ((0 < p0 \<and> p0 \<le> c_pos (kv_cells cache ! nat seq_id)) \<or> (0 < p1 \<and> p1 \<le> c_pos (kv_cells cache ! nat seq_id)))
      else \<not> (p0 \<noteq> p1 \<and> (p0 \<noteq> 0 \<or> p1 \<noteq> INT32_MAX)))"

text \<open>
  What a removal does to a compacted window: nothing (\<open>Inr None\<close>), a new window head and base
  (\<open>Inr (Some _)\<close>), or a refusal (\<open>Inl False\<close>); \<open>Inl True\<close> is the failed assertion.
\<close>

definition rm_compact_plan :: "kv_cache \<Rightarrow> llama_seq_id \<Rightarrow> llama_pos \<Rightarrow> llama_pos \<Rightarrow> bool + (nat \<times> llama_pos) option" where
  "rm_compact_plan cache seq_id p0 p1 =
     (if any_compacted cache \<and> seq_id \<le> 0 \<and> p1 > p0 then
        (let cur_end = s32 (kv_pos_base_swa cache + s32 (int (live_swa cache)))
         in if \<not> (live_swa cache > 0 \<or> kv_pos_base_swa cache = 0) then Inl True
            else if p0 < cur_end \<and> p1 > kv_pos_base_swa cache then
              (if p1 < cur_end then Inl False
               else if p0 = 0 then Inr (Some (kv_sink_rows cache, 0))
               else if kv_pos_base_swa cache = 0 \<or> p0 \<ge> s32 (kv_pos_base_swa cache + s32 (int (kv_window_swa cache))) then
                 Inr (Some (u32 (kv_sink_rows cache + u32_of_int (p0 - kv_pos_base_swa cache)), kv_pos_base_swa cache))
               else Inl False)
            else Inr None)
      else Inr None)"

definition rm_acc0 :: "kv_cache \<Rightarrow> rm_effect option \<Rightarrow> rm_acc" where
  "rm_acc0 cache effect =
     \<lparr>a_used = kv_used cache, a_new_head = kv_size cache, a_qsa_max_retained = INT32_MIN,
      a_qsa_min_removed = INT32_MAX, a_qsa_member_removed = False, a_qsa_position_invalid = False,
      a_membership_removed = (case effect of Some e \<Rightarrow> e_seq_membership_removed e | None \<Rightarrow> False)\<rparr>"

definition rm_effect_out :: "rm_effect option \<Rightarrow> bool \<Rightarrow> rm_acc \<Rightarrow> rm_effect option" where
  "rm_effect_out effect compact_apply a =
     (case effect of None \<Rightarrow> None
      | Some e \<Rightarrow> Some (e\<lparr>e_seq_membership_removed := a_membership_removed a,
          e_qsa_pool_preserved :=
            (if a_membership_removed a then
               \<not> compact_apply \<and> e_qsa_pooled_seq e \<ge> 0 \<and> \<not> a_qsa_position_invalid a \<and>
               (\<not> a_qsa_member_removed a \<or> a_qsa_max_retained a < a_qsa_min_removed a)
             else e_qsa_pool_preserved e)\<rparr>))"

text \<open>If a slot was freed below the search head, the head moves there.\<close>

definition lower_head :: "kv_cache \<Rightarrow> nat \<Rightarrow> nat" where
  "lower_head cache new_head =
     (if new_head \<noteq> kv_size cache \<and> new_head < kv_head cache then new_head else kv_head cache)"

definition llama_kv_cache_seq_rm ::
  "kv_cache \<Rightarrow> llama_seq_id \<Rightarrow> llama_pos \<Rightarrow> llama_pos \<Rightarrow> rm_effect option \<Rightarrow> kv_error + (bool \<times> kv_cache \<times> rm_effect option)" where
  "llama_kv_cache_seq_rm cache seq_id p0' p1' effect =
     (let p0 = lo_pos p0'; p1 = hi_pos p1' in
      if \<not> rm_recurrent_ok cache seq_id p0 p1 then Inr (False, cache, effect)
      else (case rm_compact_plan cache seq_id p0 p1 of
        Inl True \<Rightarrow> Inl (Kv_abort ''compacted window cannot be empty above position 0'')
      | Inl False \<Rightarrow> Inr (False, cache, effect)
      | Inr plan \<Rightarrow>
          (case llama_kv_has_qnext_state_storage cache of Inl e \<Rightarrow> Inl e
           | Inr has_qnext \<Rightarrow>
               (let (cs, a) = cell_loop (seq_rm_cell (kv_size cache) has_qnext (map_option e_qsa_pooled_seq effect) seq_id p0 p1)
                                0 (kv_cells cache) (rm_acc0 cache effect);
                    cache' = cache\<lparr>kv_cells := cs, kv_used := a_used a, kv_head := lower_head cache (a_new_head a)\<rparr>;
                    cache'' = (case plan of None \<Rightarrow> cache'
                               | Some (h, b) \<Rightarrow> cache'\<lparr>kv_head_swa := h, kv_pos_base_swa := b\<rparr>)
                in Inr (True, cache'', rm_effect_out effect (plan \<noteq> None) a)))))"


section \<open>Copying, keeping, shifting and dividing\<close>

definition set_cell :: "nat \<Rightarrow> (kv_cell \<Rightarrow> kv_cell) \<Rightarrow> kv_cell list \<Rightarrow> kv_cell list" where
  "set_cell i f cs = cs[i := f (cs ! i)]"

definition seq_cp_recurrent :: "kv_cache \<Rightarrow> llama_seq_id \<Rightarrow> llama_seq_id \<Rightarrow> kv_error + kv_cache" where
  "seq_cp_recurrent cache seq_id_src seq_id_dst =
     (let dst = u32_of_int seq_id_dst; src = u32_of_int seq_id_src; cs = kv_cells cache in
      if dst < kv_size cache \<and> src < kv_size cache then
        (let src' = c_src (cs ! src); s = u32_of_int src' in
         if \<not> s < kv_size cache then Inl (Kv_abort ''(uint32_t) seq_id_src < cache.size'')
         else
           (let cs1 = set_cell dst (\<lambda>c. c\<lparr>c_src := src'\<rparr>) cs;
                cs2 = (if has_seq_id (cs1 ! s) src'
                       then set_cell dst (\<lambda>c. c\<lparr>c_seq := insert seq_id_dst (c_seq c)\<rparr>) cs1
                       else set_cell dst (\<lambda>c. c\<lparr>c_seq := c_seq c - {seq_id_dst}\<rparr>) cs1);
                cs3 = set_cell dst (\<lambda>c. c\<lparr>c_pos := c_pos (cs2 ! s)\<rparr>) cs2
            in Inr (cache\<lparr>kv_cells := cs3, kv_do_copy := True\<rparr>)))
      else Inr cache)"

text \<open>
  The copy of a hybrid model's recurrent state is only recorded (\<open>src\<close> of the destination cell).  The
  source resolved through a pending copy replaces the argument \<open>seq_id_src\<close> for the rest of the
  function, as in the code.
\<close>

definition seq_cp_qnext :: "kv_cache \<Rightarrow> llama_seq_id \<Rightarrow> llama_seq_id \<Rightarrow> kv_error + (kv_cache \<times> llama_seq_id)" where
  "seq_cp_qnext cache seq_id_src seq_id_dst =
     (case llama_kv_has_qnext_state_storage cache of Inl e \<Rightarrow> Inl e
      | Inr has_qnext \<Rightarrow>
          if \<not> has_qnext then Inr (cache, seq_id_src)
          else (case llama_kv_qnext_seq_id_in_range cache seq_id_dst of Inl e \<Rightarrow> Inl e
           | Inr dst_ok \<Rightarrow> (case llama_kv_qnext_seq_id_in_range cache seq_id_src of Inl e \<Rightarrow> Inl e
              | Inr src_ok \<Rightarrow>
                  if dst_ok \<and> src_ok \<and> u32_of_int seq_id_dst < kv_size cache \<and> u32_of_int seq_id_src < kv_size cache then
                    (let src' = c_src (kv_cells cache ! u32_of_int seq_id_src) in
                     if \<not> u32_of_int src' < kv_size cache then Inl (Kv_abort ''(uint32_t) seq_id_src < cache.size'')
                     else Inr (cache\<lparr>kv_cells := set_cell (u32_of_int seq_id_dst) (\<lambda>c. c\<lparr>c_src := src'\<rparr>) (kv_cells cache),
                                     kv_do_copy := True\<rparr>, src'))
                  else Inr (cache, seq_id_src))))"

definition cp_cell :: "llama_seq_id \<Rightarrow> llama_seq_id \<Rightarrow> llama_pos \<Rightarrow> llama_pos \<Rightarrow> kv_cell \<Rightarrow> kv_cell" where
  "cp_cell src dst p0 p1 c =
     (if has_seq_id c src \<and> c_pos c \<ge> p0 \<and> c_pos c < p1 then c\<lparr>c_seq := insert dst (c_seq c)\<rparr> else c)"

definition llama_kv_cache_seq_cp ::
  "kv_cache \<Rightarrow> llama_seq_id \<Rightarrow> llama_seq_id \<Rightarrow> llama_pos \<Rightarrow> llama_pos \<Rightarrow> kv_error + kv_cache" where
  "llama_kv_cache_seq_cp cache seq_id_src seq_id_dst p0 p1 =
     (if kv_recurrent cache then seq_cp_recurrent cache seq_id_src seq_id_dst
      else (case seq_cp_qnext cache seq_id_src seq_id_dst of Inl e \<Rightarrow> Inl e
        | Inr (cache', src) \<Rightarrow>
            Inr (cache'\<lparr>kv_head := 0,
              kv_cells := fst (cell_loop (\<lambda>i c s. (cp_cell src seq_id_dst (lo_pos p0) (hi_pos p1) c, s)) 0 (kv_cells cache') ())\<rparr>)))"

definition keep_cell :: "nat \<Rightarrow> bool \<Rightarrow> llama_seq_id \<Rightarrow> nat \<Rightarrow> kv_cell \<Rightarrow> nat \<times> nat \<Rightarrow> kv_cell \<times> nat \<times> nat" where
  "keep_cell sz has_qnext seq_id i c s =
     (let (used, new_head) = s in
      if \<not> has_seq_id c seq_id then
        ((free_cell has_qnext i c)\<lparr>c_seq := {}\<rparr>,
         (if c_pos c \<ge> 0 then u32_sub used 1 else used),
         (if new_head = sz then i else new_head))
      else (c\<lparr>c_seq := {seq_id}\<rparr>, used, new_head))"

definition llama_kv_cache_seq_keep :: "kv_cache \<Rightarrow> llama_seq_id \<Rightarrow> kv_error + kv_cache" where
  "llama_kv_cache_seq_keep cache seq_id =
     (case llama_kv_has_qnext_state_storage cache of Inl e \<Rightarrow> Inl e
      | Inr has_qnext \<Rightarrow>
          (let (cs, used, new_head) = cell_loop (keep_cell (kv_size cache) has_qnext seq_id) 0 (kv_cells cache)
                                        (kv_used cache, kv_size cache)
           in Inr (cache\<lparr>kv_cells := cs, kv_used := used, kv_head := lower_head cache new_head\<rparr>)))"

definition selected :: "llama_seq_id \<Rightarrow> llama_pos \<Rightarrow> llama_pos \<Rightarrow> kv_cell \<Rightarrow> bool" where
  "selected seq_id p0 p1 c \<longleftrightarrow> has_seq_id c seq_id \<and> c_pos c \<ge> p0 \<and> c_pos c < p1"

definition text_equivalent :: "kv_cell \<Rightarrow> bool" where
  "text_equivalent c \<longleftrightarrow> c_pos_h c = c_pos c \<and> c_pos_w c = c_pos c \<and> c_pos_e c = 0"

definition shift_cell :: "bool \<Rightarrow> llama_pos \<Rightarrow> kv_cell \<Rightarrow> kv_cell" where
  "shift_cell mrope delta c =
     (let c1 = c\<lparr>c_pos := s32 (c_pos c + delta), c_delta := s32 (c_delta c + delta)\<rparr>
      in if mrope then c1\<lparr>c_pos_h := s32 (c_pos_h c + delta), c_pos_w := s32 (c_pos_w c + delta)\<rparr> else c1)"

definition add_cell ::
  "nat \<Rightarrow> bool \<Rightarrow> llama_seq_id \<Rightarrow> llama_pos \<Rightarrow> llama_pos \<Rightarrow> llama_pos \<Rightarrow> nat \<Rightarrow> kv_cell \<Rightarrow> bool \<times> nat \<times> nat \<Rightarrow> kv_cell \<times> bool \<times> nat \<times> nat" where
  "add_cell sz mrope seq_id p0 p1 delta i c s =
     (let (shift, used, new_head) = s in
      if selected seq_id p0 p1 c then
        (let c1 = shift_cell mrope delta c in
         if c_pos c1 < 0 then
           ((free_cell False i c1)\<lparr>c_seq := {}\<rparr>, True,
            (if \<not> is_empty c1 then u32_sub used 1 else used),
            (if new_head = sz then i else new_head))
         else (c1, True, used, new_head))
      else (c, s))"

definition llama_kv_cache_seq_add ::
  "kv_cache \<Rightarrow> llama_seq_id \<Rightarrow> llama_pos \<Rightarrow> llama_pos \<Rightarrow> llama_pos \<Rightarrow> kv_error + kv_cache" where
  "llama_kv_cache_seq_add cache seq_id p0' p1' delta =
     (let p0 = lo_pos p0'; p1 = hi_pos p1' in
      if kv_position_strict cache then Inl (Kv_abort ''position-indexed KV cache'')
      else if any_compacted cache then Inl (Kv_abort ''compacted KV cache'')
      else if p0 = p1 then Inr cache
      else if kv_recurrent cache then
        (if 0 \<le> seq_id \<and> seq_id < int (kv_size cache) then
           (let c = kv_cells cache ! nat seq_id in
            if selected seq_id p0 p1 c
            then Inr (cache\<lparr>kv_cells := (kv_cells cache)[nat seq_id := c\<lparr>c_pos := s32 (c_pos c + delta)\<rparr>]\<rparr>)
            else Inr cache)
         else Inr cache)
      else if kv_mrope cache \<and> list_ex (\<lambda>c. selected seq_id p0 p1 c \<and> \<not> text_equivalent c) (kv_cells cache) then
        Inl (Kv_abort ''K-shift is supported only for text-equivalent M-RoPE cells'')
      else
        (let (cs, shift, used, new_head) =
               cell_loop (add_cell (kv_size cache) (kv_mrope cache) seq_id p0 p1 delta) 0 (kv_cells cache)
                 (kv_has_shift cache, kv_used cache, kv_size cache)
         in Inr (cache\<lparr>kv_cells := cs, kv_has_shift := shift, kv_used := used,
                       kv_head := (if new_head \<noteq> kv_size cache then new_head else 0)\<rparr>)))"

definition div_cell :: "bool \<Rightarrow> int \<Rightarrow> kv_cell \<Rightarrow> kv_cell" where
  "div_cell mrope d c =
     (let p_old = c_pos c;
          c1 = c\<lparr>c_pos := sdiv p_old d, c_delta := s32 (c_delta c + (sdiv p_old d - p_old))\<rparr>
      in if mrope then c1\<lparr>c_pos_h := sdiv (c_pos_h c) d, c_pos_w := sdiv (c_pos_w c) d\<rparr> else c1)"

text \<open>A division by zero is undefined in C++ and reported as an abort here.\<close>

definition llama_kv_cache_seq_div ::
  "kv_cache \<Rightarrow> llama_seq_id \<Rightarrow> llama_pos \<Rightarrow> llama_pos \<Rightarrow> int \<Rightarrow> kv_error + kv_cache" where
  "llama_kv_cache_seq_div cache seq_id p0' p1' d =
     (let p0 = lo_pos p0'; p1 = hi_pos p1' in
      if kv_position_strict cache then Inl (Kv_abort ''position-indexed KV cache'')
      else if any_compacted cache then Inl (Kv_abort ''compacted KV cache'')
      else if p0 = p1 then Inr cache
      else if kv_recurrent cache then
        (if 0 \<le> seq_id \<and> seq_id < int (kv_size cache) then
           (let c = kv_cells cache ! nat seq_id in
            if selected seq_id p0 p1 c
            then (if d = 0 then Inl (Kv_abort ''division by zero'')
                  else Inr (cache\<lparr>kv_cells := (kv_cells cache)[nat seq_id := c\<lparr>c_pos := sdiv (c_pos c) d\<rparr>]\<rparr>))
            else Inr cache)
         else Inr cache)
      else if kv_mrope cache \<and> list_ex (\<lambda>c. selected seq_id p0 p1 c \<and> \<not> text_equivalent c) (kv_cells cache) then
        Inl (Kv_abort ''self-extend is supported only for text-equivalent M-RoPE cells'')
      else if d = 0 \<and> list_ex (selected seq_id p0 p1) (kv_cells cache) then Inl (Kv_abort ''division by zero'')
      else
        (let (cs, shift) =
               cell_loop (\<lambda>i c shift. if selected seq_id p0 p1 c then (div_cell (kv_mrope cache) d c, True) else (c, shift))
                 0 (kv_cells cache) (kv_has_shift cache)
         in Inr (cache\<lparr>kv_cells := cs, kv_has_shift := shift\<rparr>)))"

section \<open>Queries and the defragmentation request\<close>

definition llama_kv_cache_seq_pos_max :: "kv_cache \<Rightarrow> llama_seq_id \<Rightarrow> llama_pos" where
  "llama_kv_cache_seq_pos_max cache seq_id =
     foldl (\<lambda>result c. if has_seq_id c seq_id then max result (c_pos c) else result) 0 (kv_cells cache)"

definition llama_kv_cache_seq_pos_min :: "kv_cache \<Rightarrow> llama_seq_id \<Rightarrow> llama_pos" where
  "llama_kv_cache_seq_pos_min cache seq_id =
     (case find (\<lambda>c. has_seq_id c seq_id) (kv_cells cache) of Some c \<Rightarrow> c_pos c | None \<Rightarrow> - 1)"

definition llama_kv_cache_defrag :: "kv_cache \<Rightarrow> kv_cache" where
  "llama_kv_cache_defrag cache =
     (if kv_position_strict cache then cache
      else if any_compacted cache then cache
      else cache\<lparr>kv_do_defrag := True\<rparr>)"

definition cell_in_use :: "kv_cell \<Rightarrow> bool" where
  "cell_in_use c \<longleftrightarrow> c_pos c \<ge> 0 \<and> \<not> is_empty c"

fun cell_max_from :: "kv_cell list \<Rightarrow> nat \<Rightarrow> nat" where
  "cell_max_from cs 0 = 0"
| "cell_max_from cs (Suc i) = (if cell_in_use (cs ! i) then Suc i else cell_max_from cs i)"

definition llama_kv_cache_cell_max :: "kv_cache \<Rightarrow> nat" where
  "llama_kv_cache_cell_max cache = cell_max_from (kv_cells cache) (kv_size cache)"

text \<open>The scan of the block \<open>(i, last]\<close> from above.\<close>

fun cell_max_block :: "kv_cell list \<Rightarrow> nat \<Rightarrow> nat \<Rightarrow> nat" where
  "cell_max_block cs i 0 = i"
| "cell_max_block cs i (Suc k) = (if cell_in_use (cs ! (i + k)) then i + Suc k else cell_max_block cs i k)"

text \<open>
  The strided variant.  The counter wraps if \<open>pad\<close> does not divide the size; the next read is then out
  of range, which is the value \<open>None\<close> (as is a zero stride, which would not end).
\<close>

function cell_max_stride :: "kv_cell list \<Rightarrow> nat \<Rightarrow> nat \<Rightarrow> nat \<Rightarrow> nat option" where
  "cell_max_stride cs pad lst i =
     (if i = 0 then Some 0
      else if i > length cs \<or> pad = 0 then None
      else if cell_in_use (cs ! (i - 1)) then Some (cell_max_block cs i (lst - i))
      else if i < pad then None
      else cell_max_stride cs pad i (i - pad))"
  by pat_completeness auto
termination
  by (relation "measure (\<lambda>(cs, pad, lst, i). i)") auto

declare cell_max_stride.simps [simp del]

definition llama_kv_cache_cell_max_pad :: "kv_cache \<Rightarrow> nat \<Rightarrow> nat option" where
  "llama_kv_cache_cell_max_pad cache pad = cell_max_stride (kv_cells cache) pad (kv_size cache) (kv_size cache)"

text \<open>
  The macro \<open>GGML_PAD\<close> of \<open>ggml.h\<close>, \<open>((x) + (n) - 1) & ~((n) - 1)\<close>, the padding of the flash-attention
  kernels, and the number of cells that the attention of \<open>llama_decode\<close> looks at.
\<close>

definition ggml_pad :: "nat \<Rightarrow> nat \<Rightarrow> nat" where
  "ggml_pad x n = nat ((int x + int n - 1) AND NOT (int n - 1))"

definition get_padding :: "bool \<Rightarrow> nat" where
  "get_padding flash_attn = (if flash_attn then 256 else 32)"

definition decode_n_kv :: "kv_cache \<Rightarrow> nat \<Rightarrow> nat option" where
  "decode_n_kv cache pad =
     (case llama_kv_cache_cell_max_pad cache pad of None \<Rightarrow> None
      | Some max_cell \<Rightarrow> Some (min (kv_size cache) (max pad (ggml_pad max_cell pad))))"

definition llama_get_kv_cache_token_count :: "kv_cache \<Rightarrow> nat" where
  "llama_get_kv_cache_token_count cache = foldl (\<lambda>result c. result + card (c_seq c)) 0 (kv_cells cache)"


section \<open>Finding a slot for a batch\<close>

text \<open>
  A \<open>llama_batch\<close>: \<open>b_token\<close> is \<open>None\<close> for a null \<open>token\<close> pointer (an embedding batch), \<open>b_pos\<close> the position array
  (four planes of \<open>n_tokens\<close> entries each for M-RoPE), \<open>b_seq\<close> the sequence ids of each token.
\<close>

record kv_batch =
  b_n_tokens :: nat
  b_token :: "llama_token list option"
  b_pos :: "llama_pos list"
  b_seq :: "llama_seq_id list list"

text \<open>Recurrent models: one cell per sequence.  The Boolean tells whether an id was too big.\<close>

fun find_slot_rec_seqs ::
  "nat \<Rightarrow> llama_pos \<Rightarrow> llama_seq_id list \<Rightarrow> kv_cell list \<times> nat \<times> llama_seq_id \<times> llama_seq_id \<Rightarrow> bool \<times> kv_cell list \<times> nat \<times> llama_seq_id \<times> llama_seq_id" where
  "find_slot_rec_seqs sz p [] s = (True, s)"
| "find_slot_rec_seqs sz p (seq_id # ids) (cs, used, mn, mx) =
     (if u32_of_int seq_id < sz then
        (let k = u32_of_int seq_id;
             mx' = (if seq_id > mx then seq_id else mx);
             mn' = (if seq_id < mn then seq_id else mn);
             used' = (if c_pos (cs ! k) < 0 \<and> 0 \<le> p then u32 (used + 1) else used)
         in find_slot_rec_seqs sz p ids (set_cell k (\<lambda>c. c\<lparr>c_pos := p\<rparr>) cs, used', mn', mx'))
      else (False, cs, used, mn, mx))"

fun find_slot_rec_toks ::
  "nat \<Rightarrow> (llama_pos \<times> llama_seq_id list) list \<Rightarrow> kv_cell list \<times> nat \<times> llama_seq_id \<times> llama_seq_id \<Rightarrow> bool \<times> kv_cell list \<times> nat \<times> llama_seq_id \<times> llama_seq_id" where
  "find_slot_rec_toks sz [] s = (True, s)"
| "find_slot_rec_toks sz ((p, ids) # ts) s =
     (case find_slot_rec_seqs sz p ids s of (ok, s') \<Rightarrow> if ok then find_slot_rec_toks sz ts s' else (False, s'))"

definition find_slot_recurrent :: "kv_cache \<Rightarrow> kv_batch \<Rightarrow> bool \<times> kv_cache" where
  "find_slot_recurrent cache batch =
     (case find_slot_rec_toks (kv_size cache) (zip (take (b_n_tokens batch) (b_pos batch)) (take (b_n_tokens batch) (b_seq batch)))
             (kv_cells cache, kv_used cache, s32 (int (kv_size cache) - 1), 0) of
        (ok, cs, used, mn, mx) \<Rightarrow>
          if \<not> ok then (False, cache\<lparr>kv_cells := cs, kv_used := used\<rparr>)
          else (mx \<ge> mn, cache\<lparr>kv_cells := cs, kv_used := used, kv_head := u32_of_int mn, kv_n := u32_of_int (mx - mn + 1)\<rparr>))"

text \<open>The first occupied cell among the \<open>k\<close> cells from \<open>head\<close> on, as an offset.\<close>

fun first_used :: "kv_cell list \<Rightarrow> nat \<Rightarrow> nat \<Rightarrow> nat \<Rightarrow> nat option" where
  "first_used cs head i 0 = None"
| "first_used cs head i (Suc k) =
     (if c_pos (cs ! (head + i)) \<ge> 0 then Some i else first_used cs head (Suc i) k)"

text \<open>
  The search loop, on \<open>head\<close> and \<open>n_tested\<close>; it returns whether a slot was found and the head it leaves.
  The case \<open>n > length cs\<close> is excluded by the caller.
\<close>

function find_slot_search :: "kv_cell list \<Rightarrow> nat \<Rightarrow> nat \<Rightarrow> nat \<Rightarrow> bool \<times> nat" where
  "find_slot_search cs n head n_tested =
     (if n > length cs then (False, head)
      else if head + n > length cs then find_slot_search cs n 0 (n_tested + (length cs - head))
      else (case first_used cs head 0 n of
              None \<Rightarrow> (True, head)
            | Some i \<Rightarrow>
                (if n_tested + (i + 1) \<ge> length cs then (False, head + (i + 1))
                 else find_slot_search cs n (head + (i + 1)) (n_tested + (i + 1)))))"
  by pat_completeness auto
termination
  by (relation "measure (\<lambda>(cs, n, head, t). 2 * (length cs - t) + (if head + n > length cs then 1 else 0))")
    (auto split: if_splits)

declare find_slot_search.simps [simp del]

text \<open>The largest logical QSA position of every sequence.\<close>

definition qsa_max_of :: "kv_cell list \<Rightarrow> llama_seq_id \<rightharpoonup> llama_pos" where
  "qsa_max_of cs =
     foldl (\<lambda>m c. if is_empty c \<or> c_qsa_pos c < 0 then m
                  else foldl (\<lambda>m s. case m s of None \<Rightarrow> m(s \<mapsto> c_qsa_pos c) | Some v \<Rightarrow> m(s \<mapsto> max v (c_qsa_pos c)))
                         m (sorted_list_of_set (c_seq c)))
       Map.empty cs"

definition fill_cell ::
  "kv_cache \<Rightarrow> kv_batch \<Rightarrow> llama_token \<Rightarrow> bool \<Rightarrow> nat \<Rightarrow> kv_cell \<Rightarrow> (llama_seq_id \<rightharpoonup> llama_pos) \<Rightarrow> kv_cell \<times> (llama_seq_id \<rightharpoonup> llama_pos)" where
  "fill_cell cache batch embd_token set_meta i c qsa_max =
     (let n = b_n_tokens batch;
          p = b_pos batch ! i;
          seqs = b_seq batch ! i;
          c1 = c\<lparr>c_pos := p, c_token := (case b_token batch of Some ts \<Rightarrow> ts ! i | None \<Rightarrow> embd_token),
                 c_qsa_pos := p, c_pos_h := p, c_pos_w := p, c_pos_e := 0\<rparr>;
          c2 = (if set_meta \<and> kv_mrope cache
                then c1\<lparr>c_pos_h := b_pos batch ! (n + i), c_pos_w := b_pos batch ! (2 * n + i), c_pos_e := b_pos batch ! (3 * n + i)\<rparr>
                else c1);
          logical = foldl (\<lambda>l s. case qsa_max s of Some v \<Rightarrow> max l (s32 (v + 1)) | None \<Rightarrow> l) 0 seqs;
          tracked = (kv_qsa cache \<and> set_meta);
          c3 = (if tracked then c2\<lparr>c_qsa_pos := logical\<rparr> else c2);
          qsa_max' = (if tracked then foldl (\<lambda>m s. m(s \<mapsto> logical)) qsa_max seqs else qsa_max)
      in (c3\<lparr>c_seq := c_seq c3 \<union> set seqs\<rparr>, qsa_max'))"

definition fill_slot :: "kv_cache \<Rightarrow> kv_batch \<Rightarrow> llama_token \<Rightarrow> bool \<Rightarrow> nat \<Rightarrow> kv_cell list" where
  "fill_slot cache batch embd_token set_meta head =
     (let n = b_n_tokens batch; cs = kv_cells cache;
          qsa_max = (if kv_qsa cache \<and> set_meta then qsa_max_of cs else Map.empty)
      in take head cs
         @ fst (cell_loop (fill_cell cache batch embd_token set_meta) 0 (take n (drop head cs)) qsa_max)
         @ drop (head + n) cs)"

definition llama_kv_cache_find_slot :: "kv_cache \<Rightarrow> kv_batch \<Rightarrow> llama_token \<Rightarrow> bool \<Rightarrow> bool \<times> kv_cache" where
  "llama_kv_cache_find_slot cache batch embd_token set_meta =
     (if kv_recurrent cache then find_slot_recurrent cache batch
      else if b_n_tokens batch > kv_size cache then (False, cache)
      else (case find_slot_search (kv_cells cache) (b_n_tokens batch) (kv_head cache) 0 of
              (False, head) \<Rightarrow> (False, cache\<lparr>kv_head := head\<rparr>)
            | (True, head) \<Rightarrow>
                (True, cache\<lparr>kv_head := head, kv_cells := fill_slot cache batch embd_token set_meta head,
                             kv_used := u32 (kv_used cache + b_n_tokens batch)\<rparr>)))"

end
