(* ===== verification/KvDefrag.thy ===== *)
theory KvDefrag
  imports KvCache
begin

text \<open>
  Deferred work on the KV cache: \<open>llama_kv_cache_update_internal\<close> of \<open>src/llama.cpp\<close> applies shifts, copies recurrent states
  and defragments, \<open>llama_kv_cache_defrag_internal\<close> moves cells into the holes, and the graphs that \<open>build_defrag\<close> and
  \<open>build_s_copy\<close> (\<open>src/llama-build-context.cpp\<close>) build move the rows of the tensors along.  A tensor of the cache isrc the list
  of its rows, one per cell or state slot, of an arbitrary type; rotation of the keys by a shift isrc a parameter.
\<close>

section \<open>Context and tensors\<close>

text \<open>A null pointer is \<open>None\<close>.  With a transposed value tensor the row of a cell is a column.\<close>

record 'r kv_tensors =
  k_l :: "'r list option list"
  v_l :: "'r list option list"
  kr_l :: "'r list option list"
  s_l :: "'r list option list"

datatype tensor_ref = Ref_k nat | Ref_v nat | Ref_kr nat

definition layer_at :: "'a option list \<Rightarrow> nat \<Rightarrow> 'a option" where
  "layer_at ts il = (if il < length ts then ts ! il else None)"

fun tensor_of :: "'r kv_tensors \<Rightarrow> tensor_ref \<Rightarrow> 'r list option" where
  "tensor_of ts (Ref_k il) = layer_at (k_l ts) il"
| "tensor_of ts (Ref_v il) = layer_at (v_l ts) il"
| "tensor_of ts (Ref_kr il) = layer_at (kr_l ts) il"

text \<open>What the code reads of the model and of the parameters of the context; \<open>recurrent_layer\<close> is the test
  \<open>llm_arch_is_hybrid(model.arch) && hparams.is_recurrent(il)\<close>, \<open>kp_l_count\<close> the number of pooled-key tensors.\<close>

record 'r kv_model =
  n_layer :: nat
  model_max_nodes :: nat
  recurrent_layer :: "nat \<Rightarrow> bool"
  rope_type_none :: bool
  rope_type_imrope :: bool
  supports_ctx_shift :: bool
  is_mla_model :: bool
  zero_row :: 'r
  k_shift :: "llama_pos list \<Rightarrow> 'r kv_tensors \<Rightarrow> 'r kv_tensors"

record 'r kv_context =
  kv_self :: kv_cache
  kv_data :: "'r kv_tensors"
  kp_l_count :: nat
  qsa_topk :: "int list"
  qsa_valid :: "bool list"
  qsa_captured_len :: llama_pos
  qsa_seq :: llama_seq_id
  qsa_tail_capacity :: int
  qsa_pending :: bool
  qsa_pooled_stale :: bool
  qsa_pooled_seq :: llama_seq_id

definition retire_pending :: "'r kv_context \<Rightarrow> 'r kv_context" where
  "retire_pending ctx = ctx\<lparr>qsa_pending := False\<rparr>"

definition llama_qwen4_mtp_qsa_reset :: "'r kv_context \<Rightarrow> 'r kv_context" where
  "llama_qwen4_mtp_qsa_reset ctx = (retire_pending ctx)\<lparr>qsa_topk := [], qsa_valid := [], qsa_captured_len := - 1,
     qsa_seq := - 1, qsa_tail_capacity := 0\<rparr>"

section \<open>Choosing the moves\<close>

text \<open>The end of the hole that starts before \<open>j\<close>.\<close>

function hole_end :: "kv_cell list \<Rightarrow> nat \<Rightarrow> nat \<Rightarrow> nat" where
  "hole_end cs n_used j = (if j < n_used \<and> is_empty (cs ! j) then hole_end cs n_used (j + 1) else j)"
  by pat_completeness auto
termination
  by (relation "measure (\<lambda>(cs, n_used, j). n_used - j)") auto

declare hole_end.simps [simp del]

text \<open>The scan from the end for \<open>nh\<close> cells that are in use and not moved yet: the index it stops at and the number found.\<close>

function find_sources :: "kv_cell list \<Rightarrow> nat list \<Rightarrow> nat \<Rightarrow> nat \<Rightarrow> nat \<Rightarrow> nat \<Rightarrow> nat \<Rightarrow> nat \<times> nat" where
  "find_sources cs ids n_kv i0 nh isrc nf =
     (if isrc > i0 then
        (if is_empty (cs ! isrc) \<or> ids ! isrc \<noteq> n_kv then find_sources cs ids n_kv i0 nh (isrc - 1) nf
         else if nf + 1 = nh then (isrc, nf + 1) else find_sources cs ids n_kv i0 nh (isrc - 1) (nf + 1))
      else (isrc, nf))"
  by pat_completeness auto
termination
  by (relation "measure (\<lambda>(cs, ids, n_kv, i0, nh, isrc, nf). isrc - i0)") auto

declare find_sources.simps [simp del]

record defrag_state =
  df_cells :: "kv_cell list"
  df_ids :: "nat list"
  df_head :: nat
  df_moves :: nat

text \<open>The move of cell \<open>i1\<close> to cell \<open>dst\<close>.\<close>

definition move_cell :: "nat \<Rightarrow> nat \<Rightarrow> nat \<Rightarrow> bool \<Rightarrow> defrag_state \<Rightarrow> defrag_state" where
  "move_cell n_used i1 dst cont st =
     (let cells1 = (df_cells st)[dst := df_cells st ! i1]
      in st\<lparr>df_ids := (df_ids st)[i1 := dst], df_cells := cells1[i1 := default_cell], df_head := n_used,
           df_moves := (if cont then df_moves st else df_moves st + 1)\<rparr>)"

text \<open>The loop that fills the hole: the state and whether it ran out of moves.\<close>

function fill_hole :: "nat \<Rightarrow> nat \<Rightarrow> nat \<Rightarrow> nat \<Rightarrow> nat \<Rightarrow> nat \<Rightarrow> nat \<Rightarrow> bool \<Rightarrow> defrag_state \<Rightarrow> defrag_state \<times> bool" where
  "fill_hole n_kv n_used max_moves i0 nh i1 nf cont st =
     (if i1 < n_kv then
        (if is_empty (df_cells st ! i1) \<or> df_ids st ! i1 \<noteq> n_kv then
           (if df_moves st = max_moves then (st, True)
            else fill_hole n_kv n_used max_moves i0 nh (i1 + 1) nf False st)
         else
           (let st' = move_cell n_used i1 (i0 + nf) cont st
            in if nf + 1 = nh then (st', False) else fill_hole n_kv n_used max_moves i0 nh (i1 + 1) (nf + 1) True st'))
      else (st, False))"
  by pat_completeness auto
termination
  by (relation "measure (\<lambda>(n_kv, n_used, max_moves, i0, nh, i1, nf, cont, st). n_kv - i1)") auto

declare fill_hole.simps [simp del]

lemma hole_end_ge: "j \<le> hole_end cs n_used j"
  by (induction cs n_used j rule: hole_end.induct) (subst hole_end.simps, auto)

function defrag_loop :: "nat \<Rightarrow> nat \<Rightarrow> nat \<Rightarrow> nat \<Rightarrow> defrag_state \<Rightarrow> kv_error + defrag_state" where
  "defrag_loop n_kv n_used max_moves i0 st =
     (if i0 < n_used then
        (if \<not> is_empty (df_cells st ! i0) then
           defrag_loop n_kv n_used max_moves (i0 + 1) (st\<lparr>df_ids := (df_ids st)[i0 := i0]\<rparr>)
         else
           (let nh = hole_end (df_cells st) n_used (i0 + 1) - i0;
                (isrc, nf) = find_sources (df_cells st) (df_ids st) n_kv i0 nh (n_kv - 1) 0
            in if nf \<noteq> nh then Inl (Kv_abort ''nf == nh'')
               else
                 (let (st', stop) = fill_hole n_kv n_used max_moves i0 nh isrc 0 False st
                  in if stop \<or> df_moves st' = max_moves then Inr st'
                     else defrag_loop n_kv n_used max_moves (i0 + nh) st')))
      else Inr st)"
  by pat_completeness auto
termination
proof (relation "measure (\<lambda>(n_kv, n_used, max_moves, i0, st). n_used - i0)", goal_cases)
  case (3 n_kv n_used max_moves i0 st nh x isrc nf y st' stop)
  then show ?case using hole_end_ge[of "i0 + 1" "df_cells st" n_used] by simp
qed auto

declare defrag_loop.simps [simp del]

definition max_moves :: "'r kv_model \<Rightarrow> 'r kv_context \<Rightarrow> nat" where
  "max_moves m ctx =
     (let tensors_per_move = (if kr_l (kv_data ctx) \<noteq> [] then 9 else 6)
      in (model_max_nodes m - 2 * n_layer m) div (tensors_per_move * n_layer m))"

section \<open>Moving the rows\<close>

text \<open>\<open>ggml_cpy\<close> between views of \<open>nm\<close> rows of one tensor.\<close>

definition copy_rows :: "nat \<Rightarrow> nat \<Rightarrow> nat \<Rightarrow> 'r list \<Rightarrow> 'r list" where
  "copy_rows src dst nm rows = take dst rows @ take nm (drop src rows) @ drop (dst + nm) rows"

type_synonym graph_copy = "tensor_ref \<times> nat \<times> nat \<times> nat"

definition layer_copies :: "'r kv_model \<Rightarrow> 'r kv_tensors \<Rightarrow> nat \<Rightarrow> nat \<Rightarrow> nat \<Rightarrow> nat \<Rightarrow> graph_copy list" where
  "layer_copies m ts i dst nm il =
     (if recurrent_layer m il \<or> layer_at (k_l ts) il = None then []
      else (Ref_k il, i, dst, nm) #
        (if layer_at (v_l ts) il \<noteq> None then [(Ref_v il, i, dst, nm)] else []) @
        (if layer_at (kr_l ts) il \<noteq> None then [(Ref_kr il, i, dst, nm)] else []))"

text \<open>The number of ids from \<open>i\<close> on that continue the block that is moved to \<open>dst\<close>.\<close>

function block_length :: "nat list \<Rightarrow> nat \<Rightarrow> nat \<Rightarrow> nat \<Rightarrow> nat" where
  "block_length ids i dst nm = (if i + nm < length ids \<and> ids ! (i + nm) = dst + nm then block_length ids i dst (nm + 1) else nm)"
  by pat_completeness auto
termination
  by (relation "measure (\<lambda>(ids, i, dst, nm). length ids - (i + nm))") auto

declare block_length.simps [simp del]

lemma block_length_ge: "nm \<le> block_length ids i dst nm"
  by (induction ids i dst nm rule: block_length.induct) (subst block_length.simps, auto)

function defrag_blocks :: "nat list \<Rightarrow> nat \<Rightarrow> (nat \<times> nat \<times> nat) list" where
  "defrag_blocks ids i =
     (if i < length ids then
        (if i = ids ! i \<or> ids ! i = length ids then defrag_blocks ids (i + 1)
         else (let nm = block_length ids i (ids ! i) 1 in (i, ids ! i, nm) # defrag_blocks ids (i + nm)))
      else [])"
  by pat_completeness auto
termination
proof (relation "measure (\<lambda>(ids, i). length ids - i)", goal_cases)
  case (3 ids i nm)
  then show ?case using block_length_ge[of 1 ids i "ids ! i"] by simp
qed auto

declare defrag_blocks.simps [simp del]

definition build_defrag :: "'r kv_model \<Rightarrow> 'r kv_tensors \<Rightarrow> nat list \<Rightarrow> graph_copy list" where
  "build_defrag m ts ids =
     concat (map (\<lambda>(i, dst, nm). concat (map (layer_copies m ts i dst nm) [0..<length (k_l ts)])) (defrag_blocks ids 0))"

definition on_layer :: "('r list \<Rightarrow> 'r list) \<Rightarrow> nat \<Rightarrow> 'r list option list \<Rightarrow> 'r list option list" where
  "on_layer f il ts = ts[il := map_option f (ts ! il)]"

definition run_copy :: "'r kv_tensors \<Rightarrow> graph_copy \<Rightarrow> 'r kv_tensors" where
  "run_copy ts = (\<lambda>(r, i, dst, nm).
     case r of Ref_k il \<Rightarrow> ts\<lparr>k_l := on_layer (copy_rows i dst nm) il (k_l ts)\<rparr>
     | Ref_v il \<Rightarrow> ts\<lparr>v_l := on_layer (copy_rows i dst nm) il (v_l ts)\<rparr>
     | Ref_kr il \<Rightarrow> ts\<lparr>kr_l := on_layer (copy_rows i dst nm) il (kr_l ts)\<rparr>)"

section \<open>Defragmentation\<close>

definition remap_cell_id_after_defrag :: "kv_cell list \<Rightarrow> nat list \<Rightarrow> nat \<Rightarrow> int" where
  "remap_cell_id_after_defrag cs ids old_id =
     (if old_id \<ge> length ids then - 1
      else if ids ! old_id < length ids then int (ids ! old_id)
      else if old_id < length cs \<and> \<not> is_empty (cs ! old_id) then int old_id else - 1)"

definition remap_valid :: "kv_cell list \<Rightarrow> nat list \<Rightarrow> bool list \<Rightarrow> bool list" where
  "remap_valid cs ids valid =
     foldl (\<lambda>remapped old_id.
         let new_id = remap_cell_id_after_defrag cs ids old_id
         in if old_id < length valid \<and> valid ! old_id \<and> new_id \<ge> 0 \<and> nat new_id < length remapped
            then remapped[nat new_id := True] else remapped)
       (replicate (length valid) False) [0..<length ids]"

definition llama_kv_cache_defrag_internal :: "'r kv_model \<Rightarrow> 'r kv_context \<Rightarrow> kv_error + 'r kv_context" where
  "llama_kv_cache_defrag_internal m ctx0 =
     (let ctx = retire_pending ctx0; cache = kv_self ctx;
          n_kv = llama_kv_cache_cell_max cache; n_used = kv_used cache
      in if n_used > n_kv then Inl (Kv_abort ''n_used <= n_kv'')
         else
           (case defrag_loop n_kv n_used (max_moves m ctx) 0
               \<lparr>df_cells = kv_cells cache, df_ids = replicate n_kv n_kv, df_head = kv_head cache, df_moves = 0\<rparr> of
              Inl e \<Rightarrow> Inl e
            | Inr st \<Rightarrow>
                (let ctx1 = ctx\<lparr>kv_self := cache\<lparr>kv_cells := df_cells st, kv_head := df_head st\<rparr>\<rparr>
                 in if df_moves st = 0 then Inr ctx1
                    else Inr (ctx1\<lparr>
                      qsa_topk := map (\<lambda>c. if c < 0 then c else remap_cell_id_after_defrag (df_cells st) (df_ids st) (nat c)) (qsa_topk ctx),
                      qsa_valid := (if qsa_valid ctx = [] then [] else remap_valid (df_cells st) (df_ids st) (qsa_valid ctx)),
                      qsa_pooled_stale := (kp_l_count ctx \<noteq> 0),
                      kv_data := foldl run_copy (kv_data ctx) (build_defrag m (kv_data ctx) (df_ids st))\<rparr>))))"

section \<open>Update\<close>

definition get_can_shift :: "'r kv_model \<Rightarrow> 'r kv_context \<Rightarrow> bool" where
  "get_can_shift m ctx \<longleftrightarrow>
     supports_ctx_shift m \<and> \<not> is_mla_model m \<and> \<not> rope_type_imrope m \<and> \<not> any_compacted (kv_self ctx)"

text \<open>\<open>ggml_get_rows\<close> gives zeros for an index out of range.\<close>

definition get_rows :: "'r \<Rightarrow> 'r list \<Rightarrow> int list \<Rightarrow> 'r list" where
  "get_rows z rows idx = map (\<lambda>i. if 0 \<le> i \<and> nat i < length rows then rows ! nat i else z) idx"

text \<open>The graph of \<open>build_s_copy\<close> on the indices that \<open>llama_set_s_copy\<close> stores; \<open>slots\<close> is \<open>qnext_state_slots\<close>.\<close>

definition s_copy :: "'r kv_model \<Rightarrow> kv_cache \<Rightarrow> nat \<Rightarrow> 'r kv_tensors \<Rightarrow> 'r kv_tensors" where
  "s_copy m cache slots ts =
     (let state_copy = map c_src (kv_cells cache);
          layers = (\<lambda>f ls. map (\<lambda>(il, t). if il < n_layer m then map_option f t else t) (enumerate 0 ls));
          ts1 = (if kv_recurrent cache then
                   ts\<lparr>k_l := layers (\<lambda>rows. get_rows (zero_row m) rows state_copy) (k_l ts),
                      v_l := layers (\<lambda>rows. get_rows (zero_row m) rows state_copy) (v_l ts)\<rparr>
                 else ts)
      in ts1\<lparr>s_l := layers (\<lambda>rows. get_rows (zero_row m) rows (take slots state_copy)) (s_l ts)\<rparr>)"

definition reset_src :: "kv_cell list \<Rightarrow> kv_cell list" where
  "reset_src cs = map (\<lambda>(i, c). c\<lparr>c_src := int i\<rparr>) (enumerate 0 cs)"

definition apply_shift :: "'r kv_model \<Rightarrow> 'r kv_context \<Rightarrow> 'r kv_context" where
  "apply_shift m ctx = ctx\<lparr>kv_data := k_shift m (map c_delta (kv_cells (kv_self ctx))) (kv_data ctx),
     kv_self := (kv_self ctx)\<lparr>kv_has_shift := False, kv_cells := map (\<lambda>c. c\<lparr>c_delta := 0\<rparr>) (kv_cells (kv_self ctx))\<rparr>\<rparr>"

definition apply_copy :: "'r kv_model \<Rightarrow> nat \<Rightarrow> 'r kv_context \<Rightarrow> 'r kv_context" where
  "apply_copy m slots ctx = ctx\<lparr>kv_data := s_copy m (kv_self ctx) slots (kv_data ctx),
     kv_self := (kv_self ctx)\<lparr>kv_do_copy := False, kv_cells := reset_src (kv_cells (kv_self ctx))\<rparr>\<rparr>"

text \<open>The value returned and the context; the reservation of a worst-case graph at the end only allocates.\<close>

definition llama_kv_cache_update_internal :: "'r kv_model \<Rightarrow> 'r kv_context \<Rightarrow> kv_error + (int \<times> 'r kv_context)" where
  "llama_kv_cache_update_internal m ctx =
     (let shift = (\<not> rope_type_none m \<and> kv_has_shift (kv_self ctx))
      in if shift \<and> \<not> get_can_shift m ctx then Inr (1, ctx)
         else
           (let ctx1 = (if shift then apply_shift m ctx else ctx)
            in case (if kv_recurrent (kv_self ctx1) then Inr True else llama_kv_has_qnext_state_storage (kv_self ctx1)) of
                 Inl e \<Rightarrow> Inl e
               | Inr has_state \<Rightarrow>
                   (case (if has_state \<and> kv_do_copy (kv_self ctx1)
                          then map_sum id (\<lambda>slots. apply_copy m slots ctx1) (llama_kv_qnext_state_slots (kv_self ctx1))
                          else Inr ctx1) of
                      Inl e \<Rightarrow> Inl e
                    | Inr ctx2 \<Rightarrow>
                        (if kv_do_defrag (kv_self ctx2)
                         then map_sum id (\<lambda>ctx3. (0, ctx3\<lparr>kv_self := (kv_self ctx3)\<lparr>kv_do_defrag := False\<rparr>\<rparr>))
                                (llama_kv_cache_defrag_internal m ctx2)
                         else Inr (0, ctx2)))))"

end
