(* ===== verification/KvCacheProps.thy ===== *)
theory KvCacheProps
  imports KvCache
begin

text \<open>
  Properties of the KV cache bookkeeping of theory \<open>KvCache\<close>: the invariant \<open>kv_wf\<close> and its preservation by
  every operation, the abstract view \<open>kv_abs\<close> (which positions and sequences each cell holds) that the
  operations refine, and soundness and completeness of the slot search.
\<close>

section \<open>Invariant and abstract view\<close>

definition cell_wf :: "kv_cell \<Rightarrow> bool" where
  "cell_wf c \<longleftrightarrow> (0 \<le> c_pos c \<longleftrightarrow> c_seq c \<noteq> {}) \<and> c_pos c \<le> INT32_MAX"

definition occupied :: "kv_cell \<Rightarrow> bool" where
  "occupied c \<longleftrightarrow> c_seq c \<noteq> {}"

text \<open>\<open>used\<close> counts the cells with at least one sequence, as the comment in \<open>llama-context.h\<close> says.\<close>

definition kv_wf :: "kv_cache \<Rightarrow> bool" where
  "kv_wf cache \<longleftrightarrow> \<not> kv_recurrent cache \<and> length (kv_cells cache) = kv_size cache \<and> kv_size cache < 2 ^ 31 \<and>
     kv_head cache \<le> kv_size cache \<and> kv_used cache = length (filter occupied (kv_cells cache)) \<and>
     list_all cell_wf (kv_cells cache)"

type_synonym acell = "llama_pos \<times> llama_seq_id set"

definition abs_cell :: "kv_cell \<Rightarrow> acell option" where
  "abs_cell c = (if c_seq c = {} then None else Some (c_pos c, c_seq c))"

definition kv_abs :: "kv_cache \<Rightarrow> acell option list" where
  "kv_abs cache = map abs_cell (kv_cells cache)"

text \<open>What each operation promises for one cell.\<close>

definition acell_of :: "llama_pos \<Rightarrow> llama_seq_id set \<Rightarrow> acell option" where
  "acell_of p S = (if S = {} then None else Some (p, S))"

definition spec_rm :: "llama_seq_id \<Rightarrow> llama_pos \<Rightarrow> llama_pos \<Rightarrow> acell \<Rightarrow> acell option" where
  "spec_rm s p0 p1 = (\<lambda>(p, S). if p0 \<le> p \<and> p < p1 then acell_of p (if s < 0 then {} else S - {s}) else Some (p, S))"

definition spec_keep :: "llama_seq_id \<Rightarrow> acell \<Rightarrow> acell option" where
  "spec_keep s = (\<lambda>(p, S). if s \<in> S then Some (p, {s}) else None)"

definition spec_add :: "llama_seq_id \<Rightarrow> llama_pos \<Rightarrow> llama_pos \<Rightarrow> llama_pos \<Rightarrow> acell \<Rightarrow> acell option" where
  "spec_add s p0 p1 d = (\<lambda>(p, S). if s \<in> S \<and> p0 \<le> p \<and> p < p1 then (if s32 (p + d) < 0 then None else Some (s32 (p + d), S)) else Some (p, S))"

definition spec_cp :: "llama_seq_id \<Rightarrow> llama_seq_id \<Rightarrow> llama_pos \<Rightarrow> llama_pos \<Rightarrow> acell \<Rightarrow> acell option" where
  "spec_cp src dst p0 p1 = (\<lambda>(p, S). Some (p, if src \<in> S \<and> p0 \<le> p \<and> p < p1 then insert dst S else S))"

definition spec_div :: "llama_seq_id \<Rightarrow> llama_pos \<Rightarrow> llama_pos \<Rightarrow> int \<Rightarrow> acell \<Rightarrow> acell option" where
  "spec_div s p0 p1 d = (\<lambda>(p, S). Some (if s \<in> S \<and> p0 \<le> p \<and> p < p1 then p div d else p, S))"

lemma cell_loop_simps:
  "fst (cell_loop f i (c # cs) s) = fst (f i c s) # fst (cell_loop f (Suc i) cs (snd (f i c s)))"
  "snd (cell_loop f i (c # cs) s) = snd (cell_loop f (Suc i) cs (snd (f i c s)))"
  by (simp_all add: split_beta Let_def)

declare cell_loop.simps(2) [simp del]

lemma length_cell_loop [simp]: "length (fst (cell_loop f i cs s)) = length cs"
  by (induction cs arbitrary: i s) (simp_all add: cell_loop_simps)

text \<open>A loop that threads no state is a map.\<close>

lemma cell_loop_map: "fst (cell_loop (\<lambda>i c s. (g i c, s)) i cs s) = map2 g [i..<i + length cs] cs"
proof (induction cs arbitrary: i)
  case Nil
  then show ?case by simp
next
  case (Cons c cs)
  have "[i..<i + length (c # cs)] = i # [Suc i..<Suc i + length cs]"
    by (simp add: upt_conv_Cons del: upt_Suc)
  then show ?case using Cons[of "Suc i"] by (simp add: cell_loop_simps del: upt_Suc)
qed

section \<open>The contract of a sweep over the cells\<close>

text \<open>
  Five of the operations are one loop over the cells.  The contract: one iteration keeps the cell
  well-formed, refines the abstract cell by \<open>spec\<close>, counts every released cell in \<open>used\<close>, and lets
  \<open>new_head\<close> only move to the current index.
\<close>

locale cell_sweep =
  fixes f :: "nat \<Rightarrow> kv_cell \<Rightarrow> 's \<Rightarrow> kv_cell \<times> 's"
    and used :: "'s \<Rightarrow> nat"
    and new_head :: "'s \<Rightarrow> nat"
    and spec :: "acell \<Rightarrow> acell option"
  assumes sweep_wf: "cell_wf c \<Longrightarrow> cell_wf (fst (f i c s))"
    and sweep_abs: "cell_wf c \<Longrightarrow> abs_cell (fst (f i c s)) = Option.bind (abs_cell c) spec"
    and sweep_used: "cell_wf c \<Longrightarrow> used (snd (f i c s)) =
          (if occupied c \<and> \<not> occupied (fst (f i c s)) then u32_sub (used s) 1 else used s)"
    and sweep_head: "new_head (snd (f i c s)) \<in> {new_head s, i}"
begin

lemma occupied_mono: "cell_wf c \<Longrightarrow> occupied (fst (f i c s)) \<Longrightarrow> occupied c"
  using sweep_abs[of c i s] by (auto simp: abs_cell_def occupied_def split: if_splits)

lemma loop_abs:
  "list_all cell_wf cs \<Longrightarrow> map abs_cell (fst (cell_loop f i cs s)) = map (\<lambda>c. Option.bind (abs_cell c) spec) cs"
  by (induction cs arbitrary: i s) (simp_all add: cell_loop_simps sweep_abs)

lemma loop_wf: "list_all cell_wf cs \<Longrightarrow> list_all cell_wf (fst (cell_loop f i cs s))"
  by (induction cs arbitrary: i s) (simp_all add: cell_loop_simps sweep_wf)

lemma loop_used:
  assumes "list_all cell_wf cs" "used s = k + length (filter occupied cs)" "used s < 2 ^ 32"
  shows "used (snd (cell_loop f i cs s)) = k + length (filter occupied (fst (cell_loop f i cs s)))"
  using assms
proof (induction cs arbitrary: i s k)
  case Nil
  then show ?case by simp
next
  case (Cons c cs)
  let ?c = "fst (f i c s)" and ?s = "snd (f i c s)"
  have wf: "cell_wf c" using Cons.prems(1) by simp
  have u: "used ?s = (if occupied ?c then Suc k else k) + length (filter occupied cs)"
    using Cons.prems(2,3) occupied_mono[OF wf, of i s] by (auto simp: sweep_used[OF wf])
  have "used ?s < 2 ^ 32"
    using u Cons.prems(2,3) occupied_mono[OF wf, of i s] by (auto split: if_splits)
  from Cons.IH[OF _ u this] Cons.prems(1) show ?case by (simp add: cell_loop_simps)
qed

lemma loop_head:
  assumes "i + length cs \<le> sz" "new_head s \<le> sz"
  shows "new_head (snd (cell_loop f i cs s)) \<le> sz"
  using assms
proof (induction cs arbitrary: i s)
  case Nil
  then show ?case by simp
next
  case (Cons c cs)
  have "new_head (snd (f i c s)) \<le> sz"
    using sweep_head[of i c s] Cons.prems by auto
  then show ?case using Cons.IH[of "Suc i" "snd (f i c s)"] Cons.prems by (simp add: cell_loop_simps)
qed

end

section \<open>The sweeps of the code\<close>

lemma free_cell_simps [simp]:
  "c_seq (free_cell q i c) = c_seq c" "c_pos (free_cell q i c) = - 1"
  by (simp_all add: free_cell_def Let_def)

lemma rm_track_frame [simp]:
  "a_used (rm_track pooled s r c a) = a_used a" "a_new_head (rm_track pooled s r c a) = a_new_head a"
  by (simp_all add: rm_track_def Let_def)

lemmas cell_defs = cell_wf_def abs_cell_def occupied_def is_empty_def has_seq_id_def

interpretation rm: cell_sweep "seq_rm_cell sz q pooled s p0 p1" a_used a_new_head "spec_rm s p0 p1"
  for sz q pooled s p0 p1
  by unfold_locales
    (auto simp: seq_rm_cell_def rm_release_def spec_rm_def acell_of_def cell_defs Let_def)

interpretation keep: cell_sweep "keep_cell sz q s" fst snd "spec_keep s" for sz q s
  by unfold_locales (auto simp: keep_cell_def spec_keep_def cell_defs Let_def split: prod.splits)

lemma shift_cell_simps [simp]:
  "c_seq (shift_cell m d c) = c_seq c" "c_pos (shift_cell m d c) = s32 (c_pos c + d)"
  by (simp_all add: shift_cell_def Let_def)

interpretation add: cell_sweep "add_cell sz m s p0 p1 d" "\<lambda>(_, used, _). used" "\<lambda>(_, _, h). h" "spec_add s p0 p1 d"
  for sz m s p0 p1 d
  using s32_range
  by unfold_locales (auto simp: add_cell_def spec_add_def selected_def cell_defs Let_def split: prod.splits)

interpretation cp: cell_sweep "\<lambda>i c s. (cp_cell src dst p0 p1 c, s)" "\<lambda>_. 0" "\<lambda>_. 0" "spec_cp src dst p0 p1"
  for src dst p0 p1
  by unfold_locales (auto simp: cp_cell_def spec_cp_def cell_defs)


text \<open>Selective updates of the cells keep the invariant when the loop obeys the contract.\<close>

lemma kv_wfD:
  assumes "kv_wf cache"
  shows "length (kv_cells cache) = kv_size cache" "kv_size cache < 2 ^ 31" "kv_head cache \<le> kv_size cache"
    "kv_used cache = 0 + length (filter occupied (kv_cells cache))" "list_all cell_wf (kv_cells cache)"
    "kv_used cache < 2 ^ 32" "\<not> kv_recurrent cache"
proof -
  have "length (filter occupied (kv_cells cache)) \<le> length (kv_cells cache)" by (rule length_filter_le)
  also have "length (kv_cells cache) < 2 ^ 32" using assms by (simp add: kv_wf_def)
  finally show "kv_used cache < 2 ^ 32" using assms by (simp add: kv_wf_def)
qed (use assms in \<open>auto simp: kv_wf_def\<close>)

lemma lower_head_le: "kv_wf cache \<Longrightarrow> lower_head cache h \<le> kv_size cache"
  by (auto simp: lower_head_def dest: kv_wfD)

lemma sweep_kv_wf:
  assumes "cell_sweep f used new_head spec" "kv_wf cache" "used s = kv_used cache" "new_head s \<le> kv_size cache"
    and "kv_cells cache' = fst (cell_loop f 0 (kv_cells cache) s)" "kv_used cache' = used (snd (cell_loop f 0 (kv_cells cache) s))"
    and "kv_head cache' \<le> kv_size cache" "kv_size cache' = kv_size cache" "\<not> kv_recurrent cache'"
  shows "kv_wf cache' \<and> kv_abs cache' = map (\<lambda>a. Option.bind a spec) (kv_abs cache)"
proof -
  note wf = kv_wfD[OF assms(2)]
  note sweep = cell_sweep.loop_abs[OF assms(1) wf(5), of 0 s] cell_sweep.loop_wf[OF assms(1) wf(5), of 0 s]
    cell_sweep.loop_used[OF assms(1) wf(5), of s 0 0]
  show ?thesis
    using sweep wf assms(3,5-9) by (simp add: kv_wf_def kv_abs_def comp_def)
qed

lemma seq_rm_fields:
  assumes "llama_kv_cache_seq_rm cache s p0 p1 effect = Inr (True, cache', effect')"
  obtains q where
    "kv_cells cache' = fst (cell_loop (seq_rm_cell (kv_size cache) q (map_option e_qsa_pooled_seq effect) s (lo_pos p0) (hi_pos p1))
                              0 (kv_cells cache) (rm_acc0 cache effect))"
    "kv_used cache' = a_used (snd (cell_loop (seq_rm_cell (kv_size cache) q (map_option e_qsa_pooled_seq effect) s (lo_pos p0) (hi_pos p1))
                              0 (kv_cells cache) (rm_acc0 cache effect)))"
    "\<exists>h. kv_head cache' = lower_head cache h" "kv_size cache' = kv_size cache" "kv_recurrent cache' = kv_recurrent cache"
proof -
  from assms obtain plan q cs a where *: "llama_kv_has_qnext_state_storage cache = Inr q"
    "cell_loop (seq_rm_cell (kv_size cache) q (map_option e_qsa_pooled_seq effect) s (lo_pos p0) (hi_pos p1))
       0 (kv_cells cache) (rm_acc0 cache effect) = (cs, a)"
    "cache' = (case plan of None \<Rightarrow> cache\<lparr>kv_cells := cs, kv_used := a_used a, kv_head := lower_head cache (a_new_head a)\<rparr>
       | Some (h, b) \<Rightarrow> cache\<lparr>kv_cells := cs, kv_used := a_used a, kv_head := lower_head cache (a_new_head a),
                          kv_head_swa := h, kv_pos_base_swa := b\<rparr>)"
    unfolding llama_kv_cache_seq_rm_def Let_def
    by (auto split: if_splits sum.splits bool.splits prod.splits)
  show ?thesis
    by (rule that[of q]) (auto simp: *(2,3) split: option.split)
qed

lemma seq_rm_sim:
  assumes "kv_wf cache" "llama_kv_cache_seq_rm cache s p0 p1 effect = Inr (True, cache', effect')"
  shows "kv_wf cache' \<and> kv_abs cache' = map (\<lambda>a. Option.bind a (spec_rm s (lo_pos p0) (hi_pos p1))) (kv_abs cache)"
proof -
  from assms(2) obtain q where r:
    "kv_cells cache' = fst (cell_loop (seq_rm_cell (kv_size cache) q (map_option e_qsa_pooled_seq effect) s (lo_pos p0) (hi_pos p1))
                              0 (kv_cells cache) (rm_acc0 cache effect))"
    "kv_used cache' = a_used (snd (cell_loop (seq_rm_cell (kv_size cache) q (map_option e_qsa_pooled_seq effect) s (lo_pos p0) (hi_pos p1))
                              0 (kv_cells cache) (rm_acc0 cache effect)))"
    "\<exists>h. kv_head cache' = lower_head cache h" "kv_size cache' = kv_size cache" "kv_recurrent cache' = kv_recurrent cache"
    by (rule seq_rm_fields)
  show ?thesis
    by (rule sweep_kv_wf[OF rm.cell_sweep_axioms assms(1) _ _ r(1,2)])
      (use r(3-5) lower_head_le[OF assms(1)] kv_wfD(7)[OF assms(1)] in \<open>auto simp: rm_acc0_def\<close>)
qed

text \<open>Success is the rule: without a compacted window the call never refuses, and a refusal changes nothing.\<close>

lemma seq_rm_succeeds:
  assumes "kv_wf cache" "\<not> any_compacted cache" "llama_kv_has_qnext_state_storage cache = Inr q"
  shows "\<exists>cache' effect'. llama_kv_cache_seq_rm cache s p0 p1 effect = Inr (True, cache', effect')"
  using assms kv_wfD(7)[OF assms(1)]
  by (auto simp: llama_kv_cache_seq_rm_def Let_def rm_recurrent_ok_def rm_compact_plan_def split: prod.splits)

lemma seq_rm_refusal:
  "llama_kv_cache_seq_rm cache s p0 p1 effect = Inr (False, cache', effect') \<Longrightarrow> cache' = cache \<and> effect' = effect"
  by (auto simp: llama_kv_cache_seq_rm_def Let_def split: if_splits sum.splits bool.splits prod.splits)

lemma seq_keep_sim:
  assumes "kv_wf cache" "llama_kv_cache_seq_keep cache s = Inr cache'"
  shows "kv_wf cache' \<and> kv_abs cache' = map (\<lambda>a. Option.bind a (spec_keep s)) (kv_abs cache)"
proof -
  from assms(2) obtain q where q: "llama_kv_has_qnext_state_storage cache = Inr q"
    by (auto simp: llama_kv_cache_seq_keep_def split: sum.splits)
  with assms(2) have c: "cache' = (case cell_loop (keep_cell (kv_size cache) q s) 0 (kv_cells cache) (kv_used cache, kv_size cache) of
      (cs, used, h) \<Rightarrow> cache\<lparr>kv_cells := cs, kv_used := used, kv_head := lower_head cache h\<rparr>)"
    by (auto simp: llama_kv_cache_seq_keep_def split: prod.splits)
  show ?thesis
    by (rule sweep_kv_wf[OF keep.cell_sweep_axioms[of "kv_size cache" q s] assms(1), of "(kv_used cache, kv_size cache)"])
      (use lower_head_le[OF assms(1)] kv_wfD(7)[OF assms(1)] in \<open>auto simp: c split: prod.split\<close>)
qed

lemma seq_add_sim:
  assumes "kv_wf cache" "llama_kv_cache_seq_add cache s p0 p1 d = Inr cache'" "lo_pos p0 \<noteq> hi_pos p1"
  shows "kv_wf cache' \<and> kv_abs cache' = map (\<lambda>a. Option.bind a (spec_add s (lo_pos p0) (hi_pos p1) d)) (kv_abs cache)"
proof -
  let ?L = "cell_loop (add_cell (kv_size cache) (kv_mrope cache) s (lo_pos p0) (hi_pos p1) d) 0 (kv_cells cache)
              (kv_has_shift cache, kv_used cache, kv_size cache)"
  have c: "cache' = (case ?L of (cs, shift, used, h) \<Rightarrow> cache\<lparr>kv_cells := cs, kv_has_shift := shift, kv_used := used,
                       kv_head := (if h \<noteq> kv_size cache then h else 0)\<rparr>)"
    using assms(2,3) kv_wfD(7)[OF assms(1)]
    by (auto simp: llama_kv_cache_seq_add_def Let_def split: if_splits prod.splits)
  have "(\<lambda>(_, _, h). h) (snd ?L) \<le> kv_size cache"
    using kv_wfD(1)[OF assms(1)] by (intro add.loop_head) auto
  then show ?thesis
    by (intro sweep_kv_wf[OF add.cell_sweep_axioms[of "kv_size cache" "kv_mrope cache" s "lo_pos p0" "hi_pos p1" d] assms(1),
          of "(kv_has_shift cache, kv_used cache, kv_size cache)"])
      (use kv_wfD(7)[OF assms(1)] in \<open>auto simp: c split: prod.splits\<close>)
qed


lemma div_cell_simps [simp]:
  "c_seq (div_cell m d c) = c_seq c" "c_pos (div_cell m d c) = sdiv (c_pos c) d"
  by (simp_all add: div_cell_def Let_def)

lemma cell_loop_state_free:
  assumes "\<And>i c s. fst (f i c s) = g c"
  shows "fst (cell_loop f i cs s) = map g cs"
  by (induction cs arbitrary: i s) (simp_all add: cell_loop_simps assms)

text \<open>A loop that changes no occupancy keeps the invariant.\<close>

lemma map_kv_wf:
  assumes "kv_wf cache" "kv_cells cache' = map g (kv_cells cache)"
    and "\<And>c. cell_wf c \<Longrightarrow> cell_wf (g c) \<and> abs_cell (g c) = Option.bind (abs_cell c) spec \<and> (occupied (g c) = occupied c)"
    and "kv_used cache' = kv_used cache" "kv_head cache' \<le> kv_size cache" "kv_size cache' = kv_size cache" "\<not> kv_recurrent cache'"
  shows "kv_wf cache' \<and> kv_abs cache' = map (\<lambda>a. Option.bind a spec) (kv_abs cache)"
proof -
  have "list_all cell_wf cs \<Longrightarrow> length (filter occupied (map g cs)) = length (filter occupied cs) \<and>
     list_all cell_wf (map g cs) \<and> map abs_cell (map g cs) = map (\<lambda>c. Option.bind (abs_cell c) spec) cs" for cs
    using assms(3) by (induction cs) auto
  from this[of "kv_cells cache"] show ?thesis
    using kv_wfD[OF assms(1)] assms(2,4-7) by (simp add: kv_wf_def kv_abs_def comp_def)
qed

lemma seq_cp_sim:
  assumes "kv_wf cache" "llama_kv_has_qnext_state_storage cache = Inr False"
  shows "\<exists>cache'. llama_kv_cache_seq_cp cache src dst p0 p1 = Inr cache' \<and> kv_wf cache' \<and>
    kv_abs cache' = map (\<lambda>a. Option.bind a (spec_cp src dst (lo_pos p0) (hi_pos p1))) (kv_abs cache)"
proof -
  let ?g = "cp_cell src dst (lo_pos p0) (hi_pos p1)"
  let ?cache = "cache\<lparr>kv_head := 0, kv_cells := map ?g (kv_cells cache)\<rparr>"
  have "llama_kv_cache_seq_cp cache src dst p0 p1 = Inr ?cache"
    using assms kv_wfD(7)[OF assms(1)]
    by (simp add: llama_kv_cache_seq_cp_def seq_cp_qnext_def cell_loop_state_free[of _ ?g])
  moreover have "kv_wf ?cache \<and> kv_abs ?cache = map (\<lambda>a. Option.bind a (spec_cp src dst (lo_pos p0) (hi_pos p1))) (kv_abs cache)"
    by (rule map_kv_wf[OF assms(1), where g = ?g])
      (use kv_wfD(7)[OF assms(1)] in \<open>auto simp: cp_cell_def spec_cp_def cell_defs\<close>)
  ultimately show ?thesis by blast
qed

lemma seq_div_sim:
  assumes "kv_wf cache" "0 < d" "llama_kv_cache_seq_div cache s p0 p1 d = Inr cache'" "lo_pos p0 \<noteq> hi_pos p1"
  shows "kv_wf cache' \<and> kv_abs cache' = map (\<lambda>a. Option.bind a (spec_div s (lo_pos p0) (hi_pos p1) d)) (kv_abs cache)"
proof -
  let ?g = "\<lambda>c. if selected s (lo_pos p0) (hi_pos p1) c then div_cell (kv_mrope cache) d c else c"
  let ?f = "\<lambda>(i::nat) c shift. if selected s (lo_pos p0) (hi_pos p1) c then (div_cell (kv_mrope cache) d c, True) else (c, shift)"
  have c: "kv_cells cache' = map ?g (kv_cells cache)" "kv_used cache' = kv_used cache" "kv_head cache' = kv_head cache"
      "kv_size cache' = kv_size cache" "kv_recurrent cache' = kv_recurrent cache"
    using assms(2-4) kv_wfD(7)[OF assms(1)] cell_loop_state_free[of ?f ?g 0 "kv_cells cache" "kv_has_shift cache"]
    by (auto simp: llama_kv_cache_seq_div_def Let_def split: if_splits prod.splits)
  have le: "p div d \<le> INT32_MAX \<and> 0 \<le> p div d" if "0 \<le> p" "p \<le> INT32_MAX" for p
    using that assms(2) zdiv_mono2[of p 1 d] by (simp add: pos_imp_zdiv_nonneg_iff)
  show ?thesis
    by (rule map_kv_wf[OF assms(1) c(1)])
      (use c kv_wfD(3,7)[OF assms(1)] le assms(2) in \<open>auto simp: spec_div_def cell_defs selected_def sdiv_nonneg\<close>)
qed


section \<open>The slot search\<close>

text \<open>\<open>free_run cs n st\<close>: the \<open>n\<close> cells from \<open>st\<close> on exist and are free.\<close>

definition free_run :: "kv_cell list \<Rightarrow> nat \<Rightarrow> nat \<Rightarrow> bool" where
  "free_run cs n st \<longleftrightarrow> st + n \<le> length cs \<and> (\<forall>j < n. c_pos (cs ! (st + j)) < 0)"

lemma first_used_Some:
  "first_used cs h i k = Some j \<Longrightarrow> i \<le> j \<and> j < i + k \<and> c_pos (cs ! (h + j)) \<ge> 0"
  by (induction cs h i k rule: first_used.induct) (auto split: if_splits)

lemma first_used_None:
  "first_used cs h i k = None \<Longrightarrow> i \<le> j \<Longrightarrow> j < i + k \<Longrightarrow> c_pos (cs ! (h + j)) < 0"
proof (induction cs h i k rule: first_used.induct)
  case (2 cs h i k)
  then show ?case by (cases "j = i") (auto split: if_splits)
qed simp

lemma blocked_by_used:
  assumes "first_used cs h 0 n = Some i" "h \<le> st" "st \<le> h + i"
  shows "\<not> free_run cs n st"
proof
  assume "free_run cs n st"
  moreover from first_used_Some[OF assms(1)] have i: "i < n" "c_pos (cs ! (h + i)) \<ge> 0" by auto
  moreover obtain j where "h + i = st + j" "j < n"
    using assms(2,3) i(1) by (metis add.commute le_add_diff_inverse le_trans less_diff_conv2 nat_add_left_cancel_less not_less add_le_cancel_left le_Suc_ex)
  ultimately show False by (auto simp: free_run_def)
qed

lemma search_sound: "find_slot_search cs n h t = (True, h') \<Longrightarrow> free_run cs n h'"
proof (induction cs n h t rule: find_slot_search.induct)
  case (1 cs n h t)
  then show ?case
    by (subst (asm) (2) find_slot_search.simps)
      (auto simp: free_run_def dest: first_used_None split: if_splits option.splits)
qed

lemma search_head: "find_slot_search cs n h t = (r, h') \<Longrightarrow> h \<le> length cs \<Longrightarrow> h' \<le> length cs"
proof (induction cs n h t rule: find_slot_search.induct)
  case (1 cs n h t)
  then show ?case
    by (subst (asm) (3) find_slot_search.simps)
      (auto dest!: first_used_Some split: if_splits option.splits)
qed

lemma search_complete_wrapped:
  assumes "find_slot_search cs n h t = (False, h')" "n \<le> length cs" "h0 \<le> length cs" "t = (length cs - h0) + h"
    and "\<And>st. st < h \<or> st \<ge> h0 \<Longrightarrow> \<not> free_run cs n st"
  shows "\<not> free_run cs n st"
  using assms
proof (induction cs n h t arbitrary: rule: find_slot_search.induct)
  case (1 cs n h t)
  show ?case
  proof (cases "h + n > length cs")
    case True
    then show ?thesis using 1(7)[of st] by (cases "st < h") (auto simp: free_run_def)
  next
    case False
    show ?thesis
    proof (cases "first_used cs h 0 n")
      case None
      then show ?thesis using 1(3) False 1(4) by (simp add: find_slot_search.simps[of cs n h t])
    next
      case (Some i)
      have b: "\<And>st. st < h + (i + 1) \<or> st \<ge> h0 \<Longrightarrow> \<not> free_run cs n st"
        using blocked_by_used[OF Some] 1(7) by (metis Suc_eq_plus1 add_Suc_right less_Suc_eq_le not_le)
      show ?thesis
      proof (cases "t + (i + 1) \<ge> length cs")
        case True
        then have "h + (i + 1) \<ge> h0" using 1(5,6) by linarith
        then show ?thesis using b[of st] by (cases "st < h0") auto
      next
        case nt: False
        have "find_slot_search cs n (h + (i + 1)) (t + (i + 1)) = (False, h')"
          using 1(3,4) False Some nt by (simp add: find_slot_search.simps[of cs n h t])
        from 1(2)[OF _ _ Some nt this 1(4,5) _ b] show ?thesis using 1(4,6) False by simp
      qed
    qed
  qed
qed

lemma search_complete:
  assumes "find_slot_search cs n h t = (False, h')" "n \<le> length cs" "h \<le> length cs" "h = h0 + t"
    and "\<And>st. h0 \<le> st \<Longrightarrow> st < h \<Longrightarrow> \<not> free_run cs n st"
  shows "\<not> free_run cs n st"
  using assms
proof (induction cs n h t rule: find_slot_search.induct)
  case (1 cs n h t)
  show ?case
  proof (cases "h + n > length cs")
    case True
    then have s: "find_slot_search cs n 0 (t + (length cs - h)) = (False, h')"
      using 1(3,4) by (simp add: find_slot_search.simps[of cs n h t])
    show ?thesis
    proof (rule search_complete_wrapped[OF s 1(4), of h0])
      show "\<And>st. st < 0 \<or> h0 \<le> st \<Longrightarrow> \<not> free_run cs n st"
        using 1(7) True by (metis add_le_cancel_right free_run_def le_trans not_le not_less_zero)
    qed (use 1(5,6) in auto)
  next
    case False
    show ?thesis
    proof (cases "first_used cs h 0 n")
      case None
      then show ?thesis using 1(3) False 1(4) by (simp add: find_slot_search.simps[of cs n h t])
    next
      case (Some i)
      note i = first_used_Some[OF Some]
      have b: "\<And>st. h0 \<le> st \<Longrightarrow> st < h + (i + 1) \<Longrightarrow> \<not> free_run cs n st"
        using blocked_by_used[OF Some] 1(7) by (metis Suc_eq_plus1 add_Suc_right less_Suc_eq_le not_le)
      show ?thesis
      proof (cases "t + (i + 1) \<ge> length cs")
        case True
        then have "h0 = 0" "h + (i + 1) \<ge> length cs" using 1(6) False i by linarith+
        then show ?thesis using b[of st] i by (cases "st < length cs") (auto simp: free_run_def)
      next
        case nt: False
        have "find_slot_search cs n (h + (i + 1)) (t + (i + 1)) = (False, h')"
          using 1(3,4) False Some nt by (simp add: find_slot_search.simps[of cs n h t])
        from 1(2)[OF _ _ Some nt this 1(4) _ _ b] show ?thesis using 1(4,6) False i by simp
      qed
    qed
  qed
qed

lemma find_slot_iff:
  assumes "kv_wf cache"
  shows "fst (llama_kv_cache_find_slot cache batch embd set_meta) \<longleftrightarrow> (\<exists>st. free_run (kv_cells cache) (b_n_tokens batch) st)"
proof (cases "b_n_tokens batch > kv_size cache")
  case True
  then show ?thesis
    using kv_wfD(1,7)[OF assms] by (auto simp: llama_kv_cache_find_slot_def free_run_def)
next
  case False
  obtain r h' where s: "find_slot_search (kv_cells cache) (b_n_tokens batch) (kv_head cache) 0 = (r, h')"
    by (cases "find_slot_search (kv_cells cache) (b_n_tokens batch) (kv_head cache) 0") auto
  have "fst (llama_kv_cache_find_slot cache batch embd set_meta) = r"
    using False kv_wfD(7)[OF assms] by (simp add: llama_kv_cache_find_slot_def s split: bool.split)
  moreover have "r \<Longrightarrow> free_run (kv_cells cache) (b_n_tokens batch) h'"
    using search_sound s by auto
  moreover have "\<not> r \<Longrightarrow> \<not> free_run (kv_cells cache) (b_n_tokens batch) st" for st
    using search_complete[of "kv_cells cache" "b_n_tokens batch" "kv_head cache" 0 h' "kv_head cache" st] s False kv_wfD(1,3)[OF assms]
    by simp
  ultimately show ?thesis by blast
qed

text \<open>A batch as \<open>llama_decode\<close> submits it: one non-negative position and at least one sequence per token.\<close>

definition batch_ok :: "kv_batch \<Rightarrow> bool" where
  "batch_ok batch \<longleftrightarrow> b_n_tokens batch \<le> length (b_pos batch) \<and> b_n_tokens batch \<le> length (b_seq batch) \<and>
     list_all (\<lambda>p. 0 \<le> p \<and> p \<le> INT32_MAX) (take (b_n_tokens batch) (b_pos batch)) \<and>
     list_all (\<lambda>s. s \<noteq> []) (take (b_n_tokens batch) (b_seq batch))"

lemma fill_cell_simps [simp]:
  "c_pos (fst (fill_cell cache batch e m i c q)) = b_pos batch ! i"
  "c_seq (fst (fill_cell cache batch e m i c q)) = c_seq c \<union> set (b_seq batch ! i)"
  by (simp_all add: fill_cell_def Let_def)

lemma fill_loop_nth:
  assumes "k < length cs"
  shows "c_pos (fst (cell_loop (fill_cell cache batch e m) i cs q) ! k) = b_pos batch ! (i + k) \<and>
         c_seq (fst (cell_loop (fill_cell cache batch e m) i cs q) ! k) = c_seq (cs ! k) \<union> set (b_seq batch ! (i + k))"
  using assms
proof (induction cs arbitrary: i q k)
  case Nil
  then show ?case by simp
next
  case (Cons c cs)
  then show ?case by (cases k) (auto simp: cell_loop_simps)
qed

text \<open>The cells of the slot hold the batch, the others are untouched.\<close>

lemma fill_slot_abs:
  fixes e :: llama_token and m :: bool
  assumes "kv_wf cache" "batch_ok batch" "free_run (kv_cells cache) (b_n_tokens batch) h"
  defines "cs' \<equiv> fill_slot cache batch e m h" and "n \<equiv> b_n_tokens batch"
  shows "length cs' = kv_size cache" "list_all cell_wf cs'"
    "map abs_cell cs' = take h (kv_abs cache)
       @ map (\<lambda>j. Some (b_pos batch ! j, set (b_seq batch ! j))) [0..<n] @ drop (h + n) (kv_abs cache)"
    "length (filter occupied cs') = length (filter occupied (kv_cells cache)) + n"
proof -
  let ?cs = "kv_cells cache"
  let ?mid = "take n (drop h ?cs)"
  obtain q where cs': "cs' = take h ?cs @ fst (cell_loop (fill_cell cache batch e m) 0 ?mid q) @ drop (h + n) ?cs"
    by (auto simp: cs'_def fill_slot_def Let_def n_def)
  let ?new = "fst (cell_loop (fill_cell cache batch e m) 0 ?mid q)"
  have hn: "h + n \<le> length ?cs" using assms(3) by (simp add: free_run_def n_def)
  then have ml: "length ?mid = n" by simp
  note wf = kv_wfD[OF assms(1)]
  have old: "c_seq (?mid ! j) = {}" if "j < n" for j
  proof -
    have "cell_wf (?cs ! (h + j))" using wf(5) that hn by (simp add: list_all_length)
    moreover have "c_pos (?cs ! (h + j)) < 0" using assms(3) that by (simp add: free_run_def n_def)
    ultimately show ?thesis using that hn by (simp add: cell_wf_def)
  qed
  have new: "c_pos (?new ! j) = b_pos batch ! j" "c_seq (?new ! j) = set (b_seq batch ! j)" if "j < n" for j
    using fill_loop_nth[of j ?mid cache batch e m 0 q] old[OF that] that ml by auto
  have bp: "0 \<le> b_pos batch ! j" "b_pos batch ! j \<le> INT32_MAX" "b_seq batch ! j \<noteq> []" if "j < n" for j
    using assms(2) that by (auto simp: batch_ok_def list_all_length n_def)
  have lnew: "length ?new = n" using ml by simp
  show "length cs' = kv_size cache" using hn wf(1) lnew by (simp add: cs')
  have nwf: "list_all cell_wf ?new"
    using new bp lnew by (auto simp: list_all_length cell_wf_def)
  show "list_all cell_wf cs'"
    using wf(5) nwf by (auto simp: cs' list_all_iff dest: in_set_takeD in_set_dropD)
  have nabs: "map abs_cell ?new = map (\<lambda>j. Some (b_pos batch ! j, set (b_seq batch ! j))) [0..<n]"
    by (rule nth_equalityI) (use new bp lnew in \<open>auto simp: abs_cell_def\<close>)
  show "map abs_cell cs' = take h (kv_abs cache) @ map (\<lambda>j. Some (b_pos batch ! j, set (b_seq batch ! j))) [0..<n] @ drop (h + n) (kv_abs cache)"
    using nabs by (simp add: cs' kv_abs_def take_map drop_map)
  have "filter occupied ?mid = []"
    using old ml by (auto simp: filter_empty_conv occupied_def in_set_conv_nth)
  moreover have "length (filter occupied ?new) = n"
  proof -
    have "filter occupied ?new = ?new"
      using new bp lnew by (auto simp: filter_id_conv occupied_def in_set_conv_nth)
    then show ?thesis using lnew by simp
  qed
  moreover have split: "?cs = take h ?cs @ ?mid @ drop (h + n) ?cs"
    by (metis append_take_drop_id drop_drop add.commute)
  have "length (filter occupied ?cs)
      = length (filter occupied (take h ?cs)) + (length (filter occupied ?mid) + length (filter occupied (drop (h + n) ?cs)))"
    by (subst split) (simp only: filter_append length_append)
  ultimately show "length (filter occupied cs') = length (filter occupied ?cs) + n"
    by (simp add: cs')
qed

lemma find_slot_sim:
  assumes "kv_wf cache" "batch_ok batch" "llama_kv_cache_find_slot cache batch embd set_meta = (True, cache')"
  shows "kv_wf cache' \<and> free_run (kv_cells cache) (b_n_tokens batch) (kv_head cache') \<and>
    kv_abs cache' = take (kv_head cache') (kv_abs cache)
      @ map (\<lambda>j. Some (b_pos batch ! j, set (b_seq batch ! j))) [0..<b_n_tokens batch]
      @ drop (kv_head cache' + b_n_tokens batch) (kv_abs cache)"
proof -
  obtain h where s: "find_slot_search (kv_cells cache) (b_n_tokens batch) (kv_head cache) 0 = (True, h)"
    and c: "cache' = cache\<lparr>kv_head := h, kv_cells := fill_slot cache batch embd set_meta h,
                             kv_used := u32 (kv_used cache + b_n_tokens batch)\<rparr>"
    using assms(3) kv_wfD(7)[OF assms(1)]
    by (auto simp: llama_kv_cache_find_slot_def split: if_splits prod.splits bool.splits)
  have run: "free_run (kv_cells cache) (b_n_tokens batch) h" using search_sound[OF s] .
  note f = fill_slot_abs[OF assms(1,2) run, of embd set_meta]
  note wf = kv_wfD[OF assms(1)]
  have "h \<le> kv_size cache" using run wf(1) by (simp add: free_run_def)
  moreover have "kv_used cache + b_n_tokens batch \<le> kv_size cache"
    using f(1,4) wf(4) length_filter_le[of occupied "fill_slot cache batch embd set_meta h"] by simp
  then have "u32 (kv_used cache + b_n_tokens batch) = kv_used cache + b_n_tokens batch"
    using wf(2) by (intro u32_id) simp
  ultimately show ?thesis
    using f wf run by (simp add: c kv_wf_def) (simp add: kv_abs_def)
qed


section \<open>Every reachable cache\<close>

lemma kv_wf_abs_cong:
  assumes "kv_wf cache" "kv_abs cache' = kv_abs cache" "list_all cell_wf (kv_cells cache')"
    "kv_used cache' = kv_used cache" "kv_head cache' \<le> kv_size cache" "kv_size cache' = kv_size cache" "\<not> kv_recurrent cache'"
  shows "kv_wf cache'"
proof -
  have count: "length (filter occupied cs) = length (filter (\<lambda>a. a \<noteq> None) (map abs_cell cs))" for cs
    by (induction cs) (auto simp: occupied_def abs_cell_def)
  have "length (kv_cells cache') = length (kv_cells cache)"
    using arg_cong[OF assms(2), of length] by (simp add: kv_abs_def)
  then show ?thesis
    using assms kv_wfD[OF assms(1)] by (simp add: kv_wf_def count kv_abs_def)
qed

lemma set_src_abs: "map abs_cell (set_cell k (\<lambda>c. c\<lparr>c_src := v\<rparr>) cs) = map abs_cell cs"
  "list_all cell_wf cs \<Longrightarrow> k < length cs \<Longrightarrow> list_all cell_wf (set_cell k (\<lambda>c. c\<lparr>c_src := v\<rparr>) cs)"
proof -
  have e: "abs_cell ((cs ! k)\<lparr>c_src := v\<rparr>) = abs_cell (cs ! k)" by (simp add: abs_cell_def)
  show "map abs_cell (set_cell k (\<lambda>c. c\<lparr>c_src := v\<rparr>) cs) = map abs_cell cs"
    unfolding set_cell_def map_update e by (cases "k < length cs") (simp_all add: list_update_beyond flip: nth_map)
  assume a: "list_all cell_wf cs" "k < length cs"
  then have "cell_wf ((cs ! k)\<lparr>c_src := v\<rparr>)" by (simp add: list_all_length cell_wf_def)
  then show "list_all cell_wf (set_cell k (\<lambda>c. c\<lparr>c_src := v\<rparr>) cs)"
    using a by (auto simp: set_cell_def list_all_length nth_list_update)
qed

lemma seq_cp_qnext_wf:
  assumes "kv_wf cache" "seq_cp_qnext cache src dst = Inr (cache', src')"
  shows "kv_wf cache' \<and> kv_abs cache' = kv_abs cache"
proof -
  have "cache' = cache \<or> (u32_of_int dst < kv_size cache \<and>
      cache' = cache\<lparr>kv_cells := set_cell (u32_of_int dst) (\<lambda>c. c\<lparr>c_src := src'\<rparr>) (kv_cells cache), kv_do_copy := True\<rparr>)"
    using assms(2) by (simp add: seq_cp_qnext_def Let_def split: sum.splits if_splits) blast
  then consider "cache' = cache" | k v where "k < kv_size cache"
      "cache' = cache\<lparr>kv_cells := set_cell k (\<lambda>c. c\<lparr>c_src := v\<rparr>) (kv_cells cache), kv_do_copy := True\<rparr>"
    by blast
  then show ?thesis
  proof cases
    case (2 k v)
    have "kv_abs cache' = kv_abs cache" using set_src_abs(1) by (simp add: 2(2) kv_abs_def)
    moreover have "list_all cell_wf (kv_cells cache')"
      using set_src_abs(2) kv_wfD(1,5)[OF assms(1)] 2 by simp
    ultimately show ?thesis
      using kv_wf_abs_cong[OF assms(1)] kv_wfD(3,7)[OF assms(1)] 2(2) by simp
  qed (use assms(1) in simp)
qed

lemma seq_cp_wf:
  assumes "kv_wf cache" "llama_kv_cache_seq_cp cache src dst p0 p1 = Inr cache'"
  shows "kv_wf cache'"
proof -
  obtain c1 src' where q: "seq_cp_qnext cache src dst = Inr (c1, src')"
    and c: "cache' = c1\<lparr>kv_head := 0, kv_cells := map (cp_cell src' dst (lo_pos p0) (hi_pos p1)) (kv_cells c1)\<rparr>"
    using assms(2) kv_wfD(7)[OF assms(1)]
    by (auto simp: llama_kv_cache_seq_cp_def cell_loop_state_free[where g = "cp_cell _ dst (lo_pos p0) (hi_pos p1)"]
        split: sum.splits)
  note w = seq_cp_qnext_wf[OF assms(1) q]
  have "kv_wf cache' \<and> kv_abs cache' = map (\<lambda>a. Option.bind a (spec_cp src' dst (lo_pos p0) (hi_pos p1))) (kv_abs c1)"
    by (rule map_kv_wf[of c1 _ "cp_cell src' dst (lo_pos p0) (hi_pos p1)"])
      (use w kv_wfD(7) c in \<open>auto simp: cp_cell_def spec_cp_def cell_defs\<close>)
  then show ?thesis by simp
qed

lemma clear_wf:
  assumes "\<not> kv_recurrent cache" "length (kv_cells cache) = kv_size cache" "kv_size cache < 2 ^ 31"
  shows "kv_wf (llama_kv_cache_clear cache)"
proof -
  have "list_all (\<lambda>c. cell_wf c \<and> \<not> occupied c) (fst (cell_loop (\<lambda>i c s. (clear_cell i c, s)) i cs ()))" for i cs
    by (induction cs arbitrary: i) (simp_all add: cell_loop_simps clear_cell_def cell_wf_def occupied_def)
  then have "list_all cell_wf (kv_cells (llama_kv_cache_clear cache))"
    "filter occupied (kv_cells (llama_kv_cache_clear cache)) = []"
    by (auto simp: llama_kv_cache_clear_def list_all_iff filter_empty_conv)
  then show ?thesis
    using assms by (simp add: kv_wf_def) (simp add: llama_kv_cache_clear_def)
qed

lemma find_slot_wf:
  assumes "kv_wf cache" "batch_ok batch" "llama_kv_cache_find_slot cache batch e m = (r, cache')"
  shows "kv_wf cache'"
proof (cases r)
  case True
  then show ?thesis using find_slot_sim[OF assms(1,2), of e m cache'] assms(3) by simp
next
  case False
  then have "cache' = cache \<or> (\<exists>h. cache' = cache\<lparr>kv_head := h\<rparr> \<and> h \<le> length (kv_cells cache))"
    using assms(3) kv_wfD(1,3,7)[OF assms(1)] search_head[of "kv_cells cache" "b_n_tokens batch" "kv_head cache" 0]
    by (auto simp: llama_kv_cache_find_slot_def split: if_splits prod.splits bool.splits)
  then show ?thesis using assms(1) by (auto simp: kv_wf_def)
qed

text \<open>The operations an application can apply to the cache, with the outcomes that do not abort.\<close>

inductive kv_step :: "kv_cache \<Rightarrow> kv_cache \<Rightarrow> bool" where
  st_find: "batch_ok batch \<Longrightarrow> llama_kv_cache_find_slot cache batch e m = (r, cache') \<Longrightarrow> kv_step cache cache'"
| st_rm: "llama_kv_cache_seq_rm cache s p0 p1 eff = Inr (r, cache', eff') \<Longrightarrow> kv_step cache cache'"
| st_cp: "llama_kv_cache_seq_cp cache src dst p0 p1 = Inr cache' \<Longrightarrow> kv_step cache cache'"
| st_keep: "llama_kv_cache_seq_keep cache s = Inr cache' \<Longrightarrow> kv_step cache cache'"
| st_add: "llama_kv_cache_seq_add cache s p0 p1 d = Inr cache' \<Longrightarrow> kv_step cache cache'"
| st_div: "0 < d \<Longrightarrow> llama_kv_cache_seq_div cache s p0 p1 d = Inr cache' \<Longrightarrow> kv_step cache cache'"
| st_clear: "kv_step cache (llama_kv_cache_clear cache)"
| st_defrag: "kv_step cache (llama_kv_cache_defrag cache)"

inductive kv_reachable :: "kv_cache \<Rightarrow> bool" where
  fresh: "\<not> kv_recurrent cache \<Longrightarrow> length (kv_cells cache) = kv_size cache \<Longrightarrow> kv_size cache < 2 ^ 31 \<Longrightarrow>
    kv_reachable (llama_kv_cache_clear cache)"
| step: "kv_reachable cache \<Longrightarrow> kv_step cache cache' \<Longrightarrow> kv_reachable cache'"

lemma kv_step_wf:
  assumes "kv_wf cache" "kv_step cache cache'"
  shows "kv_wf cache'"
  using assms(2,1)
proof (induction rule: kv_step.induct)
  case (st_find batch cache e m r cache')
  then show ?case using find_slot_wf by blast
next
  case (st_rm cache s p0 p1 eff r cache' eff')
  then show ?case
    using seq_rm_sim[of cache s p0 p1 eff cache' eff'] seq_rm_refusal[of cache s p0 p1 eff cache' eff'] by (cases r) auto
next
  case (st_cp cache src dst p0 p1 cache')
  then show ?case using seq_cp_wf by blast
next
  case (st_keep cache s cache')
  then show ?case using seq_keep_sim by blast
next
  case (st_add cache s p0 p1 d cache')
  then show ?case
    using seq_add_sim[of cache s p0 p1 d cache'] by (cases "lo_pos p0 = hi_pos p1") (auto simp: llama_kv_cache_seq_add_def Let_def split: if_splits)
next
  case (st_div d cache s p0 p1 cache')
  then show ?case
    using seq_div_sim[of cache d s p0 p1 cache'] by (cases "lo_pos p0 = hi_pos p1") (auto simp: llama_kv_cache_seq_div_def Let_def split: if_splits)
next
  case (st_clear cache)
  then show ?case using clear_wf kv_wfD by blast
next
  case (st_defrag cache)
  then show ?case by (auto simp: llama_kv_cache_defrag_def kv_wf_def)
qed

lemma reachable_wf: "kv_reachable cache \<Longrightarrow> kv_wf cache"
proof (induction rule: kv_reachable.induct)
  case (fresh cache)
  then show ?case by (rule clear_wf)
next
  case (step cache cache')
  then show ?case using kv_step_wf by blast
qed

section \<open>Queries\<close>

lemma Max_insert_max: "finite A \<Longrightarrow> Max (insert (max a b) A) = max a (Max (insert b A))" for a b :: int
  by (cases "A = {}") (simp_all add: max.assoc)

lemma seq_pos_max_foldl:
  "foldl (\<lambda>r c. if has_seq_id c s then max r (c_pos c) else r) r cs = Max (insert r (c_pos ` {c \<in> set cs. s \<in> c_seq c}))"
proof (induction cs arbitrary: r)
  case Nil
  then show ?case by simp
next
  case (Cons c cs)
  have fin: "finite (c_pos ` {c \<in> set cs. s \<in> c_seq c})" by simp
  show ?case
  proof (cases "s \<in> c_seq c")
    case True
    then have "{d \<in> set (c # cs). s \<in> c_seq d} = insert c {d \<in> set cs. s \<in> c_seq d}" by auto
    then show ?thesis
      using True Cons[of "max r (c_pos c)"] fin by (simp add: has_seq_id_def Max_insert_max)
  next
    case False
    then have "{d \<in> set (c # cs). s \<in> c_seq d} = {d \<in> set cs. s \<in> c_seq d}" by auto
    then show ?thesis using False Cons by (simp add: has_seq_id_def)
  qed
qed

end
