(* ===== verification/KvDefragProps.thy ===== *)
theory KvDefragProps
  imports KvDefrag KvCacheProps "HOL-Library.Multiset"
begin

text \<open>
  Defragmentation moves cells without losing any: \<open>relocated\<close> describes the cells after some moves by the ids, every loop of
  \<open>KvDefrag\<close> keeps it, and the copies of rows that the graph makes from the ids move the rows in the same way.
\<close>

section \<open>Cells after some moves\<close>

definition moved :: "nat list \<Rightarrow> nat \<Rightarrow> bool" where
  "moved ids s \<longleftrightarrow> s < length ids \<and> ids ! s \<noteq> s \<and> ids ! s \<noteq> length ids"

definition relocated :: "nat \<Rightarrow> kv_cell list \<Rightarrow> kv_cell list \<Rightarrow> nat list \<Rightarrow> bool" where
  "relocated n_used cs0 cs ids \<longleftrightarrow>
     length cs = length cs0 \<and> length ids \<le> length cs0 \<and> n_used \<le> length ids \<and>
     (\<forall>s. moved ids s \<longrightarrow> n_used \<le> s \<and> ids ! s < n_used \<and> occupied (cs0 ! s) \<and> \<not> occupied (cs0 ! (ids ! s)) \<and>
        cs ! s = default_cell \<and> cs ! (ids ! s) = cs0 ! s) \<and>
     (\<forall>s s'. moved ids s \<longrightarrow> moved ids s' \<longrightarrow> ids ! s = ids ! s' \<longrightarrow> s = s') \<and>
     (\<forall>s < length ids. ids ! s = s \<longrightarrow> s < n_used \<and> occupied (cs0 ! s)) \<and>
     (\<forall>j < length cs0. \<not> moved ids j \<longrightarrow> (\<forall>s. moved ids s \<longrightarrow> ids ! s \<noteq> j) \<longrightarrow> cs ! j = cs0 ! j)"

definition new_id :: "nat list \<Rightarrow> nat \<Rightarrow> nat" where
  "new_id ids j = (if moved ids j then ids ! j else j)"

definition used_set :: "kv_cell list \<Rightarrow> nat set" where
  "used_set cs = {j. j < length cs \<and> occupied (cs ! j)}"

lemma empty_not_occupied: "is_empty c \<longleftrightarrow> \<not> occupied c"
  by (simp add: is_empty_def occupied_def)

lemma default_not_occupied: "\<not> occupied default_cell"
  by (simp add: default_cell_def occupied_def)

lemma finite_used: "finite (used_set cs)"
  by (simp add: used_set_def)

lemma card_used: "card (used_set cs) = length (filter occupied cs)"
  by (simp add: used_set_def length_filter_conv_card)

lemma relocated_dims:
  assumes "relocated n_used cs0 cs ids"
  shows "length cs = length cs0" "length ids \<le> length cs0" "n_used \<le> length ids"
  using assms unfolding relocated_def by blast+

lemma relocatedD:
  assumes "relocated n_used cs0 cs ids" "moved ids s"
  shows "n_used \<le> s" "ids ! s < n_used" "occupied (cs0 ! s)" "\<not> occupied (cs0 ! (ids ! s))"
    "cs ! s = default_cell" "cs ! (ids ! s) = cs0 ! s"
  using assms unfolding relocated_def by blast+

lemma relocated_inj: "relocated n_used cs0 cs ids \<Longrightarrow> moved ids s \<Longrightarrow> moved ids s' \<Longrightarrow> ids ! s = ids ! s' \<Longrightarrow> s = s'"
  unfolding relocated_def by blast

lemma relocated_self: "relocated n_used cs0 cs ids \<Longrightarrow> s < length ids \<Longrightarrow> ids ! s = s \<Longrightarrow> s < n_used \<and> occupied (cs0 ! s)"
  unfolding relocated_def by blast

lemma relocated_fixed: "relocated n_used cs0 cs ids \<Longrightarrow> j < length cs0 \<Longrightarrow> \<not> moved ids j \<Longrightarrow> (\<And>s. moved ids s \<Longrightarrow> ids ! s \<noteq> j) \<Longrightarrow>
    cs ! j = cs0 ! j"
  unfolding relocated_def by blast

lemma moved_inside: "moved ids s \<Longrightarrow> s < length ids"
  by (simp add: moved_def)

lemma relocated_stays:
  assumes "relocated n_used cs0 cs ids" "j < length cs0" "\<not> moved ids j" "occupied (cs0 ! j) \<or> n_used \<le> j"
  shows "cs ! j = cs0 ! j"
proof (rule relocated_fixed[OF assms(1-3)])
  fix s assume "moved ids s"
  from relocatedD(2,4)[OF assms(1) this] show "ids ! s \<noteq> j" using assms(4) by auto
qed

lemma relocated_bij:
  assumes "relocated n_used cs0 cs ids"
  shows "inj_on (new_id ids) (used_set cs0)" "used_set cs = new_id ids ` used_set cs0"
    "j \<in> used_set cs0 \<Longrightarrow> cs ! new_id ids j = cs0 ! j"
proof -
  note D = relocatedD[OF assms] and n = relocated_dims[OF assms]
  have at: "cs ! new_id ids j = cs0 ! j" if "j \<in> used_set cs0" for j
    using that D(6)[of j] relocated_stays[OF assms, of j] by (auto simp: new_id_def used_set_def)
  then show "j \<in> used_set cs0 \<Longrightarrow> cs ! new_id ids j = cs0 ! j" .
  show "inj_on (new_id ids) (used_set cs0)"
  proof (rule inj_onI)
    fix i j assume "i \<in> used_set cs0" "j \<in> used_set cs0" "new_id ids i = new_id ids j"
    then show "i = j" using relocated_inj[OF assms, of i j] D(4)[of i] D(4)[of j] by (auto simp: new_id_def used_set_def split: if_splits)
  qed
  have "new_id ids j \<in> used_set cs" if "j \<in> used_set cs0" for j
  proof -
    have "new_id ids j < length cs0" using that D(2)[of j] n by (auto simp: new_id_def used_set_def)
    then show ?thesis using at[OF that] that n by (simp add: used_set_def)
  qed
  moreover have "j \<in> new_id ids ` used_set cs0" if j: "j \<in> used_set cs" for j
  proof (cases "\<exists>s. moved ids s \<and> ids ! s = j")
    case True
    then obtain s where s: "moved ids s" "ids ! s = j" by blast
    have "s < length cs0" using moved_inside[OF s(1)] n by simp
    then show ?thesis using D(3)[OF s(1)] s by (intro image_eqI[of _ _ s]) (auto simp: new_id_def used_set_def)
  next
    case False
    have m: "\<not> moved ids j" using j D(5)[of j] default_not_occupied by (auto simp: used_set_def)
    have "j < length cs0" using j n by (simp add: used_set_def)
    then have "cs ! j = cs0 ! j" using relocated_fixed[OF assms _ m] False by blast
    then show ?thesis using j n m by (intro image_eqI[of _ _ j]) (auto simp: new_id_def used_set_def)
  qed
  ultimately show "used_set cs = new_id ids ` used_set cs0" by blast
qed

lemma relocated_count: "relocated n_used cs0 cs ids \<Longrightarrow> card (used_set cs) = card (used_set cs0)"
  by (simp add: relocated_bij(1,2) card_image)

lemma relocated_above:
  assumes "relocated n_used cs0 cs ids" "\<And>j. j \<in> used_set cs0 \<Longrightarrow> j < length ids" "j \<in> used_set cs"
  shows "j < length ids"
proof -
  obtain i where i: "i \<in> used_set cs0" "j = new_id ids i" using assms(3) relocated_bij(2)[OF assms(1)] by blast
  show ?thesis using i assms(2)[OF i(1)] relocatedD(2)[OF assms(1), of i] relocated_dims(3)[OF assms(1)] by (auto simp: new_id_def)
qed

lemma relocated_start: "n_used \<le> n_kv \<Longrightarrow> n_kv \<le> length cs \<Longrightarrow> relocated n_used cs cs (replicate n_kv n_kv)"
  by (auto simp: relocated_def moved_def)

text \<open>A cell that stays gets its own id.\<close>

lemma relocated_keep:
  assumes "relocated n_used cs0 cs ids" "i < n_used" "occupied (cs0 ! i)" "ids ! i = length ids"
  shows "relocated n_used cs0 cs (ids[i := i])" "moved (ids[i := i]) s \<longleftrightarrow> moved ids s" "moved ids s \<Longrightarrow> ids[i := i] ! s = ids ! s"
proof -
  note n = relocated_dims[OF assms(1)]
  have same: "moved (ids[i := i]) s \<longleftrightarrow> moved ids s" for s
    using assms(2,4) n by (auto simp: moved_def nth_list_update)
  then show "moved (ids[i := i]) s \<longleftrightarrow> moved ids s" .
  have at: "ids[i := i] ! s = ids ! s" if "moved ids s" for s using that assms(4) by (cases "s = i") (simp_all add: moved_def)
  then show "moved ids s \<Longrightarrow> ids[i := i] ! s = ids ! s" .
  have self: "s < n_used \<and> occupied (cs0 ! s)" if "s < length ids" "ids[i := i] ! s = s" for s
    using that assms(2,3) relocated_self[OF assms(1)] by (cases "s = i") simp_all
  show "relocated n_used cs0 cs (ids[i := i])"
    unfolding relocated_def same using n at self relocatedD[OF assms(1)] relocated_inj[OF assms(1)] relocated_fixed[OF assms(1)]
    by simp
qed

text \<open>A cell in use at the end moves to a free cell below.\<close>

lemma relocated_move:
  assumes "relocated n_used cs0 cs ids" "n_used \<le> i" "i < length ids" "occupied (cs ! i)" "ids ! i = length ids"
    "dst < n_used" "\<not> occupied (cs ! dst)"
  shows "relocated n_used cs0 (cs[dst := cs ! i, i := default_cell]) (ids[i := dst])"
    "moved (ids[i := dst]) s \<longleftrightarrow> moved ids s \<or> s = i"
proof -
  note n = relocated_dims[OF assms(1)] and D = relocatedD[OF assms(1)]
  let ?ids = "ids[i := dst]" and ?cs = "cs[dst := cs ! i, i := default_cell]"
  have ni: "\<not> moved ids i" using assms(5) by (simp add: moved_def)
  have same: "moved ?ids s \<longleftrightarrow> moved ids s \<or> s = i" for s
    using assms(2,3,6) n by (auto simp: moved_def nth_list_update)
  then show "moved ?ids s \<longleftrightarrow> moved ids s \<or> s = i" .
  have at: "?ids ! s = (if s = i then dst else ids ! s)" for s using assms(3) by simp
  have ci: "cs ! i = cs0 ! i" using relocated_stays[OF assms(1) _ ni] assms(2,3) n by simp
  have nt: "ids ! s \<noteq> dst" if "moved ids s" for s using D(3,6)[OF that] assms(7) by auto
  have nd: "\<not> moved ids dst" using D(1)[of dst] assms(6) by auto
  have cd: "cs ! dst = cs0 ! dst" using relocated_fixed[OF assms(1) _ nd nt] assms(6) n by simp
  have cs: "?cs ! j = (if j = i then default_cell else if j = dst then cs0 ! i else cs ! j)" if "j < length cs0" for j
    using that n assms(2,3,6) ci by (simp add: nth_list_update)
  have dst: "dst < length cs0" "dst \<noteq> i" "i < length cs0" using assms(2,3,6) n by simp_all
  have mv: "n_used \<le> s \<and> ?ids ! s < n_used \<and> occupied (cs0 ! s) \<and> \<not> occupied (cs0 ! (?ids ! s)) \<and> ?cs ! s = default_cell \<and> ?cs ! (?ids ! s) = cs0 ! s"
    if "moved ?ids s" for s
  proof (cases "s = i")
    case True
    then show ?thesis using assms(2,4,6,7) ci cd at dst n by simp
  next
    case False
    then have m: "moved ids s" using that same by simp
    have "s < length cs0" "ids ! s < length cs0" "s \<noteq> dst" "ids ! s \<noteq> i"
      using moved_inside[OF m] D(2)[OF m] n nd m assms(2) by auto
    then show ?thesis using False D[OF m] nt[OF m] at cs by simp
  qed
  have self: "s < n_used \<and> occupied (cs0 ! s)" if "s < length ids" "?ids ! s = s" for s
    using that dst relocated_self[OF assms(1)] by (cases "s = i") auto
  have inj: "s = s'" if "moved ?ids s" "moved ?ids s'" "?ids ! s = ?ids ! s'" for s s'
    using that nt relocated_inj[OF assms(1), of s s'] unfolding same at by (auto split: if_splits)
  have fixed: "?cs ! j = cs0 ! j" if "j < length cs0" "\<not> moved ?ids j" "\<forall>s. moved ?ids s \<longrightarrow> ?ids ! s \<noteq> j" for j
  proof -
    have "j \<noteq> i" "\<not> moved ids j" using that(2) same by auto
    moreover have "j \<noteq> dst" using that(3) same[of i] at[of i] by auto
    moreover have "ids ! s \<noteq> j" if "moved ids s" for s using that same[of s] at[of s] ni \<open>\<forall>s. moved ?ids s \<longrightarrow> ?ids ! s \<noteq> j\<close> by metis
    ultimately show ?thesis using cs[OF that(1)] relocated_fixed[OF assms(1) that(1)] by simp
  qed
  show "relocated n_used cs0 ?cs ?ids" unfolding relocated_def using n mv inj self fixed by simp
qed

section \<open>The search for cells to move\<close>

definition available :: "kv_cell list \<Rightarrow> nat list \<Rightarrow> nat \<Rightarrow> nat \<Rightarrow> bool" where
  "available cs ids n_kv j \<longleftrightarrow> \<not> is_empty (cs ! j) \<and> ids ! j = n_kv"

lemma card_top:
  assumes "0 < (k::nat)" "Q k"
  shows "card {j. Q j \<and> j \<le> k \<and> A j} = card {j. Q j \<and> j \<le> k - 1 \<and> A j} + (if A k then 1 else 0)"
proof -
  have eq: "{j. Q j \<and> j \<le> k \<and> A j} = (if A k then insert k else id) {j. Q j \<and> j \<le> k - 1 \<and> A j}"
    using assms by (cases k) (auto simp: le_Suc_eq)
  have "finite {j. Q j \<and> j \<le> k - 1 \<and> A j}" by (rule finite_subset[of _ "{..k}"]) auto
  moreover have "\<not> k \<le> k - 1" using assms(1) by simp
  ultimately show ?thesis unfolding eq by (cases "A k") (simp_all add: card_insert_if)
qed

lemma find_sources_found:
  assumes "nf < nh" "nh \<le> nf + card {j. i0 < j \<and> j \<le> k \<and> available cs ids n_kv j}"
  shows "\<exists>p. find_sources cs ids n_kv i0 nh k nf = (p, nh) \<and> i0 < p \<and> p \<le> k \<and> available cs ids n_kv p \<and>
    nf + card {j. p \<le> j \<and> j \<le> k \<and> available cs ids n_kv j} = nh"
  using assms
proof (induction "k - i0" arbitrary: k nf)
  case 0
  then have "{j. i0 < j \<and> j \<le> k \<and> available cs ids n_kv j} = {}" by auto
  then have "nh \<le> nf" using "0.prems"(2) by (metis add.right_neutral card.empty)
  then show ?case using "0.prems"(1) by simp
next
  case (Suc n)
  let ?A = "available cs ids n_kv"
  have k: "i0 < k" and n: "n = k - 1 - i0" using Suc.hyps(2) by simp_all
  have c: "card {j. i0 < j \<and> j \<le> k \<and> ?A j} = card {j. i0 < j \<and> j \<le> k - 1 \<and> ?A j} + (if ?A k then 1 else 0)"
    by (rule card_top) (use k in auto)
  have u: "card {j. p \<le> j \<and> j \<le> k \<and> ?A j} = card {j. p \<le> j \<and> j \<le> k - 1 \<and> ?A j} + (if ?A k then 1 else 0)" if "p \<le> k - 1" for p
    by (rule card_top) (use that k in auto)
  show ?case
  proof (cases "?A k")
    case False
    then have "find_sources cs ids n_kv i0 nh k nf = find_sources cs ids n_kv i0 nh (k - 1) nf"
      using k by (subst find_sources.simps) (auto simp: available_def)
    moreover obtain p where "find_sources cs ids n_kv i0 nh (k - 1) nf = (p, nh)" "i0 < p" "p \<le> k - 1" "?A p"
      "nf + card {j. p \<le> j \<and> j \<le> k - 1 \<and> ?A j} = nh"
      using Suc.hyps(1)[OF n, of nf] Suc.prems c False by auto
    ultimately show ?thesis using u[of p] False by auto
  next
    case True
    show ?thesis
    proof (cases "nf + 1 = nh")
      case True1: True
      have "{j. k \<le> j \<and> j \<le> k \<and> ?A j} = {k}" using True by auto
      moreover have "find_sources cs ids n_kv i0 nh k nf = (k, nh)"
        using k True True1 by (subst find_sources.simps) (auto simp: available_def)
      ultimately show ?thesis using k True True1 by auto
    next
      case False
      have eq: "find_sources cs ids n_kv i0 nh k nf = find_sources cs ids n_kv i0 nh (k - 1) (nf + 1)"
        using k True False by (subst find_sources.simps) (auto simp: available_def)
      obtain p where p: "find_sources cs ids n_kv i0 nh (k - 1) (nf + 1) = (p, nh)" "i0 < p" "p \<le> k - 1" "?A p"
        "nf + 1 + card {j. p \<le> j \<and> j \<le> k - 1 \<and> ?A j} = nh"
        using Suc.hyps(1)[OF n, of "nf + 1"] Suc.prems False True c by auto
      show ?thesis using eq p u[OF p(3)] True by auto
    qed
  qed
qed

section \<open>The loops\<close>

text \<open>All cells below \<open>i\<close> are in use; those from \<open>i\<close> on have no id unless they were moved.\<close>

definition defrag_inv :: "nat \<Rightarrow> nat \<Rightarrow> nat \<Rightarrow> kv_cell list \<Rightarrow> nat \<Rightarrow> defrag_state \<Rightarrow> bool" where
  "defrag_inv n_kv n_used head0 cs0 i st \<longleftrightarrow>
     relocated n_used cs0 (df_cells st) (df_ids st) \<and> length (df_ids st) = n_kv \<and> i \<le> n_used \<and>
     (\<forall>s. moved (df_ids st) s \<longrightarrow> df_ids st ! s < i) \<and> (\<forall>j < i. occupied (df_cells st ! j)) \<and>
     (\<forall>j. i \<le> j \<longrightarrow> j < n_kv \<longrightarrow> df_ids st ! j = n_kv \<or> moved (df_ids st) j) \<and>
     df_moves st \<le> i \<and> ((\<exists>s. moved (df_ids st) s) \<longrightarrow> 0 < df_moves st) \<and> df_head st \<in> {head0, n_used}"

lemma inv_available:
  assumes "defrag_inv n_kv n_used head0 cs0 i st" "n_used \<le> j" "j < n_kv"
  shows "available (df_cells st) (df_ids st) n_kv j \<longleftrightarrow> occupied (df_cells st ! j)"
    "occupied (df_cells st ! j) \<Longrightarrow> df_ids st ! j = n_kv"
proof -
  have "df_ids st ! j = n_kv \<or> moved (df_ids st) j" "relocated n_used cs0 (df_cells st) (df_ids st)"
    using assms unfolding defrag_inv_def by auto
  then have "occupied (df_cells st ! j) \<Longrightarrow> df_ids st ! j = n_kv" using relocatedD(5) default_not_occupied by metis
  then show "available (df_cells st) (df_ids st) n_kv j \<longleftrightarrow> occupied (df_cells st ! j)"
    "occupied (df_cells st ! j) \<Longrightarrow> df_ids st ! j = n_kv" by (auto simp: available_def empty_not_occupied)
qed

lemma inv_low_id:
  assumes "defrag_inv n_kv n_used head0 cs0 i st" "i \<le> j" "j < n_used"
  shows "df_ids st ! j = n_kv" "df_cells st ! j = cs0 ! j"
proof -
  have r: "relocated n_used cs0 (df_cells st) (df_ids st)" "length (df_ids st) = n_kv"
    and t: "\<And>s. moved (df_ids st) s \<Longrightarrow> df_ids st ! s < i" using assms(1) unfolding defrag_inv_def by auto
  have m: "\<not> moved (df_ids st) j" using relocatedD(1)[OF r(1), of j] assms(3) by auto
  then show "df_ids st ! j = n_kv" using assms r relocated_dims[OF r(1)] unfolding defrag_inv_def by auto
  show "df_cells st ! j = cs0 ! j"
    by (rule relocated_fixed[OF r(1) _ m]) (use assms(2,3) t relocated_dims[OF r(1)] in force)+
qed

lemma inv_keep:
  assumes "defrag_inv n_kv n_used head0 cs0 i st" "i < n_used" "occupied (df_cells st ! i)"
  shows "defrag_inv n_kv n_used head0 cs0 (i + 1) (st\<lparr>df_ids := (df_ids st)[i := i]\<rparr>)"
proof -
  have r: "relocated n_used cs0 (df_cells st) (df_ids st)" "length (df_ids st) = n_kv" using assms(1) unfolding defrag_inv_def by auto
  have id: "df_ids st ! i = length (df_ids st)" and occ: "occupied (cs0 ! i)" using inv_low_id[OF assms(1) order.refl assms(2)] assms(3) r by simp_all
  note k = relocated_keep[OF r(1) assms(2) occ id]
  have low: "\<forall>j < i + 1. occupied (df_cells st ! j)" using assms(1,3) unfolding defrag_inv_def by (auto simp: less_Suc_eq)
  have up: "(df_ids st)[i := i] ! j = n_kv \<or> moved (df_ids st) j" if "i + 1 \<le> j" "j < n_kv" for j
    using that assms(1) unfolding defrag_inv_def by auto
  have t: "(df_ids st)[i := i] ! s < i + 1" if "moved (df_ids st) s" for s
    using k(3)[OF that] assms(1) that unfolding defrag_inv_def by fastforce
  have "moved ((df_ids st)[i := i]) = moved (df_ids st)" using k(2) by blast
  then show ?thesis using k(1) r(2) low up t assms(1,2) unfolding defrag_inv_def by simp
qed

lemma inv_move:
  assumes "defrag_inv n_kv n_used head0 cs0 i st" "i < n_used" "\<not> occupied (df_cells st ! i)"
    "n_used \<le> i1" "i1 < n_kv" "occupied (df_cells st ! i1)" "cont \<longrightarrow> 0 < df_moves st"
  shows "defrag_inv n_kv n_used head0 cs0 (i + 1) (move_cell n_used i1 i cont st)"
    "0 < df_moves (move_cell n_used i1 i cont st)"
    "j \<noteq> i \<Longrightarrow> j \<noteq> i1 \<Longrightarrow> df_cells (move_cell n_used i1 i cont st) ! j = df_cells st ! j"
proof -
  have r: "relocated n_used cs0 (df_cells st) (df_ids st)" "length (df_ids st) = n_kv" using assms(1) unfolding defrag_inv_def by auto
  note n = relocated_dims[OF r(1)]
  have id: "df_ids st ! i1 = length (df_ids st)" using inv_available(2)[OF assms(1,4,5,6)] r by simp
  have l: "i1 < length (df_ids st)" using assms(5) r by simp
  note m = relocated_move[OF r(1) assms(4) l assms(6) id assms(2,3)]
  let ?st = "move_cell n_used i1 i cont st"
  have st: "df_cells ?st = (df_cells st)[i := df_cells st ! i1, i1 := default_cell]" "df_ids ?st = (df_ids st)[i1 := i]"
    "df_head ?st = n_used" "df_moves ?st = (if cont then df_moves st else df_moves st + 1)"
    by (simp_all add: move_cell_def Let_def)
  show moves: "0 < df_moves ?st" using assms(7) st by simp
  show other: "df_cells ?st ! j = df_cells st ! j" if "j \<noteq> i" "j \<noteq> i1" for j using that st by simp
  have "occupied (df_cells ?st ! i)" using st assms(2,4,6) n l by (simp add: nth_list_update)
  moreover have "occupied (df_cells ?st ! j)" if "j < i" for j
    using that other[of j] assms(1,2,4) unfolding defrag_inv_def by auto
  ultimately have low: "\<forall>j < i + 1. occupied (df_cells ?st ! j)" by (auto simp: less_Suc_eq)
  have up: "df_ids ?st ! j = n_kv \<or> moved (df_ids ?st) j" if "i + 1 \<le> j" "j < n_kv" for j
    using that assms(1) m(2) unfolding defrag_inv_def st(2) by (cases "j = i1") auto
  have t: "df_ids ?st ! s < i + 1" if "moved (df_ids ?st) s" for s
    using that assms(1) m(2) l unfolding defrag_inv_def st(2) by (cases "s = i1") (auto simp: less_Suc_eq)
  show "defrag_inv n_kv n_used head0 cs0 (i + 1) ?st"
    using m(1) r(2) low up t moves assms(1,2) st unfolding defrag_inv_def by simp
qed

lemma card_bottom:
  "card {j. a \<le> j \<and> j < (n::nat) \<and> P j} = (if a < n \<and> P a then 1 else 0) + card {j. a + 1 \<le> j \<and> j < n \<and> P j}"
proof -
  have eq: "{j. a \<le> j \<and> j < n \<and> P j} = (if a < n \<and> P a then insert a else id) {j. a + 1 \<le> j \<and> j < n \<and> P j}"
    by (auto simp: Suc_le_eq order.order_iff_strict)
  show ?thesis unfolding eq by (cases "a < n \<and> P a") (simp_all add: card_insert_if)
qed

lemma fill_hole_inv:
  assumes "defrag_inv n_kv n_used head0 cs0 (i0 + nf) st" "nf < nh" "i0 + nh \<le> n_used" "n_used \<le> i1"
    "\<forall>j. i0 + nf \<le> j \<longrightarrow> j < i0 + nh \<longrightarrow> \<not> occupied (df_cells st ! j)"
    "nh \<le> nf + card {j. i1 \<le> j \<and> j < n_kv \<and> occupied (df_cells st ! j)}" "cont \<longrightarrow> 0 < df_moves st"
  shows "\<exists>st' stop nf'. fill_hole n_kv n_used mx i0 nh i1 nf cont st = (st', stop) \<and> nf' \<le> nh \<and>
    defrag_inv n_kv n_used head0 cs0 (i0 + nf') st' \<and> (stop \<longrightarrow> df_moves st' = mx) \<and> (\<not> stop \<longrightarrow> nf' = nh)"
  using assms
proof (induction "n_kv - i1" arbitrary: i1 nf cont st)
  case 0
  then have "{j. i1 \<le> j \<and> j < n_kv \<and> occupied (df_cells st ! j)} = {}" by auto
  then have "nh \<le> nf" using "0.prems"(6) by (simp only: card.empty add_0_right)
  then show ?case using "0.prems"(2) by simp
next
  case (Suc d)
  have l: "i1 < n_kv" and d: "d = n_kv - (i1 + 1)" using Suc.hyps(2) by simp_all
  note card = card_bottom[of i1 n_kv "\<lambda>j. occupied (df_cells st ! j)"]
  show ?case
  proof (cases "occupied (df_cells st ! i1)")
    case False
    then have "fill_hole n_kv n_used mx i0 nh i1 nf cont st =
      (if df_moves st = mx then (st, True) else fill_hole n_kv n_used mx i0 nh (i1 + 1) nf False st)"
      using l by (subst fill_hole.simps) (simp add: empty_not_occupied)
    moreover have "nh \<le> nf + card {j. i1 + 1 \<le> j \<and> j < n_kv \<and> occupied (df_cells st ! j)}" using Suc.prems(6) card False by simp
    moreover have "n_used \<le> i1 + 1" "False \<longrightarrow> 0 < df_moves st" using Suc.prems(4) by simp_all
    moreover have "nf \<le> nh" using Suc.prems(2) by simp
    ultimately show ?thesis
      using Suc.hyps(1)[OF d Suc.prems(1-3) _ Suc.prems(5), of False] Suc.prems(1) by (cases "df_moves st = mx") (simp_all, blast)
  next
    case True
    let ?st = "move_cell n_used i1 (i0 + nf) cont st"
    have hole: "i0 + nf < n_used" "\<not> occupied (df_cells st ! (i0 + nf))" using Suc.prems(2,3,5) by auto
    note m = inv_move[OF Suc.prems(1) hole Suc.prems(4) l True Suc.prems(7)]
    have eq: "fill_hole n_kv n_used mx i0 nh i1 nf cont st =
      (if nf + 1 = nh then (?st, False) else fill_hole n_kv n_used mx i0 nh (i1 + 1) (nf + 1) True ?st)"
      using l True inv_available(2)[OF Suc.prems(1,4) l True] by (subst fill_hole.simps) (simp add: empty_not_occupied Let_def)
    show ?thesis
    proof (cases "nf + 1 = nh")
      case last: True
      then have "i0 + nf + 1 = i0 + nh" by simp
      then have "defrag_inv n_kv n_used head0 cs0 (i0 + nh) ?st" using m(1) by (simp only:)
      then show ?thesis using eq last by auto
    next
      case False
      have "{j. i1 + 1 \<le> j \<and> j < n_kv \<and> occupied (df_cells ?st ! j)} = {j. i1 + 1 \<le> j \<and> j < n_kv \<and> occupied (df_cells st ! j)}"
        using m(3) hole(1) Suc.prems(4) by auto
      then have "nh \<le> (nf + 1) + card {j. i1 + 1 \<le> j \<and> j < n_kv \<and> occupied (df_cells ?st ! j)}" using Suc.prems(6) card True l by simp
      moreover have "\<forall>j. i0 + (nf + 1) \<le> j \<longrightarrow> j < i0 + nh \<longrightarrow> \<not> occupied (df_cells ?st ! j)"
        using m(3) Suc.prems(3,4,5) by auto
      moreover have "defrag_inv n_kv n_used head0 cs0 (i0 + (nf + 1)) ?st" using m(1) by (simp add: add.assoc)
      moreover have "nf + 1 < nh" "n_used \<le> i1 + 1" "True \<longrightarrow> 0 < df_moves ?st" using False Suc.prems(2,4) m(2) by simp_all
      ultimately show ?thesis
        using Suc.hyps(1)[OF d, of "nf + 1" ?st True] Suc.prems(3) eq False by presburger
    qed
  qed
qed

lemma hole_end_empty: "j \<le> k \<Longrightarrow> k < hole_end cs n_used j \<Longrightarrow> is_empty (cs ! k)"
proof (induction cs n_used j rule: hole_end.induct)
  case (1 cs n_used j)
  have j: "j < n_used \<and> is_empty (cs ! j)" using 1(2,3) by (subst (asm) hole_end.simps) (auto split: if_splits)
  then have eq: "hole_end cs n_used j = hole_end cs n_used (j + 1)" by (subst hole_end.simps) simp
  show ?case
  proof (cases "k = j")
    case False
    then show ?thesis using 1(1)[OF j] 1(2,3) unfolding eq by simp
  qed (use j in simp)
qed

lemma hole_end_le: "j \<le> n_used \<Longrightarrow> hole_end cs n_used j \<le> n_used"
  by (induction cs n_used j rule: hole_end.induct) (subst hole_end.simps, auto)

lemma defrag_loop_inv:
  assumes "defrag_inv n_kv n_used head0 cs0 i st" "n_used = card (used_set cs0)" "\<And>j. j \<in> used_set cs0 \<Longrightarrow> j < n_kv"
  shows "\<exists>st' i'. defrag_loop n_kv n_used mx i st = Inr st' \<and> defrag_inv n_kv n_used head0 cs0 i' st' \<and> (n_used \<le> i' \<or> df_moves st' = mx)"
  using assms(1)
proof (induction "n_used - i" arbitrary: i st rule: less_induct)
  case less
  show ?case
  proof (cases "i < n_used")
    case False
    then show ?thesis using less.prems by (subst defrag_loop.simps) auto
  next
    case i: True
    show ?thesis
    proof (cases "occupied (df_cells st ! i)")
      case True
      have "n_used - (i + 1) < n_used - i" using i by simp
      from less.hyps[OF this inv_keep[OF less.prems i True]] show ?thesis
        using i True by (subst defrag_loop.simps) (simp add: empty_not_occupied)
    next
      case False
      define nh where "nh = hole_end (df_cells st) n_used (i + 1) - i"
      have nh: "0 < nh" "i + nh \<le> n_used" using hole_end_ge[of "i + 1" "df_cells st" n_used] hole_end_le[of "i + 1" n_used "df_cells st"] i
        unfolding nh_def by linarith+
      have hole: "\<not> occupied (df_cells st ! j)" if "i \<le> j" "j < i + nh" for j
      proof (cases "j = i")
        case False
        then show ?thesis using hole_end_empty[of "i + 1" j "df_cells st" n_used] that by (simp add: nh_def empty_not_occupied)
      qed (use False in simp)
      have r: "relocated n_used cs0 (df_cells st) (df_ids st)" "length (df_ids st) = n_kv" using less.prems unfolding defrag_inv_def by auto
      note n = relocated_dims[OF r(1)]
      let ?U = "used_set (df_cells st)" and ?high = "{j. n_used \<le> j \<and> j < n_kv \<and> occupied (df_cells st ! j)}"
      have "?U = {j \<in> ?U. j < n_used} \<union> ?high"
        using relocated_above[OF r(1)] assms(3) r(2) n by (auto simp: used_set_def)
      moreover have "{j \<in> ?U. j < n_used} \<inter> ?high = {}" by auto
      moreover have "finite {j \<in> ?U. j < n_used}" "finite ?high" using finite_used by auto
      ultimately have "card ?U = card {j \<in> ?U. j < n_used} + card ?high" by (metis card_Un_disjoint)
      moreover have "card {j \<in> ?U. j < n_used} \<le> card ({..<n_used} - {i..<i + nh})"
        by (rule card_mono) (use hole in \<open>auto simp: used_set_def\<close>)
      moreover have "card ({..<n_used} - {i..<i + nh}) = n_used - nh" using nh by (subst card_Diff_subset) auto
      ultimately have high: "nh \<le> card ?high" using relocated_count[OF r(1)] assms(2) nh by linarith
      have high_a: "?high = {j. n_used \<le> j \<and> j \<le> n_kv - 1 \<and> available (df_cells st) (df_ids st) n_kv j}"
        using inv_available(1)[OF less.prems] i n r(2) by auto
      have "finite {j. i < j \<and> j \<le> n_kv - 1 \<and> available (df_cells st) (df_ids st) n_kv j}" by (rule finite_subset[of _ "{..n_kv}"]) auto
      then have "nh \<le> 0 + card {j. i < j \<and> j \<le> n_kv - 1 \<and> available (df_cells st) (df_ids st) n_kv j}"
        using high card_mono[of _ ?high] i unfolding high_a by (metis (no_types, lifting) add_0 le_trans mem_Collect_eq order.strict_trans2 subsetI)
      from find_sources_found[OF nh(1) this] obtain p where p:
        "find_sources (df_cells st) (df_ids st) n_kv i nh (n_kv - 1) 0 = (p, nh)" "i < p" "p \<le> n_kv - 1"
        "available (df_cells st) (df_ids st) n_kv p"
        "card {j. p \<le> j \<and> j \<le> n_kv - 1 \<and> available (df_cells st) (df_ids st) n_kv j} = nh"
        by auto
      have pn: "n_used \<le> p"
      proof (rule ccontr)
        assume np: "\<not> n_used \<le> p"
        then have "insert p ?high \<subseteq> {j. p \<le> j \<and> j \<le> n_kv - 1 \<and> available (df_cells st) (df_ids st) n_kv j}"
          unfolding high_a using p(3,4) by auto
        then have "card (insert p ?high) \<le> nh" using p(5) card_mono[of "{j. p \<le> j \<and> j \<le> n_kv - 1 \<and> available (df_cells st) (df_ids st) n_kv j}"]
          by (metis (no_types, lifting) card_eq_0_iff nh(1) less_not_refl)
        moreover have "p \<notin> ?high" using np by simp
        moreover have "finite ?high" by simp
        ultimately show False using high by simp
      qed
      have "{j. p \<le> j \<and> j \<le> n_kv - 1 \<and> available (df_cells st) (df_ids st) n_kv j} = {j. p \<le> j \<and> j < n_kv \<and> occupied (df_cells st ! j)}"
        using inv_available(1)[OF less.prems] pn i n r(2) by auto
      then have "nh \<le> 0 + card {j. p \<le> j \<and> j < n_kv \<and> occupied (df_cells st ! j)}" using p(5) by simp
      with fill_hole_inv[of n_kv n_used head0 cs0 i 0 st nh p False mx] less.prems nh pn hole
      obtain st' stop nf' where f: "fill_hole n_kv n_used mx i nh p 0 False st = (st', stop)" "nf' \<le> nh"
        "defrag_inv n_kv n_used head0 cs0 (i + nf') st'" "stop \<longrightarrow> df_moves st' = mx" "\<not> stop \<longrightarrow> nf' = nh" by auto
      have eq: "defrag_loop n_kv n_used mx i st =
        (if stop \<or> df_moves st' = mx then Inr st' else defrag_loop n_kv n_used mx (i + nh) st')"
        using i False p(1) f(1) nh_def[symmetric] by (subst defrag_loop.simps) (simp add: empty_not_occupied Let_def)
      show ?thesis
      proof (cases "stop \<or> df_moves st' = mx")
        case True
        then show ?thesis using eq f by auto
      next
        case go: False
        have "n_used - (i + nh) < n_used - i" using nh i by simp
        from less.hyps[OF this] show ?thesis using eq f go by auto
      qed
    qed
  qed
qed

section \<open>The rows\<close>

lemma copy_rows_nth:
  assumes "dst + nm \<le> length rows" "i + nm \<le> length rows"
  shows "length (copy_rows i dst nm rows) = length rows"
    "j < length rows \<Longrightarrow> copy_rows i dst nm rows ! j = (if dst \<le> j \<and> j < dst + nm then rows ! (i + (j - dst)) else rows ! j)"
proof -
  have l: "length (take dst rows) = dst" "length (take nm (drop i rows)) = nm" using assms by simp_all
  then show "length (copy_rows i dst nm rows) = length rows" using assms by (simp add: copy_rows_def del: length_take)
  have "copy_rows i dst nm rows ! j =
    (if j < dst then rows ! j else if j - dst < nm then rows ! (i + (j - dst)) else rows ! (dst + nm + (j - dst - nm)))" if "j < length rows"
    using assms that l by (simp add: copy_rows_def nth_append del: length_take)
  then show "j < length rows \<Longrightarrow> copy_rows i dst nm rows ! j = (if dst \<le> j \<and> j < dst + nm then rows ! (i + (j - dst)) else rows ! j)"
    by auto
qed

lemma block_length_ids:
  assumes "\<forall>k < nm. i + k < length ids \<and> ids ! (i + k) = dst + k"
  shows "\<forall>k < block_length ids i dst nm. i + k < length ids \<and> ids ! (i + k) = dst + k"
  using assms
proof (induction ids i dst nm rule: block_length.induct)
  case (1 ids i dst nm)
  show ?case
  proof (cases "i + nm < length ids \<and> ids ! (i + nm) = dst + nm")
    case True
    then have eq: "block_length ids i dst nm = block_length ids i dst (nm + 1)" by (subst block_length.simps) simp
    have "\<forall>k < nm + 1. i + k < length ids \<and> ids ! (i + k) = dst + k" using 1(2) True by (auto simp: less_Suc_eq)
    then show ?thesis unfolding eq by (rule 1(1)[OF True])
  next
    case False
    then have "block_length ids i dst nm = nm" by (subst block_length.simps) (simp only: if_False)
    then show ?thesis using 1(2) by simp
  qed
qed

definition copy_blocks :: "(nat \<times> nat \<times> nat) list \<Rightarrow> 'r list \<Rightarrow> 'r list" where
  "copy_blocks bs rows = foldl (\<lambda>rows (i, dst, nm). copy_rows i dst nm rows) rows bs"

lemma copy_blocks_Nil: "copy_blocks [] = (\<lambda>rows. rows)"
  by (simp add: copy_blocks_def fun_eq_iff)

text \<open>A row list in which the moves of the ids below \<open>i\<close> are done.\<close>

definition rows_until :: "nat list \<Rightarrow> nat \<Rightarrow> 'r list \<Rightarrow> 'r list \<Rightarrow> bool" where
  "rows_until ids i rows0 rows \<longleftrightarrow> length rows = length rows0 \<and>
     (\<forall>s < i. moved ids s \<longrightarrow> rows ! (ids ! s) = rows0 ! s) \<and>
     (\<forall>j < length rows0. (\<forall>s < i. moved ids s \<longrightarrow> ids ! s \<noteq> j) \<longrightarrow> rows ! j = rows0 ! j)"

lemma rows_until_block:
  assumes "relocated n_used cs0 cs ids" "length ids \<le> length rows0" "rows_until ids i rows0 rows" "moved ids i"
  defines "nm \<equiv> block_length ids i (ids ! i) 1"
  shows "rows_until ids (i + nm) rows0 (copy_rows i (ids ! i) nm rows)"
proof -
  let ?d = "ids ! i"
  note D = relocatedD[OF assms(1)] and inj = relocated_inj[OF assms(1)] and n = relocated_dims[OF assms(1)]
  have R: "length rows = length rows0" "\<And>s. s < i \<Longrightarrow> moved ids s \<Longrightarrow> rows ! (ids ! s) = rows0 ! s"
    "\<And>j. j < length rows0 \<Longrightarrow> (\<And>s. s < i \<Longrightarrow> moved ids s \<Longrightarrow> ids ! s \<noteq> j) \<Longrightarrow> rows ! j = rows0 ! j"
    using assms(3) unfolding rows_until_def by auto
  have blk: "i + k < length ids" "ids ! (i + k) = ?d + k" if "k < nm" for k
    using block_length_ids[of 1 i ids ?d] that moved_inside[OF assms(4)] unfolding nm_def by auto
  have dlt: "?d < i" using D(1,2)[OF assms(4)] by simp
  have mv: "moved ids (i + k)" if "k < nm" for k using blk[OF that] dlt unfolding moved_def by simp
  have fit: "?d + nm \<le> length rows" "i + nm \<le> length rows"
  proof -
    have "0 < nm" using block_length_ge[of 1 ids i ?d] unfolding nm_def by simp
    then have "i + (nm - 1) < length ids" "0 < nm" using blk(1)[of "nm - 1"] by simp_all
    then show "i + nm \<le> length rows" "?d + nm \<le> length rows" using assms(2) R(1) dlt by simp_all
  qed
  note cp = copy_rows_nth[OF fit]
  have src: "rows ! (i + k) = rows0 ! (i + k)" if "k < nm" for k
  proof (rule R(3))
    show "i + k < length rows0" using blk(1)[OF that] assms(2) by simp
    show "ids ! s \<noteq> i + k" if "moved ids s" for s using D(2)[OF that] D(1)[OF mv[OF \<open>k < nm\<close>]] by simp
  qed
  have "copy_rows i ?d nm rows ! (ids ! s) = rows0 ! s" if "s < i + nm" "moved ids s" for s
  proof (cases "s < i")
    case True
    have "\<not> (?d \<le> ids ! s \<and> ids ! s < ?d + nm)"
    proof
      assume "?d \<le> ids ! s \<and> ids ! s < ?d + nm"
      then have k: "ids ! s - ?d < nm" "ids ! (i + (ids ! s - ?d)) = ids ! s" using blk(2)[of "ids ! s - ?d"] by auto
      from inj[OF that(2) mv[OF k(1)]] k(2) True show False by simp
    qed
    moreover have lt: "ids ! s < length rows" using D(2)[OF that(2)] n R(1) assms(2) by simp
    ultimately show ?thesis using R(2)[OF True that(2)] by (simp only: cp(2)[OF lt] if_False)
  next
    case False
    then obtain k where s: "s = i + k" using le_iff_add[of i s] by auto
    then have k: "s = i + k" "k < nm" using that(1) by simp_all
    have "ids ! s < length rows" using D(2)[OF that(2)] n R(1) assms(2) by simp
    moreover have "?d \<le> ids ! s \<and> ids ! s < ?d + nm" "i + (ids ! s - ?d) = s" using blk(2)[OF k(2)] k by simp_all
    ultimately show ?thesis using src[OF k(2)] k(1) by (simp only: cp(2) if_True simp_thms)
  qed
  moreover have "copy_rows i ?d nm rows ! j = rows0 ! j" if "j < length rows0" "\<forall>s < i + nm. moved ids s \<longrightarrow> ids ! s \<noteq> j" for j
  proof -
    have "\<not> (?d \<le> j \<and> j < ?d + nm)"
    proof
      assume "?d \<le> j \<and> j < ?d + nm"
      then have "j - ?d < nm" "ids ! (i + (j - ?d)) = j" using blk(2)[of "j - ?d"] by auto
      then show False using that(2) mv by auto
    qed
    moreover have "rows ! j = rows0 ! j" by (rule R(3)[OF that(1)]) (use that(2) in auto)
    moreover have "j < length rows" using that(1) R(1) by simp
    ultimately show ?thesis by (simp only: cp(2) if_False)
  qed
  ultimately show ?thesis using cp(1) R(1) unfolding rows_until_def by simp
qed

lemma defrag_blocks_rows:
  assumes "relocated n_used cs0 cs ids" "length ids \<le> length rows0" "rows_until ids i rows0 rows"
  shows "rows_until ids (length ids) rows0 (copy_blocks (defrag_blocks ids i) rows)"
  using assms
proof (induction ids i arbitrary: rows rule: defrag_blocks.induct)
  case (1 ids i)
  show ?case
  proof (cases "i < length ids")
    case False
    then have "defrag_blocks ids i = []" by (subst defrag_blocks.simps) simp
    moreover have "moved ids s \<Longrightarrow> s < i \<and> s < length ids" for s using moved_inside[of ids s] False by simp
    ultimately show ?thesis using "1.prems"(3) unfolding rows_until_def copy_blocks_def by auto
  next
    case l: True
    show ?thesis
    proof (cases "i = ids ! i \<or> ids ! i = length ids")
      case True
      then have "rows_until ids (i + 1) rows0 rows" using "1.prems"(3) by (auto simp: rows_until_def moved_def less_Suc_eq)
      moreover have "defrag_blocks ids i = defrag_blocks ids (i + 1)" using l True by (subst defrag_blocks.simps) simp
      ultimately show ?thesis using "1.IH"(1)[OF l True "1.prems"(1,2)] by simp
    next
      case False
      let ?nm = "block_length ids i (ids ! i) 1"
      have "moved ids i" using l False by (auto simp: moved_def)
      from rows_until_block[OF "1.prems" this] have "rows_until ids (i + ?nm) rows0 (copy_rows i (ids ! i) ?nm rows)" .
      moreover have "defrag_blocks ids i = (i, ids ! i, ?nm) # defrag_blocks ids (i + ?nm)"
        using l False by (subst defrag_blocks.simps) (auto simp: Let_def)
      ultimately show ?thesis using "1.IH"(2)[OF l False refl "1.prems"(1,2)] by (simp add: copy_blocks_def)
    qed
  qed
qed

lemma defrag_rows:
  assumes "relocated n_used cs0 cs ids" "length rows = length cs0" "j < length cs0" "occupied (cs0 ! j)"
  shows "length (copy_blocks (defrag_blocks ids 0) rows) = length rows"
    "copy_blocks (defrag_blocks ids 0) rows ! new_id ids j = rows ! j"
proof -
  note n = relocated_dims[OF assms(1)]
  have "rows_until ids 0 rows rows" by (simp add: rows_until_def)
  from defrag_blocks_rows[OF assms(1) _ this] n assms(2)
  have R: "rows_until ids (length ids) rows (copy_blocks (defrag_blocks ids 0) rows)" by simp
  then show "length (copy_blocks (defrag_blocks ids 0) rows) = length rows" by (simp add: rows_until_def)
  have "ids ! s \<noteq> j" if "moved ids s" for s using relocatedD(4)[OF assms(1) that] assms(4) by auto
  then show "copy_blocks (defrag_blocks ids 0) rows ! new_id ids j = rows ! j"
    using R assms(2,3) moved_inside[of ids j] unfolding rows_until_def new_id_def by auto
qed

text \<open>The graph moves the rows of every attention tensor in the same way.\<close>

definition attention_ref :: "'r kv_model \<Rightarrow> 'r kv_tensors \<Rightarrow> tensor_ref \<Rightarrow> bool" where
  "attention_ref m ts r \<longleftrightarrow>
     (let il = (case r of Ref_k il \<Rightarrow> il | Ref_v il \<Rightarrow> il | Ref_kr il \<Rightarrow> il)
      in \<not> recurrent_layer m il \<and> layer_at (k_l ts) il \<noteq> None \<and> tensor_of ts r \<noteq> None)"

lemma run_copy_tensor:
  assumes "tensor_of ts r' \<noteq> None"
  shows "tensor_of (run_copy ts (r', i, dst, nm)) r = (if r = r' then map_option (copy_rows i dst nm) (tensor_of ts r) else tensor_of ts r)"
  using assms by (cases r; cases r') (auto simp: run_copy_def on_layer_def layer_at_def split: if_splits)

lemma run_copies_tensor:
  assumes "\<forall>c \<in> set g. tensor_of ts (fst c) \<noteq> None"
  shows "tensor_of (foldl run_copy ts g) r = map_option (copy_blocks (map snd (filter (\<lambda>c. fst c = r) g))) (tensor_of ts r)"
  using assms
proof (induction g arbitrary: ts)
  case Nil
  then show ?case by (simp add: copy_blocks_def option.map_ident)
next
  case (Cons c g)
  obtain r' i dst nm where c: "c = (r', i, dst, nm)" by (cases c) auto
  have t: "tensor_of (run_copy ts c) q = (if q = r' then map_option (copy_rows i dst nm) (tensor_of ts q) else tensor_of ts q)" for q
    using run_copy_tensor[of ts r' i dst nm q] Cons.prems c by simp
  have "\<forall>c' \<in> set g. tensor_of (run_copy ts c) (fst c') \<noteq> None" using Cons.prems by (auto simp: t)
  from Cons.IH[OF this] show ?case using t[of r] c by (cases "tensor_of ts r") (auto simp: copy_blocks_def)
qed

lemma layer_copies_ref:
  "map snd (filter (\<lambda>c. fst c = r) (layer_copies m ts i dst nm il)) =
    (if attention_ref m ts r \<and> il = (case r of Ref_k n \<Rightarrow> n | Ref_v n \<Rightarrow> n | Ref_kr n \<Rightarrow> n) then [(i, dst, nm)] else [])"
  by (cases r) (auto simp: layer_copies_def attention_ref_def Let_def)

lemma concat_single: "concat (map (\<lambda>j. if j = i then [x] else []) [0..<n]) = (if i < n then [x] else [])"
  by (induction n) auto

lemma block_copies_ref:
  "map snd (filter (\<lambda>c. fst c = r) (concat (map (layer_copies m ts i dst nm) [0..<length (k_l ts)]))) =
    (if attention_ref m ts r then [(i, dst, nm)] else [])"
proof -
  define n where "n = (case r of Ref_k n \<Rightarrow> n | Ref_v n \<Rightarrow> n | Ref_kr n \<Rightarrow> n)"
  have eq: "map snd (filter (\<lambda>c. fst c = r) (concat (map (layer_copies m ts i dst nm) [0..<length (k_l ts)]))) =
    concat (map (\<lambda>il. if attention_ref m ts r \<and> il = n then [(i, dst, nm)] else []) [0..<length (k_l ts)])"
    by (simp add: filter_concat map_concat comp_def layer_copies_ref n_def)
  have "n < length (k_l ts)" if "attention_ref m ts r"
    using that unfolding attention_ref_def n_def layer_at_def by (auto simp: Let_def split: tensor_ref.splits if_splits)
  then show ?thesis unfolding eq by (cases "attention_ref m ts r") (simp_all add: concat_single)
qed

lemma build_defrag_ref:
  "map snd (filter (\<lambda>c. fst c = r) (build_defrag m ts ids)) = (if attention_ref m ts r then defrag_blocks ids 0 else [])"
proof -
  have "map snd (filter (\<lambda>c. fst c = r) (concat (map (\<lambda>(i, dst, nm). concat (map (layer_copies m ts i dst nm) [0..<length (k_l ts)])) bs))) =
    (if attention_ref m ts r then bs else [])" for bs
  proof (induction bs)
    case (Cons b bs)
    show ?case by (cases b) (simp only: Cons list.map concat.simps prod.case filter_append map_append block_copies_ref, simp)
  qed simp
  then show ?thesis by (simp add: build_defrag_def)
qed

lemma build_defrag_refs: "c \<in> set (build_defrag m ts ids) \<Longrightarrow> tensor_of ts (fst c) \<noteq> None"
  by (auto simp: build_defrag_def layer_copies_def split: if_splits)

lemma defrag_tensor:
  "tensor_of (foldl run_copy ts (build_defrag m ts ids)) r =
    (if attention_ref m ts r then map_option (copy_blocks (defrag_blocks ids 0)) (tensor_of ts r) else tensor_of ts r)"
proof -
  have "\<forall>c \<in> set (build_defrag m ts ids). tensor_of ts (fst c) \<noteq> None" using build_defrag_refs by blast
  from run_copies_tensor[OF this, of r] show ?thesis by (simp add: build_defrag_ref copy_blocks_Nil option.map_ident)
qed

lemma defrag_attention_ref:
  "attention_ref m (foldl run_copy ts (build_defrag m ts ids)) r \<longleftrightarrow> attention_ref m ts r"
proof -
  let ?ts = "foldl run_copy ts (build_defrag m ts ids)"
  have none: "tensor_of ?ts q = None \<longleftrightarrow> tensor_of ts q = None" for q by (simp add: defrag_tensor)
  then have "layer_at (k_l ?ts) il = None \<longleftrightarrow> layer_at (k_l ts) il = None" for il using none[of "Ref_k il"] by simp
  then show ?thesis using none unfolding attention_ref_def Let_def by metis
qed

end
