(* ===== verification/KvApi.thy ===== *)
theory KvApi
  imports KvDefrag
begin

text \<open>
  The operations that an application calls on the KV cache of a context (\<open>src/llama.cpp\<close>), and what \<open>llama_decode_internal\<close>
  does to the cache before and after it evaluates a batch: deferred work, choice of a slot, compaction of the window of
  sliding-window layers, advance of the ring buffer.  The names of the overloads on a context have the prefix \<open>ctx_\<close>.
  The state that DeepSeek4 keeps beside the cache is not modelled.
\<close>

section \<open>The interface\<close>

definition mark_stale :: "bool \<Rightarrow> 'r kv_context \<Rightarrow> 'r kv_context" where
  "mark_stale b ctx = (if b then ctx\<lparr>qsa_pooled_stale := True\<rparr> else ctx)"

definition ctx_kv_cache_clear :: "'r kv_context \<Rightarrow> 'r kv_context" where
  "ctx_kv_cache_clear ctx0 =
     (let ctx = llama_qwen4_mtp_qsa_reset ctx0
      in ctx\<lparr>kv_self := llama_kv_cache_clear (kv_self ctx), qsa_pooled_stale := (kp_l_count ctx \<noteq> 0), qsa_pooled_seq := - 1\<rparr>)"

definition ctx_kv_cache_seq_rm ::
  "'r kv_context \<Rightarrow> llama_seq_id \<Rightarrow> llama_pos \<Rightarrow> llama_pos \<Rightarrow> kv_error + (bool \<times> 'r kv_context)" where
  "ctx_kv_cache_seq_rm ctx0 seq_id p0 p1 =
     (let ctx = llama_qwen4_mtp_qsa_reset ctx0; cache = kv_self ctx;
          track_qsa_pool = (kv_qsa cache \<and> \<not> qsa_pooled_stale ctx \<and>
            (any_compacted cache \<or> qsa_pooled_seq ctx < 0 \<or> seq_id < 0 \<or> seq_id = qsa_pooled_seq ctx));
          effect = \<lparr>e_qsa_pooled_seq = qsa_pooled_seq ctx, e_seq_membership_removed = False, e_qsa_pool_preserved = True\<rparr>
      in case llama_kv_cache_seq_rm cache seq_id p0 p1 (if track_qsa_pool then Some effect else None) of
           Inl e \<Rightarrow> Inl e
         | Inr (result, cache', effect') \<Rightarrow>
             Inr (result, mark_stale (result \<and> (case effect' of Some e \<Rightarrow> \<not> e_qsa_pool_preserved e | None \<Rightarrow> False)) (ctx\<lparr>kv_self := cache'\<rparr>)))"

definition ctx_kv_cache_seq_cp ::
  "'r kv_context \<Rightarrow> llama_seq_id \<Rightarrow> llama_seq_id \<Rightarrow> llama_pos \<Rightarrow> llama_pos \<Rightarrow> kv_error + 'r kv_context" where
  "ctx_kv_cache_seq_cp ctx0 seq_id_src seq_id_dst p0 p1 =
     (if seq_id_src = seq_id_dst then Inr ctx0
      else
        (let ctx = llama_qwen4_mtp_qsa_reset ctx0
         in map_sum id (\<lambda>cache. mark_stale (kv_qsa cache) (ctx\<lparr>kv_self := cache\<rparr>))
              (llama_kv_cache_seq_cp (kv_self ctx) seq_id_src seq_id_dst p0 p1)))"

definition ctx_kv_cache_seq_keep :: "'r kv_context \<Rightarrow> llama_seq_id \<Rightarrow> kv_error + 'r kv_context" where
  "ctx_kv_cache_seq_keep ctx0 seq_id =
     (let ctx = llama_qwen4_mtp_qsa_reset ctx0
      in map_sum id (\<lambda>cache. if kv_qsa cache then ctx\<lparr>kv_self := cache, qsa_pooled_stale := True, qsa_pooled_seq := seq_id\<rparr>
                             else ctx\<lparr>kv_self := cache\<rparr>)
           (llama_kv_cache_seq_keep (kv_self ctx) seq_id))"

definition ctx_kv_cache_seq_add ::
  "'r kv_context \<Rightarrow> llama_seq_id \<Rightarrow> llama_pos \<Rightarrow> llama_pos \<Rightarrow> llama_pos \<Rightarrow> kv_error + 'r kv_context" where
  "ctx_kv_cache_seq_add ctx0 seq_id p0 p1 delta =
     (if delta = 0 then Inr ctx0
      else
        (let ctx = llama_qwen4_mtp_qsa_reset ctx0
         in map_sum id (\<lambda>cache. mark_stale (kv_qsa cache) (ctx\<lparr>kv_self := cache\<rparr>))
              (llama_kv_cache_seq_add (kv_self ctx) seq_id p0 p1 delta)))"

definition ctx_kv_cache_seq_div ::
  "'r kv_context \<Rightarrow> llama_seq_id \<Rightarrow> llama_pos \<Rightarrow> llama_pos \<Rightarrow> int \<Rightarrow> kv_error + 'r kv_context" where
  "ctx_kv_cache_seq_div ctx0 seq_id p0 p1 d =
     (if d = 1 then Inr ctx0
      else
        (let ctx = llama_qwen4_mtp_qsa_reset ctx0
         in map_sum id (\<lambda>cache. mark_stale (kv_qsa cache) (ctx\<lparr>kv_self := cache\<rparr>))
              (llama_kv_cache_seq_div (kv_self ctx) seq_id p0 p1 d)))"

definition ctx_kv_cache_seq_pos_min :: "'r kv_context \<Rightarrow> llama_seq_id \<Rightarrow> llama_pos" where
  "ctx_kv_cache_seq_pos_min ctx seq_id =
     (if kv_hybrid (kv_self ctx) \<or> kv_recurrent (kv_self ctx) then llama_kv_cache_seq_pos_max (kv_self ctx) seq_id
      else llama_kv_cache_seq_pos_min (kv_self ctx) seq_id)"

definition ctx_kv_cache_defrag :: "'r kv_context \<Rightarrow> 'r kv_context" where
  "ctx_kv_cache_defrag ctx = ctx\<lparr>kv_self := llama_kv_cache_defrag (kv_self ctx)\<rparr>"

text \<open>The view for applications: positions and sequences of the cells, and the longest run of free cells.\<close>

record kv_view =
  vw_pos :: "llama_pos list"
  vw_token_count :: nat
  vw_used_cells :: nat
  vw_max_contiguous :: nat
  vw_max_contiguous_idx :: int

text \<open>The loop over the cells: start of the current run of free cells (negative for none), and the longest run so far.\<close>

fun view_runs :: "kv_cell list \<Rightarrow> nat \<Rightarrow> int \<Rightarrow> nat \<Rightarrow> int \<Rightarrow> int \<times> nat \<times> int" where
  "view_runs [] i curr_contig_idx max_contig max_contig_idx = (curr_contig_idx, max_contig, max_contig_idx)"
| "view_runs (c # cs) i curr_contig_idx max_contig max_contig_idx =
     (if c_seq c \<noteq> {} then
        (if curr_contig_idx \<ge> 0 \<and> i - nat curr_contig_idx > max_contig
         then view_runs cs (i + 1) (- 1) (i - nat curr_contig_idx) curr_contig_idx
         else view_runs cs (i + 1) (- 1) max_contig max_contig_idx)
      else view_runs cs (i + 1) (if curr_contig_idx < 0 then int i else curr_contig_idx) max_contig max_contig_idx)"

definition llama_kv_cache_view_update :: "kv_cache \<Rightarrow> nat \<Rightarrow> kv_view" where
  "llama_kv_cache_view_update cache n_seq_max =
     (let cs = kv_cells cache;
          (curr, max_contig, max_contig_idx) = view_runs cs 0 (- 1) 0 (- 1);
          last = (curr \<ge> 0 \<and> length cs - nat curr > max_contig)
      in \<lparr>vw_pos = map (\<lambda>c. c_pos c + c_delta c) cs,
          vw_token_count = sum_list (map (\<lambda>c. card (c_seq c)) cs),
          vw_used_cells = length (filter (\<lambda>c. c_seq c \<noteq> {} \<and> n_seq_max > 0) cs),
          vw_max_contiguous = (if last then length cs - nat curr else max_contig),
          vw_max_contiguous_idx = (if last then curr else max_contig_idx)\<rparr>)"

section \<open>The cache around the evaluation of a batch\<close>

text \<open>Compaction of the rows of sliding-window layers: the last \<open>W\<close> live rows move down to the sinks.\<close>

definition compact_layers :: "nat \<Rightarrow> nat list \<Rightarrow> nat \<Rightarrow> nat \<Rightarrow> nat \<Rightarrow> 'r option list \<Rightarrow> 'q list option list \<Rightarrow> 'q list option list" where
  "compact_layers sz row_count src dst w ks ts =
     map (\<lambda>(il, t). if row_count ! il < sz \<and> layer_at ks il \<noteq> None then map_option (copy_rows src dst w) t else t) (enumerate 0 ts)"

text \<open>The capacity for positions that the padding of the kernels leaves.\<close>

definition swa_capacity :: "bool \<Rightarrow> kv_cache \<Rightarrow> nat" where
  "swa_capacity flash_attn cache =
     (let pad = get_padding flash_attn; room = u32_sub (kv_size_swa cache) (kv_sink_rows cache)
      in if pad > 1 then room div pad * pad else room)"

definition llama_kv_cache_compact_swa :: "bool \<Rightarrow> nat \<Rightarrow> 'r kv_context \<Rightarrow> kv_error + 'r kv_context" where
  "llama_kv_cache_compact_swa flash_attn n_tokens ctx =
     (let cache = kv_self ctx; w = kv_window_swa cache; c = swa_capacity flash_attn cache; live = live_swa cache
      in if \<not> any_compacted cache then Inr ctx
         else if n_tokens > c then Inl (Kv_abort ''n_tokens <= C'')
         else if live + n_tokens \<le> c then Inr ctx
         else if live < w then Inl (Kv_abort ''the retained window must lie inside the live region'')
         else
           (let src_row = kv_sink_rows cache + live - w; dst_row = kv_sink_rows cache; ts = kv_data ctx;
                compact = compact_layers (kv_size cache) (kv_row_count cache) src_row dst_row w (k_l ts)
            in Inr (ctx\<lparr>kv_data := ts\<lparr>k_l := compact (k_l ts), v_l := compact (v_l ts)\<rparr>,
                 kv_self := cache\<lparr>kv_pos_base_swa := kv_pos_base_swa cache + int (live - w), kv_head_swa := kv_sink_rows cache + w\<rparr>\<rparr>)))"

text \<open>Before the evaluation: the value to return if it is not zero, and the context.\<close>

definition decode_prepare :: "'r kv_model \<Rightarrow> bool \<Rightarrow> kv_batch \<Rightarrow> llama_token \<Rightarrow> bool \<Rightarrow> 'r kv_context \<Rightarrow> kv_error + (int \<times> 'r kv_context)" where
  "decode_prepare m flash_attn batch embd_token set_meta ctx0 =
     (case llama_kv_cache_update_internal m ctx0 of
        Inl e \<Rightarrow> Inl e
      | Inr (ret, ctx) \<Rightarrow>
          (if ret \<noteq> 0 then Inr (ret, ctx)
           else
             (let cache = kv_self ctx; n = b_n_tokens batch;
                  cache1 = (if kv_head cache > kv_used cache + 2 * n then cache\<lparr>kv_head := 0\<rparr> else cache);
                  (found, cache2) = llama_kv_cache_find_slot cache1 batch embd_token set_meta
              in if \<not> found then Inr (1, ctx\<lparr>kv_self := cache2\<rparr>)
                 else if kv_qsa cache2 \<and> (n = 0 \<or> hd (b_seq batch) = []) then Inl (Kv_abort ''u_batch.n_tokens > 0'')
                 else
                   (let active_seq = hd (hd (b_seq batch));
                        ctx1 = (if kv_qsa cache2 \<and> qsa_pooled_seq ctx \<noteq> active_seq
                                then ctx\<lparr>qsa_pooled_seq := active_seq, qsa_pooled_stale := True\<rparr> else ctx);
                        n_kv = (if kv_recurrent cache2 then Some (kv_n cache2) else decode_n_kv cache2 (get_padding flash_attn))
                    in case n_kv of
                         None \<Rightarrow> Inl (Kv_abort ''cells[i - 1]'')
                       | Some k \<Rightarrow>
                           map_sum id (\<lambda>ctx2. (0, ctx2)) (llama_kv_cache_compact_swa flash_attn n (ctx1\<lparr>kv_self := cache2\<lparr>kv_n := k\<rparr>\<rparr>))))))"

text \<open>After it: the ring buffer advances.\<close>

definition decode_advance :: "nat \<Rightarrow> 'r kv_context \<Rightarrow> kv_error + 'r kv_context" where
  "decode_advance n_tokens ctx =
     (let cache = kv_self ctx;
          head = u32 (kv_head cache + n_tokens);
          head_swa = (if any_compacted cache then u32 (kv_head_swa cache + n_tokens) else kv_head_swa cache)
      in if any_compacted cache \<and> head_swa > kv_size_swa cache then Inl (Kv_abort ''kv_self.head_swa <= kv_self.size_swa'')
         else Inr (ctx\<lparr>kv_self := cache\<lparr>kv_head := (if head \<ge> kv_size cache then 0 else head), kv_head_swa := head_swa\<rparr>\<rparr>))"

end
