(* ===== verification/KvCacheTheorems.thy ===== *)
theory KvCacheTheorems
  imports KvCacheProps
begin

text \<open>
  What the KV cache guarantees to its users: the refinement of every operation, exactness of the slot search,
  the invariant of all reachable caches, the extent of the attention window, and the inputs on which two
  queries and the copy of a sequence do not do what their documentation says.
\<close>

section \<open>Concrete caches\<close>

definition demo_cell :: "llama_pos \<Rightarrow> llama_seq_id set \<Rightarrow> kv_cell" where
  "demo_cell p S = default_cell\<lparr>c_pos := p, c_seq := S\<rparr>"

definition demo_cache :: "nat option list \<Rightarrow> nat \<Rightarrow> kv_cell list \<Rightarrow> kv_cache" where
  "demo_cache states used cs =
     \<lparr>kv_has_shift = False, kv_do_defrag = False, kv_do_copy = False, kv_recurrent = False, kv_hybrid = states \<noteq> [],
      kv_mrope = False, kv_qsa = False, kv_position_strict = False, kv_head = 0, kv_size = length cs, kv_used = used,
      kv_row_count = [], kv_size_swa = 0, kv_sink_rows = 0, kv_window_swa = 0, kv_head_swa = 0, kv_pos_base_swa = 0,
      kv_n = 0, kv_cells = cs, kv_s_l = states\<rparr>"

definition demo4 :: kv_cache where
  "demo4 = demo_cache [] 3 [demo_cell 0 {0}, demo_cell 1 {0, 1}, demo_cell (- 1) {}, demo_cell 2 {1}]"

lemmas demo_defs = demo4_def demo_cache_def demo_cell_def default_cell_def

text \<open>Rules that run an operation on a concrete cache.\<close>

lemmas run_defs = demo_defs cell_loop.simps lo_pos_def hi_pos_def has_seq_id_def is_empty_def
  llama_kv_has_qnext_state_storage_def llama_kv_qnext_state_slots_def any_compacted_def Let_def

lemmas abs_defs = kv_abs_def abs_cell_def acell_of_def spec_rm_def spec_keep_def spec_add_def spec_cp_def spec_div_def

lemma demo4_wf: "kv_wf demo4"
  by (simp add: demo_defs kv_wf_def cell_wf_def occupied_def)

section \<open>Refinement of the operations\<close>

text \<open>C7. Removing a range of a sequence (\<open>llama_kv_cache_seq_rm\<close>): when the call reports success, the invariant
  is kept, in particular \<open>used\<close> stays exact, and every cell in the range loses exactly the sequence (all
  sequences for a negative id), a cell that thereby has none left being freed.\<close>

theorem seq_rm_refines:
  assumes "kv_wf cache" "llama_kv_cache_seq_rm cache s p0 p1 effect = Inr (True, cache', effect')"
  shows "kv_wf cache' \<and> kv_abs cache' = map (\<lambda>a. Option.bind a (spec_rm s (lo_pos p0) (hi_pos p1))) (kv_abs cache)"
  using assms by (rule seq_rm_sim)

theorem seq_rm_refines_witness:
  "\<exists>cache' e. llama_kv_cache_seq_rm demo4 1 1 (- 1) None = Inr (True, cache', e) \<and> kv_wf cache' \<and>
     kv_abs cache' = [Some (0, {0}), Some (1, {0}), None, None]"
proof -
  have "llama_kv_has_qnext_state_storage demo4 = Inr False" "\<not> any_compacted demo4" by (simp_all add: run_defs)
  then obtain cache' e where r: "llama_kv_cache_seq_rm demo4 1 1 (- 1) None = Inr (True, cache', e)"
    using seq_rm_succeeds[OF demo4_wf] by blast
  moreover have "map (\<lambda>a. Option.bind a (spec_rm 1 (lo_pos 1) (hi_pos (- 1)))) (kv_abs demo4)
      = [Some (0, {0}), Some (1, {0}), None, None]" by (auto simp: run_defs abs_defs)
  ultimately show ?thesis using seq_rm_refines[OF demo4_wf r] by auto
qed

text \<open>Keeping one sequence (\<open>llama_kv_cache_seq_keep\<close>) frees every other cell and leaves the kept cells with
  that sequence alone.\<close>

theorem seq_keep_refines:
  assumes "kv_wf cache" "llama_kv_cache_seq_keep cache s = Inr cache'"
  shows "kv_wf cache' \<and> kv_abs cache' = map (\<lambda>a. Option.bind a (spec_keep s)) (kv_abs cache)"
  using assms by (rule seq_keep_sim)

theorem seq_keep_refines_witness:
  "\<exists>cache'. llama_kv_cache_seq_keep demo4 1 = Inr cache' \<and> kv_wf cache' \<and>
     kv_abs cache' = [None, Some (1, {1}), None, Some (2, {1})]"
proof -
  have "\<not> isl (llama_kv_cache_seq_keep demo4 1)" by (simp add: llama_kv_cache_seq_keep_def run_defs split: prod.split)
  then obtain cache' where r: "llama_kv_cache_seq_keep demo4 1 = Inr cache'"
    by (cases "llama_kv_cache_seq_keep demo4 1") auto
  moreover have "map (\<lambda>a. Option.bind a (spec_keep 1)) (kv_abs demo4) = [None, Some (1, {1}), None, Some (2, {1})]"
    by (auto simp: run_defs abs_defs)
  ultimately show ?thesis using seq_keep_refines[OF demo4_wf r] by auto
qed

text \<open>C29. Shifting positions (\<open>llama_kv_cache_seq_add\<close>): the cells of the sequence in the range move by \<open>delta\<close>
  (in 32-bit arithmetic), and a cell whose position becomes negative is freed and counted.\<close>

theorem seq_add_refines:
  assumes "kv_wf cache" "llama_kv_cache_seq_add cache s p0 p1 d = Inr cache'" "lo_pos p0 \<noteq> hi_pos p1"
  shows "kv_wf cache' \<and> kv_abs cache' = map (\<lambda>a. Option.bind a (spec_add s (lo_pos p0) (hi_pos p1) d)) (kv_abs cache)"
  using assms by (rule seq_add_sim)

theorem seq_add_refines_witness:
  "\<exists>cache'. llama_kv_cache_seq_add demo4 0 0 (- 1) (- 1) = Inr cache' \<and> kv_wf cache' \<and>
     kv_abs cache' = [None, Some (0, {0, 1}), None, Some (2, {1})]"
proof -
  have "\<not> isl (llama_kv_cache_seq_add demo4 0 0 (- 1) (- 1))" by (simp add: llama_kv_cache_seq_add_def run_defs split: prod.split)
  then obtain cache' where r: "llama_kv_cache_seq_add demo4 0 0 (- 1) (- 1) = Inr cache'"
    by (cases "llama_kv_cache_seq_add demo4 0 0 (- 1) (- 1)") auto
  moreover have "map (\<lambda>a. Option.bind a (spec_add 0 (lo_pos 0) (hi_pos (- 1)) (- 1))) (kv_abs demo4)
      = [None, Some (0, {0, 1}), None, Some (2, {1})]" by (auto simp: run_defs abs_defs)
  moreover have "lo_pos 0 \<noteq> hi_pos (- 1)" by (simp add: run_defs)
  ultimately show ?thesis using seq_add_refines[OF demo4_wf r] by auto
qed



text \<open>Dividing positions (\<open>llama_kv_cache_seq_div\<close>, self-extend) by a positive factor divides exactly the positions
  of the sequence in the range and changes no membership.\<close>

theorem seq_div_refines:
  assumes "kv_wf cache" "0 < d" "llama_kv_cache_seq_div cache s p0 p1 d = Inr cache'" "lo_pos p0 \<noteq> hi_pos p1"
  shows "kv_wf cache' \<and> kv_abs cache' = map (\<lambda>a. Option.bind a (spec_div s (lo_pos p0) (hi_pos p1) d)) (kv_abs cache)"
  using assms by (rule seq_div_sim)

theorem seq_div_refines_witness:
  "\<exists>cache'. llama_kv_cache_seq_div demo4 1 2 (- 1) 2 = Inr cache' \<and> kv_wf cache' \<and>
     kv_abs cache' = [Some (0, {0}), Some (1, {0, 1}), None, Some (1, {1})]"
proof -
  have "\<not> isl (llama_kv_cache_seq_div demo4 1 2 (- 1) 2)"
    by (simp add: llama_kv_cache_seq_div_def run_defs split: prod.split)
  then obtain cache' where r: "llama_kv_cache_seq_div demo4 1 2 (- 1) 2 = Inr cache'"
    by (cases "llama_kv_cache_seq_div demo4 1 2 (- 1) 2") auto
  moreover have "map (\<lambda>a. Option.bind a (spec_div 1 (lo_pos 2) (hi_pos (- 1)) 2)) (kv_abs demo4)
      = [Some (0, {0}), Some (1, {0, 1}), None, Some (1, {1})]" by (auto simp: run_defs abs_defs)
  moreover have "lo_pos 2 \<noteq> hi_pos (- 1)" by (simp add: run_defs)
  ultimately show ?thesis using seq_div_refines[OF demo4_wf _ r] by auto
qed

section \<open>Slots\<close>

text \<open>C10. \<open>llama_kv_cache_find_slot\<close> on a non-recurrent cache refuses a batch exactly when no contiguous run of
  free cells of the batch's length exists anywhere in the ring buffer.\<close>

theorem find_slot_complete:
  assumes "kv_wf cache"
  shows "fst (llama_kv_cache_find_slot cache batch embd set_meta) \<longleftrightarrow> (\<exists>st. free_run (kv_cells cache) (b_n_tokens batch) st)"
  using assms by (rule find_slot_iff)

definition demo_batch :: "llama_pos list \<Rightarrow> llama_seq_id list list \<Rightarrow> kv_batch" where
  "demo_batch ps ss = \<lparr>b_n_tokens = length ps, b_token = Some ps, b_pos = ps, b_seq = ss\<rparr>"

theorem find_slot_complete_witness:
  "fst (llama_kv_cache_find_slot demo4 (demo_batch [3] [[1]]) 0 True) \<and>
   \<not> fst (llama_kv_cache_find_slot demo4 (demo_batch [3, 4] [[1], [1]]) 0 True)"
proof -
  have "free_run (kv_cells demo4) 1 2" by (simp add: free_run_def demo_defs)
  then have "\<exists>st. free_run (kv_cells demo4) 1 st" ..
  moreover have "\<not> free_run (kv_cells demo4) 2 st" for st
  proof
    assume r: "free_run (kv_cells demo4) 2 st"
    then have "st = 0 \<or> st = 1 \<or> st = 2" by (auto simp: free_run_def demo_defs)
    moreover have "c_pos (kv_cells demo4 ! st) < 0" "c_pos (kv_cells demo4 ! (st + 1)) < 0"
      using r[unfolded free_run_def, THEN conjunct2, rule_format, of 0] r[unfolded free_run_def, THEN conjunct2, rule_format, of 1] by auto
    ultimately show False by (auto simp: demo_defs)
  qed
  ultimately show ?thesis
    using find_slot_complete[OF demo4_wf, of "demo_batch [3] [[1]]" 0 True]
      find_slot_complete[OF demo4_wf, of "demo_batch [3, 4] [[1], [1]]" 0 True] by (simp add: demo_batch_def numeral_2_eq_2)
qed

text \<open>C18. When \<open>llama_kv_cache_find_slot\<close> succeeds, the batch occupies previously free consecutive cells from the new
  head on, with the batch's positions and sequences, every other cell is unchanged, and the invariant
  (with the exact \<open>used\<close> count) holds again.\<close>

theorem find_slot_refines:
  assumes "kv_wf cache" "batch_ok batch" "llama_kv_cache_find_slot cache batch embd set_meta = (True, cache')"
  shows "kv_wf cache' \<and> free_run (kv_cells cache) (b_n_tokens batch) (kv_head cache') \<and>
    kv_abs cache' = take (kv_head cache') (kv_abs cache)
      @ map (\<lambda>j. Some (b_pos batch ! j, set (b_seq batch ! j))) [0..<b_n_tokens batch]
      @ drop (kv_head cache' + b_n_tokens batch) (kv_abs cache)"
  using assms by (rule find_slot_sim)

lemma demo_batch_slot:
  "\<exists>cache'. llama_kv_cache_find_slot demo4 (demo_batch [3] [[1, 2]]) 0 True = (True, cache') \<and> kv_head cache' = 2"
  by (simp add: llama_kv_cache_find_slot_def demo_batch_def demo_defs find_slot_search.simps numeral_2_eq_2 numeral_3_eq_3)

lemma demo_batch_ok: "batch_ok (demo_batch [3] [[1, 2]])"
  by (simp add: batch_ok_def demo_batch_def)

theorem find_slot_refines_witness:
  "\<exists>cache'. llama_kv_cache_find_slot demo4 (demo_batch [3] [[1, 2]]) 0 True = (True, cache') \<and> kv_wf cache' \<and>
     kv_abs cache' = [Some (0, {0}), Some (1, {0, 1}), Some (3, {1, 2}), Some (2, {1})]"
proof -
  obtain cache' where r: "llama_kv_cache_find_slot demo4 (demo_batch [3] [[1, 2]]) 0 True = (True, cache')" "kv_head cache' = 2"
    using demo_batch_slot by blast
  have b: "b_n_tokens (demo_batch [3] [[1, 2]]) = 1" "b_pos (demo_batch [3] [[1, 2]]) = [3]" "b_seq (demo_batch [3] [[1, 2]]) = [[1, 2]]"
    by (simp_all add: demo_batch_def)
  have "kv_abs demo4 = [Some (0, {0}), Some (1, {0, 1}), None, Some (2, {1})]" by (simp add: abs_defs demo_defs)
  then show ?thesis using find_slot_refines[OF demo4_wf demo_batch_ok r(1)] r by (auto simp: b numeral_2_eq_2 numeral_3_eq_3)
qed

text \<open>In every cache reachable from a cleared one by any sequence of operations that do not abort, the
  counter \<open>used\<close> is the number of cells with at least one sequence, a cell holds a position exactly
  when it has a sequence, and the search head lies within the buffer.\<close>

theorem kv_reachable_wf: "kv_reachable cache \<Longrightarrow> kv_wf cache"
  by (rule reachable_wf)

theorem kv_reachable_wf_witness:
  "kv_wf (llama_kv_cache_defrag (snd (llama_kv_cache_find_slot (llama_kv_cache_clear demo4) (demo_batch [3] [[1, 2]]) 0 True)))"
proof -
  have "kv_reachable (llama_kv_cache_clear demo4)" by (rule kv_reachable.fresh) (simp_all add: demo_defs)
  moreover have "kv_step (llama_kv_cache_clear demo4)
      (snd (llama_kv_cache_find_slot (llama_kv_cache_clear demo4) (demo_batch [3] [[1, 2]]) 0 True))"
    by (rule st_find[OF demo_batch_ok]) (rule surjective_pairing)
  ultimately show ?thesis by (intro kv_reachable_wf) (blast intro: kv_reachable.step st_defrag)
qed

section \<open>Queries and the attention window\<close>

text \<open>\<open>llama_kv_cache_seq_pos_max\<close> returns the largest position of the sequence, and 0 for a sequence without cells.\<close>

theorem seq_pos_max_correct:
  "llama_kv_cache_seq_pos_max cache s = Max (insert 0 (c_pos ` {c \<in> set (kv_cells cache). s \<in> c_seq c}))"
  by (simp add: llama_kv_cache_seq_pos_max_def seq_pos_max_foldl)

lemma and_not_mask: "x AND NOT (mask k) = x - x mod 2 ^ k" for x :: int
proof -
  have "x AND NOT (mask k) = push_bit k (drop_bit k x)"
    by (rule bit_eqI) (auto simp: bit_simps)
  also have "\<dots> = x - take_bit k x"
    using bits_ident[of k x] by linarith
  finally show ?thesis by (simp add: take_bit_eq_mod)
qed

text \<open>\<open>GGML_PAD\<close> rounds up to the next multiple of a power of two.\<close>

lemma ggml_pad_pow2:
  "x \<le> ggml_pad x (2 ^ k)" "ggml_pad x (2 ^ k) < x + 2 ^ k" "2 ^ k dvd ggml_pad x (2 ^ k)"
proof -
  let ?y = "int x + 2 ^ k - 1"
  have p: "ggml_pad x (2 ^ k) = nat (?y - ?y mod 2 ^ k)"
    using and_not_mask[of ?y k] by (simp add: ggml_pad_def mask_eq_exp_minus_1)
  have m: "0 \<le> ?y mod 2 ^ k" "?y mod 2 ^ k < 2 ^ k" by simp_all
  then have i: "int (ggml_pad x (2 ^ k)) = ?y - ?y mod 2 ^ k"
    unfolding p using of_nat_0_le_iff[of x, where 'a = int] by (subst nat_0_le) linarith+
  have "int x \<le> int (ggml_pad x (2 ^ k))" "int (ggml_pad x (2 ^ k)) < int (x + 2 ^ k)"
    using m of_nat_0_le_iff[of x, where 'a = int] unfolding i of_nat_add of_nat_power of_nat_numeral by linarith+
  then show "x \<le> ggml_pad x (2 ^ k)" "ggml_pad x (2 ^ k) < x + 2 ^ k"
    by (simp_all only: of_nat_le_iff of_nat_less_iff)
  have "(2 :: int) ^ k dvd int (ggml_pad x (2 ^ k))"
    unfolding i by (simp add: minus_mod_eq_mult_div)
  then show "2 ^ k dvd ggml_pad x (2 ^ k)"
    by (metis int_dvd_int_iff of_nat_numeral of_nat_power)
qed

lemma get_padding_pow2: "\<exists>k. get_padding fa = 2 ^ k"
proof (cases fa)
  case True
  then show ?thesis by (intro exI[of _ 8]) (simp add: get_padding_def)
next
  case False
  then show ?thesis by (intro exI[of _ 5]) (simp add: get_padding_def)
qed

definition used_prefix :: "kv_cell list \<Rightarrow> nat \<Rightarrow> bool" where
  "used_prefix cs m \<longleftrightarrow> m \<le> length cs \<and> (\<forall>i < length cs. cell_in_use (cs ! i) \<longleftrightarrow> i < m)"

lemma cell_max_block_prefix:
  assumes "used_prefix cs m" "i \<le> m" "m \<le> i + k" "i + k \<le> length cs"
  shows "cell_max_block cs i k = m"
  using assms(2-4)
proof (induction k)
  case 0
  then show ?case by simp
next
  case (Suc k)
  then show ?case using assms(1) by (auto simp: used_prefix_def)
qed

lemma cell_max_stride_prefix:
  assumes "used_prefix cs m" "0 < pad"
  shows "pad dvd i \<Longrightarrow> 0 < i \<Longrightarrow> i \<le> lst \<Longrightarrow> lst \<le> length cs \<Longrightarrow> m \<le> lst \<Longrightarrow>
    cell_max_stride cs pad lst i = Some (if m < pad then 0 else m)"
proof (induction i arbitrary: lst rule: less_induct)
  case (less i)
  note pre = less.prems
  have "pad \<le> i" using pre(1,2) by (rule dvd_imp_le)
  have use: "cell_in_use (cs ! (i - 1)) \<longleftrightarrow> i \<le> m"
    using assms(1) pre(2-4) by (auto simp: used_prefix_def)
  show ?case
  proof (cases "i \<le> m")
    case True
    then have "cell_max_block cs i (lst - i) = m"
      using cell_max_block_prefix[OF assms(1), of i "lst - i"] pre(3-5) by simp
    then show ?thesis
      using True use pre assms(2) \<open>pad \<le> i\<close> by (simp add: cell_max_stride.simps[of cs pad lst i])
  next
    case False
    then have step: "cell_max_stride cs pad lst i = cell_max_stride cs pad i (i - pad)"
      using use pre assms(2) \<open>pad \<le> i\<close> by (simp add: cell_max_stride.simps[of cs pad lst i])
    show ?thesis
    proof (cases "i = pad")
      case True
      then show ?thesis using step False by (simp add: cell_max_stride.simps[of cs pad pad 0])
    next
      case neq: False
      then show ?thesis
        using step less.IH[of "i - pad" i] pre False assms(2) \<open>pad \<le> i\<close> by (simp add: dvd_diff_nat)
    qed
  qed
qed

text \<open>The number of cells the attention of \<open>llama_decode\<close> looks at covers every cell in use, provided that the cells
  in use form a prefix of the buffer and the padding divides its size.\<close>

theorem decode_n_kv_covers:
  assumes "used_prefix (kv_cells cache) m" "length (kv_cells cache) = kv_size cache"
    "get_padding fa dvd kv_size cache" "0 < kv_size cache"
  shows "\<exists>n. decode_n_kv cache (get_padding fa) = Some n \<and> m \<le> n \<and> n \<le> kv_size cache \<and> get_padding fa dvd n"
proof -
  obtain k where k: "get_padding fa = 2 ^ k" using get_padding_pow2 by blast
  let ?r = "if m < get_padding fa then 0 else m"
  let ?n = "min (kv_size cache) (max (get_padding fa) (ggml_pad ?r (get_padding fa)))"
  have "m \<le> kv_size cache" using assms(1,2) by (simp add: used_prefix_def)
  then have "llama_kv_cache_cell_max_pad cache (get_padding fa) = Some ?r"
    unfolding llama_kv_cache_cell_max_pad_def
    by (intro cell_max_stride_prefix) (use assms k in simp_all)
  then have "decode_n_kv cache (get_padding fa) = Some ?n" by (simp add: decode_n_kv_def)
  moreover have "m \<le> ?n" using \<open>m \<le> kv_size cache\<close> ggml_pad_pow2(1)[of m k] by (auto simp: k)
  moreover have "get_padding fa dvd ?n" using ggml_pad_pow2(3)[of k ?r] assms(3) by (auto simp: k min_def max_def)
  ultimately show ?thesis by simp
qed

definition demo_row :: "nat \<Rightarrow> nat \<Rightarrow> nat \<Rightarrow> kv_cell list" where
  "demo_row a b c = replicate a (demo_cell (- 1) {}) @ map (\<lambda>i. demo_cell (int i) {0}) [0..<b] @ replicate c (demo_cell (- 1) {})"

lemma length_demo_row [simp]: "length (demo_row a b c) = a + b + c"
  by (simp add: demo_row_def)

lemma demo_row_use: "i < a + b + c \<Longrightarrow> cell_in_use (demo_row a b c ! i) \<longleftrightarrow> a \<le> i \<and> i < a + b"
  by (auto simp: demo_row_def nth_append cell_in_use_def is_empty_def demo_defs)

lemma demo_row_wf:
  assumes "a + b + c < 2 ^ 31"
  shows "kv_wf (demo_cache [] b (demo_row a b c))"
proof -
  have "length (filter occupied (demo_row a b c)) = b"
    by (simp add: demo_row_def occupied_def demo_defs filter_map comp_def)
  moreover have "list_all cell_wf (demo_row a b c)"
    using assms by (auto simp: demo_row_def list_all_iff cell_wf_def demo_defs)
  ultimately show ?thesis using assms by (simp add: kv_wf_def demo_cache_def)
qed

lemma cell_max_from_eq:
  assumes "m = 0 \<or> cell_in_use (cs ! (m - 1))" "\<And>j. m \<le> j \<Longrightarrow> j < m + k \<Longrightarrow> \<not> cell_in_use (cs ! j)"
  shows "cell_max_from cs (m + k) = m"
  using assms
proof (induction k)
  case 0
  then show ?case by (cases m) auto
next
  case (Suc k)
  then show ?case by simp
qed

lemma demo_row_prefix: "used_prefix (demo_row 0 b c) b"
  by (auto simp: used_prefix_def demo_row_use)

theorem decode_n_kv_covers_witness:
  "\<exists>n. decode_n_kv (demo_cache [] 40 (demo_row 0 40 56)) (get_padding False) = Some n \<and> 40 \<le> n \<and> n \<le> 96"
  using decode_n_kv_covers[of "demo_cache [] 40 (demo_row 0 40 56)" 40 False]
  by (auto simp: demo_row_prefix demo_cache_def get_padding_def)

text \<open>C39. Without that proviso the strided scan of \<open>llama_kv_cache_cell_max(cache, pad)\<close> can stop early: in a well-formed
  cache of 64 cells whose cells 32 to 39 are in use, the window of \<open>llama_decode\<close> has 32 cells and misses all of
  them, while the unstrided \<open>llama_kv_cache_cell_max\<close> returns 40.\<close>

theorem decode_n_kv_misses_cells:
  "\<exists>cache. kv_wf cache \<and> kv_size cache = 64 \<and> decode_n_kv cache (get_padding False) = Some 32 \<and>
     llama_kv_cache_cell_max cache = 40 \<and> list_all (\<lambda>i. cell_in_use (kv_cells cache ! i)) [32..<40]"
proof (intro exI conjI)
  let ?cache = "demo_cache [] 8 (demo_row 32 8 24)"
  show "kv_wf ?cache" by (rule demo_row_wf) simp
  show "kv_size ?cache = 64" by (simp add: demo_cache_def)
  have "cell_max_stride (demo_row 32 8 24) 32 64 64 = Some 0"
    by (simp add: cell_max_stride.simps demo_row_use)
  then show "decode_n_kv ?cache (get_padding False) = Some 32"
    by (simp add: decode_n_kv_def llama_kv_cache_cell_max_pad_def demo_cache_def get_padding_def ggml_pad_def)
  show "llama_kv_cache_cell_max ?cache = 40"
    using cell_max_from_eq[of 40 "demo_row 32 8 24" 24]
    by (simp add: llama_kv_cache_cell_max_def demo_cache_def demo_row_use)
  show "list_all (\<lambda>i. cell_in_use (kv_cells ?cache ! i)) [32..<40]"
    by (auto simp: demo_cache_def demo_row_use list_all_iff)
qed

text \<open>\<open>llama_kv_cache_seq_pos_min\<close> returns the position of the first cell of the sequence in buffer order, which need not
  be the smallest one: a batch decoded after an earlier range was removed can sit before the older cells.\<close>

theorem seq_pos_min_not_smallest:
  "\<exists>cache s. kv_wf cache \<and> llama_kv_cache_seq_pos_min cache s = 7 \<and>
     Min (c_pos ` {c \<in> set (kv_cells cache). s \<in> c_seq c}) = 3"
proof (intro exI conjI)
  let ?cache = "demo_cache [] 2 [demo_cell 7 {0}, demo_cell 3 {0}]"
  show "kv_wf ?cache" by (simp add: demo_defs kv_wf_def cell_wf_def occupied_def)
  show "llama_kv_cache_seq_pos_min ?cache 0 = 7" by (simp add: llama_kv_cache_seq_pos_min_def has_seq_id_def demo_defs)
  have "{c. (c = demo_cell 7 {0} \<or> c = demo_cell 3 {0}) \<and> 0 \<in> c_seq c} = {demo_cell 7 {0}, demo_cell 3 {0}}"
    by (auto simp: demo_defs)
  then show "Min (c_pos ` {c \<in> set (kv_cells ?cache). 0 \<in> c_seq c}) = 3"
    by (simp add: demo_cache_def) (simp add: demo_defs)
qed

text \<open>With per-sequence recurrent state the copy redirects its source: after sequence 0 was copied to sequence 1,
  copying sequence 1 to sequence 2 gives sequence 2 the cells of sequence 0, also those sequence 1 never had.\<close>

theorem seq_cp_redirects_source:
  "\<exists>cache c1 c2. kv_wf cache \<and> llama_kv_cache_seq_cp cache 0 1 0 1 = Inr c1 \<and>
     llama_kv_cache_seq_cp c1 1 2 0 (- 1) = Inr c2 \<and>
     kv_abs c1 = [Some (0, {0, 1}), Some (1, {0}), None] \<and>
     kv_abs c2 = [Some (0, {0, 1, 2}), Some (1, {0, 2}), None]"
proof -
  let ?cell = "\<lambda>p S i. (demo_cell p S)\<lparr>c_src := i\<rparr>"
  let ?cache = "demo_cache [Some 3] 2 [?cell 0 {0} 0, ?cell 1 {0} 1, ?cell (- 1) {} 2]"
  let ?c1 = "?cache\<lparr>kv_do_copy := True, kv_cells := [?cell 0 {0, 1} 0, ?cell 1 {0} 0, ?cell (- 1) {} 2]\<rparr>"
  let ?c2 = "?cache\<lparr>kv_do_copy := True, kv_cells := [?cell 0 {0, 1, 2} 0, ?cell 1 {0, 2} 0, ?cell (- 1) {} 0]\<rparr>"
  note run = llama_kv_cache_seq_cp_def seq_cp_qnext_def cp_cell_def set_cell_def u32_of_int_def
    llama_kv_qnext_seq_id_in_range_def run_defs insert_commute
  have "kv_wf ?cache" by (simp add: demo_defs kv_wf_def cell_wf_def occupied_def)
  moreover have "llama_kv_cache_seq_cp ?cache 0 1 0 1 = Inr ?c1" by (simp add: run)
  moreover have "llama_kv_cache_seq_cp ?c1 1 2 0 (- 1) = Inr ?c2" by (simp add: run)
  moreover have "kv_abs ?c1 = [Some (0, {0, 1}), Some (1, {0}), None]" by (simp add: abs_defs demo_defs)
  moreover have "kv_abs ?c2 = [Some (0, {0, 1, 2}), Some (1, {0, 2}), None]" by (simp add: abs_defs demo_defs)
  ultimately show ?thesis by blast
qed

end
