(* ===== verification/KvDefragTheorems.thy ===== *)
theory KvDefragTheorems
  imports KvDefragProps KvApi KvCacheTheorems
begin

text \<open>
  What defragmentation promises and what it breaks, the invariant of the KV cache of a context under every operation of the
  interface and the steps of \<open>llama_decode\<close>, and the compaction of sliding windows.
\<close>

section \<open>Contents\<close>

text \<open>The rows of a cell in the tensors of the attention, and the cells in use with their rows, in no order.\<close>

definition cell_rows :: "'r kv_model \<Rightarrow> 'r kv_tensors \<Rightarrow> nat \<Rightarrow> tensor_ref \<Rightarrow> 'r option" where
  "cell_rows m ts j r = (if attention_ref m ts r then map_option (\<lambda>rows. rows ! j) (tensor_of ts r) else None)"

definition contents :: "'r kv_model \<Rightarrow> 'r kv_context \<Rightarrow> (kv_cell \<times> (tensor_ref \<Rightarrow> 'r option)) multiset" where
  "contents m ctx = image_mset (\<lambda>j. (kv_cells (kv_self ctx) ! j, cell_rows m (kv_data ctx) j)) (mset_set (used_set (kv_cells (kv_self ctx))))"

text \<open>Every tensor of the attention has a row for each cell.\<close>

definition rows_sized :: "'r kv_model \<Rightarrow> 'r kv_context \<Rightarrow> bool" where
  "rows_sized m ctx \<longleftrightarrow>
     (\<forall>r rows. attention_ref m (kv_data ctx) r \<longrightarrow> tensor_of (kv_data ctx) r = Some rows \<longrightarrow> length rows = kv_size (kv_self ctx))"

definition same_cell :: "'r kv_model \<Rightarrow> 'r kv_context \<Rightarrow> 'r kv_context \<Rightarrow> int \<Rightarrow> int \<Rightarrow> bool" where
  "same_cell m ctx ctx' old new \<longleftrightarrow>
     (0 \<le> old \<and> nat old \<in> used_set (kv_cells (kv_self ctx)) \<longrightarrow>
        0 \<le> new \<and> nat new \<in> used_set (kv_cells (kv_self ctx')) \<and> kv_cells (kv_self ctx') ! nat new = kv_cells (kv_self ctx) ! nat old \<and>
        cell_rows m (kv_data ctx') (nat new) = cell_rows m (kv_data ctx) (nat old))"

lemma wf_in_use: "list_all cell_wf cs \<Longrightarrow> j < length cs \<Longrightarrow> cell_in_use (cs ! j) \<longleftrightarrow> occupied (cs ! j)"
  by (auto simp: list_all_length cell_wf_def cell_in_use_def occupied_def is_empty_def)

lemma cell_max_from_bound: "cell_max_from cs n \<le> n" "j < n \<Longrightarrow> cell_in_use (cs ! j) \<Longrightarrow> j < cell_max_from cs n"
  by (induction n) (auto simp: less_Suc_eq)

lemma wf_cell_max:
  assumes "kv_wf cache"
  shows "llama_kv_cache_cell_max cache \<le> length (kv_cells cache)" "kv_used cache \<le> llama_kv_cache_cell_max cache"
    "kv_used cache = card (used_set (kv_cells cache))" "j \<in> used_set (kv_cells cache) \<Longrightarrow> j < llama_kv_cache_cell_max cache"
proof -
  note w = kv_wfD[OF assms]
  show "llama_kv_cache_cell_max cache \<le> length (kv_cells cache)" using w(1) cell_max_from_bound(1) by (simp add: llama_kv_cache_cell_max_def)
  show u: "kv_used cache = card (used_set (kv_cells cache))" using w(4) by (simp add: card_used)
  show b: "j < llama_kv_cache_cell_max cache" if "j \<in> used_set (kv_cells cache)" for j
    using that w(1,5) wf_in_use[OF w(5)] cell_max_from_bound(2) by (simp add: used_set_def llama_kv_cache_cell_max_def)
  have "used_set (kv_cells cache) \<subseteq> {..<llama_kv_cache_cell_max cache}" using b by auto
  then show "kv_used cache \<le> llama_kv_cache_cell_max cache" using u card_mono[of "{..<llama_kv_cache_cell_max cache}"] by fastforce
qed

lemma relocated_wf:
  assumes "relocated n_used cs0 cs ids" "list_all cell_wf cs0"
  shows "list_all cell_wf cs"
proof -
  have "cell_wf (cs ! j)" if j: "j < length cs" for j
  proof (cases "moved ids j \<or> (\<exists>s. moved ids s \<and> ids ! s = j)")
    case True
    then consider "moved ids j" | s where "moved ids s" "ids ! s = j" by blast
    then show ?thesis
    proof cases
      case 1
      from relocatedD(5)[OF assms(1) 1] show ?thesis by (simp add: default_cell_def cell_wf_def)
    next
      case (2 s)
      then show ?thesis using relocatedD(6)[OF assms(1) 2(1)] moved_inside[OF 2(1)] relocated_dims[OF assms(1)] assms(2)
        by (simp add: list_all_length)
    qed
  next
    case False
    then have "cs ! j = cs0 ! j" using relocated_fixed[OF assms(1)] j relocated_dims[OF assms(1)] by auto
    then show ?thesis using assms(2) j relocated_dims[OF assms(1)] by (simp add: list_all_length)
  qed
  then show ?thesis by (simp add: list_all_length)
qed

lemma no_moves_blocks: "\<forall>s. \<not> moved ids s \<Longrightarrow> defrag_blocks ids i = []"
proof (induction ids i rule: defrag_blocks.induct)
  case (1 ids i)
  then have "i < length ids \<Longrightarrow> i = ids ! i \<or> ids ! i = length ids" unfolding moved_def by metis
  then show ?case using 1 by (subst defrag_blocks.simps) simp
qed

lemma relocated_contents:
  assumes "relocated n_used cs0 cs ids" "\<And>r rows. attention_ref m ts r \<Longrightarrow> tensor_of ts r = Some rows \<Longrightarrow> length rows = length cs0"
    "j \<in> used_set cs0"
  shows "cell_rows m (foldl run_copy ts (build_defrag m ts ids)) (new_id ids j) = cell_rows m ts j"
proof
  fix r
  have "j < length cs0" "occupied (cs0 ! j)" using assms(3) by (simp_all add: used_set_def)
  then show "cell_rows m (foldl run_copy ts (build_defrag m ts ids)) (new_id ids j) r = cell_rows m ts j r"
    using defrag_rows(2)[OF assms(1), of _ j] assms(2)[of r]
    by (cases "attention_ref m ts r"; cases "tensor_of ts r") (simp_all add: cell_rows_def defrag_attention_ref defrag_tensor)
qed

lemma remap_new_id:
  assumes "relocated n_used cs0 cs ids" "\<And>j. j \<in> used_set cs0 \<Longrightarrow> j < length ids" "j \<in> used_set cs0"
  shows "remap_cell_id_after_defrag cs ids j = int (new_id ids j)"
proof -
  have j: "j < length ids" "j < length cs0" using assms(2,3) by (auto simp: used_set_def)
  show ?thesis
  proof (cases "moved ids j")
    case True
    then have "ids ! j < length ids" using relocatedD(2)[OF assms(1) True] relocated_dims(3)[OF assms(1)] by simp
    then show ?thesis using True j by (simp add: remap_cell_id_after_defrag_def new_id_def)
  next
    case False
    then have "ids ! j = j \<or> ids ! j = length ids" using j by (simp add: moved_def)
    moreover have "cs ! j = cs0 ! j" using relocated_stays[OF assms(1) j(2) False] assms(3) by (simp add: used_set_def)
    ultimately show ?thesis
      using False j assms(3) relocated_dims[OF assms(1)]
      by (auto simp: remap_cell_id_after_defrag_def new_id_def used_set_def empty_not_occupied)
  qed
qed

lemma defrag_internal_run:
  assumes "kv_wf (kv_self ctx)"
  obtains cs ids ctx' where "relocated (kv_used (kv_self ctx)) (kv_cells (kv_self ctx)) cs ids"
    "length ids = llama_kv_cache_cell_max (kv_self ctx)" "llama_kv_cache_defrag_internal m ctx = Inr ctx'"
    "\<exists>h \<le> kv_size (kv_self ctx). kv_self ctx' = (kv_self ctx)\<lparr>kv_cells := cs, kv_head := h\<rparr>"
    "kv_data ctx' = foldl run_copy (kv_data ctx) (build_defrag m (kv_data ctx) ids)"
    "qsa_topk ctx' = map (\<lambda>c. if c < 0 then c else remap_cell_id_after_defrag cs ids (nat c)) (qsa_topk ctx) \<or>
      qsa_topk ctx' = qsa_topk ctx \<and> (\<forall>j. new_id ids j = j)"
    "kv_used (kv_self ctx) < max_moves m ctx \<Longrightarrow> used_set cs = {..<kv_used (kv_self ctx)}"
proof -
  let ?c = "kv_self ctx" and ?ts = "kv_data ctx"
  let ?cs = "kv_cells ?c" and ?n = "llama_kv_cache_cell_max ?c" and ?u = "kv_used ?c"
  note w = kv_wfD[OF assms] and b = wf_cell_max[OF assms]
  let ?st0 = "\<lparr>df_cells = ?cs, df_ids = replicate ?n ?n, df_head = kv_head ?c, df_moves = 0\<rparr>"
  have "defrag_inv ?n ?u (kv_head ?c) ?cs 0 ?st0"
    using relocated_start[OF b(2,1)] by (simp add: defrag_inv_def) (simp add: moved_def)
  from defrag_loop_inv[OF this b(3,4), of "max_moves m ctx"] obtain st i where
    st: "defrag_loop ?n ?u (max_moves m ctx) 0 ?st0 = Inr st" "defrag_inv ?n ?u (kv_head ?c) ?cs i st" "?u \<le> i \<or> df_moves st = max_moves m ctx"
    by blast
  let ?cs' = "df_cells st" and ?ids = "df_ids st"
  have I: "relocated ?u ?cs ?cs' ?ids" "length ?ids = ?n" "i \<le> ?u" "\<forall>j < i. occupied (?cs' ! j)" "df_moves st \<le> i"
    "(\<exists>s. moved ?ids s) \<longrightarrow> 0 < df_moves st" "df_head st = kv_head ?c \<or> df_head st = ?u"
    using st(2) unfolding defrag_inv_def by auto
  note dims = relocated_dims[OF I(1)] and bij = relocated_bij[OF I(1)]
  define ts' where "ts' = foldl run_copy ?ts (build_defrag m ?ts ?ids)"
  have still: "ts' = ?ts \<and> ?cs' = ?cs \<and> new_id ?ids = (\<lambda>j. j)" if "df_moves st = 0"
  proof -
    have nm: "\<not> moved ?ids s" for s using I(6) that by auto
    have cs: "?cs' = ?cs" by (rule nth_equalityI) (use dims relocated_fixed[OF I(1)] nm in auto)
    have "defrag_blocks ?ids k = []" for k using nm by (intro no_moves_blocks) simp
    then show ?thesis using nm cs by (auto simp: ts'_def build_defrag_def new_id_def)
  qed
  have max_same: "max_moves m (retire_pending ctx) = max_moves m ctx" by (simp add: max_moves_def retire_pending_def)
  obtain ctx' where ctx': "llama_kv_cache_defrag_internal m ctx = Inr ctx'" "kv_self ctx' = ?c\<lparr>kv_cells := ?cs', kv_head := df_head st\<rparr>"
    "kv_data ctx' = ts'"
    "qsa_topk ctx' = (if df_moves st = 0 then qsa_topk ctx else map (\<lambda>c. if c < 0 then c else remap_cell_id_after_defrag ?cs' ?ids (nat c)) (qsa_topk ctx))"
    using st(1) b(2) still max_same by (cases "df_moves st = 0") (auto simp: llama_kv_cache_defrag_internal_def Let_def retire_pending_def ts'_def)
  have "used_set ?cs' = {..<?u}" if "?u < max_moves m ctx"
  proof -
    have "i = ?u" using st(3) I(3,5) that by simp
    then have "{..<?u} \<subseteq> used_set ?cs'" using I(4) dims by (auto simp: used_set_def)
    moreover have "card (used_set ?cs') = ?u" using relocated_count[OF I(1)] b(3) by simp
    ultimately show "used_set ?cs' = {..<?u}" using card_subset_eq[of "used_set ?cs'" "{..<?u}"] finite_used by simp
  qed
  moreover have "df_head st \<le> kv_size ?c" using I(7) w(1,3) b(1,2) by auto
  ultimately show thesis
    using still by (intro that[OF I(1,2) ctx'(1)]) (auto simp: ctx' ts'_def)
qed

lemma defrag_internal_wf:
  assumes "kv_wf (kv_self ctx)"
  shows "\<exists>ctx'. llama_kv_cache_defrag_internal m ctx = Inr ctx' \<and> kv_wf (kv_self ctx') \<and>
    kv_size (kv_self ctx') = kv_size (kv_self ctx) \<and> kv_used (kv_self ctx') = kv_used (kv_self ctx) \<and>
    (kv_used (kv_self ctx) < max_moves m ctx \<longrightarrow> used_set (kv_cells (kv_self ctx')) = {..<kv_used (kv_self ctx)})"
proof -
  note w = kv_wfD[OF assms]
  obtain cs ids ctx' where r0: "relocated (kv_used (kv_self ctx)) (kv_cells (kv_self ctx)) cs ids"
    "length ids = llama_kv_cache_cell_max (kv_self ctx)" "llama_kv_cache_defrag_internal m ctx = Inr ctx'"
    "\<exists>h \<le> kv_size (kv_self ctx). kv_self ctx' = (kv_self ctx)\<lparr>kv_cells := cs, kv_head := h\<rparr>"
    "kv_data ctx' = foldl run_copy (kv_data ctx) (build_defrag m (kv_data ctx) ids)"
    "qsa_topk ctx' = map (\<lambda>c. if c < 0 then c else remap_cell_id_after_defrag cs ids (nat c)) (qsa_topk ctx) \<or>
      qsa_topk ctx' = qsa_topk ctx \<and> (\<forall>j. new_id ids j = j)"
    "kv_used (kv_self ctx) < max_moves m ctx \<Longrightarrow> used_set cs = {..<kv_used (kv_self ctx)}"
    by (rule defrag_internal_run[OF assms, of m]) blast
  note r = r0(1,3,4,7)
  obtain h where h: "h \<le> kv_size (kv_self ctx)" "kv_self ctx' = (kv_self ctx)\<lparr>kv_cells := cs, kv_head := h\<rparr>" using r(3) by blast
  have "kv_used (kv_self ctx) = length (filter occupied cs)" using relocated_count[OF r(1)] w(4) by (simp add: card_used)
  then have "kv_wf (kv_self ctx')"
    using h relocated_wf[OF r(1) w(5)] relocated_dims(1)[OF r(1)] w(1,2,7) by (simp add: kv_wf_def)
  moreover have "kv_size (kv_self ctx') = kv_size (kv_self ctx)" "kv_used (kv_self ctx') = kv_used (kv_self ctx)"
    "kv_cells (kv_self ctx') = cs" using h(2) by simp_all
  ultimately show ?thesis using r(2,4) by simp
qed

lemma defrag_internal_sim:
  assumes "kv_wf (kv_self ctx)" "rows_sized m ctx"
  shows "\<exists>ctx'. llama_kv_cache_defrag_internal m ctx = Inr ctx' \<and> rows_sized m ctx' \<and> contents m ctx' = contents m ctx \<and>
    list_all2 (same_cell m ctx ctx') (qsa_topk ctx) (qsa_topk ctx')"
proof -
  let ?c = "kv_self ctx" and ?ts = "kv_data ctx"
  let ?cs = "kv_cells ?c" and ?n = "llama_kv_cache_cell_max ?c" and ?u = "kv_used ?c"
  note w = kv_wfD[OF assms(1)] and b = wf_cell_max[OF assms(1)]
  obtain cs' ids ctx' where r0: "relocated (kv_used (kv_self ctx)) (kv_cells (kv_self ctx)) cs' ids"
    "length ids = llama_kv_cache_cell_max (kv_self ctx)" "llama_kv_cache_defrag_internal m ctx = Inr ctx'"
    "\<exists>h \<le> kv_size (kv_self ctx). kv_self ctx' = (kv_self ctx)\<lparr>kv_cells := cs', kv_head := h\<rparr>"
    "kv_data ctx' = foldl run_copy (kv_data ctx) (build_defrag m (kv_data ctx) ids)"
    "qsa_topk ctx' = map (\<lambda>c. if c < 0 then c else remap_cell_id_after_defrag cs' ids (nat c)) (qsa_topk ctx) \<or>
      qsa_topk ctx' = qsa_topk ctx \<and> (\<forall>j. new_id ids j = j)"
    "kv_used (kv_self ctx) < max_moves m ctx \<Longrightarrow> used_set cs' = {..<kv_used (kv_self ctx)}"
    by (rule defrag_internal_run[OF assms(1), of m]) blast
  then obtain h where h: "kv_self ctx' = ?c\<lparr>kv_cells := cs', kv_head := h\<rparr>" by blast
  note R = r0(1-3) h r0(5,6)
  define ts' where "ts' = foldl run_copy ?ts (build_defrag m ?ts ids)"
  note ctx' = R(4) R(5)[folded ts'_def] and I = R(1,2)
  note dims = relocated_dims[OF I(1)] and bij = relocated_bij[OF I(1)]
  have attn: "attention_ref m ts' r \<longleftrightarrow> attention_ref m ?ts r" for r unfolding ts'_def by (rule defrag_attention_ref)
  have sized: "length rows = length ?cs" if "attention_ref m ?ts r" "tensor_of ?ts r = Some rows" for r rows
    using assms(2) that w(1) unfolding rows_sized_def by simp
  have rows: "cell_rows m ts' (new_id ids j) = cell_rows m ?ts j" if "j \<in> used_set ?cs" for j
    unfolding ts'_def by (rule relocated_contents[OF I(1) sized that])
  have "rows_sized m ctx'"
  proof -
    have "length rows = kv_size ?c" if r: "attention_ref m ts' r" "tensor_of ts' r = Some rows" for r rows
    proof -
      obtain rows0 where "tensor_of ?ts r = Some rows0" "rows = copy_blocks (defrag_blocks ids 0) rows0"
        using r unfolding attn by (auto simp: ts'_def defrag_tensor)
      moreover have "length (copy_blocks (defrag_blocks ids 0) rows0) = length rows0" if "length rows0 = length ?cs" for rows0 :: "'a list"
      proof -
        have "rows_until ids 0 rows0 rows0" by (simp add: rows_until_def)
        from defrag_blocks_rows[OF I(1) _ this] dims that show ?thesis by (simp add: rows_until_def)
      qed
      ultimately show ?thesis using sized[of r] r(1) w(1) unfolding attn by auto
    qed
    then show ?thesis unfolding rows_sized_def ctx' by simp
  qed
  moreover have "contents m ctx' = contents m ctx"
  proof -
    have "contents m ctx' = image_mset (\<lambda>j. (cs' ! j, cell_rows m ts' j)) (image_mset (new_id ids) (mset_set (used_set ?cs)))"
      unfolding contents_def ctx' using bij(1,2) by (simp add: image_mset_mset_set)
    also have "\<dots> = image_mset (\<lambda>j. (?cs ! j, cell_rows m ?ts j)) (mset_set (used_set ?cs))"
      unfolding multiset.map_comp comp_def by (rule image_mset_cong) (use bij(3) rows finite_used in auto)
    finally show ?thesis by (simp add: contents_def)
  qed
  moreover have "list_all2 (same_cell m ctx ctx') (qsa_topk ctx) (qsa_topk ctx')"
  proof -
    have at: "same_cell m ctx ctx' c (int (new_id ids (nat c)))" for c
      using bij(2,3) rows unfolding same_cell_def ctx' by auto
    have "same_cell m ctx ctx' c (if c < 0 then c else remap_cell_id_after_defrag cs' ids (nat c))" for c
      using at[of c] remap_new_id[OF I(1), of "nat c"] b(4) I(2) unfolding same_cell_def by auto
    moreover have "same_cell m ctx ctx' c c" if "\<forall>j. new_id ids j = j" for c
      using at[of c] that by (cases "0 \<le> c") (auto simp: same_cell_def)
    ultimately show ?thesis using R(6) by (auto simp: list_all2_conv_all_nth)
  qed
  ultimately show ?thesis using R(3) by auto
qed

text \<open>C2. Defragmentation loses nothing: whatever the budget of moves, it returns without running into its assertion, and the cells in
  use with the rows of the keys, values and indexer keys that belong to them are the same multiset as before, every selected cell
  id is renamed to the cell that holds the same data, and with enough moves the cells in use are exactly the first \<open>used\<close> ones.\<close>

theorem defrag_keeps_contents:
  assumes "kv_wf (kv_self ctx)" "rows_sized m ctx"
  shows "\<exists>ctx'. llama_kv_cache_defrag_internal m ctx = Inr ctx' \<and> contents m ctx' = contents m ctx \<and> kv_wf (kv_self ctx') \<and>
    list_all2 (same_cell m ctx ctx') (qsa_topk ctx) (qsa_topk ctx') \<and>
    (kv_used (kv_self ctx) < max_moves m ctx \<longrightarrow> used_set (kv_cells (kv_self ctx')) = {..<kv_used (kv_self ctx)})"
  using defrag_internal_wf[OF assms(1), of m] defrag_internal_sim[OF assms] by auto

definition demo_model :: "int kv_model" where
  "demo_model = \<lparr>n_layer = 1, model_max_nodes = 65536, recurrent_layer = (\<lambda>_. False), rope_type_none = False, rope_type_imrope = False,
     supports_ctx_shift = True, is_mla_model = False, zero_row = 0, k_shift = (\<lambda>_ ts. ts)\<rparr>"

definition demo_context :: "kv_cache \<Rightarrow> int kv_tensors \<Rightarrow> int list \<Rightarrow> int kv_context" where
  "demo_context cache ts topk = \<lparr>kv_self = cache, kv_data = ts, kp_l_count = 0, qsa_topk = topk, qsa_valid = [], qsa_captured_len = - 1,
     qsa_seq = - 1, qsa_tail_capacity = 0, qsa_pending = False, qsa_pooled_stale = False, qsa_pooled_seq = - 1\<rparr>"

lemma defrag_keeps_contents_witness:
  "\<exists>ctx'. llama_kv_cache_defrag_internal demo_model (demo_context demo4 \<lparr>k_l = [Some [7, 8, 9, 10]], v_l = [], kr_l = [], s_l = []\<rparr> [3]) = Inr ctx' \<and>
    used_set (kv_cells (kv_self ctx')) = {..<3}"
proof -
  let ?ctx = "demo_context demo4 \<lparr>k_l = [Some [7, 8, 9, 10]], v_l = [], kr_l = [], s_l = []\<rparr> [3]"
  have wf: "kv_wf (kv_self ?ctx)" using demo4_wf by (simp add: demo_context_def)
  have "attention_ref demo_model (kv_data ?ctx) r \<Longrightarrow> tensor_of (kv_data ?ctx) r = Some rows \<Longrightarrow> length rows = kv_size (kv_self ?ctx)" for r rows
    by (cases r) (auto simp: demo_context_def layer_at_def demo_defs split: if_splits)
  then have "rows_sized demo_model ?ctx" by (simp add: rows_sized_def)
  from defrag_keeps_contents[OF wf this] show ?thesis
    by (auto simp: demo_context_def demo_defs max_moves_def demo_model_def)
qed

section \<open>The attention window\<close>

text \<open>C38. After a defragmentation with enough moves the attention window covers every cell in use, although the scan for its end may
  stop early on a fragmented cache.\<close>

theorem defrag_restores_window:
  assumes "kv_wf (kv_self ctx)" "kv_used (kv_self ctx) < max_moves m ctx" "get_padding fa dvd kv_size (kv_self ctx)" "0 < kv_size (kv_self ctx)"
  shows "\<exists>ctx' n. llama_kv_cache_defrag_internal m ctx = Inr ctx' \<and> decode_n_kv (kv_self ctx') (get_padding fa) = Some n \<and>
    (\<forall>j < kv_size (kv_self ctx'). cell_in_use (kv_cells (kv_self ctx') ! j) \<longrightarrow> j < n)"
proof -
  obtain ctx' where c: "llama_kv_cache_defrag_internal m ctx = Inr ctx'" "kv_wf (kv_self ctx')" "kv_size (kv_self ctx') = kv_size (kv_self ctx)"
    "used_set (kv_cells (kv_self ctx')) = {..<kv_used (kv_self ctx)}"
    using defrag_internal_wf[OF assms(1), of m] assms(2) by auto
  let ?cs = "kv_cells (kv_self ctx')"
  note w = kv_wfD[OF c(2)]
  have use: "cell_in_use (?cs ! j) \<longleftrightarrow> j < kv_used (kv_self ctx)" if "j < length ?cs" for j
    using wf_in_use[OF w(5) that] c(4) that by (auto simp: used_set_def)
  have "kv_used (kv_self ctx) \<le> length ?cs"
    using card_mono[of "{..<length ?cs}" "used_set ?cs"] c(4) by (fastforce simp: used_set_def)
  then have "used_prefix ?cs (kv_used (kv_self ctx))" using use by (simp add: used_prefix_def)
  from decode_n_kv_covers[OF this w(1)] obtain n where "decode_n_kv (kv_self ctx') (get_padding fa) = Some n" "kv_used (kv_self ctx) \<le> n"
    using assms(3,4) c(3) by auto
  then show ?thesis using c(1) use w(1) by (intro exI[of _ ctx'] exI[of _ n]) auto
qed

lemma defrag_restores_window_witness:
  "\<exists>ctx' n. llama_kv_cache_defrag_internal demo_model (demo_context (demo_cache [] 2 (demo_row 30 2 0)) \<lparr>k_l = [], v_l = [], kr_l = [], s_l = []\<rparr> []) = Inr ctx' \<and>
    decode_n_kv (kv_self ctx') (get_padding False) = Some n \<and> (\<forall>j < kv_size (kv_self ctx'). cell_in_use (kv_cells (kv_self ctx') ! j) \<longrightarrow> j < n)"
proof (rule defrag_restores_window)
  let ?ctx = "demo_context (demo_cache [] 2 (demo_row 30 2 0)) \<lparr>k_l = [], v_l = [], kr_l = [], s_l = []\<rparr> []"
  have "filter occupied (demo_row 30 2 0) = map (\<lambda>i. demo_cell (int i) {0}) [0..<2]"
    by (simp add: demo_row_def occupied_def demo_cell_def default_cell_def)
  then show "kv_wf (kv_self ?ctx)"
    by (simp add: demo_context_def demo_cache_def kv_wf_def) (auto simp: demo_row_def cell_wf_def demo_cell_def default_cell_def list_all_iff)
qed (simp_all add: demo_context_def demo_cache_def max_moves_def demo_model_def get_padding_def)

section \<open>Recurrent states\<close>

text \<open>Three sequences with recurrent states 10, 11 and 12; the first cell is free, the others hold sequences 0 and 2.\<close>

definition hybrid_context :: "bool \<Rightarrow> int kv_context" where
  "hybrid_context defrag =
     demo_context ((demo_cache [Some 3] 3 (reset_src [demo_cell (- 1) {}, demo_cell 0 {0}, demo_cell 1 {0}, demo_cell 0 {2}]))\<lparr>kv_do_defrag := defrag\<rparr>)
       \<lparr>k_l = [None], v_l = [], kr_l = [], s_l = [Some [10, 11, 12]]\<rparr> []"

definition copy_after_update :: "bool \<Rightarrow> llama_seq_id \<Rightarrow> llama_seq_id \<Rightarrow> int kv_context option" where
  "copy_after_update defrag src dst =
     (case llama_kv_cache_update_internal demo_model (hybrid_context defrag) of
        Inr (_, ctx1) \<Rightarrow>
          (case ctx_kv_cache_seq_cp ctx1 src dst 0 (- 1) of
             Inr ctx2 \<Rightarrow> (case llama_kv_cache_update_internal demo_model ctx2 of Inr (_, ctx3) \<Rightarrow> Some ctx3 | Inl _ \<Rightarrow> None)
           | Inl _ \<Rightarrow> None)
      | Inl _ \<Rightarrow> None)"


lemmas hybrid_defs = hybrid_context_def demo_context_def demo_cache_def reset_src_def enumerate_eq_zip upt_rec demo_cell_def default_cell_def

lemma hybrid_loop: "defrag_loop 4 3 10922 0 \<lparr>df_cells = kv_cells (kv_self (hybrid_context True)), df_ids = replicate 4 4, df_head = 0, df_moves = 0\<rparr> =
  Inr \<lparr>df_cells = [(demo_cell 0 {2})\<lparr>c_src := 3\<rparr>, (demo_cell 0 {0})\<lparr>c_src := 1\<rparr>, (demo_cell 1 {0})\<lparr>c_src := 2\<rparr>, default_cell], df_ids = [4, 1, 2, 0], df_head = 3, df_moves = 1\<rparr>"
  by (simp add: hybrid_defs defrag_loop.simps hole_end.simps find_sources.simps fill_hole.simps is_empty_def move_cell_def eval_nat_numeral)

lemma hybrid_blocks: "defrag_blocks [4, Suc 0, 2, 0] 0 = [(3, 0, 1)]"
  by (simp add: defrag_blocks.simps block_length.simps eval_nat_numeral)

lemma hybrid_max: "llama_kv_cache_cell_max (kv_self (hybrid_context d)) = 4" "max_moves demo_model (hybrid_context d) = 10922"
proof -
  show "llama_kv_cache_cell_max (kv_self (hybrid_context d)) = 4"
    by (simp add: hybrid_defs llama_kv_cache_cell_max_def cell_in_use_def is_empty_def eval_nat_numeral)
  show "max_moves demo_model (hybrid_context d) = 10922"
    by (simp add: hybrid_context_def demo_context_def max_moves_def demo_model_def)
qed

definition hybrid_cells :: "kv_cell list" where
  "hybrid_cells = [(demo_cell 0 {2})\<lparr>c_src := 3\<rparr>, (demo_cell 0 {0})\<lparr>c_src := 1\<rparr>, (demo_cell 1 {0})\<lparr>c_src := 2\<rparr>, default_cell]"

lemma hybrid_defrag:
  "llama_kv_cache_defrag_internal demo_model (hybrid_context True) =
    Inr ((hybrid_context True)\<lparr>kv_self := (kv_self (hybrid_context True))\<lparr>kv_cells := hybrid_cells, kv_head := 3\<rparr>\<rparr>)"
proof -
  have r: "retire_pending (hybrid_context True) = hybrid_context True" by (simp add: hybrid_context_def demo_context_def retire_pending_def)
  have f: "kv_used (kv_self (hybrid_context True)) = 3" "kv_head (kv_self (hybrid_context True)) = 0"
    "qsa_topk (hybrid_context True) = []" "qsa_valid (hybrid_context True) = []" "kp_l_count (hybrid_context True) = 0"
    "qsa_pooled_stale (hybrid_context True) = False" "kv_data (hybrid_context True) = \<lparr>k_l = [None], v_l = [], kr_l = [], s_l = [Some [10, 11, 12]]\<rparr>"
    by (simp_all add: hybrid_context_def demo_context_def demo_cache_def)
  show ?thesis
    unfolding llama_kv_cache_defrag_internal_def Let_def r hybrid_max f hybrid_loop
    by (simp add: hybrid_blocks build_defrag_def layer_copies_def layer_at_def hybrid_cells_def) (simp add: hybrid_context_def demo_context_def)
qed

lemma hybrid_flags:
  "kv_has_shift (kv_self (hybrid_context d)) = False" "kv_recurrent (kv_self (hybrid_context d)) = False"
  "llama_kv_has_qnext_state_storage (kv_self (hybrid_context d)) = Inr True" "kv_do_copy (kv_self (hybrid_context d)) = False"
  "kv_do_defrag (kv_self (hybrid_context d)) = d"
  by (simp_all add: hybrid_context_def demo_context_def demo_cache_def llama_kv_has_qnext_state_storage_def llama_kv_qnext_state_slots_def)

lemma hybrid_update: "llama_kv_cache_update_internal demo_model (hybrid_context d) =
  Inr (0, if d then (hybrid_context d)\<lparr>kv_self := (kv_self (hybrid_context d))\<lparr>kv_cells := hybrid_cells, kv_head := 3, kv_do_defrag := False\<rparr>\<rparr> else hybrid_context d)"
  by (cases d) (simp_all add: llama_kv_cache_update_internal_def hybrid_flags hybrid_defrag Let_def)


section \<open>Reachable contexts\<close>

inductive ctx_step :: "'r kv_model \<Rightarrow> 'r kv_context \<Rightarrow> 'r kv_context \<Rightarrow> bool" for m where
  cs_clear: "ctx_step m ctx (ctx_kv_cache_clear ctx)"
| cs_rm: "ctx_kv_cache_seq_rm ctx s p0 p1 = Inr (r, ctx') \<Longrightarrow> ctx_step m ctx ctx'"
| cs_cp: "ctx_kv_cache_seq_cp ctx src dst p0 p1 = Inr ctx' \<Longrightarrow> ctx_step m ctx ctx'"
| cs_keep: "ctx_kv_cache_seq_keep ctx s = Inr ctx' \<Longrightarrow> ctx_step m ctx ctx'"
| cs_add: "ctx_kv_cache_seq_add ctx s p0 p1 d = Inr ctx' \<Longrightarrow> ctx_step m ctx ctx'"
| cs_div: "0 < d \<Longrightarrow> ctx_kv_cache_seq_div ctx s p0 p1 d = Inr ctx' \<Longrightarrow> ctx_step m ctx ctx'"
| cs_defrag: "ctx_step m ctx (ctx_kv_cache_defrag ctx)"
| cs_update: "llama_kv_cache_update_internal m ctx = Inr (r, ctx') \<Longrightarrow> ctx_step m ctx ctx'"
| cs_prepare: "batch_ok batch \<Longrightarrow> decode_prepare m fa batch e meta ctx = Inr (r, ctx') \<Longrightarrow> ctx_step m ctx ctx'"
| cs_advance: "decode_advance n ctx = Inr ctx' \<Longrightarrow> ctx_step m ctx ctx'"

inductive ctx_reachable :: "'r kv_model \<Rightarrow> 'r kv_context \<Rightarrow> bool" for m where
  ctx_fresh: "\<not> kv_recurrent (kv_self ctx) \<Longrightarrow> length (kv_cells (kv_self ctx)) = kv_size (kv_self ctx) \<Longrightarrow> kv_size (kv_self ctx) < 2 ^ 31 \<Longrightarrow>
    ctx_reachable m (ctx_kv_cache_clear ctx)"
| ctx_next: "ctx_reachable m ctx \<Longrightarrow> ctx_step m ctx ctx' \<Longrightarrow> ctx_reachable m ctx'"

named_theorems ctx_simps

lemma map_sum_Inr [ctx_simps]: "map_sum id f x = Inr y \<longleftrightarrow> (\<exists>z. x = Inr z \<and> y = f z)"
  by (cases x) auto

lemma reset_self [ctx_simps]: "kv_self (llama_qwen4_mtp_qsa_reset ctx) = kv_self ctx"
  by (simp add: llama_qwen4_mtp_qsa_reset_def retire_pending_def)

lemma stale_self [ctx_simps]: "kv_self (mark_stale b ctx) = kv_self ctx"
  by (simp add: mark_stale_def)

text \<open>Every operation of the interface is a step of the cache or leaves it alone.\<close>

lemma ctx_op_steps:
  "kv_step (kv_self ctx) (kv_self (ctx_kv_cache_clear ctx))"
  "ctx_kv_cache_seq_rm ctx s p0 p1 = Inr (r, ctx') \<Longrightarrow> kv_step (kv_self ctx) (kv_self ctx')"
  "ctx_kv_cache_seq_cp ctx src dst p0 p1 = Inr ctx' \<Longrightarrow> ctx' = ctx \<or> kv_step (kv_self ctx) (kv_self ctx')"
  "ctx_kv_cache_seq_keep ctx s = Inr ctx' \<Longrightarrow> kv_step (kv_self ctx) (kv_self ctx')"
  "ctx_kv_cache_seq_add ctx s p0 p1 d = Inr ctx' \<Longrightarrow> ctx' = ctx \<or> kv_step (kv_self ctx) (kv_self ctx')"
  "0 < d \<Longrightarrow> ctx_kv_cache_seq_div ctx s p0 p1 d = Inr ctx' \<Longrightarrow> ctx' = ctx \<or> kv_step (kv_self ctx) (kv_self ctx')"
  "kv_step (kv_self ctx) (kv_self (ctx_kv_cache_defrag ctx))"
  by (auto simp: ctx_kv_cache_clear_def ctx_kv_cache_seq_rm_def ctx_kv_cache_seq_cp_def ctx_kv_cache_seq_keep_def
      ctx_kv_cache_seq_add_def ctx_kv_cache_seq_div_def ctx_kv_cache_defrag_def Let_def ctx_simps
      split: sum.splits if_splits prod.splits intro: kv_step.intros)

lemma map_cells_wf:
  assumes "kv_wf cache" "kv_cells cache' = cs" "map abs_cell cs = map abs_cell (kv_cells cache)" "list_all cell_wf cs"
    "\<not> kv_recurrent cache'" "kv_size cache' = kv_size cache" "kv_head cache' = kv_head cache" "kv_used cache' = kv_used cache"
  shows "kv_wf cache'"
  using kv_wf_abs_cong[OF assms(1), of cache'] assms kv_wfD[OF assms(1)] by (simp add: kv_abs_def)

lemma reset_src_abs: "map abs_cell (reset_src cs) = map abs_cell cs" "list_all cell_wf cs \<Longrightarrow> list_all cell_wf (reset_src cs)"
proof -
  have "map abs_cell (reset_src cs) = map (abs_cell \<circ> snd) (enumerate 0 cs)" by (simp add: reset_src_def abs_cell_def split_def comp_def)
  then show "map abs_cell (reset_src cs) = map abs_cell cs" by (simp flip: map_map)
  show "list_all cell_wf (reset_src cs)" if "list_all cell_wf cs"
    using that by (auto simp: reset_src_def list_all_length nth_enumerate_eq cell_wf_def)
qed

lemma update_wf:
  assumes "kv_wf (kv_self ctx)" "llama_kv_cache_update_internal m ctx = Inr (r, ctx')"
  shows "kv_wf (kv_self ctx')"
proof -
  have shift: "kv_wf (kv_self (apply_shift m c))" if "kv_wf (kv_self c)" for c :: "'a kv_context"
    by (rule map_cells_wf[OF that refl]) (use kv_wfD[OF that] in \<open>auto simp: apply_shift_def abs_cell_def list_all_iff cell_wf_def\<close>)
  have copy: "kv_wf (kv_self (apply_copy m n c))" if "kv_wf (kv_self c)" for c :: "'a kv_context" and n
    by (rule map_cells_wf[OF that refl]) (use kv_wfD[OF that] reset_src_abs in \<open>auto simp: apply_copy_def\<close>)
  have defrag: "kv_wf ((kv_self c')\<lparr>kv_do_defrag := False\<rparr>)" if "kv_wf (kv_self c)" "llama_kv_cache_defrag_internal m c = Inr c'" for c c' :: "'a kv_context"
    using defrag_internal_wf[OF that(1), of m] that(2) by (auto simp: kv_wf_def)
  define ctx1 where "ctx1 = (if \<not> rope_type_none m \<and> kv_has_shift (kv_self ctx) then apply_shift m ctx else ctx)"
  have w1: "kv_wf (kv_self ctx1)" using assms(1) shift by (simp add: ctx1_def)
  have "ctx' = ctx \<or> (\<exists>ctx2. (ctx2 = ctx1 \<or> (\<exists>n. ctx2 = apply_copy m n ctx1)) \<and>
      (ctx' = ctx2 \<or> (\<exists>c. llama_kv_cache_defrag_internal m ctx2 = Inr c \<and> ctx' = c\<lparr>kv_self := (kv_self c)\<lparr>kv_do_defrag := False\<rparr>\<rparr>)))"
    using assms(2) unfolding llama_kv_cache_update_internal_def Let_def ctx1_def[symmetric]
    by (auto simp: ctx_simps split: if_splits sum.splits)
  then consider "ctx' = ctx" | ctx2 where "ctx2 = ctx1 \<or> (\<exists>n. ctx2 = apply_copy m n ctx1)"
    "ctx' = ctx2 \<or> (\<exists>c. llama_kv_cache_defrag_internal m ctx2 = Inr c \<and> ctx' = c\<lparr>kv_self := (kv_self c)\<lparr>kv_do_defrag := False\<rparr>\<rparr>)"
    by blast
  then show ?thesis
  proof cases
    case (2 ctx2)
    have "kv_wf (kv_self ctx2)" using 2(1) w1 copy by auto
    then show ?thesis using 2(2) defrag by auto
  qed (use assms(1) in simp)
qed

lemma compact_self:
  assumes "llama_kv_cache_compact_swa fa n ctx = Inr ctx'"
  shows "kv_wf (kv_self ctx') \<longleftrightarrow> kv_wf (kv_self ctx)"
  using assms by (auto simp: llama_kv_cache_compact_swa_def Let_def kv_wf_def split: if_splits)

lemma prepare_wf:
  assumes "kv_wf (kv_self ctx)" "batch_ok batch" "decode_prepare m fa batch e meta ctx = Inr (r, ctx')"
  shows "kv_wf (kv_self ctx')"
proof -
  obtain ret ctx1 where u: "llama_kv_cache_update_internal m ctx = Inr (ret, ctx1)"
    using assms(3) by (auto simp: decode_prepare_def split: sum.splits)
  note w1 = update_wf[OF assms(1) u]
  let ?c = "kv_self ctx1"
  define c1 where "c1 = (if kv_head ?c > kv_used ?c + 2 * b_n_tokens batch then ?c\<lparr>kv_head := 0\<rparr> else ?c)"
  have "kv_wf c1" using w1 by (auto simp: c1_def kv_wf_def)
  obtain found c2 where f: "llama_kv_cache_find_slot c1 batch e meta = (found, c2)" by fastforce
  have w2: "kv_wf c2" by (rule find_slot_wf[OF \<open>kv_wf c1\<close> assms(2) f])
  then have "kv_wf (c2\<lparr>kv_n := k\<rparr>)" for k by (simp add: kv_wf_def)
  then show ?thesis
    using assms(3) w1 w2 f compact_self[of fa "b_n_tokens batch" _ ctx']
    by (auto simp: decode_prepare_def u Let_def c1_def[symmetric] ctx_simps split: if_splits option.splits)
qed

lemma advance_wf:
  assumes "kv_wf (kv_self ctx)" "decode_advance n ctx = Inr ctx'"
  shows "kv_wf (kv_self ctx')"
  using assms by (auto simp: decode_advance_def Let_def kv_wf_def split: if_splits)

lemma ctx_step_wf: "ctx_step m ctx ctx' \<Longrightarrow> kv_wf (kv_self ctx) \<Longrightarrow> kv_wf (kv_self ctx')"
proof (induction rule: ctx_step.induct)
  case (cs_update ctx r ctx')
  then show ?case using update_wf by blast
next
  case (cs_prepare batch fa e meta ctx r ctx')
  then show ?case using prepare_wf by blast
next
  case (cs_advance n ctx ctx')
  then show ?case using advance_wf by blast
qed (metis ctx_op_steps kv_step_wf)+

lemma ctx_reachable_inv: "ctx_reachable m ctx \<Longrightarrow> kv_wf (kv_self ctx)"
proof (induction rule: ctx_reachable.induct)
  case (ctx_fresh ctx)
  then show ?case using clear_wf by (simp add: ctx_kv_cache_clear_def Let_def ctx_simps)
qed (rule ctx_step_wf)



section \<open>Compaction of sliding windows\<close>

text \<open>The row of a position in a tensor with a compacted window.\<close>

definition window_row :: "kv_cache \<Rightarrow> 'r list \<Rightarrow> llama_pos \<Rightarrow> 'r" where
  "window_row cache rows pos = rows ! (kv_sink_rows cache + nat (pos - kv_pos_base_swa cache))"

lemma compact_run:
  assumes "llama_kv_cache_compact_swa fa n ctx = Inr ctx'"
  defines "f \<equiv> \<lambda>ts :: 'r list option list. compact_layers (kv_size (kv_self ctx)) (kv_row_count (kv_self ctx))
      (kv_sink_rows (kv_self ctx) + live_swa (kv_self ctx) - kv_window_swa (kv_self ctx)) (kv_sink_rows (kv_self ctx)) (kv_window_swa (kv_self ctx))
      (k_l (kv_data ctx)) ts"
  shows "ctx' = ctx \<or> kv_window_swa (kv_self ctx) \<le> live_swa (kv_self ctx) \<and>
    ctx' = ctx\<lparr>kv_data := (kv_data ctx)\<lparr>k_l := f (k_l (kv_data ctx)), v_l := f (v_l (kv_data ctx))\<rparr>,
      kv_self := (kv_self ctx)\<lparr>kv_pos_base_swa := kv_pos_base_swa (kv_self ctx) + int (live_swa (kv_self ctx) - kv_window_swa (kv_self ctx)),
        kv_head_swa := kv_sink_rows (kv_self ctx) + kv_window_swa (kv_self ctx)\<rparr>\<rparr>"
proof -
  have branch: "(if a then Inr x else if b then Inl e else if c then Inr x else if d then Inl e' else Inr z) = Inr y \<Longrightarrow> y = x \<or> \<not> d \<and> y = z"
    for a b c d and x y z :: "'r kv_context" and e e' :: kv_error by (simp split: if_splits)
  show ?thesis using branch[OF assms(1)[unfolded llama_kv_cache_compact_swa_def Let_def]] unfolding f_def not_less .
qed

lemma compact_rows:
  assumes "sink + live \<le> length rows" "w \<le> live"
  shows "j < sink \<Longrightarrow> copy_rows (sink + live - w) sink w rows ! j = rows ! j"
    "k < w \<Longrightarrow> copy_rows (sink + live - w) sink w rows ! (sink + k) = rows ! (sink + live - w + k)"
  using assms copy_rows_nth(2)[of sink w rows "sink + live - w"] by auto

text \<open>C36. Compaction of the sliding window keeps the data of every position it retains, and of the sinks, in every tensor of a compacted
  layer: the rows move down, and so does the base of the positions.\<close>

theorem compact_swa_keeps_window:
  assumes "llama_kv_cache_compact_swa fa n ctx = Inr ctx'" "r = Ref_k il \<or> r = Ref_v il"
    "any_compacted (kv_self ctx)" "kv_row_count (kv_self ctx) ! il < kv_size (kv_self ctx)"
    "layer_at (k_l (kv_data ctx)) il \<noteq> None" "tensor_of (kv_data ctx) r = Some rows"
    "kv_sink_rows (kv_self ctx) \<le> kv_head_swa (kv_self ctx)" "kv_head_swa (kv_self ctx) \<le> length rows" "kv_head_swa (kv_self ctx) < 2 ^ 32"
  shows "\<exists>rows'. tensor_of (kv_data ctx') r = Some rows' \<and> (\<forall>j < kv_sink_rows (kv_self ctx). rows' ! j = rows ! j) \<and>
    (\<forall>pos. kv_pos_base_swa (kv_self ctx') \<le> pos \<longrightarrow> pos < kv_pos_base_swa (kv_self ctx') + int (live_swa (kv_self ctx')) \<longrightarrow>
      window_row (kv_self ctx') rows' pos = window_row (kv_self ctx) rows pos)"
proof (cases "ctx' = ctx")
  case True
  then show ?thesis using assms(6) by simp
next
  case False
  let ?c = "kv_self ctx"
  let ?sink = "kv_sink_rows ?c" and ?w = "kv_window_swa ?c" and ?live = "live_swa ?c"
  have live: "?live = kv_head_swa ?c - ?sink" using assms(7,9) by (simp add: live_swa_def u32_sub_id)
  define f where "f = (\<lambda>ts. compact_layers (kv_size ?c) (kv_row_count ?c) (?sink + ?live - ?w) ?sink ?w (k_l (kv_data ctx)) (ts :: 'a list option list))"
  have c': "kv_self ctx' = ?c\<lparr>kv_pos_base_swa := kv_pos_base_swa ?c + int (?live - ?w), kv_head_swa := ?sink + ?w\<rparr>"
    "kv_data ctx' = (kv_data ctx)\<lparr>k_l := f (k_l (kv_data ctx)), v_l := f (v_l (kv_data ctx))\<rparr>"
    "?w \<le> ?live"
    using compact_run[OF assms(1)] False by (simp_all add: f_def)
  have at: "layer_at (f ts) il = map_option (copy_rows (?sink + ?live - ?w) ?sink ?w) (layer_at ts il)" for ts
    using assms(4,5) by (simp add: f_def compact_layers_def layer_at_def nth_enumerate_eq)
  have t: "tensor_of (kv_data ctx') r = Some (copy_rows (?sink + ?live - ?w) ?sink ?w rows)"
    using assms(2,6) by (auto simp: c'(2) at)
  have len: "?sink + ?live \<le> length rows" using live assms(7,8) by simp
  note cr = compact_rows[OF len c'(3)]
  have live': "live_swa (kv_self ctx') = ?w" using c'(1,3) live assms(7,9) by (simp add: live_swa_def u32_sub_id)
  have "window_row (kv_self ctx') (copy_rows (?sink + ?live - ?w) ?sink ?w rows) pos = window_row ?c rows pos"
    if "kv_pos_base_swa (kv_self ctx') \<le> pos" "pos < kv_pos_base_swa (kv_self ctx') + int ?w" for pos
  proof -
    define k where "k = nat (pos - kv_pos_base_swa (kv_self ctx'))"
    have k: "k < ?w" "nat (pos - kv_pos_base_swa ?c) = ?live - ?w + k" using that c'(1) by (simp_all add: k_def)
    have "?sink + (?live - ?w + k) = ?sink + ?live - ?w + k" using c'(3) by simp
    moreover have "kv_sink_rows (kv_self ctx') = ?sink" using c'(1) by simp
    ultimately show ?thesis unfolding window_row_def k_def[symmetric] k(2) by (simp only: cr(2)[OF k(1)])
  qed
  then show ?thesis using t cr(1) live' by simp
qed

text \<open>A compacted cache: one sink row, thirty live rows, a window of two.\<close>

definition compact_context :: "int kv_context" where
  "compact_context = demo_context ((demo_cache [] 0 (replicate 64 (demo_cell (- 1) {})))\<lparr>kv_row_count := [40], kv_size_swa := 40,
      kv_sink_rows := 1, kv_window_swa := 2, kv_head_swa := 31, kv_pos_base_swa := 100\<rparr>)
     \<lparr>k_l = [Some (map int [0..<40])], v_l = [], kr_l = [], s_l = []\<rparr> []"

lemma compact_swa_keeps_window_witness:
  "\<exists>ctx' rows'. llama_kv_cache_compact_swa False 3 compact_context = Inr ctx' \<and> tensor_of (kv_data ctx') (Ref_k 0) = Some rows' \<and>
    window_row (kv_self ctx') rows' 129 = 30"
proof -
  have f: "kv_self compact_context = (demo_cache [] 0 (replicate 64 (demo_cell (- 1) {})))\<lparr>kv_row_count := [40], kv_size_swa := 40,
      kv_sink_rows := 1, kv_window_swa := 2, kv_head_swa := 31, kv_pos_base_swa := 100\<rparr>"
    "kv_data compact_context = \<lparr>k_l = [Some (map int [0..<40])], v_l = [], kr_l = [], s_l = []\<rparr>"
    by (simp_all add: compact_context_def demo_context_def)
  obtain ctx' where c: "llama_kv_cache_compact_swa False 3 compact_context = Inr ctx'" "kv_pos_base_swa (kv_self ctx') = 128"
    "live_swa (kv_self ctx') = 2"
    by (simp add: llama_kv_cache_compact_swa_def f demo_cache_def any_compacted_def swa_capacity_def get_padding_def live_swa_def u32_sub_id Let_def)
  have "\<exists>rows'. tensor_of (kv_data ctx') (Ref_k 0) = Some rows' \<and> (\<forall>j < kv_sink_rows (kv_self compact_context). rows' ! j = map int [0..<40] ! j) \<and>
    (\<forall>pos. kv_pos_base_swa (kv_self ctx') \<le> pos \<longrightarrow> pos < kv_pos_base_swa (kv_self ctx') + int (live_swa (kv_self ctx')) \<longrightarrow>
      window_row (kv_self ctx') rows' pos = window_row (kv_self compact_context) (map int [0..<40]) pos)"
    by (rule compact_swa_keeps_window[where il = 0, OF c(1)]) (simp_all add: f demo_cache_def any_compacted_def layer_at_def)
  moreover have "window_row (kv_self compact_context) (map int [0..<40]) 129 = 30" by (simp add: window_row_def f)
  moreover have "kv_pos_base_swa (kv_self ctx') \<le> 129 \<and> 129 < kv_pos_base_swa (kv_self ctx') + int (live_swa (kv_self ctx'))" using c by simp
  ultimately show ?thesis using c(1) by metis
qed

end
