(* ===== verification/Utf8.thy ===== *)
theory Utf8
  imports Prelude
begin

text \<open>
  UTF-8 encoding and decoding: \<open>common/unicode.cpp\<close> (the streaming-aware parser) and the scalar part of
  \<open>src/unicode.cpp\<close> (encoder, decoder, the GPT-2 byte alphabet).  A \<open>std::string\<close> is a list of bytes.
\<close>

section \<open>The encoder and the strict decoder\<close>

definition utf8_lookup :: "nat list" where
  "utf8_lookup = [1, 1, 1, 1, 1, 1, 1, 1, 1, 1, 1, 1, 2, 2, 3, 4]"

definition common_utf8_sequence_length :: "byte \<Rightarrow> nat" where
  "common_utf8_sequence_length first_byte = utf8_lookup ! unat (drop_bit 4 first_byte)"

definition unicode_len_utf8 :: "byte \<Rightarrow> nat" where
  "unicode_len_utf8 src = utf8_lookup ! unat (drop_bit 4 src)"

definition low_byte :: "cpt \<Rightarrow> byte" where
  "low_byte c = ucast c"

definition unicode_cpt_to_utf8 :: "cpt \<Rightarrow> byte list option" where
  "unicode_cpt_to_utf8 cpt =
     (if cpt \<le> 0x7f then Some [low_byte cpt]
      else if 0x80 \<le> cpt \<and> cpt \<le> 0x7ff then
        Some [low_byte (0xc0 OR (drop_bit 6 cpt AND 0x1f)),
              low_byte (0x80 OR (cpt AND 0x3f))]
      else if 0x800 \<le> cpt \<and> cpt \<le> 0xffff then
        Some [low_byte (0xe0 OR (drop_bit 12 cpt AND 0x0f)),
              low_byte (0x80 OR (drop_bit 6 cpt AND 0x3f)),
              low_byte (0x80 OR (cpt AND 0x3f))]
      else if 0x10000 \<le> cpt \<and> cpt \<le> 0x10ffff then
        Some [low_byte (0xf0 OR (drop_bit 18 cpt AND 0x07)),
              low_byte (0x80 OR (drop_bit 12 cpt AND 0x3f)),
              low_byte (0x80 OR (drop_bit 6 cpt AND 0x3f)),
              low_byte (0x80 OR (cpt AND 0x3f))]
      else None)"

definition widen :: "byte \<Rightarrow> cpt" where
  "widen b = ucast b"

definition is_cont :: "byte \<Rightarrow> bool" where
  "is_cont b \<longleftrightarrow> b AND 0xc0 = 0x80"

definition cpt2 :: "byte \<Rightarrow> byte \<Rightarrow> cpt" where
  "cpt2 a b = push_bit 6 (widen a AND 0x1f) OR (widen b AND 0x3f)"

definition cpt3 :: "byte \<Rightarrow> byte \<Rightarrow> byte \<Rightarrow> cpt" where
  "cpt3 a b c = push_bit 12 (widen a AND 0x0f) OR push_bit 6 (widen b AND 0x3f) OR (widen c AND 0x3f)"

definition cpt4 :: "byte \<Rightarrow> byte \<Rightarrow> byte \<Rightarrow> byte \<Rightarrow> cpt" where
  "cpt4 a b c d =
     push_bit 18 (widen a AND 0x07) OR push_bit 12 (widen b AND 0x3f) OR push_bit 6 (widen c AND 0x3f)
       OR (widen d AND 0x3f)"



definition unicode_cpt_from_utf8 :: "byte list \<Rightarrow> nat \<Rightarrow> (cpt \<times> nat) option" where
  "unicode_cpt_from_utf8 utf8 offset =
     (if \<not> offset < length utf8 then None
      else if utf8 ! offset AND 0x80 = 0 then Some (widen (utf8 ! offset), offset + 1)
      else if utf8 ! offset AND 0x40 = 0 then None
      else if utf8 ! offset AND 0x20 = 0 then
        (if offset + 1 \<ge> length utf8 \<or> \<not> is_cont (utf8 ! (offset + 1)) then None
         else Some (cpt2 (utf8 ! offset) (utf8 ! (offset + 1)), offset + 2))
      else if utf8 ! offset AND 0x10 = 0 then
        (if offset + 2 \<ge> length utf8 \<or> \<not> is_cont (utf8 ! (offset + 1)) \<or> \<not> is_cont (utf8 ! (offset + 2))
         then None
         else Some (cpt3 (utf8 ! offset) (utf8 ! (offset + 1)) (utf8 ! (offset + 2)), offset + 3))
      else if utf8 ! offset AND 0x08 = 0 then
        (if offset + 3 \<ge> length utf8 \<or> \<not> is_cont (utf8 ! (offset + 1)) \<or> \<not> is_cont (utf8 ! (offset + 2))
            \<or> \<not> is_cont (utf8 ! (offset + 3))
         then None
         else Some (cpt4 (utf8 ! offset) (utf8 ! (offset + 1)) (utf8 ! (offset + 2)) (utf8 ! (offset + 3)),
                    offset + 4))
      else None)"

lemma cpt_from_utf8_advances:
  "unicode_cpt_from_utf8 s i = Some (c, j) \<Longrightarrow> i < j \<and> j \<le> length s"
  by (auto simp: unicode_cpt_from_utf8_def split: if_splits)

function unicode_cpts_from_utf8_at :: "byte list \<Rightarrow> nat \<Rightarrow> cpt list" where
  "unicode_cpts_from_utf8_at utf8 offset =
     (if offset < length utf8 then
        (case unicode_cpt_from_utf8 utf8 offset of
           Some (c, offset') \<Rightarrow> c # unicode_cpts_from_utf8_at utf8 offset'
         | None \<Rightarrow> 0xFFFD # unicode_cpts_from_utf8_at utf8 (offset + 1))
      else [])"
  by pat_completeness auto
termination
  by (relation "measure (\<lambda>(s, i). length s - i)") (auto dest!: cpt_from_utf8_advances)

declare unicode_cpts_from_utf8_at.simps [simp del]

definition unicode_cpts_from_utf8 :: "byte list \<Rightarrow> cpt list" where
  "unicode_cpts_from_utf8 utf8 = unicode_cpts_from_utf8_at utf8 0"

fun unicode_cpts_to_utf8 :: "cpt list \<Rightarrow> byte list option" where
  "unicode_cpts_to_utf8 [] = Some []"
| "unicode_cpts_to_utf8 (c # cs) =
     (case unicode_cpt_to_utf8 c of None \<Rightarrow> None
      | Some bs \<Rightarrow> (case unicode_cpts_to_utf8 cs of None \<Rightarrow> None | Some bs' \<Rightarrow> Some (bs @ bs')))"

definition common_unicode_cpt_to_utf8 :: "cpt \<Rightarrow> byte list option" where
  "common_unicode_cpt_to_utf8 cpt = unicode_cpt_to_utf8 cpt"

fun common_unicode_cpts_to_utf8 :: "cpt list \<Rightarrow> byte list option" where
  "common_unicode_cpts_to_utf8 [] = Some []"
| "common_unicode_cpts_to_utf8 (c # cs) =
     (case common_unicode_cpt_to_utf8 c of None \<Rightarrow> None
      | Some bs \<Rightarrow> (case common_unicode_cpts_to_utf8 cs of None \<Rightarrow> None | Some bs' \<Rightarrow> Some (bs @ bs')))"

section \<open>The streaming parser\<close>

datatype utf8_parse_result =
    SUCCESS cpt nat
  | INCOMPLETE
  | INVALID

definition common_parse_utf8_codepoint :: "byte list \<Rightarrow> nat \<Rightarrow> utf8_parse_result" where
  "common_parse_utf8_codepoint input offset =
     (if offset \<ge> length input then INCOMPLETE
      else if input ! offset AND 0x80 = 0 then SUCCESS (widen (input ! offset)) 1
      else if input ! offset AND 0x40 = 0 then INVALID
      else if input ! offset AND 0x20 = 0 then
        (if offset + 1 \<ge> length input then INCOMPLETE
         else if \<not> is_cont (input ! (offset + 1)) then INVALID
         else SUCCESS (cpt2 (input ! offset) (input ! (offset + 1))) 2)
      else if input ! offset AND 0x10 = 0 then
        (if offset + 2 \<ge> length input then INCOMPLETE
         else if \<not> is_cont (input ! (offset + 1)) \<or> \<not> is_cont (input ! (offset + 2)) then INVALID
         else SUCCESS (cpt3 (input ! offset) (input ! (offset + 1)) (input ! (offset + 2))) 3)
      else if input ! offset AND 0x08 = 0 then
        (if offset + 3 \<ge> length input then INCOMPLETE
         else if \<not> is_cont (input ! (offset + 1)) \<or> \<not> is_cont (input ! (offset + 2))
              \<or> \<not> is_cont (input ! (offset + 3)) then INVALID
         else SUCCESS (cpt4 (input ! offset) (input ! (offset + 1)) (input ! (offset + 2)) (input ! (offset + 3))) 4)
      else INVALID)"

text \<open>
  \<open>common_utf8_is_complete\<close> looks at the last four bytes from the back for one that is not a
  continuation byte; \<open>rs\<close> is the reversed rest of the string and \<open>i\<close> the loop counter.
\<close>

fun utf8_is_complete_back :: "nat \<Rightarrow> byte list \<Rightarrow> bool" where
  "utf8_is_complete_back i [] = False"
| "utf8_is_complete_back i (c # rs) =
     (if i > 4 then False
      else if c AND 0xC0 \<noteq> 0x80 then
        i \<ge> (if c \<ge> 0xF0 then 4 else if c \<ge> 0xE0 then 3 else if c \<ge> 0xC0 then 2 else 1)
      else utf8_is_complete_back (i + 1) rs)"

definition common_utf8_is_complete :: "byte list \<Rightarrow> bool" where
  "common_utf8_is_complete s = (if s = [] then True else utf8_is_complete_back 1 (rev s))"

section \<open>The GPT-2 byte alphabet\<close>

text \<open>
  \<open>unicode_byte_to_utf8_map\<close> and \<open>unicode_utf8_to_byte_map\<close>: printable Latin-1 bytes map to their own
  encoding, the others, in increasing order, to the encodings of the code points from 256 on.  The
  two functions run the same loops with key and value exchanged; \<open>utf8_of\<close> is the encoder on a code
  point that it accepts (all that occur here are below 512).
\<close>

definition utf8_of :: "nat \<Rightarrow> byte list" where
  "utf8_of ch = (case unicode_cpt_to_utf8 (of_nat ch) of Some bs \<Rightarrow> bs | None \<Rightarrow> [])"

definition printable_bytes :: "nat list" where
  "printable_bytes = [0x21..<0x7F] @ [0xA1..<0xAD] @ [0xAE..<0x100]"

fun fill_byte_to_utf8 :: "nat list \<Rightarrow> nat \<Rightarrow> (nat \<rightharpoonup> byte list) \<Rightarrow> (nat \<rightharpoonup> byte list)" where
  "fill_byte_to_utf8 [] n m = m"
| "fill_byte_to_utf8 (ch # chs) n m =
     (if m ch = None then fill_byte_to_utf8 chs (n + 1) (m(ch \<mapsto> utf8_of (256 + n)))
      else fill_byte_to_utf8 chs n m)"

definition unicode_byte_to_utf8_map :: "nat \<rightharpoonup> byte list" where
  "unicode_byte_to_utf8_map =
     fill_byte_to_utf8 [0..<256] 0 (foldl (\<lambda>m ch. m(ch \<mapsto> utf8_of ch)) Map.empty printable_bytes)"

fun fill_utf8_to_byte :: "nat list \<Rightarrow> nat \<Rightarrow> (byte list \<rightharpoonup> nat) \<Rightarrow> (byte list \<rightharpoonup> nat)" where
  "fill_utf8_to_byte [] n m = m"
| "fill_utf8_to_byte (ch # chs) n m =
     (if m (utf8_of ch) = None then fill_utf8_to_byte chs (n + 1) (m(utf8_of (256 + n) \<mapsto> ch))
      else fill_utf8_to_byte chs n m)"

definition unicode_utf8_to_byte_map :: "byte list \<rightharpoonup> nat" where
  "unicode_utf8_to_byte_map =
     fill_utf8_to_byte [0..<256] 0 (foldl (\<lambda>m ch. m(utf8_of ch \<mapsto> ch)) Map.empty printable_bytes)"

definition unicode_byte_to_utf8 :: "byte \<Rightarrow> byte list option" where
  "unicode_byte_to_utf8 b = unicode_byte_to_utf8_map (unat b)"

definition unicode_utf8_to_byte :: "byte list \<Rightarrow> byte option" where
  "unicode_utf8_to_byte s = map_option of_nat (unicode_utf8_to_byte_map s)"

section \<open>Bit-level facts\<close>


lemma low_bits: "(c::cpt) < 2 ^ k \<Longrightarrow> bit c n \<Longrightarrow> n < k"
  by (metis bit_take_bit_iff less_mask_eq take_bit_eq_mask)

lemma masks:
  "(x::'a::len word) AND 0x07 = take_bit 3 x"
  "(x::'a::len word) AND 0x0f = take_bit 4 x"
  "(x::'a::len word) AND 0x1f = take_bit 5 x"
  "(x::'a::len word) AND 0x3f = take_bit 6 x"
  by (simp_all add: take_bit_eq_mask mask_eq_exp_minus_1)

lemma bit_shifted_mask: "bit (push_bit k (mask m) :: int) n \<longleftrightarrow> k \<le> n \<and> n < k + m"
  by (auto simp: bit_push_bit_iff bit_mask_iff)

lemma lead_bits:
  "bit (0xc0::int) n \<longleftrightarrow> n = 6 \<or> n = 7"
  "bit (0x80::int) n \<longleftrightarrow> n = 7"
  "bit (0xe0::int) n \<longleftrightarrow> n = 5 \<or> n = 6 \<or> n = 7"
  "bit (0xf0::int) n \<longleftrightarrow> n = 4 \<or> n = 5 \<or> n = 6 \<or> n = 7"
proof -
  have e: "(0xc0::int) = push_bit 6 (mask 2)" "(0x80::int) = push_bit 7 (mask 1)"
    "(0xe0::int) = push_bit 5 (mask 3)" "(0xf0::int) = push_bit 4 (mask 4)"
    by (simp_all add: mask_eq_exp_minus_1)
  show "bit (0xc0::int) n \<longleftrightarrow> n = 6 \<or> n = 7"
    unfolding e(1) bit_shifted_mask by arith
  show "bit (0x80::int) n \<longleftrightarrow> n = 7"
    unfolding e(2) bit_shifted_mask by arith
  show "bit (0xe0::int) n \<longleftrightarrow> n = 5 \<or> n = 6 \<or> n = 7"
    unfolding e(3) bit_shifted_mask by arith
  show "bit (0xf0::int) n \<longleftrightarrow> n = 4 \<or> n = 5 \<or> n = 6 \<or> n = 7"
    unfolding e(4) bit_shifted_mask by arith
qed

lemmas utf8_bits = low_byte_def widen_def masks bit_simps lead_bits


text \<open>What the lead and continuation bytes of the encoder carry.\<close>

lemma payload:
  "widen (low_byte (0x80 OR (x AND 0x3f))) AND 0x3f = take_bit 6 x"
  "widen (low_byte (0xc0 OR (x AND 0x1f))) AND 0x1f = take_bit 5 x"
  "widen (low_byte (0xe0 OR (x AND 0x0f))) AND 0x0f = take_bit 4 x"
  "widen (low_byte (0xf0 OR (x AND 0x07))) AND 0x07 = take_bit 3 x"
  by (rule bit_word_eqI, auto simp: utf8_bits)+

lemma is_cont_low [simp]: "is_cont (low_byte (0x80 OR (c AND 0x3f)))"
  unfolding is_cont_def
  by (rule bit_word_eqI) (auto simp: utf8_bits)

lemma bit_field:
  "bit (push_bit k (take_bit m (drop_bit k (c::cpt)))) n \<longleftrightarrow> k \<le> n \<and> n < k + m \<and> bit c n"
  by (auto simp: bit_simps dest: bit_imp_le_length)

lemma cpt2_encode:
  assumes "(c::cpt) < 0x800"
  shows "cpt2 (low_byte (0xc0 OR (drop_bit 6 c AND 0x1f))) (low_byte (0x80 OR (c AND 0x3f))) = c"
proof -
  have b: "\<And>n. bit c n \<Longrightarrow> n < 11" using assms low_bits[of c 11] by simp
  show ?thesis
    unfolding cpt2_def payload
    by (rule bit_word_eqI) (auto simp: bit_or_iff bit_field bit_take_bit_iff dest: b)
qed

lemma cpt3_encode:
  assumes "(c::cpt) < 0x10000"
  shows "cpt3 (low_byte (0xe0 OR (drop_bit 12 c AND 0x0f))) (low_byte (0x80 OR (drop_bit 6 c AND 0x3f)))
           (low_byte (0x80 OR (c AND 0x3f))) = c"
proof -
  have b: "\<And>n. bit c n \<Longrightarrow> n < 16" using assms low_bits[of c 16] by simp
  show ?thesis
    unfolding cpt3_def payload
    by (rule bit_word_eqI) (auto simp: bit_or_iff bit_field bit_take_bit_iff dest: b)
qed

lemma cpt4_encode:
  assumes "(c::cpt) \<le> 0x10ffff"
  shows "cpt4 (low_byte (0xf0 OR (drop_bit 18 c AND 0x07))) (low_byte (0x80 OR (drop_bit 12 c AND 0x3f)))
           (low_byte (0x80 OR (drop_bit 6 c AND 0x3f))) (low_byte (0x80 OR (c AND 0x3f))) = c"
proof -
  have "c < 0x200000" using assms by (rule order.strict_trans1) simp
  then have b: "\<And>n. bit c n \<Longrightarrow> n < 21" using low_bits[of c 21] by simp
  show ?thesis
    unfolding cpt4_def payload
    by (rule bit_word_eqI) (auto simp: bit_or_iff bit_field bit_take_bit_iff dest: b)
qed

lemma test_bits_byte:
  "(b::byte) AND 0x80 = 0 \<longleftrightarrow> \<not> bit b 7"
  "(b::byte) AND 0x40 = 0 \<longleftrightarrow> \<not> bit b 6"
  "(b::byte) AND 0x20 = 0 \<longleftrightarrow> \<not> bit b 5"
  "(b::byte) AND 0x10 = 0 \<longleftrightarrow> \<not> bit b 4"
  "(b::byte) AND 0x08 = 0 \<longleftrightarrow> \<not> bit b 3"
proof -
  have *: "b AND 2 ^ k = 0 \<longleftrightarrow> \<not> bit b k" if "k < 8" for k
    using that by (simp add: and_exp_eq_0_iff_not_bit)
  show "(b::byte) AND 0x80 = 0 \<longleftrightarrow> \<not> bit b 7" using *[of 7] by simp
  show "(b::byte) AND 0x40 = 0 \<longleftrightarrow> \<not> bit b 6" using *[of 6] by simp
  show "(b::byte) AND 0x20 = 0 \<longleftrightarrow> \<not> bit b 5" using *[of 5] by simp
  show "(b::byte) AND 0x10 = 0 \<longleftrightarrow> \<not> bit b 4" using *[of 4] by simp
  show "(b::byte) AND 0x08 = 0 \<longleftrightarrow> \<not> bit b 3" using *[of 3] by simp
qed

lemma lead_byte_bits:
  "\<lbrakk>x \<le> 0x7f\<rbrakk> \<Longrightarrow> \<not> bit (low_byte x) 7"
  "bit (low_byte (0xc0 OR (x AND 0x1f))) 7" "bit (low_byte (0xc0 OR (x AND 0x1f))) 6"
  "\<not> bit (low_byte (0xc0 OR (x AND 0x1f))) 5"
  "bit (low_byte (0xe0 OR (x AND 0x0f))) 7" "bit (low_byte (0xe0 OR (x AND 0x0f))) 6"
  "bit (low_byte (0xe0 OR (x AND 0x0f))) 5" "\<not> bit (low_byte (0xe0 OR (x AND 0x0f))) 4"
  "bit (low_byte (0xf0 OR (x AND 0x07))) 7" "bit (low_byte (0xf0 OR (x AND 0x07))) 6"
  "bit (low_byte (0xf0 OR (x AND 0x07))) 5" "bit (low_byte (0xf0 OR (x AND 0x07))) 4"
  "\<not> bit (low_byte (0xf0 OR (x AND 0x07))) 3"
proof -
  show "\<lbrakk>x \<le> 0x7f\<rbrakk> \<Longrightarrow> \<not> bit (low_byte x) 7"
  proof -
    assume "x \<le> 0x7f"
    then have "x < 0x80" by (rule order.strict_trans1) simp
    then have "\<not> bit x 7" using low_bits[of x 7 7] by auto
    then show ?thesis by (simp add: low_byte_def bit_simps)
  qed
qed (simp_all add: utf8_bits)

lemma widen_low_byte: "(c::cpt) \<le> 0x7f \<Longrightarrow> widen (low_byte c) = c"
proof -
  assume "c \<le> 0x7f"
  then have "c < 0x80" by (rule order.strict_trans1) simp
  then have b: "\<And>n. bit c n \<Longrightarrow> n < 7" using low_bits[of c 7] by simp
  show ?thesis
    by (rule bit_word_eqI) (auto simp: low_byte_def widen_def bit_simps dest: b)
qed


section \<open>Decoding what the encoder wrote\<close>

lemma cpt_gaps:
  "(0x80::cpt) \<le> c \<longleftrightarrow> \<not> c \<le> 0x7f" "(0x800::cpt) \<le> c \<longleftrightarrow> \<not> c \<le> 0x7ff"
  "(0x10000::cpt) \<le> c \<longleftrightarrow> \<not> c \<le> 0xffff"
  by (auto simp: word_le_nat_alt)

lemma cpt_from_utf8_encode:
  assumes "unicode_cpt_to_utf8 c = Some bs"
  shows "unicode_cpt_from_utf8 (pre @ bs @ post) (length pre) = Some (c, length pre + length bs)"
proof -
  consider (1) "c \<le> 0x7f" | (2) "\<not> c \<le> 0x7f" "c \<le> 0x7ff"
    | (3) "\<not> c \<le> 0x7f" "\<not> c \<le> 0x7ff" "c \<le> 0xffff"
    | (4) "\<not> c \<le> 0x7f" "\<not> c \<le> 0x7ff" "\<not> c \<le> 0xffff" "c \<le> 0x10ffff"
    using assms by (auto simp: unicode_cpt_to_utf8_def split: if_splits)
  then show ?thesis
  proof cases
    case 1
    with assms have "bs = [low_byte c]" by (simp add: unicode_cpt_to_utf8_def)
    with 1 show ?thesis
      by (simp add: unicode_cpt_from_utf8_def nth_append test_bits_byte lead_byte_bits widen_low_byte)
  next
    case 2
    with assms have bs: "bs = [low_byte (0xc0 OR (drop_bit 6 c AND 0x1f)), low_byte (0x80 OR (c AND 0x3f))]"
      by (simp add: unicode_cpt_to_utf8_def cpt_gaps)
    have "c < 0x800" using 2(2) by (rule order.strict_trans1) simp
    then show ?thesis
      by (simp add: bs unicode_cpt_from_utf8_def nth_append test_bits_byte lead_byte_bits cpt2_encode)
  next
    case 3
    with assms have bs: "bs = [low_byte (0xe0 OR (drop_bit 12 c AND 0x0f)),
        low_byte (0x80 OR (drop_bit 6 c AND 0x3f)), low_byte (0x80 OR (c AND 0x3f))]"
      by (simp add: unicode_cpt_to_utf8_def cpt_gaps)
    have "c < 0x10000" using 3(3) by (rule order.strict_trans1) simp
    then show ?thesis
      by (simp add: bs unicode_cpt_from_utf8_def nth_append test_bits_byte lead_byte_bits cpt3_encode)
  next
    case 4
    with assms have bs: "bs = [low_byte (0xf0 OR (drop_bit 18 c AND 0x07)),
        low_byte (0x80 OR (drop_bit 12 c AND 0x3f)), low_byte (0x80 OR (drop_bit 6 c AND 0x3f)),
        low_byte (0x80 OR (c AND 0x3f))]"
      by (simp add: unicode_cpt_to_utf8_def cpt_gaps)
    show ?thesis
      using 4(4) by (simp add: bs unicode_cpt_from_utf8_def nth_append test_bits_byte lead_byte_bits cpt4_encode)
  qed
qed

lemma cpt_to_utf8_length: "unicode_cpt_to_utf8 c = Some bs \<Longrightarrow> 1 \<le> length bs \<and> length bs \<le> 4"
  by (auto simp: unicode_cpt_to_utf8_def split: if_splits)

lemma cpts_from_utf8_at_encode:
  "unicode_cpts_to_utf8 cs = Some bs \<Longrightarrow> unicode_cpts_from_utf8_at (pre @ bs) (length pre) = cs"
proof (induction cs arbitrary: pre bs)
  case Nil
  then show ?case by (simp add: unicode_cpts_from_utf8_at.simps)
next
  case (Cons c cs)
  then obtain b1 b2 where b: "unicode_cpt_to_utf8 c = Some b1" "unicode_cpts_to_utf8 cs = Some b2" "bs = b1 @ b2"
    by (auto split: option.splits)
  have "unicode_cpts_from_utf8_at ((pre @ b1) @ b2) (length (pre @ b1)) = cs"
    using b(2) by (rule Cons.IH)
  then show ?case
    using cpt_from_utf8_encode[OF b(1), of pre b2] cpt_to_utf8_length[OF b(1)] b(3)
    by (subst unicode_cpts_from_utf8_at.simps) auto
qed

text \<open>C22. Decoding with \<open>unicode_cpts_from_utf8\<close> what \<open>unicode_cpts_to_utf8\<close> wrote gives the code points back.\<close>

theorem unicode_utf8_roundtrip:
  "unicode_cpts_to_utf8 cs = Some bs \<Longrightarrow> unicode_cpts_from_utf8 bs = cs"
  using cpts_from_utf8_at_encode[of cs bs "[]"] by (simp add: unicode_cpts_from_utf8_def)

theorem unicode_utf8_roundtrip_witness:
  "unicode_cpts_from_utf8 [0x48, 0xc3, 0xa9, 0xe2, 0x82, 0xac, 0xf0, 0x9f, 0x98, 0x80] = [0x48, 0xe9, 0x20ac, 0x1f600]"
proof -
  have "unicode_cpts_to_utf8 [0x48, 0xe9, 0x20ac, 0x1f600]
      = Some [0x48, 0xc3, 0xa9, 0xe2, 0x82, 0xac, 0xf0, 0x9f, 0x98, 0x80]"
    by (simp add: unicode_cpt_to_utf8_def low_byte_def)
  then show ?thesis by (rule unicode_utf8_roundtrip)
qed


section \<open>The streaming parser against the strict decoder\<close>

text \<open>\<open>common_parse_utf8_codepoint\<close> succeeds exactly where \<open>unicode_cpt_from_utf8\<close> does, with the same
  code point and the same number of bytes consumed.\<close>

theorem parse_utf8_codepoint_equiv:
  "common_parse_utf8_codepoint s i = SUCCESS c n \<longleftrightarrow> unicode_cpt_from_utf8 s i = Some (c, i + n)"
  unfolding common_parse_utf8_codepoint_def unicode_cpt_from_utf8_def by auto

lemma all_bytes: "list_all (\<lambda>n. P (of_nat n :: byte)) [0..<256] \<Longrightarrow> P b"
proof -
  assume *: "list_all (\<lambda>n. P (of_nat n :: byte)) [0..<256]"
  have "unat b < 256" using unsigned_less[of b] by simp
  then have "unat b \<in> set [0..<256]" by simp
  with * have "P (of_nat (unat b))" unfolding list_all_iff by blast
  then show ?thesis by simp
qed

lemma lead_byte_class:
  "\<not> bit (b::byte) 7 \<Longrightarrow> b AND 0xC0 \<noteq> 0x80 \<and> \<not> b \<ge> 0xC0"
  "bit (b::byte) 7 \<Longrightarrow> bit b 6 \<Longrightarrow> \<not> bit b 5 \<Longrightarrow> b AND 0xC0 \<noteq> 0x80 \<and> b \<ge> 0xC0 \<and> \<not> b \<ge> 0xE0"
  "bit (b::byte) 7 \<Longrightarrow> bit b 6 \<Longrightarrow> bit b 5 \<Longrightarrow> \<not> bit b 4 \<Longrightarrow> b AND 0xC0 \<noteq> 0x80 \<and> b \<ge> 0xE0 \<and> \<not> b \<ge> 0xF0"
  "bit (b::byte) 7 \<Longrightarrow> bit b 6 \<Longrightarrow> bit b 5 \<Longrightarrow> bit b 4 \<Longrightarrow> b AND 0xC0 \<noteq> 0x80 \<and> b \<ge> 0xF0"
proof -
  have "(\<not> bit b 7 \<longrightarrow> b AND 0xC0 \<noteq> 0x80 \<and> \<not> b \<ge> 0xC0) \<and>
    (bit b 7 \<and> bit b 6 \<and> \<not> bit b 5 \<longrightarrow> b AND 0xC0 \<noteq> 0x80 \<and> b \<ge> 0xC0 \<and> \<not> b \<ge> 0xE0) \<and>
    (bit b 7 \<and> bit b 6 \<and> bit b 5 \<and> \<not> bit b 4 \<longrightarrow> b AND 0xC0 \<noteq> 0x80 \<and> b \<ge> 0xE0 \<and> \<not> b \<ge> 0xF0) \<and>
    (bit b 7 \<and> bit b 6 \<and> bit b 5 \<and> bit b 4 \<longrightarrow> b AND 0xC0 \<noteq> 0x80 \<and> b \<ge> 0xF0)"
    by (rule all_bytes[of "\<lambda>b. _ b" b]) code_simp
  then show
    "\<not> bit (b::byte) 7 \<Longrightarrow> b AND 0xC0 \<noteq> 0x80 \<and> \<not> b \<ge> 0xC0"
    "bit (b::byte) 7 \<Longrightarrow> bit b 6 \<Longrightarrow> \<not> bit b 5 \<Longrightarrow> b AND 0xC0 \<noteq> 0x80 \<and> b \<ge> 0xC0 \<and> \<not> b \<ge> 0xE0"
    "bit (b::byte) 7 \<Longrightarrow> bit b 6 \<Longrightarrow> bit b 5 \<Longrightarrow> \<not> bit b 4 \<Longrightarrow> b AND 0xC0 \<noteq> 0x80 \<and> b \<ge> 0xE0 \<and> \<not> b \<ge> 0xF0"
    "bit (b::byte) 7 \<Longrightarrow> bit b 6 \<Longrightarrow> bit b 5 \<Longrightarrow> bit b 4 \<Longrightarrow> b AND 0xC0 \<noteq> 0x80 \<and> b \<ge> 0xF0"
    by blast+
qed

text \<open>The shape of an encoding: a lead byte that announces the length, then continuation bytes.\<close>

definition lead_len :: "byte \<Rightarrow> nat" where
  "lead_len c = (if c \<ge> 0xF0 then 4 else if c \<ge> 0xE0 then 3 else if c \<ge> 0xC0 then 2 else 1)"

lemma encode_shape:
  assumes "unicode_cpt_to_utf8 c = Some bs"
  obtains l ts where "bs = l # ts" "\<not> is_cont l" "\<forall>t \<in> set ts. is_cont t" "lead_len l = length bs" "length bs \<le> 4"
proof -
  note lead = lead_byte_class(1)[OF lead_byte_bits(1)] lead_byte_class(2)[OF lead_byte_bits(2-4)]
    lead_byte_class(3)[OF lead_byte_bits(5-8)] lead_byte_class(4)[OF lead_byte_bits(9-12)]
  have up: "lead_len b = (if b \<ge> 0xE0 then (if b \<ge> 0xF0 then 4 else 3) else if b \<ge> 0xC0 then 2 else 1)" for b
    by (auto simp: lead_len_def dest: order_trans[of "0xE0" "0xF0" b, rotated])
  have nc: "\<not> is_cont b" if "b AND 0xC0 \<noteq> 0x80" for b using that by (simp add: is_cont_def)
  have ge: "b \<ge> 0xE0" if "b \<ge> 0xF0" for b :: byte using order_trans[of "0xE0" "0xF0" b] that by simp
  have no: "\<not> b \<ge> 0xE0" if "\<not> b \<ge> 0xC0" for b :: byte using order_trans[of "0xC0" "0xE0" b] that by auto
  have *: "bs \<noteq> [] \<and> \<not> is_cont (hd bs) \<and> (\<forall>t \<in> set (tl bs). is_cont t) \<and> lead_len (hd bs) = length bs \<and> length bs \<le> 4"
  proof (cases "c \<le> 0x7f")
    case True
    then have "bs = [low_byte c]" using assms by (simp add: unicode_cpt_to_utf8_def)
    then show ?thesis using lead(1)[OF True] no by (simp add: nc up)
  next
    case False
    then show ?thesis using assms by (auto simp: unicode_cpt_to_utf8_def nc up lead(2-4) dest: ge split: if_splits)
  qed
  show ?thesis by (rule that[of "hd bs" "tl bs"]) (use * in auto)
qed

lemma complete_back:
  assumes "\<forall>t \<in> set ts. is_cont t" "\<not> is_cont l" "i + length ts \<le> 4"
  shows "utf8_is_complete_back i (ts @ l # rs) \<longleftrightarrow> i + length ts \<ge> lead_len l"
  using assms by (induction ts arbitrary: i) (auto simp: is_cont_def lead_len_def)

text \<open>A string that ends \<open>k\<close> bytes into the encoding of a code point is complete, for
  \<open>common_utf8_is_complete\<close>, exactly when those \<open>k\<close> bytes are the whole encoding.\<close>

theorem utf8_is_complete_iff:
  assumes "unicode_cpt_to_utf8 c = Some bs" "0 < k" "k \<le> length bs"
  shows "common_utf8_is_complete (pre @ take k bs) \<longleftrightarrow> k = length bs"
proof -
  obtain l ts where s: "bs = l # ts" "\<not> is_cont l" "\<forall>t \<in> set ts. is_cont t" "lead_len l = length bs" "length bs \<le> 4"
    using encode_shape[OF assms(1)] by blast
  obtain j where k: "k = Suc j" using assms(2) by (cases k) auto
  let ?us = "rev (take j ts)"
  have j: "j \<le> length ts" using assms(3) k s(1) by simp
  have "rev (pre @ take k bs) = ?us @ l # rev pre" by (simp add: k s(1))
  moreover have "utf8_is_complete_back 1 (?us @ l # rev pre) \<longleftrightarrow> 1 + length ?us \<ge> lead_len l"
    using s j by (intro complete_back) (auto dest: in_set_takeD)
  ultimately show ?thesis
    using s j k by (auto simp: common_utf8_is_complete_def)
qed

theorem utf8_is_complete_iff_witness:
  "\<not> common_utf8_is_complete [0x61, 0xe2, 0x82]"
proof -
  have "unicode_cpt_to_utf8 0x20ac = Some [0xe2, 0x82, 0xac]"
    by (simp add: unicode_cpt_to_utf8_def low_byte_def)
  from utf8_is_complete_iff[OF this, of 2 "[0x61]"] show ?thesis by (simp add: eval_nat_numeral)
qed


section \<open>The byte alphabet is a bijection\<close>

lemma utf8_of_inj:
  assumes "a < 0x10000" "b < 0x10000" "utf8_of a = utf8_of b" shows "a = b"
proof -
  have ok: "unicode_cpt_to_utf8 (of_nat n) = Some (utf8_of n)" if "n < 0x10000" for n
  proof -
    have "(of_nat n :: cpt) \<le> 0xffff" using that by (simp add: word_le_nat_alt unat_of_nat)
    then show ?thesis by (auto simp: utf8_of_def unicode_cpt_to_utf8_def cpt_gaps split: option.split)
  qed
  have "(of_nat a :: cpt) = of_nat b"
    using cpt_from_utf8_encode[OF ok[OF assms(1)], of "[]" "[]"]
      cpt_from_utf8_encode[OF ok[OF assms(2)], of "[]" "[]"] assms(3) by simp
  then have "unat (of_nat a :: cpt) = unat (of_nat b :: cpt)" by simp
  then show ?thesis using assms(1,2) by (simp add: unat_of_nat)
qed

text \<open>\<open>mutual\<close>: two finite maps that are each other's inverse.\<close>

definition mutual :: "('a \<rightharpoonup> 'b) \<Rightarrow> ('b \<rightharpoonup> 'a) \<Rightarrow> bool" where
  "mutual m m' \<longleftrightarrow> (\<forall>a b. m a = Some b \<longleftrightarrow> m' b = Some a)"

lemma mutual_upd: "mutual m m' \<Longrightarrow> m a = None \<Longrightarrow> m' b = None \<Longrightarrow> mutual (m(a \<mapsto> b)) (m'(b \<mapsto> a))"
proof -
  assume *: "mutual m m'" "m a = None" "m' b = None"
  have "(m(a \<mapsto> b)) x = Some y \<longleftrightarrow> (m'(b \<mapsto> a)) y = Some x" for x y
  proof (cases "x = a"; cases "y = b")
    assume "x = a" "y \<noteq> b"
    then show ?thesis using *(1)[unfolded mutual_def, rule_format, of a y] *(2) by simp
  next
    assume "x \<noteq> a" "y = b"
    then show ?thesis using *(1)[unfolded mutual_def, rule_format, of x b] *(3) by simp
  next
    assume "x \<noteq> a" "y \<noteq> b"
    then show ?thesis using *(1)[unfolded mutual_def, rule_format, of x y] by simp
  qed simp
  then show ?thesis by (simp add: mutual_def)
qed

lemma mutual_foldl:
  assumes "distinct chs" "set chs \<subseteq> A" "inj_on f A" "mutual m m'" "set chs \<inter> dom m = {}"
    and "\<forall>a b. m a = Some b \<longrightarrow> b = f a \<and> a \<in> A"
  defines "r \<equiv> foldl (\<lambda>m ch. m(ch \<mapsto> f ch)) m chs"
  shows "mutual r (foldl (\<lambda>m ch. m(f ch \<mapsto> ch)) m' chs) \<and> (\<forall>a b. r a = Some b \<longrightarrow> b = f a \<and> a \<in> A)"
  using assms(1-6) unfolding r_def
proof (induction chs arbitrary: m m')
  case Nil
  then show ?case by simp
next
  case (Cons ch chs)
  have none: "m ch = None" using Cons.prems(5) by auto
  have "m' (f ch) \<noteq> Some a" for a
  proof
    assume "m' (f ch) = Some a"
    then have "m a = Some (f ch)" using Cons.prems(4) by (simp add: mutual_def)
    moreover from this have "a = ch" using Cons.prems(2,3,6) by (auto simp: inj_on_def)
    ultimately show False using none by simp
  qed
  then have none': "m' (f ch) = None" by (cases "m' (f ch)") auto
  show ?case
    unfolding foldl_Cons
  proof (rule Cons.IH)
    show "mutual (m(ch \<mapsto> f ch)) (m'(f ch \<mapsto> ch))" using Cons.prems(4) none none' by (rule mutual_upd)
    show "set chs \<inter> dom (m(ch \<mapsto> f ch)) = {}" using Cons.prems(1,5) by (simp only: dom_fun_upd) auto
  qed (use Cons.prems in \<open>auto split: if_splits\<close>)
qed

lemma mutual_fill:
  assumes "mutual m m'" "n + length chs \<le> 256" "distinct chs" "\<forall>ch \<in> set chs. ch < 256"
    and "\<forall>ch \<in> set chs. \<forall>s. m ch = Some s \<longrightarrow> s = utf8_of ch"
    and "\<forall>a s. m a = Some s \<longrightarrow> s = utf8_of a \<and> a < 256 \<or> (\<exists>i < n. s = utf8_of (256 + i))"
  shows "mutual (fill_byte_to_utf8 chs n m) (fill_utf8_to_byte chs n m')
     \<and> dom (fill_byte_to_utf8 chs n m) = dom m \<union> set chs"
  using assms
proof (induction chs arbitrary: n m m')
  case Nil
  then show ?case by simp
next
  case (Cons ch chs)
  have small: "ch < 256" "n + length chs < 256" using Cons.prems by auto
  have same: "m ch = None \<longleftrightarrow> m' (utf8_of ch) = None"
  proof
    assume n: "m ch = None"
    show "m' (utf8_of ch) = None"
    proof (rule ccontr)
      assume "m' (utf8_of ch) \<noteq> None"
      then obtain a where a: "m a = Some (utf8_of ch)" using Cons.prems(1) by (auto simp: mutual_def)
      then consider "utf8_of ch = utf8_of a" "a < 256" | i where "i < n" "utf8_of ch = utf8_of (256 + i)"
        using Cons.prems(6) by blast
      then show False
      proof cases
        case 1
        then have "ch = a" using utf8_of_inj[of ch a] small by simp
        then show False using n a by simp
      next
        case 2
        then show False using utf8_of_inj[of ch "256 + i"] small by simp
      qed
    qed
  next
    assume "m' (utf8_of ch) = None"
    then show "m ch = None" using Cons.prems(1,5) by (cases "m ch") (auto simp: mutual_def)
  qed
  show ?case
  proof (cases "m ch = None")
    case True
    have new: "m' (utf8_of (256 + n)) = None"
    proof (rule ccontr)
      assume "m' (utf8_of (256 + n)) \<noteq> None"
      then obtain a where "m a = Some (utf8_of (256 + n))" using Cons.prems(1) by (auto simp: mutual_def)
      then consider "utf8_of (256 + n) = utf8_of a" "a < 256" | i where "i < n" "utf8_of (256 + n) = utf8_of (256 + i)"
        using Cons.prems(6) by blast
      then show False
      proof cases
        case 1
        then show False using utf8_of_inj[of "256 + n" a] small by simp
      next
        case 2
        then show False using utf8_of_inj[of "256 + n" "256 + i"] small by simp
      qed
    qed
    let ?m = "m(ch \<mapsto> utf8_of (256 + n))" and ?m' = "m'(utf8_of (256 + n) \<mapsto> ch)"
    have "mutual ?m ?m'" using Cons.prems(1) True new by (rule mutual_upd)
    then have "mutual (fill_byte_to_utf8 chs (n + 1) ?m) (fill_utf8_to_byte chs (n + 1) ?m')
        \<and> dom (fill_byte_to_utf8 chs (n + 1) ?m) = dom ?m \<union> set chs"
    proof (rule Cons.IH)
      show "\<forall>a s. ?m a = Some s \<longrightarrow> s = utf8_of a \<and> a < 256 \<or> (\<exists>i < n + 1. s = utf8_of (256 + i))"
        using Cons.prems(6) by (auto simp: less_Suc_eq)
    qed (use Cons.prems in auto)
    then show ?thesis using True same by auto
  next
    case False
    have "mutual (fill_byte_to_utf8 chs n m) (fill_utf8_to_byte chs n m')
        \<and> dom (fill_byte_to_utf8 chs n m) = dom m \<union> set chs"
      using Cons.prems(1) by (rule Cons.IH) (use Cons.prems in simp_all)
    then show ?thesis using False same by auto
  qed
qed

lemma byte_maps_mutual:
  "mutual unicode_byte_to_utf8_map unicode_utf8_to_byte_map \<and> {0..<256} \<subseteq> dom unicode_byte_to_utf8_map"
proof -
  let ?p = "foldl (\<lambda>m ch. m(ch \<mapsto> utf8_of ch)) Map.empty printable_bytes"
  let ?q = "foldl (\<lambda>m ch. m(utf8_of ch \<mapsto> ch)) Map.empty printable_bytes"
  have pr: "distinct printable_bytes" "\<forall>ch \<in> set printable_bytes. ch < 256"
    by (auto simp: printable_bytes_def)
  have "inj_on utf8_of {..<256}"
    by (intro inj_onI utf8_of_inj) auto
  then have p: "mutual ?p ?q" "\<forall>a b. ?p a = Some b \<longrightarrow> b = utf8_of a \<and> a \<in> {..<256}"
    using mutual_foldl[OF pr(1), of "{..<256}" utf8_of Map.empty Map.empty] pr(2) by (auto simp: mutual_def)
  define U where "U = [0..<256::nat]"
  have U: "length U = 256" "distinct U" "set U = {0..<256}" by (simp_all add: U_def)
  have "mutual (fill_byte_to_utf8 U 0 ?p) (fill_utf8_to_byte U 0 ?q)
    \<and> dom (fill_byte_to_utf8 U 0 ?p) = dom ?p \<union> set U"
    using p(1) by (rule mutual_fill) (use p(2) U in auto)
  then show ?thesis
    unfolding unicode_byte_to_utf8_map_def unicode_utf8_to_byte_map_def U_def[symmetric] using U(3) by auto
qed

text \<open>Every byte has an encoding in the GPT-2 alphabet, and \<open>unicode_utf8_to_byte\<close> reads it back.\<close>

theorem byte_alphabet_roundtrip:
  "\<exists>s. unicode_byte_to_utf8 b = Some s \<and> unicode_utf8_to_byte s = Some b"
proof -
  have "unat b < 256" using unsigned_less[of b] by simp
  then obtain s where "unicode_byte_to_utf8_map (unat b) = Some s"
    using byte_maps_mutual by (metis atLeastLessThan_iff domD le0 subsetD)
  moreover from this have "unicode_utf8_to_byte_map s = Some (unat b)"
    using byte_maps_mutual by (auto simp: mutual_def)
  ultimately show ?thesis by (simp add: unicode_byte_to_utf8_def unicode_utf8_to_byte_def)
qed


end
