(* ===== verification/ReasoningBudget.thy ===== *)
theory ReasoningBudget
  imports Utf8 "HOL-Library.Sublist"
begin

text \<open>
  The reasoning-budget sampler of \<open>common/reasoning-budget.cpp\<close>: a state machine that watches the generated tokens
  for the start and end tags of a reasoning block, counts the tokens inside, and when the budget is used
  up forces the end sequence token by token by setting every other logit to minus infinity.

  The vocabulary is the function from a token to the bytes of its piece (\<open>common_token_to_piece\<close>), absent for a
  null pointer.  Logits are floating-point values the code only overwrites: their type is a parameter, and
  \<open>-INFINITY\<close> is an argument.  Log output is left out.
\<close>

section \<open>The token matcher\<close>

record token_matcher =
  tm_tokens :: "llama_token list"
  tm_pos :: nat

definition advance :: "token_matcher \<Rightarrow> llama_token \<Rightarrow> bool \<times> token_matcher" where
  "advance m token =
     (if tm_tokens m = [] then (False, m)
      else if token = tm_tokens m ! tm_pos m then
        (if tm_pos m + 1 \<ge> length (tm_tokens m) then (True, m\<lparr>tm_pos := 0\<rparr>)
         else (False, m\<lparr>tm_pos := tm_pos m + 1\<rparr>))
      else if token = tm_tokens m ! 0 then (False, m\<lparr>tm_pos := 1\<rparr>)
      else (False, m\<lparr>tm_pos := 0\<rparr>))"

definition matcher_reset :: "token_matcher \<Rightarrow> token_matcher" where
  "matcher_reset m = m\<lparr>tm_pos := 0\<rparr>"

section \<open>The sampler\<close>

datatype common_reasoning_budget_state =
  REASONING_BUDGET_IDLE | REASONING_BUDGET_COUNTING | REASONING_BUDGET_FORCING
| REASONING_BUDGET_WAITING_UTF8 | REASONING_BUDGET_DONE

record common_reasoning_budget_ctx =
  rb_vocab :: "(llama_token \<Rightarrow> byte list) option"
  start_matcher :: token_matcher
  end_matcher :: token_matcher
  forced_tokens :: "llama_token list"
  rb_budget :: int
  rb_remaining :: int
  rb_state :: common_reasoning_budget_state
  force_pos :: nat

text \<open>The tail shared by the cases IDLE and DONE: a start tag arms the counter.\<close>

definition rb_arm :: "common_reasoning_budget_ctx \<Rightarrow> common_reasoning_budget_ctx" where
  "rb_arm ctx =
     (let c1 = ctx\<lparr>rb_state := REASONING_BUDGET_COUNTING, rb_remaining := rb_budget ctx\<rparr>
      in if rb_remaining c1 \<le> 0 then c1\<lparr>rb_state := REASONING_BUDGET_FORCING, force_pos := 0\<rparr> else c1)"

definition rb_utf8_complete :: "common_reasoning_budget_ctx \<Rightarrow> llama_token \<Rightarrow> bool" where
  "rb_utf8_complete ctx token =
     (case rb_vocab ctx of None \<Rightarrow> True | Some piece \<Rightarrow> common_utf8_is_complete (piece token))"

definition rb_count :: "common_reasoning_budget_ctx \<Rightarrow> llama_token \<Rightarrow> common_reasoning_budget_ctx" where
  "rb_count ctx token =
     (case advance (end_matcher ctx) token of (fired, m) \<Rightarrow>
        let ctx1 = ctx\<lparr>end_matcher := m\<rparr> in
        if fired then ctx1\<lparr>rb_state := REASONING_BUDGET_DONE\<rparr>
        else
          (let utf8_complete = rb_utf8_complete ctx1 token in
           if rb_state ctx1 = REASONING_BUDGET_WAITING_UTF8 then
             (if utf8_complete
              then ctx1\<lparr>rb_state := REASONING_BUDGET_FORCING, force_pos := 0, end_matcher := matcher_reset (end_matcher ctx1)\<rparr>
              else ctx1)
           else if rb_state ctx1 = REASONING_BUDGET_COUNTING then
             (let ctx2 = ctx1\<lparr>rb_remaining := s32 (rb_remaining ctx1 - 1)\<rparr> in
              if rb_remaining ctx2 \<le> 0 then
                (if utf8_complete
                 then ctx2\<lparr>rb_state := REASONING_BUDGET_FORCING, force_pos := 0, end_matcher := matcher_reset (end_matcher ctx2)\<rparr>
                 else ctx2\<lparr>rb_state := REASONING_BUDGET_WAITING_UTF8, end_matcher := matcher_reset (end_matcher ctx2)\<rparr>)
              else ctx2)
           else ctx1))"

definition common_reasoning_budget_accept :: "common_reasoning_budget_ctx \<Rightarrow> llama_token \<Rightarrow> common_reasoning_budget_ctx" where
  "common_reasoning_budget_accept ctx token =
     (case rb_state ctx of
        REASONING_BUDGET_IDLE \<Rightarrow>
          (case advance (start_matcher ctx) token of (fired, m) \<Rightarrow>
             let ctx1 = ctx\<lparr>start_matcher := m\<rparr> in if fired then rb_arm ctx1 else ctx1)
      | REASONING_BUDGET_COUNTING \<Rightarrow> rb_count ctx token
      | REASONING_BUDGET_WAITING_UTF8 \<Rightarrow> rb_count ctx token
      | REASONING_BUDGET_FORCING \<Rightarrow>
          (let ctx1 = ctx\<lparr>force_pos := force_pos ctx + 1\<rparr> in
           if force_pos ctx1 \<ge> length (forced_tokens ctx1) then ctx1\<lparr>rb_state := REASONING_BUDGET_DONE\<rparr> else ctx1)
      | REASONING_BUDGET_DONE \<Rightarrow>
          (case advance (start_matcher ctx) token of (fired, m) \<Rightarrow>
             let ctx1 = ctx\<lparr>start_matcher := m\<rparr> in
             if fired then rb_arm (ctx1\<lparr>end_matcher := matcher_reset (end_matcher ctx1)\<rparr>) else ctx1))"

record 'l token_data =
  td_id :: llama_token
  td_logit :: 'l

definition common_reasoning_budget_apply ::
  "'l \<Rightarrow> common_reasoning_budget_ctx option \<Rightarrow> 'l token_data list \<Rightarrow> 'l token_data list" where
  "common_reasoning_budget_apply neg_inf smpl cur_p =
     (case smpl of None \<Rightarrow> cur_p
      | Some ctx \<Rightarrow>
          if rb_state ctx \<noteq> REASONING_BUDGET_FORCING then cur_p
          else if force_pos ctx \<ge> length (forced_tokens ctx) then cur_p
          else map (\<lambda>d. if td_id d \<noteq> forced_tokens ctx ! force_pos ctx then d\<lparr>td_logit := neg_inf\<rparr> else d) cur_p)"

definition common_reasoning_budget_reset :: "common_reasoning_budget_ctx \<Rightarrow> common_reasoning_budget_ctx" where
  "common_reasoning_budget_reset ctx = ctx\<lparr>rb_state := REASONING_BUDGET_IDLE, rb_remaining := rb_budget ctx,
     start_matcher := matcher_reset (start_matcher ctx), end_matcher := matcher_reset (end_matcher ctx), force_pos := 0\<rparr>"

definition common_reasoning_budget_init ::
  "(llama_token \<Rightarrow> byte list) option \<Rightarrow> llama_token list \<Rightarrow> llama_token list \<Rightarrow> llama_token list \<Rightarrow> int \<Rightarrow>
   common_reasoning_budget_state \<Rightarrow> common_reasoning_budget_ctx" where
  "common_reasoning_budget_init vocab start_toks end_toks forced budget initial_state =
     \<lparr>rb_vocab = vocab, start_matcher = \<lparr>tm_tokens = start_toks, tm_pos = 0\<rparr>,
      end_matcher = \<lparr>tm_tokens = end_toks, tm_pos = 0\<rparr>, forced_tokens = forced, rb_budget = budget, rb_remaining = budget,
      rb_state = (if initial_state = REASONING_BUDGET_COUNTING \<and> budget \<le> 0 then REASONING_BUDGET_FORCING else initial_state),
      force_pos = 0\<rparr>"

definition common_reasoning_budget_get_state :: "common_reasoning_budget_ctx option \<Rightarrow> common_reasoning_budget_state" where
  "common_reasoning_budget_get_state smpl = (case smpl of None \<Rightarrow> REASONING_BUDGET_IDLE | Some ctx \<Rightarrow> rb_state ctx)"

section \<open>What the matcher finds\<close>

text \<open>Feeding tokens one by one; the result tells for the last token whether the tag was completed.\<close>

definition feed :: "token_matcher \<Rightarrow> llama_token list \<Rightarrow> token_matcher" where
  "feed m ts = foldl (\<lambda>m t. snd (advance m t)) m ts"

definition fires :: "token_matcher \<Rightarrow> llama_token list \<Rightarrow> llama_token \<Rightarrow> bool" where
  "fires m ts t \<longleftrightarrow> fst (advance (feed m ts) t)"

abbreviation new_matcher :: "llama_token list \<Rightarrow> token_matcher" where
  "new_matcher toks \<equiv> \<lparr>tm_tokens = toks, tm_pos = 0\<rparr>"

lemma feed_snoc [simp]: "feed m (ts @ [t]) = snd (advance (feed m ts) t)" "feed m [] = m"
  by (simp_all add: feed_def)

lemma advance_tokens [simp]: "tm_tokens (snd (advance m t)) = tm_tokens m"
  by (simp add: advance_def)

lemma feed_tokens [simp]: "tm_tokens (feed m ts) = tm_tokens m"
  by (induction ts rule: rev_induct) simp_all

definition matched :: "llama_token list \<Rightarrow> token_matcher \<Rightarrow> llama_token list \<Rightarrow> bool" where
  "matched toks m ts \<longleftrightarrow> tm_tokens m = toks \<and> tm_pos m < length toks \<and> suffix (take (tm_pos m) toks) ts"

lemma suffix_take_Suc:
  "k < length toks \<Longrightarrow> suffix (take (Suc k) toks) (ts @ [t]) \<longleftrightarrow> suffix (take k toks) ts \<and> t = toks ! k"
  by (auto simp: take_Suc_conv_app_nth suffix_def)

lemma advance_matched:
  assumes "matched toks m ts"
  shows "matched toks (snd (advance m t)) (ts @ [t])" "fst (advance m t) \<Longrightarrow> suffix toks (ts @ [t])"
proof -
  note m = assms[unfolded matched_def]
  have ne: "tm_tokens m \<noteq> []" "0 < length toks" using m by auto
  show "matched toks (snd (advance m t)) (ts @ [t])"
    using m ne suffix_take_Suc[of "tm_pos m" toks ts t] suffix_take_Suc[of 0 toks ts t]
    by (auto simp: matched_def advance_def)
  assume f: "fst (advance m t)"
  then have "Suc (tm_pos m) = length toks" "t = toks ! tm_pos m"
    using m by (auto simp: advance_def split: if_splits)
  then show "suffix toks (ts @ [t])"
    using suffix_take_Suc[of "tm_pos m" toks ts t] m by simp
qed

lemma feed_matched: "toks \<noteq> [] \<Longrightarrow> matched toks (feed (new_matcher toks) ts) ts"
proof (induction ts rule: rev_induct)
  case Nil
  then show ?case by (simp add: matched_def)
next
  case (snoc t ts)
  then show ?case using advance_matched(1) by simp
qed

text \<open>With a first token that does not recur, the matcher state is the longest partial match.\<close>

definition maximal :: "llama_token list \<Rightarrow> token_matcher \<Rightarrow> llama_token list \<Rightarrow> bool" where
  "maximal toks m ts \<longleftrightarrow> (\<forall>k. suffix (take k toks) ts \<longrightarrow> k < length toks \<longrightarrow> k \<le> tm_pos m)"

lemma overlap_first:
  assumes "toks ! 0 \<notin> set (tl toks)" "suffix (take k toks) ts" "suffix (take j toks) ts" "0 < k" "k \<le> j" "j \<le> length toks"
  shows "k = j"
proof -
  have "suffix (take k toks) (take j toks)"
    using suffix_length_suffix[OF assms(2,3)] assms(4-6) by simp
  then obtain zs where zs: "take j toks = zs @ take k toks" by (auto simp: suffix_def)
  have "length zs = j - k" using arg_cong[OF zs, of length] assms(4-6) by simp
  then have "take k toks = drop (j - k) (take j toks)" by (simp add: zs)
  then have "take k toks ! 0 = take j toks ! (j - k)"
    using assms(4-6) by simp
  then have *: "toks ! 0 = toks ! (j - k)" using assms(4-6) by simp
  show ?thesis
  proof (rule ccontr)
    assume "k \<noteq> j"
    then obtain i where i: "j - k = Suc i" "Suc i < length toks"
      using assms(4-6) by (cases "j - k") auto
    then have "toks ! (j - k) \<in> set (tl toks)"
      by (cases toks) auto
    with * assms(1) show False by simp
  qed
qed

lemma advance_maximal:
  assumes "toks ! 0 \<notin> set (tl toks)" "matched toks m ts" "maximal toks m ts"
  shows "maximal toks (snd (advance m t)) (ts @ [t])"
    "fst (advance m t) \<longleftrightarrow> suffix toks (ts @ [t])"
proof -
  note m = assms(2)[unfolded matched_def]
  have ne: "toks \<noteq> []" using m by auto
  have step: "j \<le> tm_pos m \<and> suffix (take j toks) ts \<and> t = toks ! j \<and> (j = 0 \<or> j = tm_pos m)"
    if "suffix (take (Suc j) toks) (ts @ [t])" "Suc j \<le> length toks" for j
  proof -
    have j: "suffix (take j toks) ts" "t = toks ! j" using that suffix_take_Suc[of j toks ts t] by auto
    moreover have "j \<le> tm_pos m" using assms(3) j that by (simp add: maximal_def)
    moreover have "j = 0 \<or> j = tm_pos m"
      using overlap_first[OF assms(1) j(1)] m \<open>j \<le> tm_pos m\<close> by (cases "j = 0") auto
    ultimately show ?thesis by simp
  qed
  show "fst (advance m t) \<longleftrightarrow> suffix toks (ts @ [t])"
  proof
    assume "suffix toks (ts @ [t])"
    then have "suffix (take (Suc (length toks - 1)) toks) (ts @ [t])" using ne by simp
    from step[OF this] ne m have e: "tm_pos m = length toks - 1" by (cases "length toks = 1") auto
    with step[OF \<open>suffix (take (Suc (length toks - 1)) toks) (ts @ [t])\<close>] ne have "t = toks ! tm_pos m" by auto
    with e show "fst (advance m t)" using m ne by (simp add: advance_def)
  qed (rule advance_matched(2)[OF assms(2)])
  have "k \<le> tm_pos (snd (advance m t))" if k: "suffix (take k toks) (ts @ [t])" "k < length toks" for k
  proof (cases k)
    case (Suc j)
    with step[of j] k have j: "j = 0 \<or> j = tm_pos m" "t = toks ! j" "j \<le> tm_pos m" by auto
    show ?thesis
    proof (cases "t = toks ! tm_pos m")
      case True
      have "j = tm_pos m"
      proof (rule ccontr)
        assume "j \<noteq> tm_pos m"
        then have "toks ! 0 = toks ! tm_pos m" "0 < tm_pos m" using j True by auto
        moreover have "toks ! tm_pos m \<in> set (tl toks)" using m \<open>0 < tm_pos m\<close> by (cases toks) (auto simp: nth_Cons')
        ultimately show False using assms(1) by simp
      qed
      then show ?thesis using True m k Suc ne by (simp add: advance_def)
    next
      case False
      then show ?thesis using j m Suc ne by (auto simp: advance_def)
    qed
  qed simp
  then show "maximal toks (snd (advance m t)) (ts @ [t])" by (simp add: maximal_def)
qed

lemma feed_maximal:
  assumes "toks \<noteq> []" "toks ! 0 \<notin> set (tl toks)"
  shows "maximal toks (feed (new_matcher toks) ts) ts"
proof (induction ts rule: rev_induct)
  case Nil
  then show ?case using assms(1) by (auto simp: maximal_def suffix_def)
next
  case (snoc t ts)
  then show ?case using advance_maximal(1)[OF assms(2) feed_matched[OF assms(1)]] by simp
qed

text \<open>The matcher never reports a tag that was not just generated, and it reports every occurrence when the first
  token of the tag does not recur in it.\<close>

theorem token_matcher_exact:
  assumes "toks \<noteq> []"
  shows "(fires (new_matcher toks) ts t \<longrightarrow> suffix toks (ts @ [t])) \<and>
    (toks ! 0 \<notin> set (tl toks) \<longrightarrow> fires (new_matcher toks) ts t = suffix toks (ts @ [t]))"
  using advance_matched(2)[OF feed_matched[OF assms]] advance_maximal(2)[OF _ feed_matched[OF assms] feed_maximal[OF assms]]
  by (simp add: fires_def)

theorem token_matcher_exact_witness: "fires (new_matcher [5, 6, 7]) [5, 5, 6] 7"
  using token_matcher_exact[of "[5, 6, 7]" "[5, 5, 6]" 7] by (simp add: suffix_def)

text \<open>After a mismatch the matcher restarts from the offending token only, so an occurrence that overlaps a failed
  attempt goes unnoticed: the tag 1 1 2 is missed in 1 1 1 2.\<close>

theorem token_matcher_misses_overlap:
  "suffix [1, 1, 2] [1, 1, 1, 2] \<and> \<not> fires (new_matcher [1, 1, 2]) [1, 1, 1] 2"
  by (simp add: suffix_def fires_def feed_def advance_def)

section \<open>The budget is kept\<close>

text \<open>Feeding the sampler.\<close>

definition accept_all :: "common_reasoning_budget_ctx \<Rightarrow> llama_token list \<Rightarrow> common_reasoning_budget_ctx" where
  "accept_all ctx ts = foldl common_reasoning_budget_accept ctx ts"

lemma accept_all_simps [simp]:
  "accept_all ctx [] = ctx" "accept_all ctx (ts @ [t]) = common_reasoning_budget_accept (accept_all ctx ts) t"
  by (simp_all add: accept_all_def)

definition pos_ok :: "token_matcher \<Rightarrow> bool" where
  "pos_ok m \<longleftrightarrow> tm_tokens m = [] \<or> tm_pos m < length (tm_tokens m)"

lemma pos_ok_advance: "pos_ok m \<Longrightarrow> advance m t = (fired, m') \<Longrightarrow> pos_ok m'"
  by (auto simp: pos_ok_def advance_def split: if_splits) (cases "tm_pos m"; simp)

lemma pos_ok_reset [simp]: "pos_ok (matcher_reset m)"
  by (auto simp: pos_ok_def matcher_reset_def)

definition rb_inv :: "common_reasoning_budget_ctx \<Rightarrow> bool" where
  "rb_inv ctx \<longleftrightarrow> rb_budget ctx \<le> INT32_MAX \<and> pos_ok (start_matcher ctx) \<and> pos_ok (end_matcher ctx) \<and>
     (rb_state ctx = REASONING_BUDGET_COUNTING \<longrightarrow> 0 < rb_remaining ctx \<and> rb_remaining ctx \<le> rb_budget ctx) \<and>
     (rb_state ctx = REASONING_BUDGET_FORCING \<longrightarrow> force_pos ctx = 0 \<or> force_pos ctx < length (forced_tokens ctx))"

lemma rb_arm_inv:
  "rb_budget ctx \<le> INT32_MAX \<Longrightarrow> pos_ok (start_matcher ctx) \<Longrightarrow> pos_ok (end_matcher ctx) \<Longrightarrow> rb_inv (rb_arm ctx)"
  by (simp add: rb_inv_def rb_arm_def Let_def)

lemma rb_count_inv:
  assumes "rb_inv ctx" "rb_state ctx \<in> {REASONING_BUDGET_COUNTING, REASONING_BUDGET_WAITING_UTF8}"
  shows "rb_inv (rb_count ctx t)"
proof -
  obtain fired m where a: "advance (end_matcher ctx) t = (fired, m)" by fastforce
  have m: "pos_ok m" using pos_ok_advance[OF _ a] assms(1) by (simp add: rb_inv_def)
  show ?thesis
  proof (cases fired)
    case True
    then show ?thesis using assms(1) m by (simp add: rb_count_def a rb_inv_def)
  next
    case False
    then show ?thesis using assms m by (auto simp: rb_count_def a rb_inv_def Let_def)
  qed
qed

lemma accept_inv:
  assumes "rb_inv ctx"
  shows "rb_inv (common_reasoning_budget_accept ctx t)"
proof -
  obtain fired m where a: "advance (start_matcher ctx) t = (fired, m)" by fastforce
  have m: "pos_ok m" using pos_ok_advance[OF _ a] assms by (simp add: rb_inv_def)
  show ?thesis
  proof (cases "rb_state ctx")
    case REASONING_BUDGET_COUNTING
    then show ?thesis using rb_count_inv[OF assms] by (simp add: common_reasoning_budget_accept_def)
  next
    case REASONING_BUDGET_WAITING_UTF8
    then show ?thesis using rb_count_inv[OF assms] by (simp add: common_reasoning_budget_accept_def)
  next
    case REASONING_BUDGET_FORCING
    then show ?thesis using assms by (simp add: common_reasoning_budget_accept_def rb_inv_def Let_def)
  qed (use assms m in \<open>simp_all add: common_reasoning_budget_accept_def a rb_inv_def[of ctx] rb_arm_inv Let_def, simp_all add: rb_inv_def\<close>)
qed

lemma accept_all_inv: "rb_inv ctx \<Longrightarrow> rb_inv (accept_all ctx ts)"
  by (induction ts rule: rev_induct) (simp_all add: accept_inv)

lemma init_inv: "budget \<le> INT32_MAX \<Longrightarrow> rb_inv (common_reasoning_budget_init v st en fo budget s)"
  by (auto simp: rb_inv_def common_reasoning_budget_init_def pos_ok_def)

datatype rb_call = Rb_accept llama_token | Rb_reset

definition rb_run :: "common_reasoning_budget_ctx \<Rightarrow> rb_call list \<Rightarrow> common_reasoning_budget_ctx" where
  "rb_run ctx calls = foldl (\<lambda>c call. case call of Rb_accept t \<Rightarrow> common_reasoning_budget_accept c t
                                       | Rb_reset \<Rightarrow> common_reasoning_budget_reset c) ctx calls"

text \<open>C31. In every state reachable by any calls, the matchers stay inside their tags, a counting sampler has between 1
  and \<open>budget\<close> tokens left, and a forcing one points at a forced token (or at the start of an empty list).\<close>

theorem reasoning_budget_invariant:
  assumes "budget \<le> INT32_MAX"
  shows "rb_inv (rb_run (common_reasoning_budget_init vocab start_toks end_toks forced budget st) calls)"
proof (induction calls rule: rev_induct)
  case Nil
  then show ?case using init_inv[OF assms] by (simp add: rb_run_def)
next
  case (snoc call calls)
  have "rb_inv (common_reasoning_budget_reset c)" if "rb_inv c" for c
    using that by (simp add: common_reasoning_budget_reset_def rb_inv_def)
  then show ?case using snoc accept_inv by (auto simp: rb_run_def split: rb_call.split)
qed

theorem reasoning_budget_invariant_witness:
  "rb_inv (rb_run (common_reasoning_budget_init None [10] [20] [30, 20] 5 REASONING_BUDGET_IDLE) [Rb_accept 10, Rb_accept 3, Rb_reset])"
  by (rule reasoning_budget_invariant) simp

text \<open>While counting, each token that does not complete the end tag uses one unit of the budget.\<close>

lemma count_step:
  assumes "rb_inv ctx" "rb_state ctx = REASONING_BUDGET_COUNTING" "\<not> fst (advance (end_matcher ctx) t)"
  defines "ctx' \<equiv> common_reasoning_budget_accept ctx t"
  shows "1 < rb_remaining ctx \<Longrightarrow> rb_state ctx' = REASONING_BUDGET_COUNTING \<and> rb_remaining ctx' = rb_remaining ctx - 1 \<and>
           end_matcher ctx' = snd (advance (end_matcher ctx) t)"
    and "rb_remaining ctx = 1 \<Longrightarrow> rb_remaining ctx' = 0 \<and> (if rb_utf8_complete ctx t
           then rb_state ctx' = REASONING_BUDGET_FORCING \<and> force_pos ctx' = 0 else rb_state ctx' = REASONING_BUDGET_WAITING_UTF8)"
    and "forced_tokens ctx' = forced_tokens ctx \<and> rb_vocab ctx' = rb_vocab ctx"
proof -
  obtain m where a: "advance (end_matcher ctx) t = (False, m)" using assms(3) by (cases "advance (end_matcher ctx) t") auto
  have r: "0 < rb_remaining ctx" "rb_remaining ctx \<le> INT32_MAX" using assms(1,2) by (auto simp: rb_inv_def)
  note d = ctx'_def common_reasoning_budget_accept_def rb_count_def a Let_def rb_utf8_complete_def
  show "1 < rb_remaining ctx \<Longrightarrow> rb_state ctx' = REASONING_BUDGET_COUNTING \<and> rb_remaining ctx' = rb_remaining ctx - 1 \<and>
      end_matcher ctx' = snd (advance (end_matcher ctx) t)"
    using r assms(2) by (simp add: d)
  show "rb_remaining ctx = 1 \<Longrightarrow> rb_remaining ctx' = 0 \<and> (if rb_utf8_complete ctx t
      then rb_state ctx' = REASONING_BUDGET_FORCING \<and> force_pos ctx' = 0 else rb_state ctx' = REASONING_BUDGET_WAITING_UTF8)"
    using r assms(2) by (simp add: d)
  show "forced_tokens ctx' = forced_tokens ctx \<and> rb_vocab ctx' = rb_vocab ctx"
    using assms(2) by (simp add: d)
qed

text \<open>No token of \<open>ts\<close> completes the end tag, counted from the matcher state of \<open>ctx\<close>.\<close>

definition no_natural_end :: "common_reasoning_budget_ctx \<Rightarrow> llama_token list \<Rightarrow> bool" where
  "no_natural_end ctx ts \<longleftrightarrow> list_all (\<lambda>i. \<not> fires (end_matcher ctx) (take i ts) (ts ! i)) [0..<length ts]"

lemma no_natural_end_snoc:
  "no_natural_end ctx (ts @ [t]) \<longleftrightarrow> no_natural_end ctx ts \<and> \<not> fires (end_matcher ctx) ts t"
  by (auto simp: no_natural_end_def list_all_iff nth_append less_Suc_eq)

lemma counting_run:
  assumes "rb_inv ctx" "rb_state ctx = REASONING_BUDGET_COUNTING"
  shows "no_natural_end ctx ts \<Longrightarrow> int (length ts) < rb_remaining ctx \<Longrightarrow>
    rb_state (accept_all ctx ts) = REASONING_BUDGET_COUNTING \<and> rb_remaining (accept_all ctx ts) = rb_remaining ctx - int (length ts) \<and>
    end_matcher (accept_all ctx ts) = feed (end_matcher ctx) ts \<and> forced_tokens (accept_all ctx ts) = forced_tokens ctx \<and>
    rb_vocab (accept_all ctx ts) = rb_vocab ctx"
proof (induction ts rule: rev_induct)
  case Nil
  then show ?case using assms by simp
next
  case (snoc t ts)
  then have IH: "rb_state (accept_all ctx ts) = REASONING_BUDGET_COUNTING"
    "rb_remaining (accept_all ctx ts) = rb_remaining ctx - int (length ts)"
    "end_matcher (accept_all ctx ts) = feed (end_matcher ctx) ts" "forced_tokens (accept_all ctx ts) = forced_tokens ctx"
    "rb_vocab (accept_all ctx ts) = rb_vocab ctx"
    by (auto simp: no_natural_end_snoc)
  have nf: "\<not> fst (advance (end_matcher (accept_all ctx ts)) t)"
    using snoc.prems(1) IH(3) by (simp add: no_natural_end_snoc fires_def)
  show ?case
    using count_step(1,3)[OF accept_all_inv[OF assms(1)] IH(1) nf] IH snoc.prems(2) by simp
qed

text \<open>C20. The budget is exact: a block with \<open>remaining\<close> tokens left that is not ended by the end tag keeps counting for
  fewer tokens, and after exactly that many tokens the sampler forces the end sequence from its first
  token on, or, if the last token ends inside a UTF-8 sequence, waits for its completion.\<close>

theorem reasoning_budget_exact:
  assumes "rb_inv ctx" "rb_state ctx = REASONING_BUDGET_COUNTING" "no_natural_end ctx (ts @ [t])"
    "int (length ts) < rb_remaining ctx"
  defines "c \<equiv> accept_all ctx (ts @ [t])"
  shows "if int (length (ts @ [t])) < rb_remaining ctx
    then rb_state c = REASONING_BUDGET_COUNTING \<and> rb_remaining c = rb_remaining ctx - int (length (ts @ [t]))
    else if rb_utf8_complete ctx t then rb_state c = REASONING_BUDGET_FORCING \<and> force_pos c = 0
    else rb_state c = REASONING_BUDGET_WAITING_UTF8"
proof -
  note run = counting_run[OF assms(1,2), of ts]
  have nf: "\<not> fst (advance (end_matcher (accept_all ctx ts)) t)"
    using assms(3,4) run by (simp add: no_natural_end_snoc fires_def)
  show ?thesis
    using count_step[OF accept_all_inv[OF assms(1)] _ nf] run assms(3,4)
    by (auto simp: c_def no_natural_end_snoc rb_utf8_complete_def)
qed

definition demo_rb :: common_reasoning_budget_ctx where
  "demo_rb = common_reasoning_budget_init None [10] [20] [30, 20] 2 REASONING_BUDGET_COUNTING"

lemma demo_rb_inv: "rb_inv demo_rb" "rb_state demo_rb = REASONING_BUDGET_COUNTING" "rb_remaining demo_rb = 2"
  by (simp_all add: demo_rb_def init_inv) (simp_all add: common_reasoning_budget_init_def)

theorem reasoning_budget_exact_witness:
  "rb_state (accept_all demo_rb ([7] @ [8])) = REASONING_BUDGET_FORCING"
proof -
  have "no_natural_end demo_rb ([7] @ [8])"
    by (simp add: no_natural_end_def fires_def feed_def advance_def demo_rb_def common_reasoning_budget_init_def upt_rec)
  from reasoning_budget_exact[OF demo_rb_inv(1,2) this] show ?thesis
    by (simp add: demo_rb_inv rb_utf8_complete_def) (simp add: demo_rb_def common_reasoning_budget_init_def)
qed

section \<open>The forced sequence\<close>

text \<open>A token the sampler can still pick: some candidate with its id has a logit other than minus infinity.\<close>

definition pickable :: "'l \<Rightarrow> common_reasoning_budget_ctx \<Rightarrow> 'l token_data list \<Rightarrow> llama_token \<Rightarrow> bool" where
  "pickable neg_inf ctx cands t \<longleftrightarrow>
     list_ex (\<lambda>d. td_id d = t \<and> td_logit d \<noteq> neg_inf) (common_reasoning_budget_apply neg_inf (Some ctx) cands)"

lemma apply_forces:
  assumes "rb_state ctx = REASONING_BUDGET_FORCING" "force_pos ctx < length (forced_tokens ctx)"
  shows "pickable neg_inf ctx cands t \<longleftrightarrow>
    t = forced_tokens ctx ! force_pos ctx \<and> list_ex (\<lambda>d. td_id d = t \<and> td_logit d \<noteq> neg_inf) cands"
  using assms by (auto simp: pickable_def common_reasoning_budget_apply_def list_ex_iff)

lemma forcing_run:
  assumes "rb_state ctx = REASONING_BUDGET_FORCING" "force_pos ctx = 0"
  shows "length ts < length (forced_tokens ctx) \<Longrightarrow> accept_all ctx ts = ctx\<lparr>force_pos := length ts\<rparr>"
  using assms by (induction ts rule: rev_induct) (simp_all add: common_reasoning_budget_accept_def)

text \<open>Once forcing, whatever the model proposes: if every generated token was pickable when it was generated, the
  tokens generated are the forced sequence, and the sampler is done after exactly that many tokens.\<close>

theorem reasoning_forced_sequence:
  assumes "rb_state ctx = REASONING_BUDGET_FORCING" "force_pos ctx = 0" "length ts \<le> length (forced_tokens ctx)"
    "list_all (\<lambda>i. pickable neg_inf (accept_all ctx (take i ts)) (cands i) (ts ! i)) [0..<length ts]" "ts \<noteq> []"
  shows "ts = take (length ts) (forced_tokens ctx) \<and>
    rb_state (accept_all ctx ts) = (if length ts = length (forced_tokens ctx) then REASONING_BUDGET_DONE else REASONING_BUDGET_FORCING)"
proof
  show "ts = take (length ts) (forced_tokens ctx)"
  proof (rule nth_equalityI)
    show "length ts = length (take (length ts) (forced_tokens ctx))" using assms(3) by simp
    fix i
    assume i: "i < length ts"
    then have "accept_all ctx (take i ts) = ctx\<lparr>force_pos := i\<rparr>"
      using forcing_run[OF assms(1,2), of "take i ts"] assms(3) by simp
    moreover have "pickable neg_inf (accept_all ctx (take i ts)) (cands i) (ts ! i)"
      using assms(4) i by (simp add: list_all_iff)
    ultimately show "ts ! i = take (length ts) (forced_tokens ctx) ! i"
      using apply_forces[of "ctx\<lparr>force_pos := i\<rparr>" neg_inf "cands i" "ts ! i"] assms(1,3) i by simp
  qed
  obtain us u where ts: "ts = us @ [u]" using assms(5) by (cases ts rule: rev_cases) auto
  have "accept_all ctx us = ctx\<lparr>force_pos := length us\<rparr>"
    using forcing_run[OF assms(1,2)] assms(3) ts by simp
  then show "rb_state (accept_all ctx ts) = (if length ts = length (forced_tokens ctx) then REASONING_BUDGET_DONE else REASONING_BUDGET_FORCING)"
    using assms(1,3) ts by (simp add: common_reasoning_budget_accept_def)
qed

definition demo_forcing :: common_reasoning_budget_ctx where
  "demo_forcing = common_reasoning_budget_init None [10] [20] [30, 20] 0 REASONING_BUDGET_COUNTING"

definition demo_cands :: "nat token_data list" where
  "demo_cands = [\<lparr>td_id = 20, td_logit = 5\<rparr>, \<lparr>td_id = 30, td_logit = 1\<rparr>, \<lparr>td_id = 7, td_logit = 9\<rparr>]"

theorem reasoning_forced_sequence_witness:
  "rb_state (accept_all demo_forcing [30, 20]) = REASONING_BUDGET_DONE"
  using reasoning_forced_sequence[of demo_forcing "[30, 20]" 0 "\<lambda>_. demo_cands"]
  by (simp add: demo_forcing_def common_reasoning_budget_init_def demo_cands_def pickable_def upt_rec
      common_reasoning_budget_apply_def common_reasoning_budget_accept_def accept_all_def)

end
