(* ===== verification/SuffixTree.thy ===== *)
theory SuffixTree
  imports Prelude "HOL-Library.AList" "HOL-Library.Sublist"
begin

text \<open>
  The suffix trie of \<open>common/suffix-tree.cpp\<close> that drafts tokens for speculative decoding: every node counts how often
  its path occurs in the token history.

  A node's \<open>std::unordered_map\<close> of children is an association list without duplicate keys.  The order in which the
  code iterates over it is not specified; it is the argument \<open>iter\<close> of the operations that depend on it.
  Probabilities are \<open>float\<close>; the code only multiplies, divides, adds and compares them, and these operations are the
  fields of the argument \<open>float_ops\<close>.  The 64-bit counters are natural numbers: they are bounded by the
  number of tokens, which is an \<open>int\<close>.
\<close>

section \<open>The trie\<close>

datatype suffix_node = Node (n_count: nat) (n_children: "(llama_token \<times> suffix_node) list")

record suffix_tree =
  st_max_depth :: int
  st_root :: suffix_node
  st_tokens :: "llama_token list"
  st_n_inserted :: int

definition new_suffix_tree :: "int \<Rightarrow> suffix_tree" where
  "new_suffix_tree max_depth = \<lparr>st_max_depth = max_depth, st_root = Node 0 [], st_tokens = [], st_n_inserted = 0\<rparr>"

definition suffix_clear :: "suffix_tree \<Rightarrow> suffix_tree" where
  "suffix_clear t = t\<lparr>st_root := Node 0 [], st_tokens := [], st_n_inserted := 0\<rparr>"

text \<open>The loop of \<open>_insert_suffix\<close> below a node, on the tokens still to be inserted.\<close>

fun insert_path :: "llama_token list \<Rightarrow> suffix_node \<Rightarrow> suffix_node" where
  "insert_path [] n = n"
| "insert_path (tok # toks) n =
     (case map_of (n_children n) tok of
        None \<Rightarrow> Node (n_count n) (AList.update tok (insert_path toks (Node 1 [])) (n_children n))
      | Some child \<Rightarrow>
          Node (n_count n) (AList.update tok (insert_path toks (Node (n_count child + 1) (n_children child))) (n_children n)))"

text \<open>The two loops of \<open>_extend_suffix\<close>: walk down the old part, then insert the new one.\<close>

fun extend_path :: "llama_token list \<Rightarrow> llama_token list \<Rightarrow> suffix_node \<Rightarrow> suffix_node" where
  "extend_path [] new n = insert_path new n"
| "extend_path (tok # toks) new n =
     (case map_of (n_children n) tok of
        None \<Rightarrow> n
      | Some child \<Rightarrow> Node (n_count n) (AList.update tok (extend_path toks new child) (n_children n)))"

definition slice :: "int \<Rightarrow> int \<Rightarrow> 'a list \<Rightarrow> 'a list" where
  "slice start len xs = take (nat len) (drop (nat start) xs)"

definition insert_suffix :: "suffix_tree \<Rightarrow> int \<Rightarrow> suffix_tree" where
  "insert_suffix t start_pos =
     (let total_tokens = int (length (st_tokens t));
          len = min (total_tokens - start_pos) (st_max_depth t)
      in if len \<le> 0 then t else t\<lparr>st_root := insert_path (slice start_pos len (st_tokens t)) (st_root t)\<rparr>)"

definition extend_suffix :: "suffix_tree \<Rightarrow> int \<Rightarrow> int \<Rightarrow> int \<Rightarrow> suffix_tree" where
  "extend_suffix t start_pos old_len new_len =
     t\<lparr>st_root := extend_path (slice start_pos old_len (st_tokens t))
                    (slice (start_pos + max 0 old_len) (new_len - max 0 old_len) (st_tokens t)) (st_root t)\<rparr>"

definition extend_at :: "int \<Rightarrow> int \<Rightarrow> suffix_tree \<Rightarrow> int \<Rightarrow> suffix_tree" where
  "extend_at old_size new_size t i =
     (if i < st_n_inserted t then
        (let old_len = min (old_size - i) (st_max_depth t);
             new_len = min (new_size - i) (st_max_depth t)
         in if new_len > old_len then extend_suffix t i old_len new_len else t)
      else insert_suffix t i)"

definition suffix_extend :: "suffix_tree \<Rightarrow> llama_token list \<Rightarrow> suffix_tree" where
  "suffix_extend t tokens =
     (if tokens = [] then t
      else
        (let old_size = int (length (st_tokens t));
             t1 = t\<lparr>st_tokens := st_tokens t @ tokens\<rparr>;
             new_size = int (length (st_tokens t1));
             reinsert_from = max 0 (old_size - st_max_depth t);
             t2 = foldl (extend_at old_size new_size) t1 [reinsert_from..new_size - 1]
         in t2\<lparr>st_n_inserted := new_size\<rparr>))"

section \<open>Drafting\<close>

record 'f float_ops =
  f_zero :: 'f
  f_one :: 'f
  f_ratio :: "nat \<Rightarrow> nat \<Rightarrow> 'f"
  f_mul :: "'f \<Rightarrow> 'f \<Rightarrow> 'f"
  f_add :: "'f \<Rightarrow> 'f \<Rightarrow> 'f"
  f_less :: "'f \<Rightarrow> 'f \<Rightarrow> bool"

fun node_at :: "suffix_node \<Rightarrow> llama_token list \<Rightarrow> suffix_node option" where
  "node_at n [] = Some n"
| "node_at n (tok # toks) = (case map_of (n_children n) tok of None \<Rightarrow> None | Some child \<Rightarrow> node_at child toks)"

text \<open>The child with the largest count, the first one in iteration order among equals.\<close>

definition best_child :: "(llama_token \<times> suffix_node) list \<Rightarrow> llama_token \<times> nat" where
  "best_child children =
     foldl (\<lambda>(best_tok, best_count) (token, child).
              if n_count child > best_count then (token, n_count child) else (best_tok, best_count)) (- 1, 0) children"

text \<open>
  The greedy walk, with the remaining limit as recursion argument; it returns the draft and its score.
  \<open>children.at(best_tok)\<close> cannot fail when some count is positive; the missing case ends the walk.
\<close>

fun greedy ::
  "'f float_ops \<Rightarrow> ((llama_token \<times> suffix_node) list \<Rightarrow> (llama_token \<times> suffix_node) list) \<Rightarrow> 'f \<Rightarrow> nat \<Rightarrow> suffix_node \<Rightarrow> 'f \<Rightarrow> 'f
   \<Rightarrow> llama_token list \<times> 'f" where
  "greedy F iter min_token_prob 0 cur prob score = ([], score)"
| "greedy F iter min_token_prob (Suc k) cur prob score =
     (if n_children cur = [] then ([], score)
      else
        (let (best_tok, best_count) = best_child (iter (n_children cur));
             prob' = f_mul F prob (f_ratio F best_count (n_count cur))
         in if f_less F prob' min_token_prob then ([], score)
            else
              (case map_of (n_children cur) best_tok of
                 None \<Rightarrow> ([], score)
               | Some child \<Rightarrow>
                   (let (draft, s) = greedy F iter min_token_prob k child prob' (f_add F score prob')
                    in (best_tok # draft, s)))))"

text \<open>One pass over the match lengths \<open>match_len, \<dots>, n_context\<close>; \<open>fuel\<close> counts the lengths left.\<close>

fun speculate_loop ::
  "'f float_ops \<Rightarrow> ((llama_token \<times> suffix_node) list \<Rightarrow> (llama_token \<times> suffix_node) list) \<Rightarrow> suffix_node \<Rightarrow> llama_token list \<Rightarrow>
   int \<Rightarrow> 'f \<Rightarrow> int \<Rightarrow> nat \<Rightarrow> nat \<Rightarrow> llama_token list \<times> 'f \<Rightarrow> llama_token list \<times> 'f" where
  "speculate_loop F iter root context max_spec min_prob min_count match_len 0 best = best"
| "speculate_loop F iter root context max_spec min_prob min_count match_len (Suc fuel) (best_draft, best_score) =
     (let ctx = drop (length context - match_len) context in
      case node_at root ctx of
        None \<Rightarrow> (best_draft, best_score)
      | Some node \<Rightarrow>
          if int (n_count node) < min_count \<or> n_children node = [] then
            speculate_loop F iter root context max_spec min_prob min_count (Suc match_len) fuel (best_draft, best_score)
          else
            (let draft_limit = min max_spec (int match_len + 8);
                 (draft, score) = greedy F iter min_prob (nat draft_limit) node (f_one F) (f_zero F);
                 best = (if f_less F best_score score \<and> draft \<noteq> [] then (draft, score) else (best_draft, best_score))
             in speculate_loop F iter root context max_spec min_prob min_count (Suc match_len) fuel best))"

definition suffix_speculate ::
  "'f float_ops \<Rightarrow> ((llama_token \<times> suffix_node) list \<Rightarrow> (llama_token \<times> suffix_node) list) \<Rightarrow> suffix_tree \<Rightarrow> llama_token list \<Rightarrow>
   int \<Rightarrow> 'f \<Rightarrow> int \<Rightarrow> int \<Rightarrow> llama_token list" where
  "suffix_speculate F iter t context max_spec min_token_prob min_match_count min_match_len =
     (if context = [] \<or> max_spec \<le> 0 then []
      else
        (let ctx = (if int (length context) > st_max_depth t
                    then drop (length context - nat (st_max_depth t)) context else context);
             first = nat (max 1 min_match_len)
         in fst (speculate_loop F iter (st_root t) ctx max_spec min_token_prob min_match_count first
                   (length ctx + 1 - first) ([], f_zero F))))"

section \<open>Loading a corpus\<close>

text \<open>Values of the JSON library as far as \<open>_extract_texts\<close> tells them apart.\<close>

datatype json = Json_string string | Json_array "json list" | Json_object "(string \<times> json) list" | Json_other

fun extract_texts :: "json \<Rightarrow> string list" where
  "extract_texts (Json_string s) = (if s \<noteq> '''' then [s] else [])"
| "extract_texts (Json_array items) = concat (map extract_texts items)"
| "extract_texts (Json_object members) =
     (case map_of members ''content'' of
        Some (Json_string s) \<Rightarrow> (if s \<noteq> '''' then [s] else [])
      | _ \<Rightarrow> (case map_of (map (\<lambda>(k, v). (k, extract_texts v)) members) ''messages'' of Some ts \<Rightarrow> ts | None \<Rightarrow> []))"
| "extract_texts Json_other = []"

definition suffix_estimated_insert_work :: "nat \<Rightarrow> int \<Rightarrow> nat" where
  "suffix_estimated_insert_work n_tokens max_depth = (n_tokens * nat (max max_depth 1)) mod 2 ^ 64"

definition suffix_corpus_check_limit :: "nat \<Rightarrow> int \<Rightarrow> bool" where
  "suffix_corpus_check_limit n_tokens max_depth \<longleftrightarrow> suffix_estimated_insert_work n_tokens max_depth \<le> 256 * 1024 * 1024"

text \<open>Inserting the token lists of the texts one after the other, with the running total_tokens.\<close>

fun load_texts :: "suffix_tree \<Rightarrow> nat \<Rightarrow> llama_token list list \<Rightarrow> bool \<times> suffix_tree" where
  "load_texts t total_tokens [] = (if total_tokens = 0 then (False, suffix_clear t) else (True, t))"
| "load_texts t total_tokens (toks # rest) =
     (if toks = [] then load_texts t total_tokens rest
      else
        (let projected = total_tokens + length toks in
         if \<not> suffix_corpus_check_limit projected (st_max_depth t) then (False, suffix_clear t)
         else load_texts (suffix_extend t toks) projected rest))"

definition load_corpus_json :: "suffix_tree \<Rightarrow> (string \<Rightarrow> llama_token list) option \<Rightarrow> json option \<Rightarrow> bool \<times> suffix_tree" where
  "load_corpus_json t tokenize_fn root =
     (case tokenize_fn of None \<Rightarrow> (False, t)
      | Some tokenize \<Rightarrow>
          (case root of None \<Rightarrow> (False, t)
           | Some j \<Rightarrow>
               (let texts = extract_texts j in
                if texts = [] then (False, t) else load_texts t 0 (map tokenize texts))))"

text \<open>
  The binary format.  The file is the list of its 32-bit tokens and whether reading ended with an error, absent if it
  cannot be opened; it is read in chunks of \<open>SUFFIX_CORPUS_BINARY_CHUNK_TOKENS\<close> tokens.
\<close>

definition SUFFIX_CORPUS_BINARY_CHUNK_TOKENS :: nat where
  "SUFFIX_CORPUS_BINARY_CHUNK_TOKENS = 2 ^ 15"

function load_chunks :: "suffix_tree \<Rightarrow> nat \<Rightarrow> llama_token list \<Rightarrow> (nat \<times> suffix_tree) option" where
  "load_chunks t total_tokens raw =
     (let chunk = take SUFFIX_CORPUS_BINARY_CHUNK_TOKENS raw in
      if chunk = [] then Some (total_tokens, t)
      else
        (let projected = total_tokens + length chunk in
         if \<not> suffix_corpus_check_limit projected (st_max_depth t) then None
         else load_chunks (suffix_extend t chunk) projected (drop SUFFIX_CORPUS_BINARY_CHUNK_TOKENS raw)))"
  by pat_completeness auto
termination
  by (relation "measure (\<lambda>(t, total_tokens, raw). length raw)") (auto simp: SUFFIX_CORPUS_BINARY_CHUNK_TOKENS_def)

declare load_chunks.simps [simp del]

definition load_corpus_binary :: "suffix_tree \<Rightarrow> (llama_token list \<times> bool) option \<Rightarrow> bool \<times> suffix_tree" where
  "load_corpus_binary t file =
     (case file of None \<Rightarrow> (False, t)
      | Some (raw, read_error) \<Rightarrow>
          if length raw > 0 \<and> \<not> suffix_corpus_check_limit (length raw) (st_max_depth t) then (False, t)
          else
            (case load_chunks t 0 raw of None \<Rightarrow> (False, suffix_clear t)
             | Some (total_tokens, t') \<Rightarrow>
                 if read_error then (False, suffix_clear t') else if total_tokens = 0 then (False, t') else (True, t')))"

section \<open>What the nodes count\<close>

definition count_at :: "suffix_node \<Rightarrow> llama_token list \<Rightarrow> nat" where
  "count_at n w = (case node_at n w of None \<Rightarrow> 0 | Some m \<Rightarrow> n_count m)"

definition present :: "suffix_node \<Rightarrow> llama_token list \<Rightarrow> bool" where
  "present n w \<longleftrightarrow> node_at n w \<noteq> None"

definition match_at :: "llama_token list \<Rightarrow> llama_token list \<Rightarrow> nat \<Rightarrow> bool" where
  "match_at w ts i \<longleftrightarrow> i < length ts \<and> take (length w) (drop i ts) = w"

text \<open>The number of positions of \<open>ts\<close> at which \<open>w\<close> occurs.\<close>

definition occurrences :: "llama_token list \<Rightarrow> llama_token list \<Rightarrow> nat" where
  "occurrences w ts = length (filter (match_at w ts) [0..<length ts])"

lemma node_at_simps [simp]:
  "node_at (Node c (AList.update tok child ch)) (tok' # w) =
     (if tok' = tok then node_at child w else node_at (Node c ch) (tok' # w))"
  by (simp add: AList.update_conv')

lemma node_at_count_irrelevant: "w \<noteq> [] \<Longrightarrow> node_at (Node c ch) w = node_at (Node d ch) w"
  by (cases w) simp_all

lemma node_at_children: "node_at n (tok # w) = node_at (Node d (n_children n)) (tok # w)"
  by simp

lemma present_simps [simp]: "present n []" "present n (tok # w) \<longleftrightarrow> (\<exists>c. map_of (n_children n) tok = Some c \<and> present c w)"
  by (auto simp: present_def split: option.splits)

lemma count_at_Cons [simp]:
  "count_at n (tok # w) = (case map_of (n_children n) tok of None \<Rightarrow> 0 | Some c \<Rightarrow> count_at c w)"
  by (simp add: count_at_def split: option.split)

lemma count_at_Nil [simp]: "count_at n [] = n_count n"
  by (simp add: count_at_def)

lemma insert_path_count_own [simp]: "n_count (insert_path p n) = n_count n"
  by (cases p) (auto split: option.split)

lemma count_at_children: "w \<noteq> [] \<Longrightarrow> count_at (Node c ch) w = count_at (Node d ch) w"
  by (cases w) simp_all

lemma count_insert_path:
  "w \<noteq> [] \<Longrightarrow> count_at (insert_path p n) w = count_at n w + (if prefix w p then 1 else 0)"
proof (induction p arbitrary: n w)
  case Nil
  then show ?case by simp
next
  case (Cons tok p)
  then obtain t u where w: "w = t # u" by (cases w) auto
  show ?case
  proof (cases "map_of (n_children n) tok")
    case None
    then show ?thesis
      using Cons.IH[of u "Node 1 []"] by (cases u) (auto simp: w AList.update_conv' count_at_def)
  next
    case (Some child)
    have "u \<noteq> [] \<Longrightarrow> count_at (Node (Suc (n_count child)) (n_children child)) u = count_at child u"
      by (cases child) (simp add: count_at_children)
    then show ?thesis
      using Some Cons.IH[of u "Node (Suc (n_count child)) (n_children child)"]
      by (cases "u = []") (auto simp: w AList.update_conv')
  qed
qed

lemma count_extend_path:
  "w \<noteq> [] \<Longrightarrow> present n old \<Longrightarrow> count_at (extend_path old new n) w =
     count_at n w + (if prefix w (old @ new) \<and> length old < length w then 1 else 0)"
proof (induction old arbitrary: n w)
  case Nil
  then show ?case by (simp add: count_insert_path)
next
  case (Cons tok old)
  then obtain t u child where w: "w = t # u" and c: "map_of (n_children n) tok = Some child" "present child old"
    by (cases w) auto
  have own: "n_count (extend_path old new child) = n_count child"
    by (cases old) (auto split: option.split)
  show ?case
    using Cons.IH[of u child] c own by (cases "u = []") (auto simp: w AList.update_conv')
qed

lemma present_insert_path: "present (insert_path p n) w \<longleftrightarrow> present n w \<or> prefix w p"
proof (induction p arbitrary: n w)
  case Nil
  then show ?case by (cases w) auto
next
  case (Cons tok p)
  show ?case
  proof (cases w)
    case (Cons t u)
    have e: "present (Node (Suc (n_count child)) (n_children child)) u = present child u" for child
      by (cases child; cases u) auto
    have "present (Node 1 []) u \<longleftrightarrow> u = []" by (cases u) auto
    then show ?thesis
      using Cons.IH[of _ u] e by (auto simp: Cons AList.update_conv' split: option.splits)
  qed simp
qed

lemma present_extend_path: "present n old \<Longrightarrow> present (extend_path old new n) w \<longleftrightarrow> present n w \<or> prefix w (old @ new)"
proof (induction old arbitrary: n w)
  case Nil
  then show ?case by (simp add: present_insert_path)
next
  case (Cons tok old)
  then obtain child where c: "map_of (n_children n) tok = Some child" "present child old" by auto
  then show ?case using Cons.IH[of child] by (cases w) (auto simp: AList.update_conv')
qed

lemma present_prefix: "present n w \<Longrightarrow> prefix u w \<Longrightarrow> present n u"
proof (induction w arbitrary: n u)
  case Nil
  then show ?case by simp
next
  case (Cons t w)
  then show ?case by (cases u) auto
qed

section \<open>One call of \<open>extend\<close>\<close>

text \<open>The suffix that position \<open>i\<close> contributes, and the paths it is counted on by this call.\<close>

definition path_at :: "nat \<Rightarrow> llama_token list \<Rightarrow> nat \<Rightarrow> llama_token list" where
  "path_at md ts i = take md (drop i ts)"

definition counted :: "nat \<Rightarrow> nat \<Rightarrow> llama_token list \<Rightarrow> llama_token list \<Rightarrow> nat \<Rightarrow> bool" where
  "counted md old ts w i \<longleftrightarrow> prefix w (path_at md ts i) \<and> (old \<le> i \<or> old - i < length w)"

lemma slice_nat: "slice (int a) (int b) xs = take b (drop a xs)"
  by (simp add: slice_def)

lemma extend_at_frame [simp]:
  "st_tokens (extend_at o' n' t i) = st_tokens t" "st_max_depth (extend_at o' n' t i) = st_max_depth t"
  "st_n_inserted (extend_at o' n' t i) = st_n_inserted t"
  by (simp_all add: extend_at_def extend_suffix_def insert_suffix_def Let_def)

lemma take_split: "a \<le> b \<Longrightarrow> take a xs @ take (b - a) (drop a xs) = take b xs"
  using take_add[of a "b - a" xs] by simp

lemma take_min_drop: "take (min (length ts - i) md) (drop i ts) = take md (drop i ts)"
  by (cases "length ts - i \<le> md") (simp_all add: min_def)

lemma insert_at_root:
  assumes "st_max_depth t = int md" "0 < md" "st_n_inserted t \<le> int i" "i < length (st_tokens t)"
  shows "st_root (extend_at o' n' t (int i)) = insert_path (path_at md (st_tokens t) i) (st_root t)"
proof -
  let ?n = "length (st_tokens t)"
  define l where "l = min (?n - i) md"
  have m: "min (int ?n - int i) (int md) = int l" using assms(4) by (auto simp: l_def)
  have "0 < l" using assms(2,4) by (simp add: l_def)
  moreover have "take l (drop i (st_tokens t)) = path_at md (st_tokens t) i" by (simp add: l_def take_min_drop path_at_def)
  ultimately show ?thesis
    using assms(1,3) m by (simp add: extend_at_def insert_suffix_def Let_def slice_nat)
qed

text \<open>A position that was inserted before: its old part is walked, the rest inserted.\<close>

lemma extend_at_root:
  assumes "st_max_depth t = int md" "st_n_inserted t = int old" "i < old" "old \<le> length (st_tokens t)"
  defines "ol \<equiv> min (old - i) md" and "nl \<equiv> min (length (st_tokens t) - i) md"
  defines "xs \<equiv> drop i (st_tokens t)"
  shows "st_root (extend_at (int old) (int (length (st_tokens t))) t (int i)) =
    (if ol < nl then extend_path (take ol xs) (take (nl - ol) (drop ol xs)) (st_root t) else st_root t)"
proof -
  let ?n = "length (st_tokens t)"
  have ol: "min (int old - int i) (int md) = int ol" and nl: "min (int ?n - int i) (int md) = int nl"
    using assms(3,4) by (auto simp: ol_def nl_def)
  have s1: "slice (int i) (int ol) (st_tokens t) = take ol xs" by (simp add: slice_nat xs_def)
  have s2: "slice (int i + max 0 (int ol)) (int nl - max 0 (int ol)) (st_tokens t) = take (nl - ol) (drop ol xs)" if "ol < nl"
  proof -
    have "int i + max 0 (int ol) = int (i + ol)" "int nl - max 0 (int ol) = int (nl - ol)" using that by auto
    then show ?thesis by (simp only: slice_nat xs_def drop_drop add.commute)
  qed
  show ?thesis
    using assms(1-3) ol nl s1 s2 by (simp add: extend_at_def extend_suffix_def Let_def)
qed

lemma extend_at_step:
  assumes t: "st_max_depth t = int md" "0 < md" "st_n_inserted t = int old" "old \<le> length (st_tokens t)" "i < length (st_tokens t)"
    and p: "i < old \<Longrightarrow> present (st_root t) (take (min (old - i) md) (drop i (st_tokens t)))"
  defines "t' \<equiv> extend_at (int old) (int (length (st_tokens t))) t (int i)"
  shows "(w \<noteq> [] \<longrightarrow> length w \<le> md \<longrightarrow>
      count_at (st_root t') w = count_at (st_root t) w + (if counted md old (st_tokens t) w i then 1 else 0)) \<and>
    (present (st_root t') w \<longleftrightarrow> present (st_root t) w \<or> prefix w (path_at md (st_tokens t) i))"
proof (cases "i < old")
  case False
  then have "st_root t' = insert_path (path_at md (st_tokens t) i) (st_root t)"
    unfolding t'_def using t by (intro insert_at_root) auto
  then show ?thesis using False by (simp add: count_insert_path present_insert_path counted_def)
next
  case True
  define ol nl xs where d: "ol = min (old - i) md" "nl = min (length (st_tokens t) - i) md" "xs = drop i (st_tokens t)"
  have r: "st_root t' = (if ol < nl then extend_path (take ol xs) (take (nl - ol) (drop ol xs)) (st_root t) else st_root t)"
    unfolding t'_def d by (rule extend_at_root) (use t True in auto)
  have pth: "path_at md (st_tokens t) i = take nl xs" by (simp add: d path_at_def take_min_drop)
  have lo: "length (take ol xs) = ol" using t(4) True by (auto simp: d)
  have le: "ol \<le> nl" using t(4) by (auto simp: d)
  have cond: "counted md old (st_tokens t) w i \<longleftrightarrow> prefix w (take nl xs) \<and> ol < length w" if "length w \<le> md"
    using True that by (auto simp: counted_def pth d)
  have pr: "present (st_root t) (take ol xs)" using p[OF True] by (simp add: d)
  show ?thesis
  proof (cases "ol < nl")
    case ext: True
    then show ?thesis
      using count_extend_path[OF _ pr] present_extend_path[OF pr] cond lo take_split[OF le, of xs] by (simp add: r pth)
  next
    case False
    then have "nl = ol" using le by simp
    then have "\<not> (prefix w (take nl xs) \<and> ol < length w)" "prefix w (take nl xs) \<Longrightarrow> present (st_root t) w"
      using lo present_prefix[OF pr] by (auto dest: prefix_length_le)
    then show ?thesis using cond False by (auto simp: r pth)
  qed
qed

lemma extend_at_fold:
  assumes "st_max_depth t = int md" "0 < md" "st_n_inserted t = int old" "old \<le> length (st_tokens t)"
    and "\<And>i. i < old \<Longrightarrow> present (st_root t) (take (min (old - i) md) (drop i (st_tokens t)))"
  defines "T is \<equiv> foldl (extend_at (int old) (int (length (st_tokens t)))) t (map int is)"
  shows "list_all (\<lambda>i. i < length (st_tokens t)) is \<Longrightarrow>
    st_tokens (T is) = st_tokens t \<and> st_max_depth (T is) = int md \<and> st_n_inserted (T is) = int old \<and>
    (\<forall>w. w \<noteq> [] \<longrightarrow> length w \<le> md \<longrightarrow> count_at (st_root (T is)) w =
       count_at (st_root t) w + length (filter (counted md old (st_tokens t) w) is)) \<and>
    (\<forall>w. present (st_root (T is)) w \<longleftrightarrow> present (st_root t) w \<or> (\<exists>i \<in> set is. prefix w (path_at md (st_tokens t) i)))"
proof (induction "is" rule: rev_induct)
  case Nil
  then show ?case using assms(1-3) by (simp add: T_def)
next
  case (snoc i "is")
  then have IH: "st_tokens (T is) = st_tokens t" "st_max_depth (T is) = int md" "st_n_inserted (T is) = int old"
    and cnt: "\<And>w. w \<noteq> [] \<Longrightarrow> length w \<le> md \<Longrightarrow> count_at (st_root (T is)) w =
       count_at (st_root t) w + length (filter (counted md old (st_tokens t) w) is)"
    and pre: "\<And>w. present (st_root (T is)) w \<longleftrightarrow> present (st_root t) w \<or> (\<exists>i \<in> set is. prefix w (path_at md (st_tokens t) i))"
    and i: "i < length (st_tokens t)" by auto
  have eq: "T (is @ [i]) = extend_at (int old) (int (length (st_tokens (T is)))) (T is) (int i)"
    using IH(1) by (simp add: T_def)
  have step: "(w \<noteq> [] \<longrightarrow> length w \<le> md \<longrightarrow> count_at (st_root (T (is @ [i]))) w =
      count_at (st_root (T is)) w + (if counted md old (st_tokens t) w i then 1 else 0)) \<and>
    (present (st_root (T (is @ [i]))) w \<longleftrightarrow> present (st_root (T is)) w \<or> prefix w (path_at md (st_tokens t) i))" for w
    unfolding eq using extend_at_step[OF IH(2) assms(2) IH(3), of i w] IH(1) assms(4,5) i pre by simp
  show ?case using step cnt pre IH by (auto simp: eq)
qed

section \<open>The counts are the occurrences\<close>

lemma occurrences_card: "occurrences w ts = card {i. match_at w ts i}"
proof -
  have "{i. match_at w ts i} = set (filter (match_at w ts) [0..<length ts])" by (auto simp: match_at_def)
  moreover have "card (set (filter (match_at w ts) [0..<length ts])) = length (filter (match_at w ts) [0..<length ts])"
    by (rule distinct_card) simp
  ultimately show ?thesis by (simp only: occurrences_def)
qed

lemma prefix_path_at: "length w \<le> md \<Longrightarrow> prefix w (path_at md ts i) \<longleftrightarrow> take (length w) (drop i ts) = w"
  unfolding path_at_def
  by (metis append_eq_conv_conj min.absorb1 prefix_def take_is_prefix take_take prefix_order.trans)

lemma match_at_bound:
  assumes "match_at w ts i"
  shows "i + length w \<le> length ts"
proof -
  have i: "i < length ts" and e: "take (length w) (drop i ts) = w" using assms by (simp_all add: match_at_def)
  have "min (length ts - i) (length w) = length w" using arg_cong[OF e, of length] by (simp only: length_take length_drop)
  then show ?thesis using i by (simp add: min_def split: if_splits)
qed

lemma match_at_append:
  assumes "w \<noteq> []"
  shows "match_at w (ts @ us) i \<longleftrightarrow> match_at w ts i \<or> (match_at w (ts @ us) i \<and> length ts < i + length w)"
proof (cases "i + length w \<le> length ts")
  case True
  then have "i < length ts" using assms by (cases w) auto
  then show ?thesis using True by (auto simp: match_at_def)
next
  case False
  then show ?thesis using match_at_bound[of w ts i] by auto
qed

lemma occurrences_extend:
  assumes "w \<noteq> []" "length w \<le> md"
  shows "occurrences w (ts @ us) = occurrences w ts +
    length (filter (counted md (length ts) (ts @ us) w) [length ts - md..<length (ts @ us)])"
proof -
  let ?old = "length ts" and ?A = "{i. match_at w ts i}"
  let ?B = "{i. ?old - md \<le> i \<and> i < length (ts @ us) \<and> counted md ?old (ts @ us) w i}"
  have w0: "0 < length w" using assms(1) by simp
  have c: "counted md ?old (ts @ us) w i \<longleftrightarrow> take (length w) (drop i (ts @ us)) = w \<and> ?old < i + length w" for i
  proof -
    have "(?old \<le> i \<or> ?old - i < length w) = (?old < i + length w)" using w0 by linarith
    then show ?thesis unfolding counted_def prefix_path_at[OF assms(2)] by simp
  qed
  have "match_at w (ts @ us) i \<and> ?old < i + length w \<longleftrightarrow> i \<in> ?B" for i
    unfolding c match_at_def mem_Collect_eq using assms(2) by linarith
  then have "{i. match_at w (ts @ us) i} = ?A \<union> ?B"
    using match_at_append[OF assms(1), of ts us] by blast
  moreover have "?A \<inter> ?B = {}" using match_at_bound by (fastforce simp: c)
  moreover have "finite ?A" "finite ?B" by (auto simp: match_at_def)
  moreover have "?B = set (filter (counted md ?old (ts @ us) w) [?old - md..<length (ts @ us)])" by auto
  then have "card ?B = length (filter (counted md ?old (ts @ us) w) [?old - md..<length (ts @ us)])"
    by (metis distinct_card distinct_filter distinct_upt)
  ultimately show ?thesis by (simp add: occurrences_card card_Un_disjoint)
qed

text \<open>
  The invariant of the tree: the node of a path counts the occurrences of the path in the history, and the paths
  present are the ones that occur and are not too long.
\<close>

definition st_ok :: "suffix_tree \<Rightarrow> bool" where
  "st_ok t \<longleftrightarrow> 0 < st_max_depth t \<and> st_n_inserted t = int (length (st_tokens t)) \<and>
     (\<forall>w. w \<noteq> [] \<longrightarrow> int (length w) \<le> st_max_depth t \<longrightarrow> count_at (st_root t) w = occurrences w (st_tokens t)) \<and>
     (\<forall>w. w \<noteq> [] \<longrightarrow> present (st_root t) w \<longleftrightarrow> int (length w) \<le> st_max_depth t \<and> 0 < occurrences w (st_tokens t))"

lemma occurrences_pos: "0 < occurrences w ts \<longleftrightarrow> (\<exists>i. match_at w ts i)"
  by (auto simp: occurrences_def match_at_def filter_empty_conv)

lemma empty_node: "w \<noteq> [] \<Longrightarrow> count_at (Node c []) w = 0 \<and> \<not> present (Node c []) w"
  by (cases w) simp_all

lemma new_st_ok: "0 < d \<Longrightarrow> st_ok (new_suffix_tree d)"
  by (simp add: st_ok_def new_suffix_tree_def empty_node occurrences_def)

lemma upto_nat: "[max 0 (int a - int m)..int b - 1] = map int [a - m..<b]"
proof -
  have "max 0 (int a - int m) = int (a - m)" by auto
  moreover have "[int k..int b - 1] = map int [k..<b]" for k
  proof (induction b)
    case (Suc b)
    then show ?case
      by (cases "k \<le> b") (simp_all add: upto_rec2 [of "int k" "int b"])
  qed simp
  ultimately show ?thesis by simp
qed

lemma old_suffix_present:
  assumes "st_ok t" "st_max_depth t = int md" "i < length (st_tokens t)"
  shows "present (st_root t) (take (min (length (st_tokens t) - i) md) (drop i (st_tokens t)))"
proof -
  let ?w = "take (min (length (st_tokens t) - i) md) (drop i (st_tokens t))"
  have md: "0 < md" using assms(1,2) by (simp add: st_ok_def)
  have "length ?w = min (length (st_tokens t) - i) md" by simp
  then have "match_at ?w (st_tokens t) i" using assms(3) by (simp add: match_at_def)
  then have "0 < occurrences ?w (st_tokens t)" by (auto simp: occurrences_pos)
  moreover have "?w \<noteq> []" using md assms(3) by simp
  ultimately show ?thesis using assms(1,2) by (simp add: st_ok_def)
qed

lemma present_after:
  assumes "w \<noteq> []" "length w \<le> md"
  shows "0 < occurrences w (ts @ us) \<longleftrightarrow>
    0 < occurrences w ts \<or> (\<exists>i \<in> set [length ts - md..<length (ts @ us)]. prefix w (path_at md (ts @ us) i))"
proof
  assume "0 < occurrences w (ts @ us)"
  then obtain i where i: "match_at w (ts @ us) i" by (auto simp: occurrences_pos)
  then consider "match_at w ts i" | "length ts < i + length w" using match_at_append[OF assms(1)] by blast
  then show "0 < occurrences w ts \<or> (\<exists>i \<in> set [length ts - md..<length (ts @ us)]. prefix w (path_at md (ts @ us) i))"
  proof cases
    case 2
    then show ?thesis using i assms(2) by (intro disjI2 bexI[of _ i]) (auto simp: prefix_path_at match_at_def)
  qed (auto simp: occurrences_pos)
next
  assume "0 < occurrences w ts \<or> (\<exists>i \<in> set [length ts - md..<length (ts @ us)]. prefix w (path_at md (ts @ us) i))"
  then show "0 < occurrences w (ts @ us)"
  proof
    assume "0 < occurrences w ts"
    then show ?thesis using match_at_append[OF assms(1), of ts us] unfolding occurrences_pos by blast
  next
    assume "\<exists>i \<in> set [length ts - md..<length (ts @ us)]. prefix w (path_at md (ts @ us) i)"
    then obtain i where "i < length (ts @ us)" "prefix w (path_at md (ts @ us) i)" by auto
    then have "match_at w (ts @ us) i" by (simp add: match_at_def prefix_path_at[OF assms(2)])
    then show ?thesis unfolding occurrences_pos by blast
  qed
qed

lemma suffix_extend_ok:
  assumes ok: "st_ok t"
  shows "st_ok (suffix_extend t us) \<and> st_tokens (suffix_extend t us) = st_tokens t @ us \<and>
    st_max_depth (suffix_extend t us) = st_max_depth t"
proof (cases "us = []")
  case True
  then show ?thesis using ok by (simp add: suffix_extend_def)
next
  case False
  define md old t1 where d: "md = nat (st_max_depth t)" "old = length (st_tokens t)" "t1 = t\<lparr>st_tokens := st_tokens t @ us\<rparr>"
  have md: "st_max_depth t = int md" "0 < md" using ok by (simp_all add: d st_ok_def)
  define "is" T where i: "is = [old - md..<length (st_tokens t1)]"
    "T = foldl (extend_at (int old) (int (length (st_tokens t1)))) t1 (map int is)"
  have rng: "[max 0 (int old - st_max_depth t)..int (length (st_tokens t1)) - 1] = map int is"
    unfolding md(1) i(1) by (rule upto_nat)
  have e: "suffix_extend t us = T\<lparr>st_n_inserted := int (length (st_tokens t1))\<rparr>"
    unfolding i(2) rng[symmetric] using False by (simp add: suffix_extend_def Let_def d(2,3))
  have pre: "present (st_root t1) (take (min (old - k) md) (drop k (st_tokens t1)))" if "k < old" for k
    using old_suffix_present[OF ok md(1), of k] that by (simp add: d)
  have "st_tokens T = st_tokens t1 \<and> st_max_depth T = int md \<and> st_n_inserted T = int old \<and>
    (\<forall>w. w \<noteq> [] \<longrightarrow> length w \<le> md \<longrightarrow> count_at (st_root T) w =
       count_at (st_root t1) w + length (filter (counted md old (st_tokens t1) w) is)) \<and>
    (\<forall>w. present (st_root T) w \<longleftrightarrow> present (st_root t1) w \<or> (\<exists>i \<in> set is. prefix w (path_at md (st_tokens t1) i)))"
    unfolding i(2)
  proof (rule extend_at_fold)
    show "st_max_depth t1 = int md" using md(1) by (simp add: d(3))
    show "st_n_inserted t1 = int old" using ok by (simp add: d(2,3) st_ok_def)
    show "old \<le> length (st_tokens t1)" by (simp add: d(2,3))
    show "list_all (\<lambda>i. i < length (st_tokens t1)) is" by (simp add: i(1) list_all_iff)
  qed (use md(2) pre in auto)
  note T = this[unfolded d(3), simplified]
  have cnt: "count_at (st_root T) w = occurrences w (st_tokens t @ us)" if "w \<noteq> []" "length w \<le> md" for w
    using T that ok md(1) occurrences_extend[OF that, of "st_tokens t" us] by (simp add: i d(2,3) st_ok_def)
  have prs: "present (st_root T) w \<longleftrightarrow> length w \<le> md \<and> 0 < occurrences w (st_tokens t @ us)" if "w \<noteq> []" for w
  proof (cases "length w \<le> md")
    case True
    then show ?thesis
      using T that ok md(1) present_after[OF that True, of "st_tokens t" us] by (simp add: i d(2,3) st_ok_def)
  next
    case False
    then have "\<not> prefix w (path_at md (st_tokens t @ us) k)" for k
      by (auto simp: path_at_def dest: prefix_length_le)
    then show ?thesis using T that ok md(1) False by (simp add: st_ok_def)
  qed
  show ?thesis using cnt prs T md by (simp add: e st_ok_def d(2,3))
qed

lemma extends_ok:
  assumes "0 < d"
  shows "st_ok (foldl suffix_extend (new_suffix_tree d) batches) \<and>
    st_tokens (foldl suffix_extend (new_suffix_tree d) batches) = concat batches \<and>
    st_max_depth (foldl suffix_extend (new_suffix_tree d) batches) = d"
proof (induction batches rule: rev_induct)
  case Nil
  then show ?case using new_st_ok[OF assms] by (simp add: new_suffix_tree_def)
next
  case (snoc us batches)
  then show ?case using suffix_extend_ok[of "foldl suffix_extend (new_suffix_tree d) batches" us] by simp
qed

definition history_tree :: "int \<Rightarrow> llama_token list list \<Rightarrow> suffix_tree" where
  "history_tree d batches = foldl suffix_extend (new_suffix_tree d) batches"

text \<open>C16. However the history arrives, in any batches of tokens: the node reached by a path of length at most
  \<open>max_depth\<close> exists exactly if the path occurs in the history, and counts its occurrences.\<close>

theorem suffix_tree_counts:
  assumes "0 < d" "w \<noteq> []" "int (length w) \<le> d"
  shows "count_at (st_root (history_tree d batches)) w = occurrences w (concat batches) \<and>
    (node_at (st_root (history_tree d batches)) w \<noteq> None) = (0 < occurrences w (concat batches))"
  using extends_ok[OF assms(1), of batches] assms(2,3) by (simp add: st_ok_def present_def history_tree_def)

theorem suffix_tree_counts_witness:
  "count_at (st_root (history_tree 2 [[1, 2], [1, 2, 3]])) [1, 2] = 2"
proof -
  have "occurrences [1, 2] (concat [[1, 2], [1, 2, 3]]) = 2" by (simp add: occurrences_def match_at_def upt_rec)
  with suffix_tree_counts[of 2 "[1, 2]" "[[1, 2], [1, 2, 3]]"] show ?thesis by simp
qed

section \<open>Drafts continue the history\<close>

text \<open>What the code relies on of \<open>std::unordered_map\<close>: iteration visits exactly the entries.\<close>

definition fair_iteration :: "((llama_token \<times> suffix_node) list \<Rightarrow> (llama_token \<times> suffix_node) list) \<Rightarrow> bool" where
  "fair_iteration iter \<longleftrightarrow> (\<forall>ch. set (iter ch) = Map.graph (map_of ch))"

lemma fair_clearjunk: "fair_iteration AList.clearjunk" "fair_iteration (rev \<circ> AList.clearjunk)"
  by (simp_all add: fair_iteration_def graph_map_of)

lemma best_child_foldl:
  assumes "\<forall>(t, c) \<in> set ch. 0 < n_count c"
  shows "foldl (\<lambda>(best_tok, best_count) (token, child).
              if n_count child > best_count then (token, n_count child) else (best_tok, best_count)) (bt, bc) ch = (tok, cnt) \<Longrightarrow>
    ((tok, cnt) = (bt, bc) \<or> (\<exists>c. (tok, c) \<in> set ch \<and> n_count c = cnt)) \<and> bc \<le> cnt \<and> (\<forall>(t, c) \<in> set ch. n_count c \<le> cnt)"
proof (induction ch arbitrary: bt bc)
  case Nil
  then show ?case by simp
next
  case (Cons x ch)
  obtain t c where x: "x = (t, c)" by (cases x) auto
  show ?case
  proof (cases "n_count c > bc")
    case True
    then show ?thesis using Cons.IH[of t "n_count c"] Cons.prems by (fastforce simp: x)
  next
    case False
    then show ?thesis using Cons.IH[of bt bc] Cons.prems by (fastforce simp: x)
  qed
qed

lemma best_child_max:
  assumes "fair_iteration iter" "ch \<noteq> []" "\<And>t c. map_of ch t = Some c \<Longrightarrow> 0 < n_count c" "best_child (iter ch) = (tok, cnt)"
  shows "\<exists>c. map_of ch tok = Some c \<and> n_count c = cnt" "map_of ch t = Some c \<Longrightarrow> n_count c \<le> cnt"
proof -
  have s: "set (iter ch) = Map.graph (map_of ch)" using assms(1) by (simp add: fair_iteration_def)
  have pos: "\<forall>(t, c) \<in> set (iter ch). 0 < n_count c" using assms(3) by (auto simp: s dest: in_graphD)
  note b = best_child_foldl[OF pos assms(4)[unfolded best_child_def]]
  show m: "map_of ch t = Some c \<Longrightarrow> n_count c \<le> cnt" for t c
    using b by (auto simp: s dest: in_graphI)
  obtain t0 c0 where "ch = (t0, c0) # tl ch" using assms(2) by (cases ch) auto
  then have "map_of ch t0 = Some c0" by (metis fst_conv map_of_Cons_code(2) snd_conv)
  then have "0 < cnt" using m assms(3) by force
  then show "\<exists>c. map_of ch tok = Some c \<and> n_count c = cnt"
    using b by (auto simp: s dest: in_graphD)
qed

lemma node_at_append: "node_at n (p @ w) = (case node_at n p of None \<Rightarrow> None | Some m \<Rightarrow> node_at m w)"
  by (induction p arbitrary: n) (auto split: option.split)

text \<open>Every step of the greedy walk goes to a child that is present and has the largest count.\<close>

definition greedy_ok :: "suffix_node \<Rightarrow> llama_token list \<Rightarrow> llama_token list \<Rightarrow> bool" where
  "greedy_ok root p draft \<longleftrightarrow> (\<forall>j < length draft. present root (p @ take (Suc j) draft) \<and>
     (\<forall>t. count_at root (p @ take j draft @ [t]) \<le> count_at root (p @ take (Suc j) draft)))"

lemma greedy_ok_Cons:
  assumes "present root (p @ [t])" "\<And>u. count_at root (p @ [u]) \<le> count_at root (p @ [t])" "greedy_ok root (p @ [t]) draft"
  shows "greedy_ok root p (t # draft)"
  unfolding greedy_ok_def
proof (intro allI impI)
  fix j
  assume j: "j < length (t # draft)"
  show "present root (p @ take (Suc j) (t # draft)) \<and>
      (\<forall>u. count_at root (p @ take j (t # draft) @ [u]) \<le> count_at root (p @ take (Suc j) (t # draft)))"
    using assms j by (cases j) (auto simp: greedy_ok_def)
qed

lemma greedy_sound:
  assumes "fair_iteration iter" "\<And>w. w \<noteq> [] \<Longrightarrow> present root w \<Longrightarrow> 0 < count_at root w"
  shows "node_at root p = Some cur \<Longrightarrow> greedy F iter mp k cur prob score = (draft, s) \<Longrightarrow> length draft \<le> k \<and> greedy_ok root p draft"
proof (induction k arbitrary: p cur prob score draft s)
  case 0
  then show ?case by (simp add: greedy_ok_def)
next
  case (Suc k)
  have child: "node_at root (p @ [t]) = map_of (n_children cur) t" for t
    using Suc.prems(1) by (simp add: node_at_append split: option.split)
  have pos: "0 < n_count c" if "map_of (n_children cur) t = Some c" for t c
    using assms(2)[of "p @ [t]"] child[of t] that by (simp add: present_def count_at_def)
  consider "draft = []"
    | tok cnt c d' where "n_children cur \<noteq> []" "best_child (iter (n_children cur)) = (tok, cnt)" "map_of (n_children cur) tok = Some c"
      "draft = tok # d'"
      "greedy F iter mp k c (f_mul F prob (f_ratio F cnt (n_count cur)))
         (f_add F score (f_mul F prob (f_ratio F cnt (n_count cur)))) = (d', s)"
    using Suc.prems(2) by (auto simp: Let_def split: if_splits prod.splits option.splits)
  then show ?case
  proof cases
    case 1
    then show ?thesis by (simp add: greedy_ok_def)
  next
    case (2 tok cnt c d')
    note b = best_child_max[OF assms(1) 2(1) pos 2(2)]
    have at: "node_at root (p @ [tok]) = Some c" using child 2(3) by simp
    have "n_count c = cnt" using b(1) 2(3) by auto
    then have "count_at root (p @ [u]) \<le> count_at root (p @ [tok])" for u
      using b(2) at child[of u] by (auto simp: count_at_def split: option.split)
    moreover have "length d' \<le> k \<and> greedy_ok root (p @ [tok]) d'" using Suc.IH[OF at 2(5)] .
    ultimately show ?thesis
      using greedy_ok_Cons[of root p tok d'] at 2(4) by (simp add: present_def)
  qed
qed

text \<open>What a draft found for a match of length \<open>m\<close> satisfies.\<close>

definition draft_ok :: "suffix_node \<Rightarrow> llama_token list \<Rightarrow> int \<Rightarrow> nat \<Rightarrow> llama_token list \<Rightarrow> bool" where
  "draft_ok root context max_spec m draft \<longleftrightarrow> m \<le> length context \<and> int (length draft) \<le> max_spec \<and> length draft \<le> m + 8 \<and>
     greedy_ok root (drop (length context - m) context) draft"

lemma speculate_loop_sound:
  assumes "fair_iteration iter" "\<And>w. w \<noteq> [] \<Longrightarrow> present root w \<Longrightarrow> 0 < count_at root w" "0 < max_spec"
  shows "fst best = [] \<or> (\<exists>m \<ge> lo. draft_ok root context max_spec m (fst best)) \<Longrightarrow> lo \<le> match_len \<Longrightarrow>
    match_len + fuel \<le> length context + 1 \<or> fuel = 0 \<Longrightarrow>
    speculate_loop F iter root context max_spec mp mc match_len fuel best = r \<Longrightarrow>
    fst r = [] \<or> (\<exists>m \<ge> lo. draft_ok root context max_spec m (fst r))"
proof (induction fuel arbitrary: match_len best)
  case 0
  then show ?case by simp
next
  case (Suc fuel)
  obtain bd bs where b: "best = (bd, bs)" by (cases best) auto
  let ?ctx = "drop (length context - match_len) context"
  show ?case
  proof (cases "node_at root ?ctx")
    case None
    then show ?thesis using Suc.prems by (auto simp: b)
  next
    case (Some node)
    show ?thesis
    proof (cases "int (n_count node) < mc \<or> n_children node = []")
      case True
      then show ?thesis using Suc.IH[of best "Suc match_len"] Suc.prems Some by (auto simp: b)
    next
      case False
      obtain draft score where g: "greedy F iter mp (nat (min max_spec (int match_len + 8))) node (f_one F) (f_zero F) = (draft, score)"
        by fastforce
      have "length draft \<le> nat (min max_spec (int match_len + 8)) \<and> greedy_ok root ?ctx draft"
        by (rule greedy_sound[OF assms(1,2) Some g])
      then have ok: "draft_ok root context max_spec match_len draft"
        using Suc.prems(3) assms(3) by (auto simp: draft_ok_def)
      have "speculate_loop F iter root context max_spec mp mc match_len (Suc fuel) best =
          speculate_loop F iter root context max_spec mp mc (Suc match_len) fuel
            (if f_less F bs score \<and> draft \<noteq> [] then (draft, score) else (bd, bs))"
        using Some False g by (simp add: b Let_def)
      moreover define best' where "best' = (if f_less F bs score \<and> draft \<noteq> [] then (draft, score) else (bd, bs))"
      ultimately have step: "speculate_loop F iter root context max_spec mp mc (Suc match_len) fuel best' = r"
        using Suc.prems(4) by simp
      have "fst best' = [] \<or> (\<exists>m \<ge> lo. draft_ok root context max_spec m (fst best'))"
        using Suc.prems(1,2) ok by (auto simp: best'_def b)
      then show ?thesis using Suc.IH[OF _ _ _ step] Suc.prems(2,3) by simp
    qed
  qed
qed

lemma greedy_ok_continues:
  assumes ok: "st_ok t" and "greedy_ok (st_root t) p draft" "k < length draft"
  shows "int (length p + Suc k) \<le> st_max_depth t" "0 < occurrences (p @ take (Suc k) draft) (st_tokens t)"
    "occurrences (p @ take k draft @ [u]) (st_tokens t) \<le> occurrences (p @ take (Suc k) draft) (st_tokens t)"
proof -
  have g: "present (st_root t) (p @ take (Suc k) draft)"
    "count_at (st_root t) (p @ take k draft @ [u]) \<le> count_at (st_root t) (p @ take (Suc k) draft)"
    using assms(2,3) by (auto simp: greedy_ok_def)
  have ne: "p @ take (Suc k) draft \<noteq> []" using assms(3) by (cases draft) auto
  have len: "length (p @ take (Suc k) draft) = length p + Suc k" using assms(3) by simp
  show l: "int (length p + Suc k) \<le> st_max_depth t" "0 < occurrences (p @ take (Suc k) draft) (st_tokens t)"
    using ok g(1) ne len unfolding st_ok_def by (metis, metis)
  have "length (p @ take k draft @ [u]) = length p + Suc k" using assms(3) by simp
  then show "occurrences (p @ take k draft @ [u]) (st_tokens t) \<le> occurrences (p @ take (Suc k) draft) (st_tokens t)"
    using ok g(2) ne len l(1) unfolding st_ok_def
    by (metis append_is_Nil_conv not_Cons_self2)
qed

text \<open>C26. A draft continues the history: there is a suffix of the context, at least \<open>min_match_len\<close> long, after which
  the whole draft occurred before, every drafted token being a most frequent continuation of what
  precedes it; the draft has at most \<open>max_spec\<close> tokens, and at most 8 more than the match.\<close>

theorem suffix_speculate_continues:
  assumes "0 < d" "fair_iteration iter"
    and "suffix_speculate F iter (history_tree d batches) context max_spec min_prob min_count min_len = draft" "draft \<noteq> []"
  shows "\<exists>p. suffix p context \<and> max 1 min_len \<le> int (length p) \<and> int (length draft) \<le> max_spec \<and> length draft \<le> length p + 8 \<and>
    (\<forall>k. k < length draft \<longrightarrow> 0 < occurrences (p @ take (Suc k) draft) (concat batches) \<and>
      (\<forall>u. occurrences (p @ take k draft @ [u]) (concat batches) \<le> occurrences (p @ take (Suc k) draft) (concat batches)))"
proof -
  let ?t = "history_tree d batches"
  define ctx first where c: "ctx = (if int (length context) > st_max_depth ?t then drop (length context - nat (st_max_depth ?t)) context else context)"
    "first = nat (max 1 min_len)"
  have t: "st_ok ?t" "st_tokens ?t = concat batches" using extends_ok[OF assms(1)] by (simp_all add: history_tree_def)
  have pos: "0 < count_at (st_root ?t) w" if "w \<noteq> []" "present (st_root ?t) w" for w
    using t(1) that by (simp add: st_ok_def)
  have ne: "0 < max_spec" and r: "fst (speculate_loop F iter (st_root ?t) ctx max_spec min_prob min_count first
      (length ctx + 1 - first) ([], f_zero F)) = draft"
    using assms(3,4) by (simp_all add: suffix_speculate_def Let_def c split: if_splits)
  have "\<exists>m \<ge> first. draft_ok (st_root ?t) ctx max_spec m draft"
    using speculate_loop_sound[OF assms(2) pos ne _ _ _ refl, of "([], f_zero F)" first ctx first "length ctx + 1 - first" F min_prob min_count] assms(4)
    unfolding r by force
  then obtain m where m: "first \<le> m" "draft_ok (st_root ?t) ctx max_spec m draft" by blast
  let ?p = "drop (length ctx - m) ctx"
  have "suffix ?p ctx" "suffix ctx context" by (simp_all add: suffix_drop c)
  then have "suffix ?p context" using suffix_order.trans by blast
  moreover have "length ?p = m" using m(2) by (simp add: draft_ok_def)
  moreover have "max 1 min_len \<le> int m" using m(1) unfolding c by linarith
  moreover have g: "greedy_ok (st_root ?t) ?p draft" using m(2) by (simp add: draft_ok_def)
  moreover have "int (length draft) \<le> max_spec" "length draft \<le> m + 8" using m(2) by (simp_all add: draft_ok_def)
  moreover have "0 < occurrences (?p @ take (Suc k) draft) (concat batches)"
    "occurrences (?p @ take k draft @ [u]) (concat batches) \<le> occurrences (?p @ take (Suc k) draft) (concat batches)"
    if "k < length draft" for k u
    using greedy_ok_continues(2,3)[OF t(1) g that] by (simp_all only: t(2))
  ultimately show ?thesis by (intro exI[of _ ?p]) simp
qed

definition demo_floats :: "nat float_ops" where
  "demo_floats = \<lparr>f_zero = 0, f_one = 1, f_ratio = (\<lambda>a b. 1), f_mul = (*), f_add = (+), f_less = (<)\<rparr>"

lemma demo_draft: "suffix_speculate demo_floats AList.clearjunk (history_tree 4 [[1, 2, 3], [1, 2]]) [1, 2] 2 0 1 1 = [3, 1]"
  by code_simp

theorem suffix_speculate_continues_witness:
  "\<exists>p. suffix p [1, 2] \<and> 1 \<le> length p \<and> 0 < occurrences (p @ [3, 1]) [1, 2, 3, 1, 2]"
  using suffix_speculate_continues[OF _ fair_clearjunk(1) demo_draft]
  by (auto simp: numeral_2_eq_2) (metis One_nat_def append_Cons append_Nil lessI numeral_2_eq_2 take_Suc_Cons take_eq_Nil)

section \<open>Corpora\<close>

lemma load_chunks_history:
  "st_ok t \<Longrightarrow> load_chunks t n raw = Some (m, t') \<Longrightarrow> st_ok t' \<and> st_tokens t' = st_tokens t @ raw \<and> m = n + length raw"
proof (induction t n raw rule: load_chunks.induct)
  case (1 t n raw)
  let ?c = "take SUFFIX_CORPUS_BINARY_CHUNK_TOKENS raw" and ?d = "drop SUFFIX_CORPUS_BINARY_CHUNK_TOKENS raw"
  show ?case
  proof (cases "?c = []")
    case True
    then have "raw = []" by (simp add: SUFFIX_CORPUS_BINARY_CHUNK_TOKENS_def)
    then show ?thesis using "1.prems" by (simp add: load_chunks.simps[of t n "[]"])
  next
    case False
    then have r: "suffix_corpus_check_limit (n + length ?c) (st_max_depth t)"
      "load_chunks (suffix_extend t ?c) (n + length ?c) ?d = Some (m, t')"
      using "1.prems"(2) by (auto simp: load_chunks.simps[of t n raw] Let_def split: if_splits)
    note e = suffix_extend_ok[OF "1.prems"(1), of ?c]
    have "length ?c + length ?d = length raw" by (metis append_take_drop_id length_append)
    moreover have "st_ok t' \<and> st_tokens t' = st_tokens (suffix_extend t ?c) @ ?d \<and> m = n + length ?c + length ?d"
      using "1.IH"[OF refl False refl] r e by simp
    ultimately show ?thesis using e by simp
  qed
qed

lemma load_texts_history:
  "st_ok t \<Longrightarrow> load_texts t n texts = (True, t') \<Longrightarrow> st_ok t' \<and> st_tokens t' = st_tokens t @ concat texts"
proof (induction t n texts rule: load_texts.induct)
  case (2 t n toks rest)
  then show ?case
    using suffix_extend_ok[OF "2.prems"(1), of toks] by (auto simp: Let_def split: if_splits)
qed (auto split: if_splits)

text \<open>A corpus that loads is in the tree: the history gains exactly the tokens of the file, respectively of the
  texts in their order, and the counts are exact again; a load that fails leaves the tree as it was or empty.\<close>

theorem load_corpus_exact:
  assumes "st_ok t"
  shows "(case load_corpus_binary t (Some (raw, read_error)) of (ok, t') \<Rightarrow>
           if ok then st_ok t' \<and> st_tokens t' = st_tokens t @ raw \<and> raw \<noteq> [] else t' = t \<or> st_tokens t' = []) \<and>
    (case load_corpus_json t (Some tokenize) (Some j) of (ok, t') \<Rightarrow>
           if ok then st_ok t' \<and> st_tokens t' = st_tokens t @ concat (map tokenize (extract_texts j)) else t' = t \<or> st_tokens t' = [])"
proof
  show "case load_corpus_binary t (Some (raw, read_error)) of (ok, t') \<Rightarrow>
      if ok then st_ok t' \<and> st_tokens t' = st_tokens t @ raw \<and> raw \<noteq> [] else t' = t \<or> st_tokens t' = []"
    using load_chunks_history[OF assms, of 0 raw] load_chunks.simps[of t 0 "[]"]
    by (cases "load_chunks t 0 raw") (auto simp: load_corpus_binary_def suffix_clear_def split: prod.split)
  have refused: "load_texts s n texts = (False, t') \<Longrightarrow> st_tokens t' = []" for s n texts t'
    by (induction s n texts rule: load_texts.induct) (auto simp: suffix_clear_def Let_def split: if_splits)
  show "case load_corpus_json t (Some tokenize) (Some j) of (ok, t') \<Rightarrow>
      if ok then st_ok t' \<and> st_tokens t' = st_tokens t @ concat (map tokenize (extract_texts j)) else t' = t \<or> st_tokens t' = []"
    using load_texts_history[OF assms, of 0 "map tokenize (extract_texts j)"] refused[of t 0 "map tokenize (extract_texts j)"]
    by (auto simp: load_corpus_json_def Let_def split: prod.split)
qed

theorem load_corpus_exact_witness:
  "st_tokens (snd (load_corpus_binary (new_suffix_tree 4) (Some ([7, 8], False)))) = [7, 8]"
proof -
  have ok: "fst (load_corpus_binary (new_suffix_tree 4) (Some ([7, 8], False)))"
    by (simp add: load_corpus_binary_def load_chunks.simps suffix_corpus_check_limit_def suffix_estimated_insert_work_def
        new_suffix_tree_def SUFFIX_CORPUS_BINARY_CHUNK_TOKENS_def suffix_extend_def Let_def)
  have "st_ok (new_suffix_tree 4)" by (simp add: new_st_ok)
  from load_corpus_exact[OF this, of "[7, 8]" False "\<lambda>_. []" Json_other] ok show ?thesis
    by (auto simp: new_suffix_tree_def split: prod.splits)
qed

end
