(* ===== verification/NgramCache.thy ===== *)
theory NgramCache
  imports Prelude "HOL-Library.AList"
begin

text \<open>
  The n-gram caches of \<open>common/ngram-cache.cpp\<close>: how often each token followed each n-gram, and the drafts made from
  these counts.

  The two levels of \<open>std::unordered_map\<close> are association lists; where the code iterates over a map, the
  unspecified order is an argument (\<open>iter_cache\<close>, \<open>iter_part\<close>).  Counts are \<open>int32_t\<close>: sums and products are wrapped by
  \<open>s32\<close>.  Reading outside an array is the value \<open>None\<close>.  A saved file is the list of its 32-bit fields.
  Progress output is left out.
\<close>

section \<open>N-grams and caches\<close>

definition LLAMA_NGRAM_MAX :: nat where "LLAMA_NGRAM_MAX = 4"

definition LLAMA_NGRAM_STATIC :: nat where "LLAMA_NGRAM_STATIC = 2"

text \<open>An n-gram is its array of \<open>LLAMA_NGRAM_MAX\<close> tokens, shorter ones padded with \<open>LLAMA_TOKEN_NULL\<close>.\<close>

type_synonym common_ngram = "llama_token list"
type_synonym ngram_cache_part = "(llama_token \<times> int) list"
type_synonym ngram_cache = "(common_ngram \<times> ngram_cache_part) list"

definition ngram_of :: "llama_token list \<Rightarrow> nat \<Rightarrow> common_ngram" where
  "ngram_of input ngram_size = map (\<lambda>i. if i < ngram_size then input ! i else LLAMA_TOKEN_NULL) [0..<LLAMA_NGRAM_MAX]"

text \<open>What iteration over a \<open>std::unordered_map\<close> guarantees: every entry once.\<close>

definition iterates :: "(('k \<times> 'v) list \<Rightarrow> ('k \<times> 'v) list) \<Rightarrow> bool" where
  "iterates iter \<longleftrightarrow> (\<forall>al. distinct (map fst (iter al)) \<and> map_of (iter al) = map_of al)"

lemma iterates_clearjunk: "iterates AList.clearjunk"
  by (simp add: iterates_def map_of_clearjunk)

section \<open>Updating\<close>

definition ngram_bump :: "ngram_cache \<Rightarrow> common_ngram \<Rightarrow> llama_token \<Rightarrow> ngram_cache" where
  "ngram_bump cache ngram token =
     (case map_of cache ngram of
        None \<Rightarrow> AList.update ngram [(token, 1)] cache
      | Some part \<Rightarrow>
          (case map_of part token of
             None \<Rightarrow> AList.update ngram (AList.update token 1 part) cache
           | Some n \<Rightarrow> AList.update ngram (AList.update token (s32 (n + 1)) part) cache))"

definition common_ngram_cache_update :: "ngram_cache \<Rightarrow> nat \<Rightarrow> nat \<Rightarrow> llama_token list \<Rightarrow> nat \<Rightarrow> ngram_cache" where
  "common_ngram_cache_update cache ngram_min ngram_max inp nnew =
     foldl (\<lambda>c ngram_size.
       foldl (\<lambda>c i. ngram_bump c (ngram_of (drop (i - ngram_size) inp) ngram_size) (inp ! i))
         c [max (length inp - nnew) ngram_size..<length inp])
       cache [ngram_min..<ngram_max + 1]"

section \<open>Drafting\<close>

definition get_token :: "llama_token list \<Rightarrow> llama_token list \<Rightarrow> int \<Rightarrow> llama_token option" where
  "get_token inp draft i =
     (if 0 \<le> i \<and> i < int (length inp) then Some (inp ! nat i)
      else (let j = (1 + i - int (length inp)) mod 2 ^ 64 in
            if j < int (length draft) then Some (draft ! nat j) else None))"

definition draft_min_sample_size_lax :: "int list" where "draft_min_sample_size_lax = [2, 2, 1, 1]"
definition draft_min_percent_lax :: "int list" where "draft_min_percent_lax = [66, 50, 50, 50]"
definition draft_min_sample_size_strict :: "int list" where "draft_min_sample_size_strict = [4, 3, 2, 2]"
definition draft_min_percent_strict :: "int list" where "draft_min_percent_strict = [75, 66, 66, 66]"

definition try_draft_static ::
  "(ngram_cache_part \<Rightarrow> ngram_cache_part) \<Rightarrow> ngram_cache \<Rightarrow> common_ngram \<Rightarrow> llama_token" where
  "try_draft_static iter_part nc_static ngram_static =
     (case map_of nc_static ngram_static of None \<Rightarrow> LLAMA_TOKEN_NULL
      | Some part_static \<Rightarrow>
          (let (max_token, max_count, sum_count) =
                 foldl (\<lambda>(mt, mc, sc) (token, count). if count > mc then (token, count, s32 (sc + count)) else (mt, mc, s32 (sc + count)))
                   (LLAMA_TOKEN_NULL, 0, 0) (iter_part part_static)
           in if sum_count < draft_min_sample_size_lax ! (LLAMA_NGRAM_STATIC - 1) then LLAMA_TOKEN_NULL
              else if s32 (100 * max_count) < s32 (draft_min_percent_lax ! (LLAMA_NGRAM_STATIC - 1) * sum_count) then LLAMA_TOKEN_NULL
              else max_token))"

text \<open>The scan of one primary part against the static one: best token, its two counts, and the sum.\<close>

definition primary_scan :: "ngram_cache_part \<Rightarrow> ngram_cache_part \<Rightarrow> llama_token \<times> int \<times> int \<times> int" where
  "primary_scan part_static part_primary =
     foldl (\<lambda>(mt, mcp, mcs, sc) (token, count_primary).
              let count_static = (case map_of part_static token of Some c \<Rightarrow> s32 (100 * c) | None \<Rightarrow> 1)
              in if s32 (count_primary * count_static) > s32 (mcp * mcs)
                 then (token, count_primary, count_static, s32 (sc + count_primary))
                 else (mt, mcp, mcs, s32 (sc + count_primary)))
       (LLAMA_TOKEN_NULL, 0, 0, 0) part_primary"

text \<open>\<open>try_draft\<close> on the primary cache: the n-grams from the longest down; \<open>i\<close> counts the ones left.\<close>

fun try_draft_primary ::
  "(ngram_cache_part \<Rightarrow> ngram_cache_part) \<Rightarrow> ngram_cache \<Rightarrow> common_ngram list \<Rightarrow> ngram_cache_part \<Rightarrow> int list \<Rightarrow> int list \<Rightarrow> nat \<Rightarrow> llama_token" where
  "try_draft_primary iter_part nc_primary ngrams part_static min_sample_size min_percent 0 = LLAMA_TOKEN_NULL"
| "try_draft_primary iter_part nc_primary ngrams part_static min_sample_size min_percent (Suc i) =
     (let continue = try_draft_primary iter_part nc_primary ngrams part_static min_sample_size min_percent i in
      case map_of nc_primary (ngrams ! i) of None \<Rightarrow> continue
      | Some part_primary \<Rightarrow>
          (let (max_token, max_count_primary, max_count_static, sum_count_primary) = primary_scan part_static (iter_part part_primary)
           in if sum_count_primary < min_sample_size ! i then continue
              else if s32 (100 * max_count_primary) < s32 (min_percent ! i * sum_count_primary) then continue
              else if max_token \<noteq> LLAMA_TOKEN_NULL then max_token
              else continue))"

text \<open>The tokens at \<open>start, \<dots>, start + n - 1\<close> of the input continued by the draft, as an n-gram.\<close>

fun get_tokens :: "llama_token list \<Rightarrow> llama_token list \<Rightarrow> int \<Rightarrow> nat \<Rightarrow> llama_token list option" where
  "get_tokens inp draft start 0 = Some []"
| "get_tokens inp draft start (Suc n) =
     (case get_token inp draft start of None \<Rightarrow> None
      | Some t \<Rightarrow> (case get_tokens inp draft (start + 1) n of None \<Rightarrow> None | Some ts \<Rightarrow> Some (t # ts)))"

definition ngram_ending :: "llama_token list \<Rightarrow> llama_token list \<Rightarrow> nat \<Rightarrow> common_ngram option" where
  "ngram_ending inp draft n =
     (case get_tokens inp draft (int (length inp) - int n + int (length draft) - 1) n of
        None \<Rightarrow> None | Some ts \<Rightarrow> Some (ngram_of ts n))"

fun ngrams_ending :: "llama_token list \<Rightarrow> llama_token list \<Rightarrow> nat list \<Rightarrow> common_ngram list option" where
  "ngrams_ending inp draft [] = Some []"
| "ngrams_ending inp draft (n # ns) =
     (case ngram_ending inp draft n of None \<Rightarrow> None
      | Some g \<Rightarrow> (case ngrams_ending inp draft ns of None \<Rightarrow> None | Some gs \<Rightarrow> Some (g # gs)))"

definition draft_token ::
  "(ngram_cache_part \<Rightarrow> ngram_cache_part) \<Rightarrow> ngram_cache \<Rightarrow> ngram_cache \<Rightarrow> ngram_cache \<Rightarrow> common_ngram \<Rightarrow> common_ngram list \<Rightarrow> llama_token" where
  "draft_token iter_part nc_context nc_dynamic nc_static ngram_static ngrams_cd =
     (let part_static = (case map_of nc_static ngram_static of Some p \<Rightarrow> p | None \<Rightarrow> []);
          d1 = try_draft_primary iter_part nc_context ngrams_cd part_static
                 draft_min_sample_size_lax draft_min_percent_lax (length ngrams_cd);
          d2 = (if d1 = LLAMA_TOKEN_NULL
                then try_draft_primary iter_part nc_dynamic ngrams_cd part_static
                       draft_min_sample_size_strict draft_min_percent_strict (length ngrams_cd)
                else d1)
      in if d2 = LLAMA_TOKEN_NULL then try_draft_static iter_part nc_static ngram_static else d2)"

fun ngram_draft_loop ::
  "(ngram_cache_part \<Rightarrow> ngram_cache_part) \<Rightarrow> llama_token list \<Rightarrow> nat \<Rightarrow> nat \<Rightarrow> ngram_cache \<Rightarrow> ngram_cache \<Rightarrow> ngram_cache \<Rightarrow>
   nat \<Rightarrow> llama_token list \<Rightarrow> llama_token list option" where
  "ngram_draft_loop iter_part inp ngram_min ngram_max nc_context nc_dynamic nc_static 0 draft = Some draft"
| "ngram_draft_loop iter_part inp ngram_min ngram_max nc_context nc_dynamic nc_static (Suc k) draft =
     (case ngram_ending inp draft LLAMA_NGRAM_STATIC of None \<Rightarrow> None
      | Some ngram_static \<Rightarrow>
          (case ngrams_ending inp draft [ngram_min..<ngram_max + 1] of None \<Rightarrow> None
           | Some ngrams_cd \<Rightarrow>
               (let t = draft_token iter_part nc_context nc_dynamic nc_static ngram_static ngrams_cd in
                if t = LLAMA_TOKEN_NULL then Some draft
                else ngram_draft_loop iter_part inp ngram_min ngram_max nc_context nc_dynamic nc_static k (draft @ [t]))))"

text \<open>The draft initially holds the sampled token (the assertion at the start).\<close>

definition common_ngram_cache_draft ::
  "(ngram_cache_part \<Rightarrow> ngram_cache_part) \<Rightarrow> llama_token list \<Rightarrow> llama_token \<Rightarrow> int \<Rightarrow> nat \<Rightarrow> nat \<Rightarrow> ngram_cache \<Rightarrow> ngram_cache \<Rightarrow>
   ngram_cache \<Rightarrow> llama_token list option" where
  "common_ngram_cache_draft iter_part inp sampled n_draft ngram_min ngram_max nc_context nc_dynamic nc_static =
     (if length inp < LLAMA_NGRAM_STATIC then Some [sampled]
      else ngram_draft_loop iter_part inp ngram_min ngram_max nc_context nc_dynamic nc_static (nat n_draft) [sampled])"

section \<open>Saving, loading and merging\<close>

datatype ngram_error = Ngram_abort string

definition save_part :: "ngram_cache_part \<Rightarrow> int list" where
  "save_part part = concat (map (\<lambda>(token, count). [token, count]) part)"

definition save_item :: "(ngram_cache_part \<Rightarrow> ngram_cache_part) \<Rightarrow> common_ngram \<times> ngram_cache_part \<Rightarrow> int list" where
  "save_item iter_part = (\<lambda>(ngram, part). ngram @ [s32 (int (length (iter_part part)))] @ save_part (iter_part part))"

definition common_ngram_cache_save ::
  "(ngram_cache \<Rightarrow> ngram_cache) \<Rightarrow> (ngram_cache_part \<Rightarrow> ngram_cache_part) \<Rightarrow> ngram_cache \<Rightarrow> ngram_error + int list" where
  "common_ngram_cache_save iter_cache iter_part cache =
     (if list_all (\<lambda>(ngram, part). iter_part part \<noteq> [] \<and> list_all (\<lambda>(t, n). n > 0) (iter_part part)) (iter_cache cache)
      then Inr (concat (map (save_item iter_part) (iter_cache cache)))
      else Inl (Ngram_abort ''count > 0''))"

text \<open>\<open>emplace\<close> keeps an existing entry.\<close>

definition emplace :: "'k \<Rightarrow> 'v \<Rightarrow> ('k \<times> 'v) list \<Rightarrow> ('k \<times> 'v) list" where
  "emplace k v al = (case map_of al k of None \<Rightarrow> al @ [(k, v)] | Some _ \<Rightarrow> al)"

fun load_part :: "nat \<Rightarrow> int list \<Rightarrow> ngram_cache_part \<Rightarrow> ngram_error + (ngram_cache_part \<times> int list)" where
  "load_part 0 data part = Inr (part, data)"
| "load_part (Suc n) (token # count # data) part =
     (if \<not> count > 0 then Inl (Ngram_abort ''count > 0'') else load_part n data (emplace token count part))"
| "load_part (Suc n) data part = Inl (Ngram_abort ''hashmap_file.read'')"

lemma load_part_length: "load_part n data part = Inr (part', data') \<Longrightarrow> length data' \<le> length data"
  by (induction n data part rule: load_part.induct) (auto split: if_splits)

function load_items :: "int list \<Rightarrow> ngram_cache \<Rightarrow> ngram_error + ngram_cache" where
  "load_items data cache =
     (if length data < LLAMA_NGRAM_MAX then Inr cache
      else
        (case drop LLAMA_NGRAM_MAX data of
           [] \<Rightarrow> Inl (Ngram_abort ''hashmap_file.read'')
         | ntokens # rest \<Rightarrow>
             if \<not> ntokens > 0 then Inl (Ngram_abort ''ntokens > 0'')
             else
               (case load_part (nat ntokens) rest [] of
                  Inl e \<Rightarrow> Inl e
                | Inr (part, rest') \<Rightarrow> load_items rest' (emplace (take LLAMA_NGRAM_MAX data) part cache))))"
  by pat_completeness auto
termination
  by (relation "measure (\<lambda>(data, cache). length data)") (auto dest!: load_part_length arg_cong[of "drop _ _" _ length])

declare load_items.simps [simp del]

definition common_ngram_cache_load :: "int list \<Rightarrow> ngram_error + ngram_cache" where
  "common_ngram_cache_load data = load_items data []"

fun merge_part :: "ngram_cache_part \<Rightarrow> ngram_cache_part \<Rightarrow> ngram_error + ngram_cache_part" where
  "merge_part merged [] = Inr merged"
| "merge_part merged ((token, count) # part) =
     (if \<not> count > 0 then Inl (Ngram_abort ''count > 0'')
      else
        (case map_of merged token of
           None \<Rightarrow> merge_part (AList.update token count merged) part
         | Some n \<Rightarrow> merge_part (AList.update token (s32 (n + count)) merged) part))"

fun merge_items ::
  "(ngram_cache_part \<Rightarrow> ngram_cache_part) \<Rightarrow> ngram_cache \<Rightarrow> (common_ngram \<times> ngram_cache_part) list \<Rightarrow> ngram_error + ngram_cache" where
  "merge_items iter_part target [] = Inr target"
| "merge_items iter_part target ((ngram, part) # items) =
     (case map_of target ngram of
        None \<Rightarrow> merge_items iter_part (AList.update ngram part target) items
      | Some merged \<Rightarrow>
          (case merge_part merged (iter_part part) of Inl e \<Rightarrow> Inl e
           | Inr part' \<Rightarrow> merge_items iter_part (AList.update ngram part' target) items))"

definition common_ngram_cache_merge ::
  "(ngram_cache \<Rightarrow> ngram_cache) \<Rightarrow> (ngram_cache_part \<Rightarrow> ngram_cache_part) \<Rightarrow> ngram_cache \<Rightarrow> ngram_cache \<Rightarrow> ngram_error + ngram_cache" where
  "common_ngram_cache_merge iter_cache iter_part target add = merge_items iter_part target (iter_cache add)"

section \<open>The cache counts continuations\<close>

text \<open>The count of a continuation, 0 if it is not recorded.\<close>

definition ngram_count :: "ngram_cache \<Rightarrow> common_ngram \<Rightarrow> llama_token \<Rightarrow> int" where
  "ngram_count cache ngram token =
     (case map_of cache ngram of None \<Rightarrow> 0 | Some part \<Rightarrow> (case map_of part token of None \<Rightarrow> 0 | Some n \<Rightarrow> n))"

lemma ngram_count_bump:
  assumes "0 \<le> ngram_count cache g t" "ngram_count cache g t < INT32_MAX"
  shows "ngram_count (ngram_bump cache g t) g' t' = ngram_count cache g' t' + (if g = g' \<and> t = t' then 1 else 0)"
  using assms by (auto simp: ngram_count_def ngram_bump_def AList.update_conv' split: option.splits if_splits)

text \<open>The pairs of an n-gram and its continuation that one call of the update visits.\<close>

definition ngram_events_of :: "llama_token list \<Rightarrow> nat \<Rightarrow> nat \<Rightarrow> (common_ngram \<times> llama_token) list" where
  "ngram_events_of inp nnew n =
     map (\<lambda>i. (ngram_of (drop (i - n) inp) n, inp ! i)) [max (length inp - nnew) n..<length inp]"

definition ngram_events :: "nat \<Rightarrow> nat \<Rightarrow> llama_token list \<Rightarrow> nat \<Rightarrow> (common_ngram \<times> llama_token) list" where
  "ngram_events ngram_min ngram_max inp nnew = concat (map (ngram_events_of inp nnew) [ngram_min..<ngram_max + 1])"

definition bump_all :: "ngram_cache \<Rightarrow> (common_ngram \<times> llama_token) list \<Rightarrow> ngram_cache" where
  "bump_all cache evs = foldl (\<lambda>c (g, t). ngram_bump c g t) cache evs"

lemma foldl_map': "foldl f s (map g xs) = foldl (\<lambda>a x. f a (g x)) s xs"
  by (induction xs arbitrary: s) simp_all

lemma foldl_concat': "foldl f s (concat xss) = foldl (\<lambda>a xs. foldl f a xs) s xss"
  by (induction xss arbitrary: s) simp_all

lemma update_bumps: "common_ngram_cache_update cache ngram_min ngram_max inp nnew = bump_all cache (ngram_events ngram_min ngram_max inp nnew)"
  by (simp add: common_ngram_cache_update_def bump_all_def ngram_events_def ngram_events_of_def foldl_concat' foldl_map')

lemma ngram_count_bump_all:
  assumes "\<And>g t. 0 \<le> ngram_count cache g t" "\<And>g t. ngram_count cache g t + int (length evs) \<le> INT32_MAX"
  shows "ngram_count (bump_all cache evs) g t = ngram_count cache g t + int (count_list evs (g, t))"
  using assms
proof (induction evs arbitrary: cache)
  case Nil
  then show ?case by (simp add: bump_all_def)
next
  case (Cons e evs)
  obtain g0 t0 where e: "e = (g0, t0)" by (cases e) auto
  have b: "ngram_count (ngram_bump cache g0 t0) g' t' = ngram_count cache g' t' + (if g0 = g' \<and> t0 = t' then 1 else 0)" for g' t'
    using Cons.prems(1)[of g0 t0] Cons.prems(2)[of g0 t0] by (intro ngram_count_bump) auto
  have "ngram_count (bump_all (ngram_bump cache g0 t0) evs) g t = ngram_count (ngram_bump cache g0 t0) g t + int (count_list evs (g, t))"
  proof (rule Cons.IH)
    show "0 \<le> ngram_count (ngram_bump cache g0 t0) g' t'" for g' t' using Cons.prems(1)[of g' t'] by (simp add: b)
    show "ngram_count (ngram_bump cache g0 t0) g' t' + int (length evs) \<le> INT32_MAX" for g' t'
      using Cons.prems(2)[of g' t'] by (simp add: b)
  qed
  then show ?case by (simp add: e b bump_all_def)
qed

text \<open>
  The reference: for every size, the positions of the history at which the token follows the n-gram.
\<close>

definition continuations :: "nat \<Rightarrow> nat \<Rightarrow> llama_token list \<Rightarrow> common_ngram \<Rightarrow> llama_token \<Rightarrow> nat" where
  "continuations ngram_min ngram_max inp g t =
     sum_list (map (\<lambda>n. length (filter (\<lambda>i. n \<le> i \<and> ngram_of (drop (i - n) inp) n = g \<and> inp ! i = t) [0..<length inp]))
       [ngram_min..<ngram_max + 1])"

lemma count_list_map: "count_list (map f xs) y = length (filter (\<lambda>x. f x = y) xs)"
  by (induction xs) simp_all

lemma count_list_concat: "count_list (concat xss) y = sum_list (map (\<lambda>xs. count_list xs y) xss)"
  by (induction xss) simp_all

lemma filter_upt_ge: "filter (\<lambda>i. n \<le> i \<and> Q i) [a..<b] = filter Q [max a n..<b]"
  by (induction b) auto

lemma ngram_of_take: "length (take n xs) = n \<Longrightarrow> ngram_of (xs @ ys) n = ngram_of xs n"
  by (auto simp: ngram_of_def nth_append)

lemma continuations_append:
  "continuations ngram_min ngram_max (inp @ us) g t =
     continuations ngram_min ngram_max inp g t + count_list (ngram_events ngram_min ngram_max (inp @ us) (length us)) (g, t)"
proof -
  let ?P = "\<lambda>xs n i. n \<le> i \<and> ngram_of (drop (i - n) xs) n = g \<and> xs ! i = t"
  have "length (filter (?P (inp @ us) n) [0..<length (inp @ us)]) =
      length (filter (?P inp n) [0..<length inp]) + count_list (ngram_events_of (inp @ us) (length us) n) (g, t)" for n
  proof -
    have "filter (?P (inp @ us) n) [0..<length inp] = filter (?P inp n) [0..<length inp]"
    proof (rule filter_cong[OF refl])
      fix i
      assume "i \<in> set [0..<length inp]"
      then have i: "i < length inp" by simp
      have "ngram_of (drop (i - n) inp @ us) n = ngram_of (drop (i - n) inp) n" if "n \<le> i"
        using that i by (intro ngram_of_take) simp
      then show "?P (inp @ us) n i = ?P inp n i" using i by (auto simp: nth_append)
    qed
    then have "length (filter (?P (inp @ us) n) [0..<length (inp @ us)]) =
        length (filter (?P inp n) [0..<length inp]) + length (filter (?P (inp @ us) n) [length inp..<length (inp @ us)])"
      using upt_add_eq_append[of 0 "length inp" "length us"] by (simp only: length_append filter_append le0 add_0)
    also have "filter (?P (inp @ us) n) [length inp..<length (inp @ us)] =
        filter (\<lambda>i. (ngram_of (drop (i - n) (inp @ us)) n, (inp @ us) ! i) = (g, t)) [max (length inp) n..<length (inp @ us)]"
      by (simp only: filter_upt_ge prod.inject)
    also have "length \<dots> = count_list (ngram_events_of (inp @ us) (length us) n) (g, t)"
    proof -
      have "length (inp @ us) - length us = length inp" by simp
      then show ?thesis by (simp only: ngram_events_of_def count_list_map)
    qed
    finally show ?thesis .
  qed
  then show ?thesis
    by (simp add: continuations_def ngram_events_def count_list_concat comp_def sum_list_addf)
qed

text \<open>The calls as the cache's documentation asks for them: the history only grows, and every call tells how much.\<close>

definition ngram_feed :: "nat \<Rightarrow> nat \<Rightarrow> llama_token list list \<Rightarrow> ngram_cache \<times> llama_token list" where
  "ngram_feed ngram_min ngram_max batches =
     foldl (\<lambda>(cache, inp) us. (common_ngram_cache_update cache ngram_min ngram_max (inp @ us) (length us), inp @ us)) ([], []) batches"

lemma sum_list_bound: "(\<And>x. x \<in> set xs \<Longrightarrow> f x \<le> c) \<Longrightarrow> sum_list (map f xs) \<le> length xs * (c :: nat)"
proof (induction xs)
  case (Cons x xs)
  have "f x \<le> c" "sum_list (map f xs) \<le> length xs * c" using Cons by simp_all
  then show ?case by simp
qed simp

lemma continuations_bound: "continuations ngram_min ngram_max inp g t \<le> (ngram_max + 1 - ngram_min) * length inp"
  unfolding continuations_def
  by (rule order.trans[OF sum_list_bound[where c = "length inp"]]) (simp_all add: order.trans[OF length_filter_le] Suc_diff_le)

lemma ngram_events_bound: "length (ngram_events ngram_min ngram_max (inp @ us) (length us)) \<le> (ngram_max + 1 - ngram_min) * length us"
  unfolding ngram_events_def length_concat map_map
  by (rule order.trans[OF sum_list_bound[where c = "length us"]]) (auto simp: ngram_events_of_def)

lemma ngram_feed_counts:
  "int ((ngram_max + 1 - ngram_min) * length (concat batches)) \<le> INT32_MAX \<Longrightarrow>
   snd (ngram_feed ngram_min ngram_max batches) = concat batches \<and>
   ngram_count (fst (ngram_feed ngram_min ngram_max batches)) g t = int (continuations ngram_min ngram_max (concat batches) g t)"
proof (induction batches arbitrary: g t rule: rev_induct)
  case Nil
  then show ?case by (simp add: ngram_feed_def ngram_count_def continuations_def)
next
  case (snoc us batches)
  let ?K = "ngram_max + 1 - ngram_min" and ?inp = "concat batches"
  let ?evs = "ngram_events ngram_min ngram_max (?inp @ us) (length us)"
  obtain cache inp where f: "ngram_feed ngram_min ngram_max batches = (cache, inp)" by fastforce
  have b: "int (?K * length ?inp) + int (?K * length us) \<le> INT32_MAX" using snoc.prems by (simp add: distrib_left)
  have "0 \<le> int (?K * length us)" by simp
  then have "int (?K * length ?inp) \<le> INT32_MAX" using b by linarith
  then have IH: "inp = ?inp" "\<And>g t. ngram_count cache g t = int (continuations ngram_min ngram_max ?inp g t)"
    using snoc.IH by (simp_all add: f)
  have small: "int (continuations ngram_min ngram_max ?inp g t) + int (length ?evs) \<le> INT32_MAX" for g t
    using continuations_bound[of ngram_min ngram_max ?inp g t] ngram_events_bound[of ngram_min ngram_max ?inp us] b by linarith
  have "ngram_count (bump_all cache ?evs) g t = ngram_count cache g t + int (count_list ?evs (g, t))"
    by (rule ngram_count_bump_all) (simp_all add: IH(2) small)
  then show ?case
    using f IH continuations_append[of ngram_min ngram_max ?inp us g t]
    by (simp add: ngram_feed_def update_bumps)
qed

text \<open>C21. Updating the cache incrementally counts exactly: after any sequence of appended batches, the count of a token after
  an n-gram is the number of positions of the whole history at which the token follows it.\<close>

theorem ngram_cache_counts:
  assumes "int ((ngram_max + 1 - ngram_min) * length (concat batches)) \<le> INT32_MAX"
  shows "ngram_count (fst (ngram_feed ngram_min ngram_max batches)) g t = int (continuations ngram_min ngram_max (concat batches) g t)"
  using ngram_feed_counts[OF assms] by blast

theorem ngram_cache_counts_witness:
  "ngram_count (fst (ngram_feed 1 2 [[1, 2], [1, 2, 3]])) (ngram_of [1] 1) 2 = 2"
  using ngram_cache_counts[of 2 1 "[[1, 2], [1, 2, 3]]" "ngram_of [1] 1" 2]
  by (simp add: continuations_def ngram_of_def LLAMA_NGRAM_MAX_def upt_rec)

section \<open>What is drafted\<close>

definition recorded :: "ngram_cache \<Rightarrow> common_ngram \<Rightarrow> llama_token \<Rightarrow> bool" where
  "recorded cache g t \<longleftrightarrow> (\<exists>part. map_of cache g = Some part \<and> map_of part t \<noteq> None)"

lemma iterates_keys: "iterates iter \<Longrightarrow> fst ` set (iter al) = fst ` set al"
  by (metis dom_map_of_conv_image_fst iterates_def)

lemma map_of_key: "t \<in> fst ` set al \<Longrightarrow> map_of al t \<noteq> None"
  by (simp add: map_of_eq_None_iff)

lemma primary_scan_token:
  "foldl (\<lambda>(mt, mcp, mcs, sc) (token, count_primary).
              let count_static = (case map_of part_static token of Some c \<Rightarrow> s32 (100 * c) | None \<Rightarrow> 1)
              in if s32 (count_primary * count_static) > s32 (mcp * mcs)
                 then (token, count_primary, count_static, s32 (sc + count_primary))
                 else (mt, mcp, mcs, s32 (sc + count_primary))) (mt, st) part = (mt', r) \<Longrightarrow> mt' = mt \<or> mt' \<in> fst ` set part"
proof (induction part arbitrary: mt st)
  case (Cons x part)
  obtain tok n a b c where x: "x = (tok, n)" "st = (a, b, c)" by (cases x; cases st) auto
  show ?case using Cons.IH[of _ "(_, _, _)"] Cons.prems by (fastforce simp: x Let_def split: if_splits)
qed simp

lemma try_primary_recorded:
  assumes "iterates iter_part"
  shows "i \<le> length ngrams \<Longrightarrow> try_draft_primary iter_part nc ngrams ps ms mp i = t \<Longrightarrow> t \<noteq> LLAMA_TOKEN_NULL \<Longrightarrow>
    \<exists>g \<in> set ngrams. recorded nc g t"
proof (induction i arbitrary: t)
  case (Suc i)
  show ?case
  proof (cases "map_of nc (ngrams ! i)")
    case None
    then show ?thesis using Suc by simp
  next
    case (Some part)
    obtain mt r where s: "primary_scan ps (iter_part part) = (mt, r)" by (cases "primary_scan ps (iter_part part)") auto
    have "mt = LLAMA_TOKEN_NULL \<or> mt \<in> fst ` set part"
      using primary_scan_token[OF s[unfolded primary_scan_def]] iterates_keys[OF assms] by blast
    moreover have "t = mt \<or> t = try_draft_primary iter_part nc ngrams ps ms mp i"
      using Suc.prems(2) by (auto simp: Some s Let_def split: prod.splits if_splits)
    moreover have "recorded nc (ngrams ! i) mt" if "mt \<in> fst ` set part"
      using that map_of_key Some by (simp add: recorded_def)
    moreover have "ngrams ! i \<in> set ngrams" using Suc.prems(1) by simp
    moreover have "t = try_draft_primary iter_part nc ngrams ps ms mp i \<Longrightarrow> \<exists>g \<in> set ngrams. recorded nc g t"
      using Suc.IH[OF _ refl] Suc.prems(1,3) by simp
    ultimately show ?thesis using Suc.prems(3) by blast
  qed
qed simp

lemma static_scan_token:
  "foldl (\<lambda>(mt, mc, sc) (token, count). if count > mc then (token, count, s32 (sc + count)) else (mt, mc, s32 (sc + count)))
     (mt, st) part = (mt', r) \<Longrightarrow> mt' = mt \<or> mt' \<in> fst ` set part"
proof (induction part arbitrary: mt st)
  case (Cons x part)
  obtain tok n a b where x: "x = (tok, n)" "st = (a, b)" by (cases x; cases st) auto
  show ?case using Cons.IH[of _ "(_, _)"] Cons.prems by (fastforce simp: x split: if_splits)
qed simp

lemma try_static_recorded:
  assumes "iterates iter_part" "try_draft_static iter_part nc g = t" "t \<noteq> LLAMA_TOKEN_NULL"
  shows "recorded nc g t"
proof -
  obtain part where p: "map_of nc g = Some part"
    using assms(2,3) by (cases "map_of nc g") (auto simp: try_draft_static_def)
  obtain mt r where s: "foldl (\<lambda>(mt, mc, sc) (token, count). if count > mc then (token, count, s32 (sc + count)) else (mt, mc, s32 (sc + count)))
     (LLAMA_TOKEN_NULL, 0, 0) (iter_part part) = (mt, r)" by (rule prod.exhaust)
  have "t = mt" using assms(2,3) by (auto simp: try_draft_static_def p s Let_def split: prod.splits if_splits)
  then have "t \<in> fst ` set part"
    using static_scan_token[OF s] iterates_keys[OF assms(1), of part] assms(3) by simp
  then show ?thesis using map_of_key p by (simp add: recorded_def)
qed

lemma draft_token_recorded:
  assumes "iterates iter_part" "draft_token iter_part nc nd ns gs cds = t" "t \<noteq> LLAMA_TOKEN_NULL"
  shows "(\<exists>g \<in> set cds. recorded nc g t \<or> recorded nd g t) \<or> recorded ns gs t"
  using try_primary_recorded[OF assms(1) order.refl refl] try_static_recorded[OF assms(1) refl] assms(2,3)
  unfolding draft_token_def Let_def by (auto split: if_splits) blast+

lemma get_token_in_range:
  assumes "0 \<le> i" "i < int (length (inp @ tl draft))" "length draft < 2 ^ 64"
  shows "get_token inp draft i = Some ((inp @ tl draft) ! nat i)"
proof (cases "i < int (length inp)")
  case True
  then show ?thesis using assms(1) by (simp add: get_token_def nth_append nat_less_iff)
next
  case False
  define k where "k = nat (i - int (length inp))"
  have k: "i = int (length inp) + int k" using False assms(1) by (simp add: k_def)
  have kl: "Suc k < length draft" using assms(2) by (simp add: k)
  have "(1 + i - int (length inp)) mod 2 ^ 64 = int (Suc k)" using kl assms(3) by (simp add: k)
  then show ?thesis using False kl by (simp add: get_token_def k Let_def nth_append nat_add_distrib nth_tl)
qed

lemma get_tokens_in_range:
  "int s + int n \<le> int (length (inp @ tl draft)) \<Longrightarrow> length draft < 2 ^ 64 \<Longrightarrow>
   get_tokens inp draft (int s) n = Some (take n (drop s (inp @ tl draft)))"
proof (induction n arbitrary: s)
  case (Suc n)
  have "get_token inp draft (int s) = Some ((inp @ tl draft) ! s)"
    using get_token_in_range[of "int s" inp draft] Suc.prems by simp
  moreover have "get_tokens inp draft (int s + 1) n = Some (take n (drop (Suc s) (inp @ tl draft)))"
    using Suc.IH[of "Suc s"] Suc.prems by (simp add: add.commute)
  moreover have "take (Suc n) (drop s (inp @ tl draft)) = (inp @ tl draft) ! s # take n (drop (Suc s) (inp @ tl draft))"
    using Suc.prems(1) by (subst Cons_nth_drop_Suc[symmetric]) auto
  ultimately show ?case by simp
qed simp

text \<open>The n-gram at the end of a history.\<close>

definition last_ngram :: "llama_token list \<Rightarrow> nat \<Rightarrow> common_ngram" where
  "last_ngram h n = ngram_of (drop (length h - n) h) n"

lemma ngram_ending_eq:
  assumes "n \<le> length inp" "draft \<noteq> []" "length draft < 2 ^ 64"
  shows "ngram_ending inp draft n = Some (last_ngram (inp @ tl draft) n)"
proof -
  let ?h = "inp @ tl draft"
  have s: "int (length inp) - int n + int (length draft) - 1 = int (length ?h - n)"
    using assms(1,2) by (cases draft) auto
  have "get_tokens inp draft (int (length ?h - n)) n = Some (take n (drop (length ?h - n) ?h))"
    using assms(1,3) by (intro get_tokens_in_range) auto
  moreover have "take n (drop (length ?h - n) ?h) = drop (length ?h - n) ?h" using assms(1) by simp
  ultimately show ?thesis unfolding ngram_ending_def s last_ngram_def by simp
qed

lemma ngrams_ending_eq:
  assumes "draft \<noteq> []" "length draft < 2 ^ 64"
  shows "\<forall>n \<in> set ns. n \<le> length inp \<Longrightarrow> ngrams_ending inp draft ns = Some (map (last_ngram (inp @ tl draft)) ns)"
  by (induction ns) (simp_all add: ngram_ending_eq[OF _ assms])

text \<open>A token that some cache recorded after an n-gram at the end of the history.\<close>

definition supported :: "nat \<Rightarrow> nat \<Rightarrow> ngram_cache \<Rightarrow> ngram_cache \<Rightarrow> ngram_cache \<Rightarrow> llama_token list \<Rightarrow> llama_token \<Rightarrow> bool" where
  "supported ngram_min ngram_max nc nd ns h t \<longleftrightarrow>
     (\<exists>n \<in> {ngram_min..ngram_max}. recorded nc (last_ngram h n) t \<or> recorded nd (last_ngram h n) t) \<or>
     recorded ns (last_ngram h LLAMA_NGRAM_STATIC) t"

lemma draft_loop_sound:
  assumes "iterates iter_part" "LLAMA_NGRAM_STATIC \<le> length inp" "ngram_max \<le> length inp"
  shows "draft \<noteq> [] \<Longrightarrow> length draft + k < 2 ^ 64 \<Longrightarrow>
    \<exists>ts. ngram_draft_loop iter_part inp ngram_min ngram_max nc nd ns k draft = Some (draft @ ts) \<and> length ts \<le> k \<and>
      (\<forall>j < length ts. ts ! j \<noteq> LLAMA_TOKEN_NULL \<and> supported ngram_min ngram_max nc nd ns (inp @ tl draft @ take j ts) (ts ! j))"
proof (induction k arbitrary: draft)
  case 0
  then show ?case by (intro exI[of _ "[]"]) simp
next
  case (Suc k)
  let ?h = "inp @ tl draft"
  let ?gs = "map (last_ngram ?h) [ngram_min..<ngram_max + 1]"
  have g: "ngram_ending inp draft LLAMA_NGRAM_STATIC = Some (last_ngram ?h LLAMA_NGRAM_STATIC)"
    "ngrams_ending inp draft [ngram_min..<ngram_max + 1] = Some ?gs"
    using Suc.prems assms(2,3) by (auto intro!: ngram_ending_eq ngrams_ending_eq simp del: upt_Suc)
  define t where "t = draft_token iter_part nc nd ns (last_ngram ?h LLAMA_NGRAM_STATIC) ?gs"
  have step: "ngram_draft_loop iter_part inp ngram_min ngram_max nc nd ns (Suc k) draft =
      (if t = LLAMA_TOKEN_NULL then Some draft else ngram_draft_loop iter_part inp ngram_min ngram_max nc nd ns k (draft @ [t]))"
    by (simp only: ngram_draft_loop.simps g option.case Let_def t_def)
  show ?case
  proof (cases "t = LLAMA_TOKEN_NULL")
    case True
    then show ?thesis by (intro exI[of _ "[]"]) (simp add: step del: ngram_draft_loop.simps)
  next
    case False
    have sup: "supported ngram_min ngram_max nc nd ns ?h t"
      using draft_token_recorded[OF assms(1) t_def[symmetric] False] by (fastforce simp: supported_def)
    obtain ts where ts: "ngram_draft_loop iter_part inp ngram_min ngram_max nc nd ns k (draft @ [t]) = Some ((draft @ [t]) @ ts)"
      "length ts \<le> k" "\<forall>j < length ts. ts ! j \<noteq> LLAMA_TOKEN_NULL \<and>
        supported ngram_min ngram_max nc nd ns (inp @ tl (draft @ [t]) @ take j ts) (ts ! j)"
      using Suc.IH[of "draft @ [t]"] Suc.prems(2) by auto
    have "(t # ts) ! j \<noteq> LLAMA_TOKEN_NULL \<and> supported ngram_min ngram_max nc nd ns (inp @ tl draft @ take j (t # ts)) ((t # ts) ! j)"
      if "j < length (t # ts)" for j
      using that ts(3) False sup Suc.prems(1) by (cases j) auto
    then show ?thesis using False ts(1,2) by (intro exI[of _ "t # ts"]) (simp add: step del: ngram_draft_loop.simps)
  qed
qed



text \<open>The guard at the start only asks for two tokens: with a history of two or three tokens and n-grams of up to four
  tokens the start of the longest n-gram is negative, and the token lookup leaves the draft array.\<close>

theorem ngram_draft_short_history:
  "common_ngram_cache_draft iter_part [t0, t1] sampled 1 1 4 nc nd ns = None"
  by (simp add: common_ngram_cache_draft_def LLAMA_NGRAM_STATIC_def ngram_ending_def get_token_def numeral_2_eq_2 upt_rec Let_def)

text \<open>The comparison of candidates is done in 32-bit integers: a token seen 1000 times after the n-gram, and 30000 times in
  the static corpus, has a score above \<open>2 ^ 31\<close> that wraps to a negative number, and loses to a token seen once.\<close>

theorem ngram_draft_score_overflow:
  "fst (primary_scan [(7, 30000), (8, 1)] [(7, 1000), (8, 1)]) = 8 \<and> (1000 * (100 * 30000) :: int) > 1 * (100 * 1)"
  by (simp add: primary_scan_def s32_def)

section \<open>Saving and loading\<close>

lemma emplace_map_of: "map_of (emplace k v al) = (case map_of al k of None \<Rightarrow> (map_of al)(k \<mapsto> v) | Some _ \<Rightarrow> map_of al)"
  by (auto simp: emplace_def map_add_def fun_eq_iff split: option.splits)

lemma load_part_save:
  "list_all (\<lambda>(t, n). n > 0) part \<Longrightarrow> distinct (map fst (acc @ part)) \<Longrightarrow>
   load_part (length part) (save_part part @ rest) acc = Inr (acc @ part, rest)"
proof (induction part arbitrary: acc)
  case Nil
  then show ?case by (simp add: save_part_def)
next
  case (Cons x part)
  obtain t n where x: "x = (t, n)" by (cases x) auto
  have "map_of acc t = None" using Cons.prems(2) by (auto simp: x map_of_eq_None_iff)
  then show ?case using Cons.IH[of "acc @ [(t, n)]"] Cons.prems by (simp add: x save_part_def emplace_def)
qed

definition item_ok :: "common_ngram \<times> ngram_cache_part \<Rightarrow> bool" where
  "item_ok = (\<lambda>(ngram, part). length ngram = LLAMA_NGRAM_MAX \<and> part \<noteq> [] \<and> int (length part) \<le> INT32_MAX \<and> list_all (\<lambda>(t, n). n > 0) part)"

lemma load_items_save:
  assumes "iterates iter_part"
  shows "\<forall>(g, part) \<in> set items. item_ok (g, iter_part part) \<Longrightarrow> distinct (map fst (acc @ items)) \<Longrightarrow>
    load_items (concat (map (save_item iter_part) items)) acc = Inr (acc @ map (\<lambda>(g, part). (g, iter_part part)) items)"
proof (induction items arbitrary: acc)
  case Nil
  then show ?case by (simp add: load_items.simps LLAMA_NGRAM_MAX_def)
next
  case (Cons x items)
  obtain g part where x: "x = (g, part)" by (cases x) auto
  let ?p = "iter_part part"
  have ok: "length g = LLAMA_NGRAM_MAX" "0 < length ?p" "int (length ?p) \<le> INT32_MAX" "list_all (\<lambda>(t, n). n > 0) ?p"
    using Cons.prems(1) by (auto simp: x item_ok_def)
  have len: "s32 (int (length ?p)) = int (length ?p)" using ok(3) by simp
  have new: "map_of acc g = None" using Cons.prems(2) by (auto simp: x map_of_eq_None_iff)
  have "distinct (map fst ?p)" using assms by (simp add: iterates_def)
  then have lp: "load_part (length ?p) (save_part ?p @ rest) [] = Inr (?p, rest)" for rest
    using load_part_save[OF ok(4), of "[]"] by simp
  have "load_items (concat (map (save_item iter_part) (x # items))) acc
      = load_items (concat (map (save_item iter_part) items)) (acc @ [(g, ?p)])"
    using ok(1,2) by (subst load_items.simps) (simp add: x save_item_def len lp emplace_def new)
  then show ?case using Cons.IH[of "acc @ [(g, ?p)]"] Cons.prems by (simp add: x)
qed

text \<open>C37. A cache that was saved is loaded back: whatever the iteration orders, the loaded cache has the same n-grams and for
  each the same tokens with the same counts.\<close>

theorem ngram_cache_roundtrip:
  assumes "iterates iter_cache" "iterates iter_part"
    and "\<And>g part. map_of cache g = Some part \<Longrightarrow> item_ok (g, iter_part part)"
  shows "\<exists>data loaded. common_ngram_cache_save iter_cache iter_part cache = Inr data \<and> common_ngram_cache_load data = Inr loaded \<and>
    (\<lambda>g. map_option map_of (map_of loaded g)) = (\<lambda>g. map_option map_of (map_of cache g))"
proof -
  let ?items = "iter_cache cache"
  have d: "distinct (map fst ?items)" "map_of ?items = map_of cache" using assms(1) by (simp_all add: iterates_def)
  have ok: "item_ok (g, iter_part part)" if "(g, part) \<in> set ?items" for g part
    using assms(3)[of g part] map_of_is_SomeI[OF d(1) that] d(2) by simp
  have s: "common_ngram_cache_save iter_cache iter_part cache = Inr (concat (map (save_item iter_part) ?items))"
  proof -
    have "list_all (\<lambda>(g, part). iter_part part \<noteq> [] \<and> list_all (\<lambda>(t, n). n > 0) (iter_part part)) ?items"
      unfolding list_all_iff[of _ ?items]
    proof
      fix x
      assume "x \<in> set ?items"
      then show "case x of (g, part) \<Rightarrow> iter_part part \<noteq> [] \<and> list_all (\<lambda>(t, n). n > 0) (iter_part part)"
        using ok[of "fst x" "snd x"] by (simp add: item_ok_def split_beta)
    qed
    then show ?thesis unfolding common_ngram_cache_save_def by (rule if_P)
  qed
  have l: "common_ngram_cache_load (concat (map (save_item iter_part) ?items)) = Inr (map (\<lambda>(g, part). (g, iter_part part)) ?items)"
    using load_items_save[OF assms(2), of ?items "[]"] ok d(1) by (auto simp: common_ngram_cache_load_def)
  have "map_option map_of (map_of (map (\<lambda>(g, part). (g, iter_part part)) ?items) g) = map_option map_of (map_of cache g)" for g
    using assms(2) d(2) by (simp add: map_of_map option.map_comp comp_def iterates_def)
  then show ?thesis using s l by blast
qed

theorem ngram_cache_roundtrip_witness:
  "\<exists>data loaded. common_ngram_cache_save AList.clearjunk AList.clearjunk [([1, 2, -1, -1], [(3, 4), (5, 1)])] = Inr data \<and>
     common_ngram_cache_load data = Inr loaded \<and> map_option map_of (map_of loaded [1, 2, -1, -1]) = Some (map_of [(3, 4), (5, 1)])"
proof -
  have "item_ok (g, AList.clearjunk part)" if "map_of [([1, 2, -1, -1], [(3, 4), (5, 1)])] g = Some part" for g part
    using that by (auto simp: item_ok_def LLAMA_NGRAM_MAX_def split: if_splits)
  from ngram_cache_roundtrip[OF iterates_clearjunk iterates_clearjunk this] obtain data loaded where
    r: "common_ngram_cache_save AList.clearjunk AList.clearjunk [([1, 2, -1, -1], [(3, 4), (5, 1)])] = Inr data"
      "common_ngram_cache_load data = Inr loaded"
      "(\<lambda>g. map_option map_of (map_of loaded g)) = (\<lambda>g. map_option map_of (map_of [([1, 2, -1, -1], [(3, 4), (5, 1)])] g))"
    by blast
  show ?thesis using r(1,2) fun_cong[OF r(3), of "[1, 2, -1, -1]"] by auto
qed

section \<open>Merging\<close>

definition part_count :: "ngram_cache_part \<Rightarrow> llama_token \<Rightarrow> int" where
  "part_count part t = (case map_of part t of None \<Rightarrow> 0 | Some n \<Rightarrow> n)"

definition counts_ok :: "ngram_cache_part \<Rightarrow> bool" where
  "counts_ok part \<longleftrightarrow> (\<forall>t n. map_of part t = Some n \<longrightarrow> 0 < n)"

lemma merge_part_counts:
  "list_all (\<lambda>(t, n). n > 0) part \<Longrightarrow> distinct (map fst part) \<Longrightarrow> counts_ok merged \<Longrightarrow>
   (\<And>t. part_count merged t + part_count part t \<le> INT32_MAX) \<Longrightarrow>
   \<exists>r. merge_part merged part = Inr r \<and> counts_ok r \<and> (\<forall>t. part_count r t = part_count merged t + part_count part t)"
proof (induction part arbitrary: merged)
  case Nil
  then show ?case by (simp add: part_count_def)
next
  case (Cons x part)
  obtain t n where x: "x = (t, n)" by (cases x) auto
  let ?m = "AList.update t (part_count merged t + n) merged"
  have n: "0 < n" using Cons.prems(1) by (simp add: x)
  have "map_of part t = None" using Cons.prems(2) by (simp add: x map_of_eq_None_iff)
  then have fresh: "part_count part t = 0" by (simp add: part_count_def)
  have le: "part_count merged t + n \<le> INT32_MAX" using Cons.prems(4)[of t] by (simp add: x part_count_def)
  have nn: "0 \<le> part_count merged t" using Cons.prems(3) by (auto simp: part_count_def counts_ok_def split: option.split dest: less_imp_le)
  have step: "merge_part merged (x # part) = merge_part ?m part"
    using n nn le by (auto simp: x part_count_def split: option.split)
  have c: "part_count ?m t' = part_count merged t' + (if t' = t then n else 0)" for t'
    by (simp add: part_count_def AList.update_conv')
  have "counts_ok ?m" using Cons.prems(3) n nn by (auto simp: counts_ok_def AList.update_conv')
  moreover have p: "part_count (x # part) t' = part_count part t' + (if t' = t then n else 0)" for t'
    using fresh by (simp add: x part_count_def)
  have "part_count ?m t' + part_count part t' \<le> INT32_MAX" for t'
    using Cons.prems(4)[of t'] unfolding c p by simp
  ultimately obtain r where "merge_part ?m part = Inr r" "counts_ok r" "\<forall>t'. part_count r t' = part_count ?m t' + part_count part t'"
    using Cons.IH[of ?m] Cons.prems(1,2) by (auto simp: x)
  then show ?case unfolding step using c p by auto
qed

lemma ngram_count_part: "ngram_count cache g t = (case map_of cache g of None \<Rightarrow> 0 | Some part \<Rightarrow> part_count part t)"
  by (simp add: ngram_count_def part_count_def split: option.split)

definition cache_ok :: "ngram_cache \<Rightarrow> bool" where
  "cache_ok cache \<longleftrightarrow> (\<forall>g part. map_of cache g = Some part \<longrightarrow> counts_ok part)"

lemma iter_counts_ok: "iterates iter \<Longrightarrow> counts_ok part \<Longrightarrow> list_all (\<lambda>(t, n). n > 0) (iter part)"
  unfolding list_all_iff counts_ok_def iterates_def by (metis (no_types, lifting) case_prodI2 map_of_is_SomeI)

lemma part_count_iter: "iterates iter \<Longrightarrow> part_count (iter part) = part_count part"
  by (simp add: part_count_def iterates_def fun_eq_iff)

lemma merge_items_counts:
  assumes "iterates iter_part"
  shows "distinct (map fst items) \<Longrightarrow> cache_ok target \<Longrightarrow> (\<And>g part. (g, part) \<in> set items \<Longrightarrow> counts_ok part) \<Longrightarrow>
    (\<And>g t. ngram_count target g t + ngram_count items g t \<le> INT32_MAX) \<Longrightarrow>
    \<exists>r. merge_items iter_part target items = Inr r \<and> (\<forall>g t. ngram_count r g t = ngram_count target g t + ngram_count items g t)"
proof (induction items arbitrary: target)
  case Nil
  then show ?case by (simp add: ngram_count_def)
next
  case (Cons x items)
  obtain g part where x: "x = (g, part)" by (cases x) auto
  have fresh: "map_of items g = None" using Cons.prems(1) by (auto simp: x map_of_eq_None_iff)
  have cok: "counts_ok part" using Cons.prems(3)[of g part] by (simp add: x)
  have hd: "ngram_count (x # items) g' t = ngram_count items g' t + (if g' = g then part_count part t else 0)" for g' t
    using fresh by (simp add: x ngram_count_part)
  obtain part' where p': "merge_items iter_part target (x # items) = merge_items iter_part (AList.update g part' target) items"
    "counts_ok part'" "\<And>t. part_count part' t = ngram_count target g t + part_count part t"
  proof (cases "map_of target g")
    case None
    then show ?thesis using that[of part] cok by (simp add: x ngram_count_part)
  next
    case (Some merged)
    have m: "counts_ok merged" using Cons.prems(2) Some by (simp add: cache_ok_def)
    have "part_count merged t + part_count (iter_part part) t \<le> INT32_MAX" for t
      using Cons.prems(4)[of g t] hd[of g t] fresh Some by (simp add: ngram_count_part part_count_iter[OF assms])
    then obtain r where r: "merge_part merged (iter_part part) = Inr r" "counts_ok r"
      "\<forall>t. part_count r t = part_count merged t + part_count (iter_part part) t"
      using merge_part_counts[OF iter_counts_ok[OF assms cok] _ m] assms by (auto simp: iterates_def)
    then show ?thesis using that[of r] r Some by (simp add: x ngram_count_part part_count_iter[OF assms])
  qed
  let ?t = "AList.update g part' target"
  have c: "ngram_count ?t g' t = ngram_count target g' t + (if g' = g then part_count part t else 0)" for g' t
    using p'(3) by (simp add: ngram_count_part AList.update_conv')
  have "cache_ok ?t" using Cons.prems(2) p'(2) by (simp add: cache_ok_def AList.update_conv')
  moreover have "ngram_count ?t g' t + ngram_count items g' t \<le> INT32_MAX" for g' t
    using Cons.prems(4)[of g' t] unfolding c hd by simp
  moreover have "counts_ok p" if "(g', p) \<in> set items" for g' p
    using Cons.prems(3)[of g' p] that by simp
  moreover have "distinct (map fst items)" using Cons.prems(1) by simp
  ultimately obtain r where "merge_items iter_part ?t items = Inr r" "\<forall>g' t. ngram_count r g' t = ngram_count ?t g' t + ngram_count items g' t"
    using Cons.IH[of ?t] by blast
  then show ?case unfolding p'(1) c hd by auto
qed

text \<open>Merging adds the counts: no continuation of either cache is lost, and one both have gets the sum.\<close>

theorem ngram_cache_merge_adds:
  assumes "iterates iter_cache" "iterates iter_part" "cache_ok target" "cache_ok add"
    and "\<And>g t. ngram_count target g t + ngram_count add g t \<le> INT32_MAX"
  shows "\<exists>merged. common_ngram_cache_merge iter_cache iter_part target add = Inr merged \<and>
    (\<forall>g t. ngram_count merged g t = ngram_count target g t + ngram_count add g t)"
proof -
  have i: "distinct (map fst (iter_cache add))" "map_of (iter_cache add) = map_of add" using assms(1) by (simp_all add: iterates_def)
  have "counts_ok part" if "(g, part) \<in> set (iter_cache add)" for g part
    using assms(4) map_of_is_SomeI[OF i(1) that] i(2) by (simp add: cache_ok_def)
  moreover have "ngram_count (iter_cache add) = ngram_count add" by (simp add: ngram_count_def i(2) fun_eq_iff)
  ultimately show ?thesis
    unfolding common_ngram_cache_merge_def using merge_items_counts[OF assms(2) i(1) assms(3)] assms(5) by simp
qed

theorem ngram_cache_merge_adds_witness:
  "\<exists>merged. common_ngram_cache_merge AList.clearjunk AList.clearjunk [([1, -1, -1, -1], [(2, 3)])]
       [([1, -1, -1, -1], [(2, 4), (3, 1)])] = Inr merged \<and> ngram_count merged [1, -1, -1, -1] 2 = 7 \<and>
       ngram_count merged [1, -1, -1, -1] 3 = 1"
proof -
  let ?a = "[([1, -1, -1, -1], [(2, 3)])]" and ?b = "[([1, -1, -1, -1], [(2, 4), (3, 1)])]"
  have "cache_ok ?a" "cache_ok ?b" by (auto simp: cache_ok_def counts_ok_def split: if_splits)
  moreover have "ngram_count ?a g t + ngram_count ?b g t \<le> INT32_MAX" for g t by (simp add: ngram_count_def)
  ultimately obtain merged where "common_ngram_cache_merge AList.clearjunk AList.clearjunk ?a ?b = Inr merged"
    "\<forall>g t. ngram_count merged g t = ngram_count ?a g t + ngram_count ?b g t"
    using ngram_cache_merge_adds[OF iterates_clearjunk iterates_clearjunk] by blast
  then show ?thesis by (intro exI[of _ merged]) (simp add: ngram_count_def)
qed

end
