(* ===== verification/GrammarEngine.thy ===== *)
theory GrammarEngine
  imports Prelude
begin

text \<open>
  The pushdown matcher of \<open>src/llama-grammar.cpp\<close>: rules as arrays of elements, stacks of pointers into them, the expansion of
  a stack to stacks that end at a terminal, and the acceptance of a code point.

  A pointer \<open>const llama_grammar_element *\<close> into \<open>rules[r]\<close> at index \<open>i\<close> is the pair \<open>(r, i)\<close>; two pointers are equal exactly
  if the pairs are.  A stack lists its pointers from the top (\<open>back()\<close>) down.  Well-formed rules end with an END
  element, so the code never reads behind one; \<open>elem_at\<close> gives END there.  Results: the outer option is \<open>None\<close> when the loop
  does not end, \<open>Inl\<close> is a failed assertion or abort.
\<close>

section \<open>Rules and stacks\<close>

datatype gretype =
  LLAMA_GRETYPE_END | LLAMA_GRETYPE_ALT | LLAMA_GRETYPE_RULE_REF | LLAMA_GRETYPE_CHAR | LLAMA_GRETYPE_CHAR_NOT
| LLAMA_GRETYPE_CHAR_RNG_UPPER | LLAMA_GRETYPE_CHAR_ALT | LLAMA_GRETYPE_CHAR_ANY | LLAMA_GRETYPE_TOKEN | LLAMA_GRETYPE_TOKEN_NOT

record grammar_element =
  ge_type :: gretype
  ge_value :: cpt

type_synonym grammar_rules = "grammar_element list list"
type_synonym gpos = "nat \<times> nat"
type_synonym grammar_stack = "gpos list"

datatype grammar_error = Grammar_abort string | Grammar_throw string

definition elem_at :: "grammar_rules \<Rightarrow> gpos \<Rightarrow> grammar_element" where
  "elem_at rules p =
     (if fst p < length rules \<and> snd p < length (rules ! fst p) then rules ! fst p ! snd p
      else \<lparr>ge_type = LLAMA_GRETYPE_END, ge_value = 0\<rparr>)"

abbreviation type_at :: "grammar_rules \<Rightarrow> gpos \<Rightarrow> gretype" where
  "type_at rules p \<equiv> ge_type (elem_at rules p)"

abbreviation value_at :: "grammar_rules \<Rightarrow> gpos \<Rightarrow> cpt" where
  "value_at rules p \<equiv> ge_value (elem_at rules p)"

definition gnext :: "gpos \<Rightarrow> gpos" where
  "gnext p = (fst p, Suc (snd p))"

definition room :: "grammar_rules \<Rightarrow> gpos \<Rightarrow> nat" where
  "room rules p = (if fst p < length rules then length (rules ! fst p) - snd p else 0)"

lemma room_next: "type_at rules p \<noteq> LLAMA_GRETYPE_END \<Longrightarrow> room rules (gnext p) < room rules p"
  by (auto simp: room_def gnext_def elem_at_def split: if_splits)

lemma room_next_le: "room rules (gnext p) \<le> room rules p"
  by (auto simp: room_def gnext_def)

definition llama_grammar_is_end_of_sequence :: "grammar_rules \<Rightarrow> gpos \<Rightarrow> bool" where
  "llama_grammar_is_end_of_sequence rules p =
     (case type_at rules p of LLAMA_GRETYPE_END \<Rightarrow> True | LLAMA_GRETYPE_ALT \<Rightarrow> True | _ \<Rightarrow> False)"

section \<open>Matching a terminal\<close>

text \<open>The do-while loop over the parts of a character set.\<close>

function match_char_loop :: "grammar_rules \<Rightarrow> gpos \<Rightarrow> cpt \<Rightarrow> bool \<Rightarrow> bool \<times> gpos" where
  "match_char_loop rules p chr found =
     (let (found', p') =
            (if type_at rules (gnext p) = LLAMA_GRETYPE_CHAR_RNG_UPPER then
               (found \<or> (value_at rules p \<le> chr \<and> chr \<le> value_at rules (gnext p)), gnext (gnext p))
             else if type_at rules p = LLAMA_GRETYPE_CHAR_ANY then (True, gnext p)
             else (found \<or> value_at rules p = chr, gnext p))
      in if type_at rules p' = LLAMA_GRETYPE_CHAR_ALT then match_char_loop rules p' chr found' else (found', p'))"
  by pat_completeness auto
termination
proof (relation "measure (\<lambda>(rules, p, chr, found). room rules p)")
  fix rules p chr found and x :: "bool \<times> gpos" and found' p'
  assume x: "x = (if type_at rules (gnext p) = LLAMA_GRETYPE_CHAR_RNG_UPPER then
               (found \<or> (value_at rules p \<le> chr \<and> chr \<le> value_at rules (gnext p)), gnext (gnext p))
             else if type_at rules p = LLAMA_GRETYPE_CHAR_ANY then (True, gnext p)
             else (found \<or> value_at rules p = chr, gnext p))"
    and e: "(found', p') = x" "type_at rules p' = LLAMA_GRETYPE_CHAR_ALT"
  have "0 < room rules p'" using e(2) by (auto simp: room_def elem_at_def split: if_splits)
  then have "room rules p' < room rules p"
    using x e(1) by (auto simp: room_def gnext_def split: if_splits)
  then show "((rules, p', chr, found'), rules, p, chr, found) \<in> measure (\<lambda>(rules, p, chr, found). room rules p)" by simp
qed auto

declare match_char_loop.simps [simp del]

definition is_positive_char :: "grammar_rules \<Rightarrow> gpos \<Rightarrow> bool" where
  "is_positive_char rules p \<longleftrightarrow> type_at rules p = LLAMA_GRETYPE_CHAR \<or> type_at rules p = LLAMA_GRETYPE_CHAR_ANY"

definition llama_grammar_match_char :: "grammar_rules \<Rightarrow> gpos \<Rightarrow> cpt \<Rightarrow> grammar_error + (bool \<times> gpos)" where
  "llama_grammar_match_char rules p chr =
     (if is_positive_char rules p \<or> type_at rules p = LLAMA_GRETYPE_CHAR_NOT then
        (case match_char_loop rules p chr False of (found, p') \<Rightarrow> Inr (found = is_positive_char rules p, p'))
      else Inl (Grammar_abort ''is_positive_char || pos->type == LLAMA_GRETYPE_CHAR_NOT''))"

text \<open>The same loop for an incomplete code point, whose completions lie between \<open>low\<close> and \<open>high\<close>.\<close>

function match_partial_loop :: "grammar_rules \<Rightarrow> gpos \<Rightarrow> cpt \<Rightarrow> cpt \<Rightarrow> bool \<Rightarrow> bool" where
  "match_partial_loop rules p low high positive =
     (let (hit, p') =
            (if type_at rules (gnext p) = LLAMA_GRETYPE_CHAR_RNG_UPPER then
               ((if value_at rules p \<le> high \<and> low \<le> value_at rules (gnext p) then Some positive else None), gnext (gnext p))
             else if type_at rules p = LLAMA_GRETYPE_CHAR_ANY then (Some True, gnext p)
             else ((if low \<le> value_at rules p \<and> value_at rules p \<le> high then Some positive else None), gnext p))
      in case hit of Some r \<Rightarrow> r
         | None \<Rightarrow> if type_at rules p' = LLAMA_GRETYPE_CHAR_ALT then match_partial_loop rules p' low high positive
                   else \<not> positive)"
  by pat_completeness auto
termination
proof (relation "measure (\<lambda>(rules, p, low, high, positive). room rules p)")
  fix rules p low high positive and x :: "bool option \<times> gpos" and hit p'
  assume x: "x = (if type_at rules (gnext p) = LLAMA_GRETYPE_CHAR_RNG_UPPER then
               ((if value_at rules p \<le> high \<and> low \<le> value_at rules (gnext p) then Some positive else None), gnext (gnext p))
             else if type_at rules p = LLAMA_GRETYPE_CHAR_ANY then (Some True, gnext p)
             else ((if low \<le> value_at rules p \<and> value_at rules p \<le> high then Some positive else None), gnext p))"
    and e: "(hit, p') = x" "type_at rules p' = LLAMA_GRETYPE_CHAR_ALT"
  have "0 < room rules p'" using e(2) by (auto simp: room_def elem_at_def split: if_splits)
  then have "room rules p' < room rules p"
    using x e(1) by (auto simp: room_def gnext_def split: if_splits)
  then show "((rules, p', low, high, positive), rules, p, low, high, positive) \<in> measure (\<lambda>(rules, p, low, high, positive). room rules p)"
    by simp
qed auto

declare match_partial_loop.simps [simp del]

definition llama_grammar_match_partial_char :: "grammar_rules \<Rightarrow> gpos \<Rightarrow> cpt \<Rightarrow> int \<Rightarrow> grammar_error + bool" where
  "llama_grammar_match_partial_char rules p partial_value n_remain =
     (if is_positive_char rules p \<or> type_at rules p = LLAMA_GRETYPE_CHAR_NOT then
        (if n_remain < 0 \<or> (n_remain = 1 \<and> partial_value < 2) then Inr False
         else
           (let low = push_bit (nat n_remain * 6) partial_value;
                high = low OR (push_bit (nat n_remain * 6) 1 - 1);
                low' = (if low = 0 then (if n_remain = 2 then push_bit 11 1 else if n_remain = 3 then push_bit 16 1 else low) else low)
            in Inr (match_partial_loop rules p low' high (is_positive_char rules p))))
      else Inl (Grammar_abort ''is_positive_char || pos->type == LLAMA_GRETYPE_CHAR_NOT''))"

definition llama_grammar_match_token :: "grammar_rules \<Rightarrow> gpos \<Rightarrow> llama_token \<Rightarrow> grammar_error + bool" where
  "llama_grammar_match_token rules p token =
     (if type_at rules p = LLAMA_GRETYPE_TOKEN then Inr (value_at rules p = word_of_int token)
      else if type_at rules p = LLAMA_GRETYPE_TOKEN_NOT then Inr (value_at rules p \<noteq> word_of_int token)
      else Inl (Grammar_abort ''pos->type == LLAMA_GRETYPE_TOKEN || pos->type == LLAMA_GRETYPE_TOKEN_NOT''))"

section \<open>Expanding a stack\<close>

text \<open>Scanning to the end of an alternate, and the starts of all alternates from a position on.\<close>

function scan_end :: "grammar_rules \<Rightarrow> gpos \<Rightarrow> gpos" where
  "scan_end rules p = (if llama_grammar_is_end_of_sequence rules p then p else scan_end rules (gnext p))"
  by pat_completeness auto
termination
  by (relation "measure (\<lambda>(rules, p). room rules p)")
    (auto intro!: room_next simp: llama_grammar_is_end_of_sequence_def)

declare scan_end.simps [simp del]

lemma room_scan_end: "room rules (scan_end rules p) \<le> room rules p"
proof (induction rules p rule: scan_end.induct)
  case (1 rules p)
  show ?case
  proof (cases "llama_grammar_is_end_of_sequence rules p")
    case True
    then show ?thesis by (simp add: scan_end.simps)
  next
    case False
    then show ?thesis using 1 room_next_le[of rules p] by (subst scan_end.simps) simp
  qed
qed

function alternates :: "grammar_rules \<Rightarrow> gpos \<Rightarrow> gpos list" where
  "alternates rules p =
     p # (let q = scan_end rules p in if type_at rules q = LLAMA_GRETYPE_ALT then alternates rules (gnext q) else [])"
  by pat_completeness auto
termination
proof (relation "measure (\<lambda>(rules, p). room rules p)")
  fix rules p q
  assume "q = scan_end rules p" "type_at rules q = LLAMA_GRETYPE_ALT"
  then show "((rules, gnext q), rules, p) \<in> measure (\<lambda>(rules, p). room rules p)"
    using room_next[of rules q] room_scan_end[of rules p] by simp
qed auto

declare alternates.simps [simp del]

definition push_pos :: "grammar_rules \<Rightarrow> gpos \<Rightarrow> grammar_stack \<Rightarrow> grammar_stack" where
  "push_pos rules p stack = (if llama_grammar_is_end_of_sequence rules p then stack else p # stack)"

text \<open>The stacks a rule reference on top is replaced by, one per alternate.\<close>

definition expand_ref :: "grammar_rules \<Rightarrow> gpos \<Rightarrow> grammar_stack \<Rightarrow> grammar_stack list" where
  "expand_ref rules p rest =
     map (\<lambda>subpos. push_pos rules subpos (push_pos rules (gnext p) rest)) (alternates rules (unat (value_at rules p), 0))"

definition add_stack :: "grammar_stack \<Rightarrow> grammar_stack list \<Rightarrow> grammar_stack list" where
  "add_stack s stacks = (if s \<in> set stacks then stacks else stacks @ [s])"

text \<open>The worklist loop: \<open>todo\<close> from its back down, \<open>seen\<close> the set of handled stacks.\<close>

partial_function (option) advance_loop ::
  "grammar_rules \<Rightarrow> grammar_stack list \<Rightarrow> grammar_stack list \<Rightarrow> grammar_stack list \<Rightarrow> (grammar_error + grammar_stack list) option" where
  "advance_loop rules todo seen new_stacks =
     (case todo of [] \<Rightarrow> Some (Inr new_stacks)
      | curr_stack # todo' \<Rightarrow>
          if curr_stack \<in> set seen then advance_loop rules todo' seen new_stacks
          else
            (case curr_stack of [] \<Rightarrow> advance_loop rules todo' (curr_stack # seen) (add_stack curr_stack new_stacks)
             | p # rest \<Rightarrow>
                 if type_at rules p = LLAMA_GRETYPE_RULE_REF then
                   advance_loop rules (rev (expand_ref rules p rest) @ todo') (curr_stack # seen) new_stacks
                 else if type_at rules p \<in> {LLAMA_GRETYPE_CHAR, LLAMA_GRETYPE_CHAR_NOT, LLAMA_GRETYPE_CHAR_ANY,
                                              LLAMA_GRETYPE_TOKEN, LLAMA_GRETYPE_TOKEN_NOT} then
                   advance_loop rules todo' (curr_stack # seen) (add_stack curr_stack new_stacks)
                 else Some (Inl (Grammar_abort ''fatal error''))))"

declare advance_loop.simps [code]

definition llama_grammar_advance_stack ::
  "grammar_rules \<Rightarrow> grammar_stack \<Rightarrow> grammar_stack list \<Rightarrow> (grammar_error + grammar_stack list) option" where
  "llama_grammar_advance_stack rules stack new_stacks = advance_loop rules [stack] [] new_stacks"

section \<open>Accepting a code point\<close>

definition llama_grammar_accept_chr ::
  "grammar_rules \<Rightarrow> grammar_stack \<Rightarrow> cpt \<Rightarrow> grammar_stack list \<Rightarrow> (grammar_error + grammar_stack list) option" where
  "llama_grammar_accept_chr rules stack chr new_stacks =
     (case stack of [] \<Rightarrow> Some (Inr new_stacks)
      | p # rest \<Rightarrow>
          if type_at rules p = LLAMA_GRETYPE_TOKEN \<or> type_at rules p = LLAMA_GRETYPE_TOKEN_NOT then Some (Inr new_stacks)
          else
            (case llama_grammar_match_char rules p chr of
               Inl e \<Rightarrow> Some (Inl e)
             | Inr (matched, p') \<Rightarrow>
                 if matched then llama_grammar_advance_stack rules (push_pos rules p' rest) new_stacks
                 else Some (Inr new_stacks)))"

fun accept_stacks :: "grammar_rules \<Rightarrow> grammar_stack list \<Rightarrow> cpt \<Rightarrow> grammar_stack list \<Rightarrow> (grammar_error + grammar_stack list) option" where
  "accept_stacks rules [] chr stacks_new = Some (Inr stacks_new)"
| "accept_stacks rules (stack # stacks) chr stacks_new =
     (case llama_grammar_accept_chr rules stack chr stacks_new of
        Some (Inr stacks_new') \<Rightarrow> accept_stacks rules stacks chr stacks_new'
      | r \<Rightarrow> r)"

definition llama_grammar_accept :: "grammar_rules \<Rightarrow> grammar_stack list \<Rightarrow> cpt \<Rightarrow> (grammar_error + grammar_stack list) option" where
  "llama_grammar_accept rules stacks chr = accept_stacks rules stacks chr []"

text \<open>The loop over the alternates of the start rule that builds the initial stacks.\<close>

fun init_stacks :: "grammar_rules \<Rightarrow> gpos list \<Rightarrow> grammar_stack list \<Rightarrow> (grammar_error + grammar_stack list) option" where
  "init_stacks rules [] stacks = Some (Inr stacks)"
| "init_stacks rules (p # ps) stacks =
     (case llama_grammar_advance_stack rules (push_pos rules p []) stacks of
        Some (Inr stacks') \<Rightarrow> init_stacks rules ps stacks'
      | r \<Rightarrow> r)"

definition grammar_init_stacks :: "grammar_rules \<Rightarrow> nat \<Rightarrow> (grammar_error + grammar_stack list) option" where
  "grammar_init_stacks rules start = init_stacks rules (alternates rules (start, 0)) []"

fun accept_all_chrs :: "grammar_rules \<Rightarrow> cpt list \<Rightarrow> grammar_stack list \<Rightarrow> (grammar_error + grammar_stack list) option" where
  "accept_all_chrs rules [] stacks = Some (Inr stacks)"
| "accept_all_chrs rules (c # cs) stacks =
     (case llama_grammar_accept rules stacks c of Some (Inr stacks') \<Rightarrow> accept_all_chrs rules cs stacks' | r \<Rightarrow> r)"

end
