(* ===== verification/GrammarLanguage.thy ===== *)
theory GrammarLanguage
  imports GrammarEngine
begin

text \<open>
  What the pushdown matcher of theory \<open>GrammarEngine\<close> accepts: the language of the grammar, given by an inductive
  derivation relation that knows nothing of stacks.
\<close>

section \<open>The language of a grammar\<close>

text \<open>\<open>yields rules p cs\<close>: the rest of an alternate from \<open>p\<close> on derives the code points \<open>cs\<close>.\<close>

inductive yields :: "grammar_rules \<Rightarrow> gpos \<Rightarrow> cpt list \<Rightarrow> bool" for rules where
  y_end: "llama_grammar_is_end_of_sequence rules p \<Longrightarrow> yields rules p []"
| y_char: "llama_grammar_match_char rules p c = Inr (True, p') \<Longrightarrow> yields rules p' cs \<Longrightarrow> yields rules p (c # cs)"
| y_ref: "type_at rules p = LLAMA_GRETYPE_RULE_REF \<Longrightarrow> a \<in> set (alternates rules (unat (value_at rules p), 0)) \<Longrightarrow>
    yields rules a u \<Longrightarrow> yields rules (gnext p) v \<Longrightarrow> yields rules p (u @ v)"

definition rule_yields :: "grammar_rules \<Rightarrow> nat \<Rightarrow> cpt list \<Rightarrow> bool" where
  "rule_yields rules r cs \<longleftrightarrow> (\<exists>a \<in> set (alternates rules (r, 0)). yields rules a cs)"

text \<open>A stack derives the concatenation of what its positions derive.\<close>

fun syields :: "grammar_rules \<Rightarrow> grammar_stack \<Rightarrow> cpt list \<Rightarrow> bool" where
  "syields rules [] cs \<longleftrightarrow> cs = []"
| "syields rules (p # rest) cs \<longleftrightarrow> (\<exists>u v. cs = u @ v \<and> yields rules p u \<and> syields rules rest v)"

definition char_type :: "gretype \<Rightarrow> bool" where
  "char_type t \<longleftrightarrow> t = LLAMA_GRETYPE_CHAR \<or> t = LLAMA_GRETYPE_CHAR_NOT \<or> t = LLAMA_GRETYPE_CHAR_ANY"

definition token_type :: "gretype \<Rightarrow> bool" where
  "token_type t \<longleftrightarrow> t = LLAMA_GRETYPE_TOKEN \<or> t = LLAMA_GRETYPE_TOKEN_NOT"

lemma is_end_iff: "llama_grammar_is_end_of_sequence rules p \<longleftrightarrow>
    type_at rules p = LLAMA_GRETYPE_END \<or> type_at rules p = LLAMA_GRETYPE_ALT"
  by (auto simp: llama_grammar_is_end_of_sequence_def split: gretype.splits)

lemma match_char_type: "llama_grammar_match_char rules p c = Inr r \<Longrightarrow> char_type (type_at rules p)"
  by (auto simp: llama_grammar_match_char_def is_positive_char_def char_type_def split: if_splits)

lemma yields_end: "llama_grammar_is_end_of_sequence rules p \<Longrightarrow> yields rules p cs \<longleftrightarrow> cs = []"
  by (auto simp: is_end_iff char_type_def dest!: match_char_type elim: yields.cases intro: y_end)

lemma yields_refD:
  assumes "yields rules p cs" "type_at rules p = LLAMA_GRETYPE_RULE_REF"
  shows "\<exists>a u v. a \<in> set (alternates rules (unat (value_at rules p), 0)) \<and> cs = u @ v \<and> yields rules a u \<and> yields rules (gnext p) v"
  using assms(1)
proof cases
  case y_end
  then show ?thesis using assms(2) by (simp add: is_end_iff)
next
  case (y_char c p' cs)
  then show ?thesis using assms(2) match_char_type[OF y_char(2)] by (simp add: char_type_def)
next
  case (y_ref a u v)
  then show ?thesis by blast
qed

lemma yields_charD:
  assumes "yields rules p cs" "char_type (type_at rules p)"
  shows "\<exists>c p' cs'. cs = c # cs' \<and> llama_grammar_match_char rules p c = Inr (True, p') \<and> yields rules p' cs'"
  using assms(1)
proof cases
  case y_end
  then show ?thesis using assms(2) by (auto simp: is_end_iff char_type_def)
next
  case (y_char c p' cs)
  then show ?thesis by blast
next
  case (y_ref a u v)
  then show ?thesis using assms(2) by (simp add: char_type_def)
qed

lemma yields_token:
  assumes "token_type (type_at rules p)"
  shows "\<not> yields rules p cs"
proof
  assume "yields rules p cs"
  then show False
  proof cases
    case y_end
    then show ?thesis using assms by (auto simp: is_end_iff token_type_def)
  next
    case (y_char c p' cs)
    then show ?thesis using assms match_char_type[OF y_char(2)] by (auto simp: char_type_def token_type_def)
  next
    case (y_ref a u v)
    then show ?thesis using assms by (auto simp: token_type_def)
  qed
qed

lemma syields_push [simp]: "syields rules (push_pos rules p s) cs \<longleftrightarrow> syields rules (p # s) cs"
  by (auto simp: push_pos_def yields_end)

declare syields.simps(2) [simp del]

lemma syields_ConsI: "yields rules p u \<Longrightarrow> syields rules rest v \<Longrightarrow> syields rules (p # rest) (u @ v)"
  unfolding syields.simps(2) by blast

lemma syields_ConsE:
  assumes "syields rules (p # rest) cs"
  obtains u v where "cs = u @ v" "yields rules p u" "syields rules rest v"
  using assms unfolding syields.simps(2) by blast

lemma in_expand_ref: "s \<in> set (expand_ref rules p rest) \<longleftrightarrow>
    (\<exists>a \<in> set (alternates rules (unat (value_at rules p), 0)). s = push_pos rules a (push_pos rules (gnext p) rest))"
  unfolding expand_ref_def set_map by blast

lemma syields_expand:
  assumes "type_at rules p = LLAMA_GRETYPE_RULE_REF"
  shows "syields rules (p # rest) cs \<longleftrightarrow> (\<exists>s \<in> set (expand_ref rules p rest). syields rules s cs)"
proof
  assume "syields rules (p # rest) cs"
  then obtain q w where q: "cs = q @ w" "yields rules p q" "syields rules rest w" by (rule syields_ConsE)
  obtain a u v where a: "a \<in> set (alternates rules (unat (value_at rules p), 0))" "q = u @ v" "yields rules a u" "yields rules (gnext p) v"
    using yields_refD[OF q(2) assms] by blast
  have "syields rules (push_pos rules (gnext p) rest) (v @ w)" using syields_ConsI[OF a(4) q(3)] by simp
  then have "syields rules (push_pos rules a (push_pos rules (gnext p) rest)) (u @ v @ w)" using syields_ConsI[OF a(3)] by simp
  then show "\<exists>s \<in> set (expand_ref rules p rest). syields rules s cs"
    using a(1,2) q(1) by (intro bexI[of _ "push_pos rules a (push_pos rules (gnext p) rest)"]) (auto simp only: in_expand_ref append_assoc)
next
  assume "\<exists>s \<in> set (expand_ref rules p rest). syields rules s cs"
  then obtain a where a: "a \<in> set (alternates rules (unat (value_at rules p), 0))"
    "syields rules (a # push_pos rules (gnext p) rest) cs"
    unfolding Bex_def in_expand_ref by auto
  from a(2) obtain u x where u: "cs = u @ x" "yields rules a u" "syields rules (push_pos rules (gnext p) rest) x" by (rule syields_ConsE)
  from u(3) have "syields rules (gnext p # rest) x" by simp
  then obtain v w where v: "x = v @ w" "yields rules (gnext p) v" "syields rules rest w" by (rule syields_ConsE)
  show "syields rules (p # rest) cs"
    using syields_ConsI[OF y_ref[OF assms a(1) u(2) v(2)] v(3)] u(1) v(1) by simp
qed

section \<open>Expansion steps\<close>

definition terminal :: "grammar_rules \<Rightarrow> grammar_stack \<Rightarrow> bool" where
  "terminal rules s \<longleftrightarrow> s = [] \<or> char_type (type_at rules (hd s)) \<or> token_type (type_at rules (hd s))"

inductive estep :: "grammar_rules \<Rightarrow> grammar_stack \<Rightarrow> grammar_stack \<Rightarrow> bool" for rules where
  "type_at rules p = LLAMA_GRETYPE_RULE_REF \<Longrightarrow> s \<in> set (expand_ref rules p rest) \<Longrightarrow> estep rules (p # rest) s"

inductive_cases estep_Cons: "estep rules (p # rest) s"

abbreviation ereach :: "grammar_rules \<Rightarrow> grammar_stack \<Rightarrow> grammar_stack \<Rightarrow> bool" where
  "ereach rules \<equiv> (estep rules)\<^sup>*\<^sup>*"

lemma estep_syields: "estep rules s t \<Longrightarrow> syields rules t cs \<Longrightarrow> syields rules s cs"
  by (erule estep.cases) (use syields_expand in blast)

lemma ereach_syields: "ereach rules s t \<Longrightarrow> syields rules t cs \<Longrightarrow> syields rules s cs"
  by (induction rule: converse_rtranclp_induct) (blast intro: estep_syields)+

text \<open>A derivation tells which expansions to make: down to its first code point, or past an empty derivation.\<close>

lemma yields_reach:
  "yields rules p u \<Longrightarrow> syields rules rest v \<Longrightarrow>
     (u = [] \<longrightarrow> ereach rules (push_pos rules p rest) rest) \<and>
     (u \<noteq> [] \<longrightarrow> (\<exists>t. terminal rules t \<and> ereach rules (push_pos rules p rest) t \<and> syields rules t (u @ v)))"
proof (induction arbitrary: rest v rule: yields.induct)
  case (y_end p)
  then show ?case by (simp add: push_pos_def)
next
  case (y_char p c p' cs)
  have t: "char_type (type_at rules p)" using match_char_type[OF y_char.hyps(1)] .
  then have "push_pos rules p rest = p # rest" by (auto simp: push_pos_def is_end_iff char_type_def)
  moreover have "terminal rules (p # rest)" using t by (simp add: terminal_def)
  moreover have "syields rules (p # rest) ((c # cs) @ v)"
    by (rule syields_ConsI[OF yields.y_char[OF y_char.hyps] y_char.prems])
  ultimately show ?case by auto
next
  case (y_ref p a u w)
  let ?r = "push_pos rules (gnext p) rest"
  have "push_pos rules p rest = p # rest" using y_ref.hyps(1) by (simp add: push_pos_def is_end_iff)
  moreover have "estep rules (p # rest) (push_pos rules a ?r)"
    by (rule estep.intros[OF y_ref.hyps(1)]) (use y_ref.hyps(2) in \<open>unfold in_expand_ref, blast\<close>)
  ultimately have st: "ereach rules (push_pos rules p rest) t" if "ereach rules (push_pos rules a ?r) t" for t
    using that by (simp add: converse_rtranclp_into_rtranclp)
  have r: "syields rules ?r (w @ v)" using syields_ConsI[OF y_ref.hyps(4) y_ref.prems] by simp
  note IHa = y_ref.IH(1)[OF r] and IHb = y_ref.IH(2)[OF y_ref.prems]
  show ?case
  proof (cases "u = []")
    case False
    then show ?thesis using IHa st by auto
  next
    case True
    then have "ereach rules (push_pos rules p rest) ?r" using IHa st by blast
    then have "ereach rules (push_pos rules p rest) t" if "ereach rules ?r t" for t using that by (rule rtranclp_trans)
    then show ?thesis using IHb True by auto
  qed
qed

definition norm :: "grammar_rules \<Rightarrow> grammar_stack \<Rightarrow> bool" where
  "norm rules s \<longleftrightarrow> (\<forall>p \<in> set s. \<not> llama_grammar_is_end_of_sequence rules p)"

lemma norm_simps [simp]: "norm rules []" "norm rules (push_pos rules p s) \<longleftrightarrow> norm rules s"
  "norm rules (p # s) \<longleftrightarrow> \<not> llama_grammar_is_end_of_sequence rules p \<and> norm rules s"
  by (auto simp: norm_def push_pos_def)

lemma estep_norm: "estep rules s t \<Longrightarrow> norm rules s \<Longrightarrow> norm rules t"
  by (auto elim!: estep.cases simp: expand_ref_def)

lemma ereach_norm: "ereach rules s t \<Longrightarrow> norm rules s \<Longrightarrow> norm rules t"
  by (induction rule: rtranclp_induct) (auto dest: estep_norm)

lemma syields_reach:
  "syields rules s cs \<Longrightarrow> norm rules s \<Longrightarrow> \<exists>t. terminal rules t \<and> ereach rules s t \<and> syields rules t cs"
proof (induction s arbitrary: cs)
  case Nil
  then show ?case by (intro exI[of _ "[]"]) (simp add: terminal_def)
next
  case (Cons p rest)
  obtain u v where uv: "cs = u @ v" "yields rules p u" "syields rules rest v" using Cons.prems(1) by (rule syields_ConsE)
  have pp: "push_pos rules p rest = p # rest" using Cons.prems(2) by (simp add: push_pos_def)
  show ?case
  proof (cases "u = []")
    case True
    then have "ereach rules (p # rest) rest" using yields_reach[OF uv(2,3)] pp by simp
    then show ?thesis using Cons.IH[OF uv(3)] Cons.prems(2) uv(1) True by (auto intro: rtranclp_trans)
  next
    case False
    then show ?thesis using yields_reach[OF uv(2,3)] pp uv(1) by simp
  qed
qed

section \<open>What the worklist loop computes\<close>

definition closed_below :: "grammar_rules \<Rightarrow> grammar_stack set \<Rightarrow> grammar_stack set \<Rightarrow> grammar_stack set \<Rightarrow> bool" where
  "closed_below rules seen todo new \<longleftrightarrow>
     (\<forall>s \<in> seen. (terminal rules s \<longrightarrow> s \<in> new) \<and> (\<forall>t. estep rules s t \<longrightarrow> t \<in> seen \<union> todo))"

lemma closed_reach:
  assumes "closed_below rules seen {} new" "s \<in> seen" "ereach rules s t"
  shows "t \<in> seen"
  using assms(3,2) by (induction rule: rtranclp_induct) (use assms(1) in \<open>auto simp: closed_below_def\<close>)

lemma set_add_stack [simp]: "set (add_stack s ss) = insert s (set ss)"
  by (auto simp: add_stack_def)

lemma estep_terminal: "terminal rules s \<Longrightarrow> \<not> estep rules s t"
  by (auto simp: terminal_def char_type_def token_type_def elim!: estep.cases)

lemma closed_seen: "closed_below rules seen (insert s todo) new \<Longrightarrow> s \<in> seen \<Longrightarrow> closed_below rules seen todo new"
  unfolding closed_below_def by blast

lemma closed_terminal:
  "closed_below rules seen (insert s todo) new \<Longrightarrow> terminal rules s \<Longrightarrow> closed_below rules (insert s seen) todo (insert s new)"
  unfolding closed_below_def using estep_terminal by blast

lemma estep_ref: "type_at rules p = LLAMA_GRETYPE_RULE_REF \<Longrightarrow> estep rules (p # rest) t \<longleftrightarrow> t \<in> set (expand_ref rules p rest)"
  by (blast intro: estep.intros elim: estep_Cons)

lemma closed_ref:
  "closed_below rules seen (insert (p # rest) todo) new \<Longrightarrow> type_at rules p = LLAMA_GRETYPE_RULE_REF \<Longrightarrow>
   closed_below rules (insert (p # rest) seen) (set (expand_ref rules p rest) \<union> todo) new"
  unfolding closed_below_def by (auto simp: estep_ref terminal_def char_type_def token_type_def)

definition loop_result :: "grammar_rules \<Rightarrow> grammar_stack set \<Rightarrow> grammar_stack set \<Rightarrow> grammar_stack set \<Rightarrow> grammar_stack set \<Rightarrow> bool" where
  "loop_result rules todo seen new result \<longleftrightarrow>
     (\<forall>t \<in> result. t \<in> new \<or> (terminal rules t \<and> (\<exists>s \<in> todo. ereach rules s t))) \<and> new \<subseteq> result \<and>
     (\<forall>s \<in> seen \<union> todo. \<forall>t. ereach rules s t \<longrightarrow> terminal rules t \<longrightarrow> t \<in> result)"

lemma loop_result_nil: "closed_below rules seen {} new \<Longrightarrow> loop_result rules {} seen new new"
  unfolding loop_result_def using closed_reach unfolding closed_below_def by blast

lemma loop_result_seen: "loop_result rules todo seen new r \<Longrightarrow> s \<in> seen \<Longrightarrow> loop_result rules (insert s todo) seen new r"
  unfolding loop_result_def by blast

lemma loop_result_terminal:
  "loop_result rules todo (insert s seen) (insert s new) r \<Longrightarrow> terminal rules s \<Longrightarrow> loop_result rules (insert s todo) seen new r"
  unfolding loop_result_def using rtranclp.rtrancl_refl[of "estep rules" s] by auto

lemma loop_result_ref:
  assumes "loop_result rules (set (expand_ref rules p rest) \<union> todo) (insert (p # rest) seen) new r"
    and "type_at rules p = LLAMA_GRETYPE_RULE_REF"
  shows "loop_result rules (insert (p # rest) todo) seen new r"
proof -
  have "ereach rules (p # rest) t" if "s \<in> set (expand_ref rules p rest)" "ereach rules s t" for s t
    using that assms(2) by (simp add: estep_ref converse_rtranclp_into_rtranclp)
  then show ?thesis using assms(1) unfolding loop_result_def by blast
qed

lemma advance_loop_result:
  "advance_loop rules todo seen new = Some r \<Longrightarrow>
   r = Inr result \<longrightarrow> closed_below rules (set seen) (set todo) (set new) \<longrightarrow> loop_result rules (set todo) (set seen) (set new) (set result)"
proof (induction rules todo seen new r rule: advance_loop.raw_induct[rotated, consumes 1, case_names body])
  case (body loop rules todo seen new r)
  show ?case
  proof (intro impI)
    assume r: "r = Inr result" and cl: "closed_below rules (set seen) (set todo) (set new)"
    note step = body(2)[unfolded r]
    show "loop_result rules (set todo) (set seen) (set new) (set result)"
    proof (cases todo)
      case Nil
      then show ?thesis using step cl by (simp add: loop_result_nil)
    next
      case (Cons s todo')
      consider (seen) "s \<in> set seen" | (tm) "s \<notin> set seen" "terminal rules s"
        | (ref) p rest where "s \<notin> set seen" "s = p # rest" "type_at rules p = LLAMA_GRETYPE_RULE_REF"
      proof (cases s)
        case Nil
        then show ?thesis using that by (auto simp: terminal_def)
      next
        case (Cons p rest)
        have "s \<notin> set seen \<Longrightarrow> type_at rules p \<noteq> LLAMA_GRETYPE_RULE_REF \<Longrightarrow> terminal rules s"
          using step \<open>todo = s # todo'\<close> Cons by (simp add: terminal_def char_type_def token_type_def split: if_splits)
        then show ?thesis using that(1,2) that(3)[OF _ Cons] by blast
      qed
      then show ?thesis
      proof cases
        case seen
        then have "loop rules todo' seen new = Some (Inr result)" using step Cons by simp
        from body(1)[OF this] closed_seen[OF _ seen] cl show ?thesis using loop_result_seen[OF _ seen] Cons by simp
      next
        case tm
        then have "loop rules todo' (s # seen) (add_stack s new) = Some (Inr result)"
          using step Cons by (cases s) (auto simp: terminal_def char_type_def token_type_def)
        from body(1)[OF this] closed_terminal[OF _ tm(2)] cl show ?thesis
          using loop_result_terminal[OF _ tm(2)] Cons by simp
      next
        case ref
        then have "loop rules (rev (expand_ref rules p rest) @ todo') (s # seen) new = Some (Inr result)" using step Cons by simp
        from body(1)[OF this] closed_ref[OF _ ref(3)] cl show ?thesis
          using loop_result_ref[OF _ ref(3)] Cons ref(2) by simp
      qed
    qed
  qed
qed

lemma advance_stack_result:
  assumes "llama_grammar_advance_stack rules s new = Some (Inr result)"
  shows "set result = set new \<union> {t. terminal rules t \<and> ereach rules s t}"
proof -
  have "closed_below rules (set []) (set [s]) (set new)" by (simp add: closed_below_def)
  then have "loop_result rules (set [s]) (set []) (set new) (set result)"
    using advance_loop_result[OF assms[unfolded llama_grammar_advance_stack_def]] by blast
  then show ?thesis unfolding loop_result_def by auto
qed

section \<open>The stacks after a text\<close>

text \<open>Every stack the matcher keeps ends at a terminal and holds no position at the end of an alternate.\<close>

definition good_stacks :: "grammar_rules \<Rightarrow> grammar_stack list \<Rightarrow> bool" where
  "good_stacks rules ss \<longleftrightarrow> (\<forall>s \<in> set ss. terminal rules s \<and> norm rules s)"

definition stacks_yield :: "grammar_rules \<Rightarrow> grammar_stack list \<Rightarrow> cpt list \<Rightarrow> bool" where
  "stacks_yield rules ss w \<longleftrightarrow> (\<exists>s \<in> set ss. syields rules s w)"

lemma advance_stack_yields:
  assumes "llama_grammar_advance_stack rules s new = Some (Inr result)" "norm rules s"
  shows "stacks_yield rules result w \<longleftrightarrow> stacks_yield rules new w \<or> syields rules s w"
    and "good_stacks rules new \<Longrightarrow> good_stacks rules result"
proof -
  note r = advance_stack_result[OF assms(1)]
  show "stacks_yield rules result w \<longleftrightarrow> stacks_yield rules new w \<or> syields rules s w"
    unfolding stacks_yield_def r using syields_reach[OF _ assms(2)] ereach_syields by blast
  show "good_stacks rules new \<Longrightarrow> good_stacks rules result"
    unfolding good_stacks_def r using ereach_norm[OF _ assms(2)] by blast
qed

lemma accept_chr_yields:
  assumes "llama_grammar_accept_chr rules s c new = Some (Inr result)" "terminal rules s" "norm rules s"
  shows "stacks_yield rules result w \<longleftrightarrow> stacks_yield rules new w \<or> syields rules s (c # w)"
    and "good_stacks rules new \<Longrightarrow> good_stacks rules result"
proof -
  have "(stacks_yield rules result w \<longleftrightarrow> stacks_yield rules new w \<or> syields rules s (c # w)) \<and>
    (good_stacks rules new \<longrightarrow> good_stacks rules result)"
  proof (cases s)
    case Nil
    then show ?thesis using assms(1) by (simp add: llama_grammar_accept_chr_def)
  next
    case (Cons p rest)
    show ?thesis
    proof (cases "token_type (type_at rules p)")
      case True
      then have "result = new" using assms(1) Cons by (auto simp: llama_grammar_accept_chr_def token_type_def)
      then show ?thesis using yields_token[OF True] Cons by (auto elim: syields_ConsE)
    next
      case False
      then have ch: "char_type (type_at rules p)" using assms(2) Cons by (auto simp: terminal_def)
      obtain m p' where m: "llama_grammar_match_char rules p c = Inr (m, p')"
        using assms(1) Cons False by (auto simp: llama_grammar_accept_chr_def token_type_def split: sum.splits)
      have sy: "syields rules s (c # w) \<longleftrightarrow> m \<and> syields rules (p' # rest) w"
      proof
        assume "syields rules s (c # w)"
        then obtain u v where u: "c # w = u @ v" "yields rules p u" "syields rules rest v" unfolding Cons by (rule syields_ConsE)
        obtain c' q cs where q: "u = c' # cs" "llama_grammar_match_char rules p c' = Inr (True, q)" "yields rules q cs"
          using yields_charD[OF u(2) ch] by blast
        then show "m \<and> syields rules (p' # rest) w" using u(1,3) m syields_ConsI[OF q(3) u(3)] by simp
      next
        assume a: "m \<and> syields rules (p' # rest) w"
        then obtain u v where u: "w = u @ v" "yields rules p' u" "syields rules rest v" by (blast elim: syields_ConsE)
        then show "syields rules s (c # w)"
          using syields_ConsI[OF y_char[OF _ u(2), of p c] u(3)] a m Cons by simp
      qed
      show ?thesis
      proof (cases m)
        case True
        then have "llama_grammar_advance_stack rules (push_pos rules p' rest) new = Some (Inr result)"
          using assms(1) Cons False m by (auto simp: llama_grammar_accept_chr_def token_type_def)
        moreover have "norm rules (push_pos rules p' rest)" using assms(3) Cons by simp
        ultimately show ?thesis using advance_stack_yields[of rules "push_pos rules p' rest" new result] sy True by auto
      next
        case False
        then have "result = new" using assms(1) Cons m by (auto simp: llama_grammar_accept_chr_def split: if_splits)
        then show ?thesis using sy False by simp
      qed
    qed
  qed
  then show "stacks_yield rules result w \<longleftrightarrow> stacks_yield rules new w \<or> syields rules s (c # w)"
    and "good_stacks rules new \<Longrightarrow> good_stacks rules result" by blast+
qed

lemma accept_stacks_yields:
  assumes "accept_stacks rules ss c new = Some (Inr result)" "good_stacks rules ss"
  shows "(stacks_yield rules result w \<longleftrightarrow> stacks_yield rules new w \<or> stacks_yield rules ss (c # w)) \<and>
    (good_stacks rules new \<longrightarrow> good_stacks rules result)"
  using assms
proof (induction ss arbitrary: new)
  case Nil
  then show ?case by (simp add: stacks_yield_def)
next
  case (Cons s ss)
  obtain mid where mid: "llama_grammar_accept_chr rules s c new = Some (Inr mid)" "accept_stacks rules ss c mid = Some (Inr result)"
    using Cons.prems(1) by (auto split: option.splits sum.splits)
  have g: "terminal rules s" "norm rules s" "good_stacks rules ss" using Cons.prems(2) by (auto simp: good_stacks_def)
  show ?case
    using Cons.IH[OF mid(2) g(3)] accept_chr_yields[OF mid(1) g(1,2)] by (auto simp: stacks_yield_def)
qed

lemma accept_yields:
  assumes "llama_grammar_accept rules ss c = Some (Inr result)" "good_stacks rules ss"
  shows "stacks_yield rules result w \<longleftrightarrow> stacks_yield rules ss (c # w)" and "good_stacks rules result"
  using accept_stacks_yields[of rules ss c "[]" result w] assms
  by (simp_all add: llama_grammar_accept_def stacks_yield_def good_stacks_def)

lemma accept_all_yields:
  "accept_all_chrs rules cs ss = Some (Inr result) \<Longrightarrow> good_stacks rules ss \<Longrightarrow>
   (stacks_yield rules result w \<longleftrightarrow> stacks_yield rules ss (cs @ w)) \<and> good_stacks rules result"
proof (induction cs arbitrary: ss)
  case Nil
  then show ?case by simp
next
  case (Cons c cs)
  obtain mid where mid: "llama_grammar_accept rules ss c = Some (Inr mid)" "accept_all_chrs rules cs mid = Some (Inr result)"
    using Cons.prems(1) by (auto split: option.splits sum.splits)
  show ?case
    using Cons.IH[OF mid(2)] accept_yields[OF mid(1) Cons.prems(2)] by simp
qed

lemma init_stacks_yields:
  "init_stacks rules ps ss = Some (Inr result) \<Longrightarrow>
   (stacks_yield rules result w \<longleftrightarrow> stacks_yield rules ss w \<or> (\<exists>p \<in> set ps. yields rules p w)) \<and>
   (good_stacks rules ss \<longrightarrow> good_stacks rules result)"
proof (induction ps arbitrary: ss)
  case Nil
  then show ?case by simp
next
  case (Cons p ps)
  obtain mid where mid: "llama_grammar_advance_stack rules (push_pos rules p []) ss = Some (Inr mid)"
    "init_stacks rules ps mid = Some (Inr result)"
    using Cons.prems(1) by (auto split: option.splits sum.splits)
  have "syields rules (push_pos rules p []) w \<longleftrightarrow> yields rules p w" by (simp add: syields.simps)
  then show ?case
    using Cons.IH[OF mid(2)] advance_stack_yields[OF mid(1)] by auto
qed

text \<open>The empty stack is kept exactly if the text may end here.\<close>

lemma terminal_yields_empty: "terminal rules s \<Longrightarrow> syields rules s [] \<longleftrightarrow> s = []"
proof (cases s)
  case (Cons p rest)
  assume "terminal rules s"
  then consider "char_type (type_at rules p)" | "token_type (type_at rules p)" using Cons by (auto simp: terminal_def)
  then have "\<not> yields rules p []" by cases (use yields_charD yields_token in blast)+
  then show ?thesis unfolding Cons by (blast elim: syields_ConsE)
qed simp

lemma good_stacks_end: "good_stacks rules ss \<Longrightarrow> stacks_yield rules ss [] \<longleftrightarrow> [] \<in> set ss"
  unfolding good_stacks_def stacks_yield_def using terminal_yields_empty by fastforce

lemma accepts_language_sim:
  assumes "grammar_init_stacks rules start = Some (Inr s0)" "accept_all_chrs rules cs s0 = Some (Inr s)"
  shows "(stacks_yield rules s w \<longleftrightarrow> rule_yields rules start (cs @ w)) \<and> ([] \<in> set s \<longleftrightarrow> rule_yields rules start cs)"
proof -
  have i: "(stacks_yield rules s0 v \<longleftrightarrow> rule_yields rules start v) \<and> good_stacks rules s0" for v
    using init_stacks_yields[OF assms(1)[unfolded grammar_init_stacks_def], of v]
    by (auto simp: rule_yields_def stacks_yield_def good_stacks_def)
  have a: "(stacks_yield rules s v \<longleftrightarrow> rule_yields rules start (cs @ v)) \<and> good_stacks rules s" for v
    using accept_all_yields[OF assms(2), of v] i by simp
  then show ?thesis using a[of "[]"] good_stacks_end[of rules s] by auto
qed

section \<open>When the expansion ends\<close>

text \<open>The worklist loop ends exactly if finitely many stacks can be reached.\<close>

lemma advance_loop_ends:
  assumes "finite U" "\<And>s t. s \<in> U \<Longrightarrow> estep rules s t \<Longrightarrow> t \<in> U" "set todo \<subseteq> U"
  shows "\<exists>r. advance_loop rules todo seen new = Some r"
  using assms(3)
proof (induction "(card (U - set seen), length todo)" arbitrary: todo seen new rule: wf_induct_rule[OF wf_lex_prod[OF wf_less_than wf_less_than]])
  case 1
  show ?case
  proof (cases todo)
    case Nil
    then show ?thesis by (simp add: advance_loop.simps)
  next
    case (Cons s todo')
    have go: "\<exists>r. advance_loop rules td sn nw = Some r"
      if "card (U - set sn) < card (U - set seen) \<or> (card (U - set sn) = card (U - set seen) \<and> length td < length todo)" "set td \<subseteq> U" for td sn nw
      using 1(1)[of sn td nw] that by simp
    have less: "card (U - set (s # seen)) < card (U - set seen)" if "s \<notin> set seen"
      using that 1(2) Cons assms(1) by (intro psubset_card_mono) auto
    show ?thesis
    proof (cases "s \<in> set seen")
      case True
      then show ?thesis using go[of seen todo' new] 1(2) Cons by (subst advance_loop.simps) simp
    next
      case False
      note new_go = go[OF disjI1[OF less[OF False]]]
      have sub: "set todo' \<subseteq> U" using 1(2) Cons by simp
      show ?thesis
      proof (cases s)
        case Nil
        then show ?thesis using new_go[OF sub] False Cons by (subst advance_loop.simps) simp
      next
        case (Cons p rest)
        show ?thesis
        proof (cases "type_at rules p = LLAMA_GRETYPE_RULE_REF")
          case True
          have "set (expand_ref rules p rest) \<subseteq> U"
            using assms(2)[of s] 1(2) \<open>todo = s # todo'\<close> Cons True by (auto simp: estep_ref)
          then show ?thesis
            using new_go[of "rev (expand_ref rules p rest) @ todo'"] sub False \<open>todo = s # todo'\<close> Cons True
            by (subst advance_loop.simps) simp
        next
          case False
          then show ?thesis
            using new_go[OF sub] \<open>s \<notin> set seen\<close> \<open>todo = s # todo'\<close> Cons by (subst advance_loop.simps) simp
        qed
      qed
    qed
  qed
qed

lemma advance_loop_finite:
  "advance_loop rules todo seen new = Some r \<Longrightarrow>
   r = Inr result \<longrightarrow> (\<forall>s \<in> set seen. \<forall>t. estep rules s t \<longrightarrow> t \<in> set seen \<union> set todo) \<longrightarrow>
   finite {t. \<exists>s \<in> set seen \<union> set todo. ereach rules s t}"
proof (induction rules todo seen new r rule: advance_loop.raw_induct[rotated, consumes 1, case_names body])
  case (body loop rules todo seen new r)
  show ?case
  proof (intro impI)
    assume r: "r = Inr result" and cl: "\<forall>s \<in> set seen. \<forall>t. estep rules s t \<longrightarrow> t \<in> set seen \<union> set todo"
    note step = body(2)[unfolded r]
    show "finite {t. \<exists>s \<in> set seen \<union> set todo. ereach rules s t}"
    proof (cases todo)
      case Nil
      have "t \<in> set seen" if "s \<in> set seen" "ereach rules s t" for s t
        using that(2,1) by (induction rule: rtranclp_induct) (use cl Nil in auto)
      then have "{t. \<exists>s \<in> set seen \<union> set todo. ereach rules s t} \<subseteq> set seen" using Nil by auto
      then show ?thesis by (rule finite_subset) simp
    next
      case (Cons s todo')
      consider (seen) "s \<in> set seen" | (tm) "s \<notin> set seen" "terminal rules s"
        | (ref) p rest where "s \<notin> set seen" "s = p # rest" "type_at rules p = LLAMA_GRETYPE_RULE_REF"
      proof (cases s)
        case Nil
        then show ?thesis using that by (auto simp: terminal_def)
      next
        case (Cons p rest)
        have "s \<notin> set seen \<Longrightarrow> type_at rules p \<noteq> LLAMA_GRETYPE_RULE_REF \<Longrightarrow> terminal rules s"
          using step \<open>todo = s # todo'\<close> Cons by (simp add: terminal_def char_type_def token_type_def split: if_splits)
        then show ?thesis using that(1,2) that(3)[OF _ Cons] by blast
      qed
      then show ?thesis
      proof cases
        case seen
        then have "loop rules todo' seen new = Some (Inr result)" using step Cons by simp
        from body(1)[OF this] cl seen Cons have "finite {t. \<exists>s \<in> set seen \<union> set todo'. ereach rules s t}" by auto
        moreover have "set seen \<union> set todo = set seen \<union> set todo'" using Cons seen by auto
        ultimately show ?thesis by simp
      next
        case tm
        then have "loop rules todo' (s # seen) (add_stack s new) = Some (Inr result)"
          using step Cons by (cases s) (auto simp: terminal_def char_type_def token_type_def)
        from body(1)[OF this] cl estep_terminal[OF tm(2)] Cons
        have "finite {t. \<exists>s \<in> set (s # seen) \<union> set todo'. ereach rules s t}" by auto
        moreover have "set seen \<union> set todo = set (s # seen) \<union> set todo'" using Cons by auto
        ultimately show ?thesis by simp
      next
        case ref
        then have "loop rules (rev (expand_ref rules p rest) @ todo') (s # seen) new = Some (Inr result)" using step Cons by simp
        from body(1)[OF this] cl estep_ref[OF ref(3)] ref(2) Cons
        have "finite {t. \<exists>x \<in> set (s # seen) \<union> set (rev (expand_ref rules p rest) @ todo'). ereach rules x t}" by auto
        moreover have "{t. \<exists>x \<in> set seen \<union> set todo. ereach rules x t}
            \<subseteq> {t. \<exists>x \<in> set (s # seen) \<union> set (rev (expand_ref rules p rest) @ todo'). ereach rules x t}" using Cons by auto
        ultimately show ?thesis using finite_subset by blast
      qed
    qed
  qed
qed

lemma advance_stack_ends_sim:
  assumes "\<And>e. llama_grammar_advance_stack rules s new \<noteq> Some (Inl e)"
  shows "(\<exists>r. llama_grammar_advance_stack rules s new = Some r) \<longleftrightarrow> finite {t. ereach rules s t}"
proof
  assume "\<exists>r. llama_grammar_advance_stack rules s new = Some r"
  then obtain r where r: "llama_grammar_advance_stack rules s new = Some r" by blast
  then obtain result where "r = Inr result" using assms by (cases r) auto
  then show "finite {t. ereach rules s t}"
    using advance_loop_finite[OF r[unfolded llama_grammar_advance_stack_def], of result] by simp
next
  assume "finite {t. ereach rules s t}"
  then show "\<exists>r. llama_grammar_advance_stack rules s new = Some r"
    unfolding llama_grammar_advance_stack_def
    by (rule advance_loop_ends) (auto intro: rtranclp.rtrancl_into_rtrancl)
qed

section \<open>Theorems\<close>

text \<open>C6. The grammar constraint accepts exactly the language of the grammar: after the matcher has read \<open>cs\<close> from the
  initial stacks, what the kept stacks still derive is what the start rule derives after \<open>cs\<close>, and an empty stack is kept
  (generation may end) exactly if \<open>cs\<close> is a sentence.\<close>

theorem grammar_accepts_language:
  assumes "grammar_init_stacks rules start = Some (Inr s0)" "accept_all_chrs rules cs s0 = Some (Inr s)"
  shows "(stacks_yield rules s w \<longleftrightarrow> rule_yields rules start (cs @ w)) \<and> ([] \<in> set s \<longleftrightarrow> rule_yields rules start cs)"
  by (rule accepts_language_sim[OF assms])

text \<open>\<open>root ::= "a" root "b" | "c"\<close>\<close>

definition demo_rules :: grammar_rules where
  "demo_rules = [[\<lparr>ge_type = LLAMA_GRETYPE_CHAR, ge_value = 97\<rparr>, \<lparr>ge_type = LLAMA_GRETYPE_RULE_REF, ge_value = 0\<rparr>,
     \<lparr>ge_type = LLAMA_GRETYPE_CHAR, ge_value = 98\<rparr>, \<lparr>ge_type = LLAMA_GRETYPE_ALT, ge_value = 0\<rparr>,
     \<lparr>ge_type = LLAMA_GRETYPE_CHAR, ge_value = 99\<rparr>, \<lparr>ge_type = LLAMA_GRETYPE_END, ge_value = 0\<rparr>]]"

lemma demo_init: "grammar_init_stacks demo_rules 0 = Some (Inr [[(0, 0)], [(0, 4)]])"
  by code_simp

lemma demo_run: "accept_all_chrs demo_rules [97, 99, 98] [[(0, 0)], [(0, 4)]] = Some (Inr [[]])"
  by code_simp

theorem grammar_accepts_language_witness: "rule_yields demo_rules 0 [97, 99, 98]"
  using grammar_accepts_language[OF demo_init demo_run] by simp

text \<open>The expansion of a stack ends exactly if only finitely many stacks can be reached from it by replacing the rule
  reference on top by its alternates.\<close>

theorem advance_stack_ends_iff:
  assumes "\<And>e. llama_grammar_advance_stack rules s new \<noteq> Some (Inl e)"
  shows "(\<exists>r. llama_grammar_advance_stack rules s new = Some r) \<longleftrightarrow> finite {t. ereach rules s t}"
  by (rule advance_stack_ends_sim[OF assms])

lemma demo_advance: "llama_grammar_advance_stack demo_rules [(0, 1)] [] = Some (Inr [[(0, 4), (0, 2)], [(0, 0), (0, 2)]])"
  by code_simp

theorem advance_stack_ends_iff_witness: "finite {t. ereach demo_rules [(0, 1)] t}"
  using advance_stack_ends_iff[of demo_rules "[(0, 1)]" "[]"] demo_advance by simp

end
