(* ===== verification/GrammarInit.thy ===== *)
theory GrammarInit
  imports GrammarLanguage
begin

text \<open>
  Building a grammar in \<open>src/llama-grammar.cpp\<close>: copying the rules, the check for left recursion and the initial stacks
  (\<open>llama_grammar_init_impl\<close>), and what the check buys: on a grammar that passes it, and in which only a rule with an empty
  alternate derives the empty text, the expansion of a stack always ends.
\<close>

section \<open>Rules\<close>

definition end_elem :: grammar_element where
  "end_elem = \<lparr>ge_type = LLAMA_GRETYPE_END, ge_value = 0\<rparr>"

text \<open>Every rule is copied up to its END element.\<close>

definition copy_rule :: "grammar_element list \<Rightarrow> grammar_element list" where
  "copy_rule rule = takeWhile (\<lambda>e. ge_type e \<noteq> LLAMA_GRETYPE_END) rule @ [end_elem]"

definition end_of_sequence :: "grammar_element \<Rightarrow> bool" where
  "end_of_sequence e = (case ge_type e of LLAMA_GRETYPE_END \<Rightarrow> True | LLAMA_GRETYPE_ALT \<Rightarrow> True | _ \<Rightarrow> False)"

section \<open>The check for left recursion\<close>

record lr_state =
  rules_visited :: "bool list"
  rules_in_progress :: "bool list"
  rules_may_be_empty :: "bool list"

text \<open>Whether a rule has an empty alternate: the first loop.\<close>

fun has_empty_alternate :: "bool \<Rightarrow> grammar_element list \<Rightarrow> bool" where
  "has_empty_alternate at_rule_start [] = False"
| "has_empty_alternate at_rule_start (e # es) =
     (if end_of_sequence e then (if at_rule_start then True else has_empty_alternate True es)
      else has_empty_alternate False es)"

text \<open>The second loop, over the elements of a rule; \<open>detect\<close> is the recursive call.\<close>

fun detect_scan :: "(nat \<Rightarrow> lr_state \<Rightarrow> (bool \<times> lr_state) option) \<Rightarrow> grammar_element list \<Rightarrow> bool \<Rightarrow> lr_state
    \<Rightarrow> (bool \<times> lr_state) option" where
  "detect_scan detect [] recurse_into_nonterminal st = Some (False, st)"
| "detect_scan detect (e # es) recurse_into_nonterminal st =
     (if ge_type e = LLAMA_GRETYPE_RULE_REF \<and> recurse_into_nonterminal then
        (case detect (unat (ge_value e)) st of
           None \<Rightarrow> None
         | Some (True, st') \<Rightarrow> Some (True, st')
         | Some (False, st') \<Rightarrow> detect_scan detect es (rules_may_be_empty st' ! unat (ge_value e)) st')
      else if end_of_sequence e then detect_scan detect es True st
      else detect_scan detect es False st)"

text \<open>The first argument bounds the depth of the recursion; every level has one more rule in progress, so one more than the
  number of rules is enough (\<open>detect_returns\<close>).\<close>

fun llama_grammar_detect_left_recursion :: "nat \<Rightarrow> grammar_rules \<Rightarrow> nat \<Rightarrow> lr_state \<Rightarrow> (bool \<times> lr_state) option" where
  "llama_grammar_detect_left_recursion 0 rules rule_index st = None"
| "llama_grammar_detect_left_recursion (Suc n) rules rule_index st =
     (if rules_in_progress st ! rule_index then Some (True, st)
      else
        (let st1 = st\<lparr>rules_in_progress := (rules_in_progress st)[rule_index := True]\<rparr>;
             st2 = (if has_empty_alternate True (rules ! rule_index)
                    then st1\<lparr>rules_may_be_empty := (rules_may_be_empty st1)[rule_index := True]\<rparr> else st1)
         in case detect_scan (llama_grammar_detect_left_recursion n rules) (rules ! rule_index) True st2 of
              None \<Rightarrow> None
            | Some (True, st3) \<Rightarrow> Some (True, st3)
            | Some (False, st3) \<Rightarrow>
                Some (False, st3\<lparr>rules_in_progress := (rules_in_progress st3)[rule_index := False],
                                 rules_visited := (rules_visited st3)[rule_index := True]\<rparr>)))"

text \<open>The loop over the rules.\<close>

fun check_rules :: "grammar_rules \<Rightarrow> nat list \<Rightarrow> lr_state \<Rightarrow> (bool \<times> lr_state) option" where
  "check_rules rules [] st = Some (False, st)"
| "check_rules rules (i # is) st =
     (if rules_visited st ! i then check_rules rules is st
      else
        (case llama_grammar_detect_left_recursion (Suc (length rules)) rules i st of
           None \<Rightarrow> None
         | Some (True, st') \<Rightarrow> Some (True, st')
         | Some (False, st') \<Rightarrow> check_rules rules is st'))"

definition lr_init :: "nat \<Rightarrow> lr_state" where
  "lr_init n_rules =
     \<lparr>rules_visited = replicate n_rules False, rules_in_progress = replicate n_rules False,
      rules_may_be_empty = replicate n_rules False\<rparr>"

definition left_recursion_detected :: "grammar_rules \<Rightarrow> bool option" where
  "left_recursion_detected rules = map_option fst (check_rules rules [0..<length rules] (lr_init (length rules)))"

section \<open>llama_grammar_init_impl\<close>

text \<open>\<open>Inr None\<close> is the null pointer returned on left recursion; otherwise the copied rules and the initial stacks.\<close>

definition grammar_init_rules :: "grammar_rules \<Rightarrow> nat \<Rightarrow> (grammar_error + (grammar_rules \<times> grammar_stack list) option) option" where
  "grammar_init_rules rules start_rule_index =
     (let vec_rules = map copy_rule rules
      in case left_recursion_detected vec_rules of
           None \<Rightarrow> None
         | Some True \<Rightarrow> Some (Inr None)
         | Some False \<Rightarrow>
             (case grammar_init_stacks vec_rules start_rule_index of
                None \<Rightarrow> None
              | Some (Inl e) \<Rightarrow> Some (Inl e)
              | Some (Inr stacks) \<Rightarrow> Some (Inr (Some (vec_rules, stacks)))))"

section \<open>The check returns\<close>

definition refs_ok :: "grammar_rules \<Rightarrow> bool" where
  "refs_ok rules \<longleftrightarrow> list_all (list_all (\<lambda>e. ge_type e = LLAMA_GRETYPE_RULE_REF \<longrightarrow> unat (ge_value e) < length rules)) rules"

definition lr_ok :: "nat \<Rightarrow> lr_state \<Rightarrow> bool" where
  "lr_ok n st \<longleftrightarrow> length (rules_visited st) = n \<and> length (rules_in_progress st) = n \<and> length (rules_may_be_empty st) = n"

definition free_count :: "lr_state \<Rightarrow> nat" where
  "free_count st = length (filter Not (rules_in_progress st))"

text \<open>What a call that finds no left recursion leaves: the same rules in progress, and no flag lost.\<close>

definition lr_keeps :: "lr_state \<Rightarrow> lr_state \<Rightarrow> bool" where
  "lr_keeps st st' \<longleftrightarrow> rules_in_progress st' = rules_in_progress st \<and>
     length (rules_visited st') = length (rules_visited st) \<and> length (rules_may_be_empty st') = length (rules_may_be_empty st) \<and>
     (\<forall>i. i < length (rules_may_be_empty st) \<longrightarrow> rules_may_be_empty st ! i \<longrightarrow> rules_may_be_empty st' ! i)"

lemma lr_keeps_refl [simp]: "lr_keeps st st" by (simp add: lr_keeps_def)

lemma lr_keeps_trans: "lr_keeps a b \<Longrightarrow> lr_keeps b c \<Longrightarrow> lr_keeps a c"
  by (auto simp: lr_keeps_def)

lemma lr_keeps_ok: "lr_keeps st st' \<Longrightarrow> lr_ok n st \<Longrightarrow> lr_ok n st'"
  by (auto simp: lr_keeps_def lr_ok_def)

lemma lr_keeps_free: "lr_keeps st st' \<Longrightarrow> free_count st' = free_count st"
  by (auto simp: lr_keeps_def free_count_def)

lemma refs_ok_elem: "refs_ok rules \<Longrightarrow> r < length rules \<Longrightarrow> e \<in> set (rules ! r) \<Longrightarrow> ge_type e = LLAMA_GRETYPE_RULE_REF \<Longrightarrow>
    unat (ge_value e) < length rules"
  unfolding refs_ok_def list_all_iff using nth_mem by blast

lemma detect_scan_keeps:
  assumes "\<And>i s s'. detect i s = Some (False, s') \<Longrightarrow> lr_keeps s s'"
  shows "detect_scan detect es f st = Some (False, st') \<Longrightarrow> lr_keeps st st'"
proof (induction es arbitrary: f st)
  case Nil
  then show ?case by simp
next
  case (Cons e es)
  show ?case
  proof (cases "ge_type e = LLAMA_GRETYPE_RULE_REF \<and> f")
    case True
    then obtain s' where s': "detect (unat (ge_value e)) st = Some (False, s')"
      "detect_scan detect es (rules_may_be_empty s' ! unat (ge_value e)) s' = Some (False, st')"
      using Cons.prems by (auto split: option.splits bool.splits)
    show ?thesis using lr_keeps_trans[OF assms[OF s'(1)] Cons.IH[OF s'(2)]] .
  next
    case False
    then show ?thesis using Cons by (simp split: if_splits)
  qed
qed

lemma detect_keeps: "llama_grammar_detect_left_recursion n rules i st = Some (False, st') \<Longrightarrow> lr_keeps st st'"
proof (induction n arbitrary: i st st')
  case 0
  then show ?case by simp
next
  case (Suc n)
  let ?st1 = "st\<lparr>rules_in_progress := (rules_in_progress st)[i := True]\<rparr>"
  let ?st2 = "if has_empty_alternate True (rules ! i) then ?st1\<lparr>rules_may_be_empty := (rules_may_be_empty ?st1)[i := True]\<rparr> else ?st1"
  have np: "\<not> rules_in_progress st ! i" using Suc.prems by (simp split: if_splits)
  obtain st3 where st3: "detect_scan (llama_grammar_detect_left_recursion n rules) (rules ! i) True ?st2 = Some (False, st3)"
    and st': "st' = st3\<lparr>rules_in_progress := (rules_in_progress st3)[i := False], rules_visited := (rules_visited st3)[i := True]\<rparr>"
    using Suc.prems np by (auto simp: Let_def split: option.splits bool.splits)
  have k: "lr_keeps ?st2 st3" by (rule detect_scan_keeps[OF _ st3]) (rule Suc.IH)
  have p: "(rules_in_progress st)[i := False] = rules_in_progress st"
    using np by (metis list_update_id)
  have mono: "(rules_may_be_empty st)[i := True] ! j" if "j < length (rules_may_be_empty st)" "rules_may_be_empty st ! j" for j
    using that by (cases "j = i") auto
  show ?case using k p mono unfolding st' by (auto simp: lr_keeps_def split: if_splits)
qed


lemma free_count_mark:
  assumes "lr_ok n st" "i < n" "\<not> rules_in_progress st ! i"
  shows "Suc (free_count (st\<lparr>rules_in_progress := (rules_in_progress st)[i := True]\<rparr>)) = free_count st"
  using length_filter_update[of i "rules_in_progress st" Not True] assms by (simp add: free_count_def lr_ok_def)

lemma detect_scan_returns:
  assumes "\<And>i s. i < n \<Longrightarrow> lr_ok n s \<Longrightarrow> free_count s = k \<Longrightarrow> \<exists>r. detect i s = Some r"
    and "\<And>i s s'. detect i s = Some (False, s') \<Longrightarrow> lr_keeps s s'"
  shows "\<forall>e \<in> set es. ge_type e = LLAMA_GRETYPE_RULE_REF \<longrightarrow> unat (ge_value e) < n \<Longrightarrow> lr_ok n st \<Longrightarrow> free_count st = k \<Longrightarrow>
    \<exists>r. detect_scan detect es f st = Some r"
proof (induction es arbitrary: f st)
  case Nil
  then show ?case by simp blast
next
  case (Cons e es)
  show ?case
  proof (cases "ge_type e = LLAMA_GRETYPE_RULE_REF \<and> f")
    case True
    then obtain b s' where b: "detect (unat (ge_value e)) st = Some (b, s')"
      using assms(1)[of "unat (ge_value e)" st] Cons.prems by auto
    show ?thesis
    proof (cases b)
      case True
      then show ?thesis using b \<open>ge_type e = LLAMA_GRETYPE_RULE_REF \<and> f\<close> by simp blast
    next
      case False
      then have "lr_keeps st s'" using b assms(2) by simp
      then have "\<exists>r. detect_scan detect es (rules_may_be_empty s' ! unat (ge_value e)) s' = Some r"
        using Cons lr_keeps_ok lr_keeps_free by auto
      then show ?thesis using b False \<open>ge_type e = LLAMA_GRETYPE_RULE_REF \<and> f\<close> by simp
    qed
  next
    case False
    then show ?thesis using Cons by auto
  qed
qed

lemma detect_returns:
  "free_count st < n \<Longrightarrow> refs_ok rules \<Longrightarrow> i < length rules \<Longrightarrow> lr_ok (length rules) st \<Longrightarrow>
   \<exists>r. llama_grammar_detect_left_recursion n rules i st = Some r"
proof (induction n arbitrary: i st)
  case 0
  then show ?case by simp
next
  case (Suc n)
  show ?case
  proof (cases "rules_in_progress st ! i")
    case True
    then show ?thesis by simp blast
  next
    case False
    let ?st1 = "st\<lparr>rules_in_progress := (rules_in_progress st)[i := True]\<rparr>"
    let ?st2 = "if has_empty_alternate True (rules ! i) then ?st1\<lparr>rules_may_be_empty := (rules_may_be_empty ?st1)[i := True]\<rparr> else ?st1"
    have ok: "lr_ok (length rules) ?st2" using Suc.prems(4) by (simp add: lr_ok_def)
    have "free_count ?st2 = free_count ?st1" by (simp add: free_count_def)
    then have free: "free_count ?st2 < n" using free_count_mark[OF Suc.prems(4,3) False] Suc.prems(1) by simp
    have "\<exists>r. detect_scan (llama_grammar_detect_left_recursion n rules) (rules ! i) True ?st2 = Some r"
    proof (rule detect_scan_returns[where k = "free_count ?st2" and n = "length rules"])
      show "\<exists>r. llama_grammar_detect_left_recursion n rules j s = Some r"
        if "j < length rules" "lr_ok (length rules) s" "free_count s = free_count ?st2" for j s
        using Suc.IH[of s j] Suc.prems(2) that free by simp
      show "lr_keeps s s'" if "llama_grammar_detect_left_recursion n rules j s = Some (False, s')" for j s s'
        using detect_keeps[OF that] .
      show "\<forall>e\<in>set (rules ! i). ge_type e = LLAMA_GRETYPE_RULE_REF \<longrightarrow> unat (ge_value e) < length rules"
        using refs_ok_elem[OF Suc.prems(2,3)] by blast
    qed (use ok in simp_all)
    then obtain b s3 where b: "detect_scan (llama_grammar_detect_left_recursion n rules) (rules ! i) True ?st2 = Some (b, s3)" by auto
    show ?thesis
      unfolding llama_grammar_detect_left_recursion.simps Let_def b using False by (cases b) auto
  qed
qed

lemma check_rules_returns:
  "refs_ok rules \<Longrightarrow> \<forall>i \<in> set is. i < length rules \<Longrightarrow> lr_ok (length rules) st \<Longrightarrow> \<exists>r. check_rules rules is st = Some r"
proof (induction "is" arbitrary: st)
  case Nil
  then show ?case by simp blast
next
  case (Cons i "is")
  show ?case
  proof (cases "rules_visited st ! i")
    case True
    then show ?thesis using Cons by simp
  next
    case False
    have "free_count st \<le> length (rules_in_progress st)" by (simp add: free_count_def)
    then have "free_count st < Suc (length rules)" using Cons.prems(3) by (simp add: lr_ok_def)
    then obtain b s' where b: "llama_grammar_detect_left_recursion (Suc (length rules)) rules i st = Some (b, s')"
      using detect_returns[of st "Suc (length rules)" rules i] Cons.prems by auto
    show ?thesis
    proof (cases b)
      case True
      then have "check_rules rules (i # is) st = Some (True, s')"
        using b \<open>\<not> rules_visited st ! i\<close> unfolding check_rules.simps by simp
      then show ?thesis by blast
    next
      case False
      then have "lr_keeps st s'" using b detect_keeps by (simp del: llama_grammar_detect_left_recursion.simps)
      then have "lr_ok (length rules) s'" using lr_keeps_ok Cons.prems(3) by blast
      then have "\<exists>r. check_rules rules is s' = Some r" using Cons by simp
      then show ?thesis using b False \<open>\<not> rules_visited st ! i\<close> by (simp del: llama_grammar_detect_left_recursion.simps)
    qed
  qed
qed

lemma left_recursion_returns: "refs_ok rules \<Longrightarrow> \<exists>b. left_recursion_detected rules = Some b"
  using check_rules_returns[of rules "[0..<length rules]" "lr_init (length rules)"]
  by (auto simp: left_recursion_detected_def lr_init_def lr_ok_def)

section \<open>What the check establishes\<close>

text \<open>The positions of a rule the check recurses at, and the references it follows.\<close>

inductive leftmost :: "grammar_rules \<Rightarrow> nat \<Rightarrow> gpos \<Rightarrow> bool" for rules r where
  lm_start: "a \<in> set (alternates rules (r, 0)) \<Longrightarrow> leftmost rules r a"
| lm_skip: "leftmost rules r p \<Longrightarrow> type_at rules p = LLAMA_GRETYPE_RULE_REF \<Longrightarrow>
    has_empty_alternate True (rules ! unat (value_at rules p)) \<Longrightarrow> leftmost rules r (gnext p)"

definition left_ref :: "grammar_rules \<Rightarrow> nat \<Rightarrow> nat \<Rightarrow> bool" where
  "left_ref rules r' r \<longleftrightarrow> (\<exists>p. leftmost rules r p \<and> type_at rules p = LLAMA_GRETYPE_RULE_REF \<and> unat (value_at rules p) = r')"

abbreviation no_left_recursion :: "grammar_rules \<Rightarrow> nat \<Rightarrow> bool" where
  "no_left_recursion rules r \<equiv> Wellfounded.accp (left_ref rules) r"

lemma scan_end_fst: "fst (scan_end rules p) = fst p"
proof (induction rules p rule: scan_end.induct)
  case (1 rules p)
  then show ?case by (subst scan_end.simps) (auto simp: gnext_def)
qed

lemma scan_end_ge: "snd p \<le> snd (scan_end rules p)"
proof (induction rules p rule: scan_end.induct)
  case (1 rules p)
  then show ?case by (subst scan_end.simps) (auto simp: gnext_def)
qed

lemma alternates_in:
  "a \<in> set (alternates rules p) \<Longrightarrow> a = p \<or> (\<exists>j. a = (fst p, Suc j) \<and> type_at rules (fst p, j) = LLAMA_GRETYPE_ALT)"
proof (induction rules p rule: alternates.induct)
  case (1 rules p)
  let ?q = "scan_end rules p"
  show ?case
  proof (cases "a = p")
    case False
    then have alt: "type_at rules ?q = LLAMA_GRETYPE_ALT" and a: "a \<in> set (alternates rules (gnext ?q))"
      using 1(2) by (subst (asm) alternates.simps, simp add: Let_def split: if_splits)+
    have q: "?q = (fst p, snd ?q)" using scan_end_fst[of rules p] by (metis prod.collapse)
    have "a = gnext ?q \<or> (\<exists>j. a = (fst (gnext ?q), Suc j) \<and> type_at rules (fst (gnext ?q), j) = LLAMA_GRETYPE_ALT)"
      by (rule 1(1)[OF refl alt a])
    moreover have "fst (gnext ?q) = fst p" by (simp add: gnext_def scan_end_fst)
    moreover have "gnext ?q = (fst p, Suc (snd ?q))" by (simp add: gnext_def scan_end_fst)
    ultimately show ?thesis using alt q by metis
  qed simp
qed

lemma leftmost_fst: "leftmost rules r p \<Longrightarrow> fst p = r"
proof (induction rule: leftmost.induct)
  case (lm_start a)
  then show ?case using alternates_in by fastforce
qed (simp add: gnext_def)

lemma leftmost_pred:
  "leftmost rules r (r, i) \<Longrightarrow> i = 0 \<or>
     (\<exists>j. i = Suc j \<and> (type_at rules (r, j) = LLAMA_GRETYPE_ALT \<or>
        (leftmost rules r (r, j) \<and> type_at rules (r, j) = LLAMA_GRETYPE_RULE_REF \<and>
         has_empty_alternate True (rules ! unat (value_at rules (r, j))))))"
proof (induction "(r, i)" rule: leftmost.induct)
  case lm_start
  then show ?case using alternates_in by fastforce
next
  case (lm_skip p)
  have "p = (r, snd p)" using leftmost_fst[OF lm_skip(1)] by (metis prod.collapse)
  then show ?case using lm_skip by (auto simp: gnext_def)
qed

text \<open>A call that finds nothing sets the flag of its rule, if the rule has an empty alternate.\<close>

lemma detect_flag:
  assumes "llama_grammar_detect_left_recursion n rules i st = Some (False, st')" "lr_ok (length rules) st" "i < length rules"
    "has_empty_alternate True (rules ! i)"
  shows "rules_may_be_empty st' ! i"
proof (cases n)
  case 0
  then show ?thesis using assms(1) by simp
next
  case (Suc m)
  let ?st1 = "st\<lparr>rules_in_progress := (rules_in_progress st)[i := True]\<rparr>"
  let ?st2 = "?st1\<lparr>rules_may_be_empty := (rules_may_be_empty ?st1)[i := True]\<rparr>"
  have np: "\<not> rules_in_progress st ! i" using assms(1) Suc by (simp split: if_splits)
  obtain st3 where st3: "detect_scan (llama_grammar_detect_left_recursion m rules) (rules ! i) True ?st2 = Some (False, st3)"
    and st': "st' = st3\<lparr>rules_in_progress := (rules_in_progress st3)[i := False], rules_visited := (rules_visited st3)[i := True]\<rparr>"
    using assms(1,4) Suc np by (auto simp: Let_def split: option.splits bool.splits)
  have "lr_keeps ?st2 st3" by (rule detect_scan_keeps[OF _ st3]) (rule detect_keeps)
  then show ?thesis using assms(2,3) unfolding st' by (simp add: lr_keeps_def lr_ok_def)
qed

text \<open>The scan of a rule calls \<open>detect\<close> on every leftmost reference.\<close>

lemma detect_scan_covers:
  assumes "refs_ok rules" "r < length rules"
    and "\<And>i s s'. detect i s = Some (False, s') \<Longrightarrow> lr_keeps s s'"
    and "\<And>i s s'. detect i s = Some (False, s') \<Longrightarrow> lr_ok (length rules) s \<Longrightarrow> i < length rules \<Longrightarrow>
           P i \<and> (has_empty_alternate True (rules ! i) \<longrightarrow> rules_may_be_empty s' ! i)"
  shows "detect_scan detect es f st = Some (False, st') \<Longrightarrow> drop k (rules ! r) = es \<Longrightarrow> lr_ok (length rules) st \<Longrightarrow>
    (leftmost rules r (r, k) \<Longrightarrow> f) \<Longrightarrow>
    \<forall>i \<ge> k. i < length (rules ! r) \<longrightarrow> leftmost rules r (r, i) \<longrightarrow> type_at rules (r, i) = LLAMA_GRETYPE_RULE_REF \<longrightarrow>
      P (unat (value_at rules (r, i)))"
proof (induction es arbitrary: f st k)
  case Nil
  then show ?case by simp
next
  case (Cons e es)
  have k: "k < length (rules ! r)" using Cons.prems(2) by (cases "k < length (rules ! r)") simp_all
  have e: "elem_at rules (r, k) = e" and es: "drop (Suc k) (rules ! r) = es"
    using Cons.prems(2) k assms(2) by (simp_all add: elem_at_def Cons_nth_drop_Suc[symmetric])
  have split: "i = k \<or> Suc k \<le> i" if "k \<le> i" for i using that by auto
  show ?case
  proof (cases "ge_type e = LLAMA_GRETYPE_RULE_REF \<and> f")
    case True
    then obtain s' where s': "detect (unat (ge_value e)) st = Some (False, s')"
      "detect_scan detect es (rules_may_be_empty s' ! unat (ge_value e)) s' = Some (False, st')"
      using Cons.prems(1) by (auto split: option.splits bool.splits)
    have v: "unat (ge_value e) < length rules"
      using refs_ok_elem[OF assms(1,2), of e] True Cons.prems(2) by (metis in_set_dropD list.set_intros(1))
    note P = assms(4)[OF s'(1) Cons.prems(3) v]
    have "rules_may_be_empty s' ! unat (ge_value e)" if "leftmost rules r (r, Suc k)"
      using leftmost_pred[OF that] P e True by auto
    then have "\<forall>i \<ge> Suc k. i < length (rules ! r) \<longrightarrow> leftmost rules r (r, i) \<longrightarrow> type_at rules (r, i) = LLAMA_GRETYPE_RULE_REF \<longrightarrow>
      P (unat (value_at rules (r, i)))"
      using Cons.IH[OF s'(2) es] lr_keeps_ok[OF assms(3)[OF s'(1)] Cons.prems(3)] by blast
    then show ?thesis using split P e by blast
  next
    case False
    let ?f = "end_of_sequence e"
    have st: "detect_scan detect es ?f st = Some (False, st')"
      using Cons.prems(1) False by (auto split: if_splits)
    have "?f" if "leftmost rules r (r, Suc k)"
      using leftmost_pred[OF that] False e Cons.prems(4) by (auto simp: end_of_sequence_def)
    then have "\<forall>i \<ge> Suc k. i < length (rules ! r) \<longrightarrow> leftmost rules r (r, i) \<longrightarrow> type_at rules (r, i) = LLAMA_GRETYPE_RULE_REF \<longrightarrow>
      P (unat (value_at rules (r, i)))"
      using Cons.IH[OF st es Cons.prems(3)] by blast
    then show ?thesis using split False e Cons.prems(4) by blast
  qed
qed

lemma detect_accessible:
  "llama_grammar_detect_left_recursion n rules r st = Some (False, st') \<Longrightarrow> refs_ok rules \<Longrightarrow> r < length rules \<Longrightarrow>
   lr_ok (length rules) st \<Longrightarrow> no_left_recursion rules r"
proof (induction n arbitrary: r st st')
  case 0
  then show ?case by simp
next
  case (Suc n)
  let ?st1 = "st\<lparr>rules_in_progress := (rules_in_progress st)[r := True]\<rparr>"
  let ?st2 = "if has_empty_alternate True (rules ! r) then ?st1\<lparr>rules_may_be_empty := (rules_may_be_empty ?st1)[r := True]\<rparr> else ?st1"
  have np: "\<not> rules_in_progress st ! r" using Suc.prems(1) by (simp split: if_splits)
  obtain st3 where st3: "detect_scan (llama_grammar_detect_left_recursion n rules) (rules ! r) True ?st2 = Some (False, st3)"
    using Suc.prems(1) np by (auto simp: Let_def split: option.splits bool.splits)
  have ok: "lr_ok (length rules) ?st2" using Suc.prems(4) by (simp add: lr_ok_def)
  have cov: "\<forall>i \<ge> 0. i < length (rules ! r) \<longrightarrow> leftmost rules r (r, i) \<longrightarrow> type_at rules (r, i) = LLAMA_GRETYPE_RULE_REF \<longrightarrow>
      no_left_recursion rules (unat (value_at rules (r, i)))"
  proof (rule detect_scan_covers[OF Suc.prems(2,3) _ _ st3 _ ok])
    show "lr_keeps s s'" if "llama_grammar_detect_left_recursion n rules i s = Some (False, s')" for i s s'
      using detect_keeps[OF that] .
    show "no_left_recursion rules i \<and> (has_empty_alternate True (rules ! i) \<longrightarrow> rules_may_be_empty s' ! i)"
      if "llama_grammar_detect_left_recursion n rules i s = Some (False, s')" "lr_ok (length rules) s" "i < length rules" for i s s'
      using Suc.IH[OF that(1) Suc.prems(2) that(3,2)] detect_flag[OF that] by blast
  qed simp_all
  show ?case
  proof (rule accpI)
    fix y assume "left_ref rules y r"
    then obtain p where p: "leftmost rules r p" "type_at rules p = LLAMA_GRETYPE_RULE_REF" "unat (value_at rules p) = y"
      by (auto simp: left_ref_def)
    have "p = (r, snd p)" using leftmost_fst[OF p(1)] by (metis prod.collapse)
    moreover have "snd p < length (rules ! fst p)" using p(2) by (auto simp: elem_at_def split: if_splits)
    ultimately show "no_left_recursion rules y" using cov p leftmost_fst[OF p(1)] by (metis le0)
  qed
qed

definition visited_sound :: "grammar_rules \<Rightarrow> lr_state \<Rightarrow> lr_state \<Rightarrow> bool" where
  "visited_sound rules st st' \<longleftrightarrow>
     (\<forall>j < length rules. rules_visited st' ! j \<longrightarrow> rules_visited st ! j \<or> no_left_recursion rules j)"

lemma detect_scan_visited:
  assumes "\<And>i s s'. detect i s = Some (False, s') \<Longrightarrow> lr_ok (length rules) s \<Longrightarrow> i < length rules \<Longrightarrow>
      visited_sound rules s s' \<and> lr_ok (length rules) s'"
  shows "detect_scan detect es f st = Some (False, st') \<Longrightarrow> lr_ok (length rules) st \<Longrightarrow>
    \<forall>e \<in> set es. ge_type e = LLAMA_GRETYPE_RULE_REF \<longrightarrow> unat (ge_value e) < length rules \<Longrightarrow> visited_sound rules st st'"
proof (induction es arbitrary: f st)
  case Nil
  then show ?case by (simp add: visited_sound_def)
next
  case (Cons e es)
  show ?case
  proof (cases "ge_type e = LLAMA_GRETYPE_RULE_REF \<and> f")
    case True
    then obtain s' where s': "detect (unat (ge_value e)) st = Some (False, s')"
      "detect_scan detect es (rules_may_be_empty s' ! unat (ge_value e)) s' = Some (False, st')"
      using Cons.prems(1) by (auto split: option.splits bool.splits)
    have "visited_sound rules st s' \<and> lr_ok (length rules) s'" using assms[OF s'(1) Cons.prems(2)] Cons.prems(3) True by simp
    moreover from this have "visited_sound rules s' st'" using Cons.IH[OF s'(2)] Cons.prems(3) by simp
    ultimately show ?thesis unfolding visited_sound_def by blast
  next
    case False
    then show ?thesis using Cons by (simp split: if_splits)
  qed
qed

lemma detect_visited:
  "llama_grammar_detect_left_recursion n rules r st = Some (False, st') \<Longrightarrow> refs_ok rules \<Longrightarrow> r < length rules \<Longrightarrow>
   lr_ok (length rules) st \<Longrightarrow> visited_sound rules st st'"
proof (induction n arbitrary: r st st')
  case 0
  then show ?case by simp
next
  case (Suc n)
  let ?st1 = "st\<lparr>rules_in_progress := (rules_in_progress st)[r := True]\<rparr>"
  let ?st2 = "if has_empty_alternate True (rules ! r) then ?st1\<lparr>rules_may_be_empty := (rules_may_be_empty ?st1)[r := True]\<rparr> else ?st1"
  have np: "\<not> rules_in_progress st ! r" using Suc.prems(1) by (simp split: if_splits)
  obtain st3 where st3: "detect_scan (llama_grammar_detect_left_recursion n rules) (rules ! r) True ?st2 = Some (False, st3)"
    and st': "st' = st3\<lparr>rules_in_progress := (rules_in_progress st3)[r := False], rules_visited := (rules_visited st3)[r := True]\<rparr>"
    using Suc.prems(1) np by (auto simp: Let_def split: option.splits bool.splits)
  have ok: "lr_ok (length rules) ?st2" using Suc.prems(4) by (simp add: lr_ok_def)
  have "visited_sound rules ?st2 st3"
  proof (rule detect_scan_visited[OF _ st3 ok])
    show "visited_sound rules s s' \<and> lr_ok (length rules) s'"
      if "llama_grammar_detect_left_recursion n rules i s = Some (False, s')" "lr_ok (length rules) s" "i < length rules" for i s s'
      using Suc.IH[OF that(1) Suc.prems(2) that(3,2)] lr_keeps_ok[OF detect_keeps[OF that(1)] that(2)] by blast
    show "\<forall>e\<in>set (rules ! r). ge_type e = LLAMA_GRETYPE_RULE_REF \<longrightarrow> unat (ge_value e) < length rules"
      using refs_ok_elem[OF Suc.prems(2,3)] by blast
  qed
  moreover have "rules_visited ?st2 = rules_visited st" by simp
  moreover have "no_left_recursion rules r" by (rule detect_accessible[OF Suc.prems])
  ultimately have "rules_visited st ! j \<or> no_left_recursion rules j" if "j < length rules" "rules_visited st' ! j" for j
    using that unfolding visited_sound_def st' by (cases "j = r") simp_all
  then show ?case unfolding visited_sound_def by blast
qed

lemma check_rules_accessible:
  "check_rules rules is st = Some (False, st') \<Longrightarrow> refs_ok rules \<Longrightarrow> \<forall>i \<in> set is. i < length rules \<Longrightarrow> lr_ok (length rules) st \<Longrightarrow>
   (\<forall>i < length rules. rules_visited st ! i \<longrightarrow> no_left_recursion rules i) \<Longrightarrow> \<forall>i \<in> set is. no_left_recursion rules i"
proof (induction "is" arbitrary: st)
  case Nil
  then show ?case by simp
next
  case (Cons i "is")
  have i: "i < length rules" using Cons.prems(3) by simp
  show ?case
  proof (cases "rules_visited st ! i")
    case True
    then show ?thesis using Cons i by simp
  next
    case False
    obtain s' where s': "llama_grammar_detect_left_recursion (Suc (length rules)) rules i st = Some (False, s')"
      "check_rules rules is s' = Some (False, st')"
      using Cons.prems(1) False unfolding check_rules.simps(2) by (auto simp del: llama_grammar_detect_left_recursion.simps split: option.splits bool.splits)
    have "\<forall>i < length rules. rules_visited s' ! i \<longrightarrow> no_left_recursion rules i"
      using detect_visited[OF s'(1) Cons.prems(2) i Cons.prems(4)] Cons.prems(5) unfolding visited_sound_def by blast
    then have "\<forall>i \<in> set is. no_left_recursion rules i"
      using Cons.IH[OF s'(2) Cons.prems(2) _ lr_keeps_ok[OF detect_keeps[OF s'(1)] Cons.prems(4)]] Cons.prems(3) by simp
    then show ?thesis using detect_accessible[OF s'(1) Cons.prems(2) i Cons.prems(4)] by simp
  qed
qed

lemma check_no_left_recursion:
  assumes "left_recursion_detected rules = Some False" "refs_ok rules" "r < length rules"
  shows "no_left_recursion rules r"
proof -
  obtain st' where "check_rules rules [0..<length rules] (lr_init (length rules)) = Some (False, st')"
    using assms(1) by (auto simp: left_recursion_detected_def)
  from check_rules_accessible[OF this assms(2)] show ?thesis using assms(3) by (simp add: lr_init_def lr_ok_def)
qed

section \<open>The expansion of a stack ends\<close>

text \<open>The flag of the check sees only an empty alternate.  \<open>empty_is_syntactic\<close>: no rule derives the empty text otherwise.\<close>

definition empty_is_syntactic :: "grammar_rules \<Rightarrow> bool" where
  "empty_is_syntactic rules \<longleftrightarrow> (\<forall>r < length rules. rule_yields rules r [] \<longrightarrow> has_empty_alternate True (rules ! r))"

abbreviation finite_reach :: "grammar_rules \<Rightarrow> grammar_stack \<Rightarrow> bool" where
  "finite_reach rules s \<equiv> finite {t. ereach rules s t}"

lemma finite_reach_stuck: "(\<And>t. \<not> estep rules s t) \<Longrightarrow> finite_reach rules s"
proof -
  assume a: "\<And>t. \<not> estep rules s t"
  have "t = s" if "ereach rules s t" for t using that by (induction rule: rtranclp_induct) (use a in auto)
  then have "{t. ereach rules s t} \<subseteq> {s}" by auto
  then show ?thesis using finite_subset by blast
qed

lemma finite_reach_steps:
  assumes "finite {t. estep rules s t}" "\<And>t. estep rules s t \<Longrightarrow> finite_reach rules t"
  shows "finite_reach rules s"
proof -
  have "{t. ereach rules s t} \<subseteq> insert s (\<Union>u \<in> {u. estep rules s u}. {t. ereach rules u t})"
    by (auto elim: converse_rtranclpE)
  then show ?thesis by (rule finite_subset) (use assms in auto)
qed

lemma finite_reach_ref:
  assumes "type_at rules p = LLAMA_GRETYPE_RULE_REF"
    and "\<And>a. a \<in> set (alternates rules (unat (value_at rules p), 0)) \<Longrightarrow> finite_reach rules (push_pos rules a (push_pos rules (gnext p) rest))"
  shows "finite_reach rules (p # rest)"
proof (rule finite_reach_steps)
  have "{t. estep rules (p # rest) t} = set (expand_ref rules p rest)" using estep_ref[OF assms(1)] by blast
  then show "finite {t. estep rules (p # rest) t}" by simp
  show "finite_reach rules t" if "estep rules (p # rest) t" for t
    using that assms(2) unfolding estep_ref[OF assms(1)] in_expand_ref by blast
qed

lemma type_at_room: "type_at rules p = LLAMA_GRETYPE_RULE_REF \<Longrightarrow> room rules (gnext p) < room rules p"
  by (rule room_next) simp

lemma ref_target:
  assumes "refs_ok rules" "type_at rules p = LLAMA_GRETYPE_RULE_REF"
  shows "unat (value_at rules p) < length rules"
  using refs_ok_elem[OF assms(1), of "fst p" "elem_at rules p"] assms(2) by (auto simp: elem_at_def split: if_splits)

text \<open>
  An argument by descent, for a property \<open>Q\<close> of stacks that holds when a terminal is on top and that a reference inherits from
  all its expansions; \<open>good\<close> restricts the positions.
\<close>

locale expansion_property =
  fixes rules :: grammar_rules and Q :: "grammar_stack \<Rightarrow> bool" and good :: "gpos \<Rightarrow> bool"
  assumes Q_nil: "Q []"
    and Q_stuck: "good p \<Longrightarrow> type_at rules p \<noteq> LLAMA_GRETYPE_RULE_REF \<Longrightarrow> \<not> llama_grammar_is_end_of_sequence rules p \<Longrightarrow> Q (p # rest)"
    and Q_ref: "type_at rules p = LLAMA_GRETYPE_RULE_REF \<Longrightarrow>
      (\<And>a. a \<in> set (alternates rules (unat (value_at rules p), 0)) \<Longrightarrow> Q (push_pos rules a (push_pos rules (gnext p) rest))) \<Longrightarrow> Q (p # rest)"
    and good_start: "a \<in> set (alternates rules (r, 0)) \<Longrightarrow> good a"
    and good_next: "type_at rules p = LLAMA_GRETYPE_RULE_REF \<Longrightarrow> good (gnext p)"
begin

definition rule_has :: "nat \<Rightarrow> bool" where
  "rule_has r \<longleftrightarrow> (\<forall>rest. (rule_yields rules r [] \<longrightarrow> Q rest) \<longrightarrow> (\<forall>a \<in> set (alternates rules (r, 0)). Q (push_pos rules a rest)))"

definition pos_has :: "gpos \<Rightarrow> bool" where
  "pos_has p \<longleftrightarrow> (\<forall>rest. (yields rules p [] \<longrightarrow> Q rest) \<longrightarrow> Q (push_pos rules p rest))"

lemma pos_has_other:
  assumes "type_at rules p \<noteq> LLAMA_GRETYPE_RULE_REF" "good p"
  shows "pos_has p"
  using Q_stuck[OF assms(2,1)] by (auto simp: pos_has_def push_pos_def yields_end)

lemma pos_has_ref:
  assumes ref: "type_at rules p = LLAMA_GRETYPE_RULE_REF" and rule: "rule_has (unat (value_at rules p))"
    and nxt: "rule_yields rules (unat (value_at rules p)) [] \<Longrightarrow> pos_has (gnext p)"
  shows "pos_has p"
  unfolding pos_has_def
proof (intro allI impI)
  fix rest assume rest: "yields rules p [] \<longrightarrow> Q rest"
  let ?r = "unat (value_at rules p)"
  have nx: "rule_yields rules ?r [] \<longrightarrow> Q (push_pos rules (gnext p) rest)"
  proof
    assume e: "rule_yields rules ?r []"
    have "yields rules (gnext p) [] \<longrightarrow> Q rest"
      using rest e y_ref[OF ref, of _ "[]" "[]"] by (auto simp: rule_yields_def)
    then show "Q (push_pos rules (gnext p) rest)" using nxt[OF e] by (simp add: pos_has_def)
  qed
  have "Q (p # rest)" by (rule Q_ref[OF ref]) (use rule nx in \<open>auto simp: rule_has_def\<close>)
  moreover have "push_pos rules p rest = p # rest" using ref by (simp add: push_pos_def is_end_iff)
  ultimately show "Q (push_pos rules p rest)" by simp
qed

lemma leftmost_good: "leftmost rules r p \<Longrightarrow> good p"
  by (induction rule: leftmost.induct) (auto intro: good_start good_next)

lemma leftmost_has:
  assumes "refs_ok rules" "empty_is_syntactic rules"
    and "\<And>r'. left_ref rules r' r \<Longrightarrow> rule_has r'"
  shows "leftmost rules r p \<Longrightarrow> pos_has p"
proof (induction "room rules p" arbitrary: p rule: less_induct)
  case less
  show ?case
  proof (cases "type_at rules p = LLAMA_GRETYPE_RULE_REF")
    case True
    show ?thesis
    proof (rule pos_has_ref[OF True])
      show "rule_has (unat (value_at rules p))" using assms(3) less.prems True unfolding left_ref_def by blast
      assume "rule_yields rules (unat (value_at rules p)) []"
      then have "has_empty_alternate True (rules ! unat (value_at rules p))"
        using assms(2) ref_target[OF assms(1) True] by (simp add: empty_is_syntactic_def)
      then show "pos_has (gnext p)" using less.hyps[OF type_at_room[OF True]] lm_skip[OF less.prems True] by blast
    qed
  qed (rule pos_has_other[OF _ leftmost_good[OF less.prems]])
qed

lemma rule_has_acc:
  assumes "refs_ok rules" "empty_is_syntactic rules" "no_left_recursion rules r"
  shows "rule_has r"
  using assms(3)
proof (induction rule: accp.induct[case_names acc])
  case (acc r)
  have "pos_has a" if "a \<in> set (alternates rules (r, 0))" for a
    using leftmost_has[OF assms(1,2), of r] acc lm_start[OF that] by blast
  then show ?case unfolding rule_has_def pos_has_def rule_yields_def by blast
qed

lemma pos_has_all:
  assumes "refs_ok rules" "empty_is_syntactic rules" "left_recursion_detected rules = Some False"
  shows "good p \<Longrightarrow> pos_has p"
proof (induction "room rules p" arbitrary: p rule: less_induct)
  case less
  show ?case
  proof (cases "type_at rules p = LLAMA_GRETYPE_RULE_REF")
    case True
    have "rule_has (unat (value_at rules p))"
      by (rule rule_has_acc[OF assms(1,2) check_no_left_recursion[OF assms(3,1) ref_target[OF assms(1) True]]])
    then show ?thesis by (rule pos_has_ref[OF True]) (rule less(1)[OF type_at_room[OF True] good_next[OF True]])
  qed (rule pos_has_other[OF _ less.prems])
qed

lemma stack_has:
  assumes "refs_ok rules" "empty_is_syntactic rules" "left_recursion_detected rules = Some False"
    and "list_all (\<lambda>p. good p \<and> \<not> llama_grammar_is_end_of_sequence rules p) s"
  shows "Q s"
  using assms(4)
proof (induction s)
  case Nil
  then show ?case by (simp add: Q_nil)
next
  case (Cons p rest)
  then have "Q (push_pos rules p rest)" using pos_has_all[OF assms(1-3), of p] by (simp add: pos_has_def)
  then show ?case using Cons.prems by (simp add: push_pos_def)
qed

end

text \<open>The expansion of every stack is finite.\<close>

interpretation fin: expansion_property rules "finite_reach rules" "\<lambda>_. True" for rules
proof unfold_locales
  show "finite_reach rules []" by (rule finite_reach_stuck) (auto elim: estep.cases)
  show "finite_reach rules (p # rest)" if "type_at rules p \<noteq> LLAMA_GRETYPE_RULE_REF" for p rest
    by (rule finite_reach_stuck) (use that in \<open>auto elim: estep_Cons\<close>)
qed (rule finite_reach_ref, auto)

lemma checked_finite_reach:
  assumes "refs_ok rules" "empty_is_syntactic rules" "left_recursion_detected rules = Some False"
    and "list_all (\<lambda>p. \<not> llama_grammar_is_end_of_sequence rules p) s"
  shows "finite_reach rules s"
  using fin.stack_has[OF assms(1-3), of s] assms(4) by simp

lemma checked_advance_returns:
  assumes "refs_ok rules" "empty_is_syntactic rules" "left_recursion_detected rules = Some False"
    and "list_all (\<lambda>p. \<not> llama_grammar_is_end_of_sequence rules p) s"
  shows "\<exists>r. llama_grammar_advance_stack rules s new = Some r"
  unfolding llama_grammar_advance_stack_def
  by (rule advance_loop_ends[OF checked_finite_reach[OF assms]]) (auto intro: rtranclp.rtrancl_into_rtrancl)

end
