(* ===== verification/GrammarTotal.thy ===== *)
theory GrammarTotal
  imports GrammarInit
begin

text \<open>
  On a grammar of the shape the parser produces, which passes the check for left recursion and whose rules derive the empty
  text only by an empty alternate, the matcher of \<open>src/llama-grammar.cpp\<close> always returns a set of stacks: no loop, no abort.
  The last hypothesis is needed: \<open>hidden_rules\<close> passes the check and the expansion of its start rule does not end.
\<close>

section \<open>The shape of a rule\<close>

text \<open>The parts of a character set follow its first character; nothing else is followed by them.\<close>

definition follows_ok :: "gretype \<Rightarrow> gretype \<Rightarrow> bool" where
  "follows_ok prev t \<longleftrightarrow>
     (t = LLAMA_GRETYPE_CHAR_RNG_UPPER \<longrightarrow> prev \<in> {LLAMA_GRETYPE_CHAR, LLAMA_GRETYPE_CHAR_NOT, LLAMA_GRETYPE_CHAR_ALT}) \<and>
     (t = LLAMA_GRETYPE_CHAR_ALT \<longrightarrow>
        prev \<in> {LLAMA_GRETYPE_CHAR, LLAMA_GRETYPE_CHAR_NOT, LLAMA_GRETYPE_CHAR_ALT, LLAMA_GRETYPE_CHAR_RNG_UPPER})"

fun rule_shape :: "gretype \<Rightarrow> grammar_element list \<Rightarrow> bool" where
  "rule_shape prev [] = True"
| "rule_shape prev (e # es) \<longleftrightarrow> follows_ok prev (ge_type e) \<and> rule_shape (ge_type e) es"

definition shape_ok :: "grammar_rules \<Rightarrow> bool" where
  "shape_ok rules \<longleftrightarrow> list_all (rule_shape LLAMA_GRETYPE_ALT) rules"

lemma rule_shape_nth:
  "rule_shape prev es \<Longrightarrow> i < length es \<Longrightarrow> follows_ok (if i = 0 then prev else ge_type (es ! (i - 1))) (ge_type (es ! i))"
proof (induction es arbitrary: prev i)
  case Nil
  then show ?case by simp
next
  case (Cons e es)
  show ?case
  proof (cases i)
    case 0
    then show ?thesis using Cons.prems by simp
  next
    case (Suc j)
    then show ?thesis using Cons.IH[of "ge_type e" j] Cons.prems by (cases j) auto
  qed
qed

lemma follows_end [simp]: "follows_ok t LLAMA_GRETYPE_END"
  by (simp add: follows_ok_def)

lemma shape_first: "shape_ok rules \<Longrightarrow> follows_ok LLAMA_GRETYPE_ALT (type_at rules (r, 0))"
  using rule_shape_nth[of LLAMA_GRETYPE_ALT "rules ! r" 0] by (auto simp: shape_ok_def list_all_length elem_at_def)

lemma shape_next: "shape_ok rules \<Longrightarrow> follows_ok (type_at rules p) (type_at rules (gnext p))"
  using rule_shape_nth[of LLAMA_GRETYPE_ALT "rules ! fst p" "Suc (snd p)"]
  by (auto simp: shape_ok_def list_all_length elem_at_def gnext_def)

text \<open>Where a stack may stand: not inside a character set.\<close>

definition head_ok :: "grammar_rules \<Rightarrow> gpos \<Rightarrow> bool" where
  "head_ok rules p \<longleftrightarrow> type_at rules p \<noteq> LLAMA_GRETYPE_CHAR_RNG_UPPER \<and> type_at rules p \<noteq> LLAMA_GRETYPE_CHAR_ALT"

lemma alternates_head_ok: "shape_ok rules \<Longrightarrow> a \<in> set (alternates rules (r, 0)) \<Longrightarrow> head_ok rules a"
proof -
  assume s: "shape_ok rules" and a: "a \<in> set (alternates rules (r, 0))"
  from alternates_in[OF a] have "follows_ok LLAMA_GRETYPE_ALT (type_at rules a)"
  proof
    assume "a = (r, 0)"
    then show ?thesis using shape_first[OF s] by simp
  next
    assume "\<exists>j. a = (fst (r, 0), Suc j) \<and> type_at rules (fst (r, 0), j) = LLAMA_GRETYPE_ALT"
    then obtain j where "a = (r, Suc j)" "type_at rules (r, j) = LLAMA_GRETYPE_ALT" by auto
    then show ?thesis using shape_next[OF s, of "(r, j)"] by (simp add: gnext_def)
  qed
  then show ?thesis by (auto simp: follows_ok_def head_ok_def)
qed

lemma ref_next_head_ok: "shape_ok rules \<Longrightarrow> type_at rules p = LLAMA_GRETYPE_RULE_REF \<Longrightarrow> head_ok rules (gnext p)"
  using shape_next[of rules p] by (auto simp: follows_ok_def head_ok_def)

lemma match_char_loop_head_ok:
  "shape_ok rules \<Longrightarrow> match_char_loop rules p c f = (b, p') \<Longrightarrow> head_ok rules p'"
proof (induction rules p c f rule: match_char_loop.induct)
  case (1 rules p c f)
  let ?x = "if type_at rules (gnext p) = LLAMA_GRETYPE_CHAR_RNG_UPPER then
               (f \<or> (value_at rules p \<le> c \<and> c \<le> value_at rules (gnext p)), gnext (gnext p))
             else if type_at rules p = LLAMA_GRETYPE_CHAR_ANY then (True, gnext p)
             else (f \<or> value_at rules p = c, gnext p)"
  obtain f' q where fq: "?x = (f', q)" by (rule prod.exhaust)
  have q: "type_at rules q \<noteq> LLAMA_GRETYPE_CHAR_RNG_UPPER"
    using fq shape_next[OF 1(2), of "gnext p"] by (auto simp: follows_ok_def split: if_splits)
  have step: "(if type_at rules q = LLAMA_GRETYPE_CHAR_ALT then match_char_loop rules q c f' else (f', q)) = (b, p')"
    using 1(3) by (subst (asm) match_char_loop.simps) (simp only: fq Let_def prod.case)
  show ?case
  proof (cases "type_at rules q = LLAMA_GRETYPE_CHAR_ALT")
    case True
    then show ?thesis using 1(1)[OF refl fq[symmetric] True 1(2)] step by simp
  next
    case False
    then show ?thesis using step q by (simp add: head_ok_def)
  qed
qed

section \<open>No abort\<close>

definition sound_stack :: "grammar_rules \<Rightarrow> grammar_stack \<Rightarrow> bool" where
  "sound_stack rules s \<longleftrightarrow> list_all (\<lambda>p. head_ok rules p \<and> \<not> llama_grammar_is_end_of_sequence rules p) s"

lemma sound_stack_simps [simp]: "sound_stack rules []"
  "sound_stack rules (p # s) \<longleftrightarrow> head_ok rules p \<and> \<not> llama_grammar_is_end_of_sequence rules p \<and> sound_stack rules s"
  by (simp_all add: sound_stack_def)

lemma sound_push: "head_ok rules p \<Longrightarrow> sound_stack rules s \<Longrightarrow> sound_stack rules (push_pos rules p s)"
  by (simp add: push_pos_def)

lemma estep_sound: "shape_ok rules \<Longrightarrow> estep rules s t \<Longrightarrow> sound_stack rules s \<Longrightarrow> sound_stack rules t"
proof (erule estep.cases)
  fix p t' rest
  assume a: "shape_ok rules" "sound_stack rules s" "s = p # rest" "t = t'" "type_at rules p = LLAMA_GRETYPE_RULE_REF"
    "t' \<in> set (expand_ref rules p rest)"
  obtain x where x: "x \<in> set (alternates rules (unat (value_at rules p), 0))" "t' = push_pos rules x (push_pos rules (gnext p) rest)"
    using a(6) unfolding in_expand_ref by blast
  have "sound_stack rules rest" using a(2,3) by simp
  then show "sound_stack rules t" unfolding a(4) x(2)
    by (intro sound_push alternates_head_ok[OF a(1) x(1)] ref_next_head_ok[OF a(1,5)])
qed

lemma sound_top:
  assumes "sound_stack rules (p # rest)" "type_at rules p \<noteq> LLAMA_GRETYPE_RULE_REF"
  shows "type_at rules p \<in> {LLAMA_GRETYPE_CHAR, LLAMA_GRETYPE_CHAR_NOT, LLAMA_GRETYPE_CHAR_ANY, LLAMA_GRETYPE_TOKEN, LLAMA_GRETYPE_TOKEN_NOT}"
  using assms by (cases "type_at rules p") (auto simp: head_ok_def is_end_iff)

lemma advance_loop_no_abort:
  "advance_loop rules todo seen new = Some r \<Longrightarrow> shape_ok rules \<longrightarrow> list_all (sound_stack rules) todo \<longrightarrow> (\<exists>result. r = Inr result)"
proof (induction rules todo seen new r rule: advance_loop.raw_induct[rotated, consumes 1, case_names body])
  case (body loop rules todo seen new r)
  show ?case
  proof (intro impI)
    assume sh: "shape_ok rules" and td: "list_all (sound_stack rules) todo"
    show "\<exists>result. r = Inr result"
    proof (cases todo)
      case Nil
      then show ?thesis using body(2) by simp blast
    next
      case (Cons s todo')
      have td': "list_all (sound_stack rules) todo'" and s: "sound_stack rules s" using td Cons by simp_all
      consider (seen) "s \<in> set seen" | (empty) "s \<notin> set seen" "s = []"
        | (ref) p rest where "s \<notin> set seen" "s = p # rest" "type_at rules p = LLAMA_GRETYPE_RULE_REF"
        | (tm) p rest where "s \<notin> set seen" "s = p # rest" "type_at rules p \<noteq> LLAMA_GRETYPE_RULE_REF"
        by (cases s) blast+
      then show ?thesis
      proof cases
        case seen
        then have "loop rules todo' seen new = Some r" using body(2) Cons by simp
        from body(1)[OF this] show ?thesis using sh td' by blast
      next
        case empty
        then have "loop rules todo' (s # seen) (add_stack s new) = Some r" using body(2) Cons by simp
        from body(1)[OF this] show ?thesis using sh td' by blast
      next
        case ref
        then have "loop rules (rev (expand_ref rules p rest) @ todo') (s # seen) new = Some r" using body(2) Cons by simp
        from body(1)[OF this] have "shape_ok rules \<longrightarrow> list_all (sound_stack rules) (rev (expand_ref rules p rest) @ todo') \<longrightarrow> (\<exists>result. r = Inr result)" .
        moreover have "list_all (sound_stack rules) (rev (expand_ref rules p rest))"
          using estep_sound[OF sh _ s] unfolding ref(2) estep_ref[OF ref(3)] by (simp add: list_all_iff)
        ultimately show ?thesis using sh td' by simp
      next
        case tm
        then have "loop rules todo' (s # seen) (add_stack s new) = Some r"
          using body(2) Cons sound_top[of rules p rest] s by simp
        from body(1)[OF this] show ?thesis using sh td' by blast
      qed
    qed
  qed
qed

text \<open>What the matcher relies on.\<close>

definition grammar_ok :: "grammar_rules \<Rightarrow> bool" where
  "grammar_ok rules \<longleftrightarrow> refs_ok rules \<and> shape_ok rules \<and> empty_is_syntactic rules \<and> left_recursion_detected rules = Some False"

lemma advance_total:
  assumes "grammar_ok rules" "sound_stack rules s"
  shows "\<exists>result. llama_grammar_advance_stack rules s new = Some (Inr result)"
proof -
  obtain r where r: "llama_grammar_advance_stack rules s new = Some r"
    using checked_advance_returns[of rules s new] assms by (auto simp: grammar_ok_def sound_stack_def list_all_iff)
  then show ?thesis
    using advance_loop_no_abort[OF r[unfolded llama_grammar_advance_stack_def]] assms by (auto simp: grammar_ok_def)
qed

lemma ereach_sound: "ereach rules s t \<Longrightarrow> shape_ok rules \<Longrightarrow> sound_stack rules s \<Longrightarrow> sound_stack rules t"
  by (induction rule: rtranclp_induct) (auto dest: estep_sound)

definition sound_stacks :: "grammar_rules \<Rightarrow> grammar_stack list \<Rightarrow> bool" where
  "sound_stacks rules ss \<longleftrightarrow> list_all (\<lambda>s. sound_stack rules s \<and> terminal rules s) ss"

lemma advance_sound:
  assumes "grammar_ok rules" "sound_stack rules s" "sound_stacks rules new" "llama_grammar_advance_stack rules s new = Some (Inr result)"
  shows "sound_stacks rules result"
  using assms(2,3) advance_stack_result[OF assms(4)] ereach_sound assms(1)
  unfolding sound_stacks_def list_all_iff grammar_ok_def by blast

text \<open>From every stack a stack that ends at a terminal can be reached.\<close>

abbreviation reaches_terminal :: "grammar_rules \<Rightarrow> grammar_stack \<Rightarrow> bool" where
  "reaches_terminal rules s \<equiv> shape_ok rules \<longrightarrow> (\<exists>t. terminal rules t \<and> ereach rules s t)"

lemma alternates_Cons: "\<exists>as. alternates rules p = p # as"
  by (subst alternates.simps) blast

lemma reaches_stuck:
  assumes "shape_ok rules \<longrightarrow> head_ok rules p" "type_at rules p \<noteq> LLAMA_GRETYPE_RULE_REF" "\<not> llama_grammar_is_end_of_sequence rules p"
  shows "reaches_terminal rules (p # rest)"
proof
  assume "shape_ok rules"
  then have "terminal rules (p # rest)"
    using assms by (cases "type_at rules p") (auto simp: terminal_def char_type_def token_type_def head_ok_def is_end_iff)
  then show "\<exists>t. terminal rules t \<and> ereach rules (p # rest) t" by blast
qed

lemma reaches_ref:
  assumes "type_at rules p = LLAMA_GRETYPE_RULE_REF"
    and "\<And>a. a \<in> set (alternates rules (unat (value_at rules p), 0)) \<Longrightarrow> reaches_terminal rules (push_pos rules a (push_pos rules (gnext p) rest))"
  shows "reaches_terminal rules (p # rest)"
proof
  assume sh: "shape_ok rules"
  obtain a as where a: "alternates rules (unat (value_at rules p), 0) = a # as" using alternates_Cons by metis
  let ?s = "push_pos rules a (push_pos rules (gnext p) rest)"
  obtain t where "terminal rules t" "ereach rules ?s t" using assms(2)[of a] a sh by auto
  moreover have "estep rules (p # rest) ?s" unfolding estep_ref[OF assms(1)] in_expand_ref a by simp
  ultimately show "\<exists>t. terminal rules t \<and> ereach rules (p # rest) t" by (meson converse_rtranclp_into_rtranclp)
qed

interpretation stops: expansion_property rules "reaches_terminal rules" "\<lambda>p. shape_ok rules \<longrightarrow> head_ok rules p" for rules
proof unfold_locales
  show "reaches_terminal rules []" by (auto simp: terminal_def)
  show "reaches_terminal rules (p # rest)"
    if "shape_ok rules \<longrightarrow> head_ok rules p" "type_at rules p \<noteq> LLAMA_GRETYPE_RULE_REF"
      "\<not> llama_grammar_is_end_of_sequence rules p" for p rest
    by (rule reaches_stuck[OF that])
  show "reaches_terminal rules (p # rest)"
    if "type_at rules p = LLAMA_GRETYPE_RULE_REF"
      "\<And>a. a \<in> set (alternates rules (unat (value_at rules p), 0)) \<Longrightarrow>
        reaches_terminal rules (push_pos rules a (push_pos rules (gnext p) rest))" for p rest
    by (rule reaches_ref[OF that])
qed (auto intro: alternates_head_ok ref_next_head_ok)

lemma advance_nonempty:
  assumes "grammar_ok rules" "sound_stack rules s" "llama_grammar_advance_stack rules s new = Some (Inr result)"
  shows "result \<noteq> []"
proof -
  have "list_all (\<lambda>p. (shape_ok rules \<longrightarrow> head_ok rules p) \<and> \<not> llama_grammar_is_end_of_sequence rules p) s"
    using assms(2) by (auto simp: sound_stack_def list_all_iff)
  then obtain t where "terminal rules t" "ereach rules s t"
    using stops.stack_has[of rules s] assms(1) by (auto simp: grammar_ok_def)
  then have "t \<in> set result" using advance_stack_result[OF assms(3)] by blast
  then show ?thesis by auto
qed

lemma accept_chr_total:
  assumes "grammar_ok rules" "sound_stack rules s" "terminal rules s" "sound_stacks rules new"
  shows "\<exists>result. llama_grammar_accept_chr rules s c new = Some (Inr result) \<and> sound_stacks rules result"
proof (cases s)
  case Nil
  then show ?thesis using assms(4) by (simp add: llama_grammar_accept_chr_def)
next
  case (Cons p rest)
  show ?thesis
  proof (cases "type_at rules p = LLAMA_GRETYPE_TOKEN \<or> type_at rules p = LLAMA_GRETYPE_TOKEN_NOT")
    case True
    then show ?thesis using Cons assms(4) by (simp add: llama_grammar_accept_chr_def)
  next
    case False
    then have ch: "char_type (type_at rules p)" using assms(3) Cons by (auto simp: terminal_def token_type_def)
    obtain b p' where m: "match_char_loop rules p c False = (b, p')" by (rule prod.exhaust)
    have mc: "llama_grammar_match_char rules p c = Inr (b = is_positive_char rules p, p')"
      using ch m by (auto simp: llama_grammar_match_char_def char_type_def is_positive_char_def)
    have "sound_stack rules (push_pos rules p' rest)"
      using match_char_loop_head_ok[OF _ m] assms(1,2) Cons sound_push by (simp add: grammar_ok_def)
    then obtain result where "llama_grammar_advance_stack rules (push_pos rules p' rest) new = Some (Inr result)" "sound_stacks rules result"
      using advance_total[OF assms(1)] advance_sound[OF assms(1) _ assms(4)] by blast
    then show ?thesis using Cons False mc assms(4) by (auto simp: llama_grammar_accept_chr_def)
  qed
qed

lemma accept_stacks_total:
  assumes "grammar_ok rules"
  shows "sound_stacks rules ss \<Longrightarrow> sound_stacks rules new \<Longrightarrow>
    \<exists>result. accept_stacks rules ss c new = Some (Inr result) \<and> sound_stacks rules result"
proof (induction ss arbitrary: new)
  case Nil
  then show ?case by simp
next
  case (Cons s ss)
  have g: "sound_stack rules s" "terminal rules s" "sound_stacks rules ss" using Cons.prems(1) by (simp_all add: sound_stacks_def)
  obtain mid where mid: "llama_grammar_accept_chr rules s c new = Some (Inr mid)" "sound_stacks rules mid"
    using accept_chr_total[OF assms g(1,2) Cons.prems(2)] by blast
  then show ?case using Cons.IH[OF g(3)] by simp
qed

lemma accept_all_total:
  assumes "grammar_ok rules"
  shows "sound_stacks rules ss \<Longrightarrow> \<exists>result. accept_all_chrs rules cs ss = Some (Inr result) \<and> sound_stacks rules result"
proof (induction cs arbitrary: ss)
  case Nil
  then show ?case by simp
next
  case (Cons c cs)
  obtain mid where mid: "llama_grammar_accept rules ss c = Some (Inr mid)" "sound_stacks rules mid"
    using accept_stacks_total[OF assms Cons.prems, of "[]" c] by (auto simp: llama_grammar_accept_def sound_stacks_def)
  then show ?case using Cons.IH by simp
qed

lemma init_stacks_total:
  assumes "grammar_ok rules"
  shows "(\<And>p. p \<in> set ps \<Longrightarrow> head_ok rules p) \<Longrightarrow> sound_stacks rules ss \<Longrightarrow>
    \<exists>result. init_stacks rules ps ss = Some (Inr result) \<and> sound_stacks rules result"
proof (induction ps arbitrary: ss)
  case Nil
  then show ?case by simp
next
  case (Cons p ps)
  have s: "sound_stack rules (push_pos rules p [])" using Cons.prems(1) by (intro sound_push) simp_all
  obtain mid where mid: "llama_grammar_advance_stack rules (push_pos rules p []) ss = Some (Inr mid)" "sound_stacks rules mid"
    using advance_total[OF assms s] advance_sound[OF assms s Cons.prems(2)] by blast
  then show ?case using Cons by simp
qed

lemma matcher_total_sim:
  assumes "grammar_ok rules"
  shows "\<exists>s0 s. grammar_init_stacks rules start = Some (Inr s0) \<and> accept_all_chrs rules cs s0 = Some (Inr s) \<and>
    ([] \<in> set s \<longleftrightarrow> rule_yields rules start cs)"
proof -
  obtain s0 where s0: "grammar_init_stacks rules start = Some (Inr s0)" "sound_stacks rules s0"
    using init_stacks_total[OF assms, of "alternates rules (start, 0)" "[]"] assms alternates_head_ok
    by (auto simp: grammar_init_stacks_def sound_stacks_def grammar_ok_def)
  obtain s where "accept_all_chrs rules cs s0 = Some (Inr s)" using accept_all_total[OF assms s0(2)] by blast
  then show ?thesis using s0(1) accepts_language_sim[OF s0(1)] by blast
qed

lemma demo_ok: "grammar_ok demo_rules"
proof -
  have "\<not> rule_yields demo_rules 0 []"
    using accepts_language_sim[OF demo_init, of "[]" "[[(0, 0)], [(0, 4)]]"] by simp
  then have "empty_is_syntactic demo_rules" by (simp add: empty_is_syntactic_def demo_rules_def)
  moreover have "refs_ok demo_rules" "shape_ok demo_rules" "left_recursion_detected demo_rules = Some False" by code_simp+
  ultimately show ?thesis by (simp add: grammar_ok_def)
qed

section \<open>The gap in the check\<close>

text \<open>\<open>A ::= B A "x" | "y"\<close>, \<open>B ::= C\<close>, \<open>C ::= ""\<close>: \<open>B\<close> derives the empty text, but has no empty alternate.\<close>

definition hidden_rules :: grammar_rules where
  "hidden_rules =
     [[\<lparr>ge_type = LLAMA_GRETYPE_RULE_REF, ge_value = 1\<rparr>, \<lparr>ge_type = LLAMA_GRETYPE_RULE_REF, ge_value = 0\<rparr>,
       \<lparr>ge_type = LLAMA_GRETYPE_CHAR, ge_value = 120\<rparr>, \<lparr>ge_type = LLAMA_GRETYPE_ALT, ge_value = 0\<rparr>,
       \<lparr>ge_type = LLAMA_GRETYPE_CHAR, ge_value = 121\<rparr>, \<lparr>ge_type = LLAMA_GRETYPE_END, ge_value = 0\<rparr>],
      [\<lparr>ge_type = LLAMA_GRETYPE_RULE_REF, ge_value = 2\<rparr>, \<lparr>ge_type = LLAMA_GRETYPE_END, ge_value = 0\<rparr>],
      [\<lparr>ge_type = LLAMA_GRETYPE_END, ge_value = 0\<rparr>]]"

lemma hidden_expand:
  "type_at hidden_rules (0, 0) = LLAMA_GRETYPE_RULE_REF" "type_at hidden_rules (0, 1) = LLAMA_GRETYPE_RULE_REF"
  "type_at hidden_rules (1, 0) = LLAMA_GRETYPE_RULE_REF"
  "push_pos hidden_rules (1, 0) (push_pos hidden_rules (0, 1) s) = (1, 0) # (0, 1) # s"
  "push_pos hidden_rules (2, 0) (push_pos hidden_rules (1, 1) s) = s"
  "push_pos hidden_rules (0, 0) (push_pos hidden_rules (0, 2) s) = (0, 0) # (0, 2) # s"
  "alternates hidden_rules (unat (value_at hidden_rules (0, 0)), 0) = [(1, 0)]"
  "alternates hidden_rules (unat (value_at hidden_rules (1, 0)), 0) = [(2, 0)]"
  "alternates hidden_rules (unat (value_at hidden_rules (0, 1)), 0) = [(0, 0), (0, 4)]"
  by (simp_all add: push_pos_def hidden_rules_def elem_at_def llama_grammar_is_end_of_sequence_def alternates.simps scan_end.simps gnext_def Let_def)

lemma hidden_grows: "ereach hidden_rules ((0, 0) # s) ((0, 0) # (0, 2) # s)"
proof -
  have n: "gnext (0, 0) = (0, 1)" "gnext (1, 0) = (1, 1)" "gnext (0, 1) = (0, 2)" by (simp_all add: gnext_def)
  have "estep hidden_rules ((0, 0) # s) ((1, 0) # (0, 1) # s)"
    unfolding estep_ref[OF hidden_expand(1)] in_expand_ref hidden_expand(7) n by (simp only: hidden_expand(4) list.set bex_simps simp_thms)
  moreover have "estep hidden_rules ((1, 0) # (0, 1) # s) ((0, 1) # s)"
    unfolding estep_ref[OF hidden_expand(3)] in_expand_ref hidden_expand(8) n by (simp only: hidden_expand(5) list.set bex_simps simp_thms)
  moreover have "estep hidden_rules ((0, 1) # s) ((0, 0) # (0, 2) # s)"
    unfolding estep_ref[OF hidden_expand(2)] in_expand_ref hidden_expand(9) n by (simp only: hidden_expand(6) list.set bex_simps simp_thms)
  ultimately show ?thesis by (meson r_into_rtranclp rtranclp_trans)
qed

lemma hidden_infinite: "infinite {t. ereach hidden_rules [(0, 0)] t}"
proof
  assume fin: "finite {t. ereach hidden_rules [(0, 0)] t}"
  have "ereach hidden_rules [(0, 0)] ((0, 0) # replicate n (0, 2))" for n
  proof (induction n)
    case (Suc n)
    then show ?case using hidden_grows[of "replicate n (0, 2)"] by (metis replicate_Suc rtranclp_trans)
  qed simp
  then have "range (\<lambda>n. (0, 0) # replicate n (0, 2)) \<subseteq> {t. ereach hidden_rules [(0, 0)] t}" by auto
  then have "finite (range (\<lambda>n. (0 :: nat, 0 :: nat) # replicate n (0, 2)))" using fin finite_subset by blast
  moreover have "inj (\<lambda>n. (0 :: nat, 0 :: nat) # replicate n (0, 2))" by (rule injI) (metis length_Cons length_replicate nat.inject)
  ultimately show False using finite_imageD by blast
qed

lemma hidden_diverges: "llama_grammar_advance_stack hidden_rules [(0, 0)] new = None"
proof (cases "llama_grammar_advance_stack hidden_rules [(0, 0)] new")
  case (Some r)
  have sh: "shape_ok hidden_rules" by code_simp
  have "sound_stack hidden_rules [(0, 0)]" by code_simp
  then obtain result where "r = Inr result"
    using advance_loop_no_abort[OF Some[unfolded llama_grammar_advance_stack_def]] sh by auto
  then have "finite {t. ereach hidden_rules [(0, 0)] t}"
    using advance_stack_ends_sim[of hidden_rules "[(0, 0)]" new] Some by simp
  then show ?thesis using hidden_infinite by simp
qed

section \<open>Theorems\<close>



text \<open>The check for left recursion returns on every grammar with resolved references: the depth of its recursion never
  exceeds the number of rules.\<close>

theorem left_recursion_check_returns:
  assumes "refs_ok rules"
  shows "\<exists>b. left_recursion_detected rules = Some b"
  by (rule left_recursion_returns[OF assms])

theorem left_recursion_check_returns_witness: "\<exists>b. left_recursion_detected hidden_rules = Some b"
proof -
  have "refs_ok hidden_rules" by code_simp
  then show ?thesis by (rule left_recursion_check_returns)
qed

text \<open>C33. The check misses left recursion behind a rule that derives the empty text through another rule:
  \<open>A ::= B A "x" | "y"\<close>, \<open>B ::= C\<close>, \<open>C ::= ""\<close> is accepted, and building its initial stacks does not end.\<close>

theorem left_recursion_check_gap:
  "left_recursion_detected hidden_rules = Some False \<and> grammar_init_rules hidden_rules 0 = None"
proof -
  have d: "left_recursion_detected hidden_rules = Some False" and c: "map copy_rule hidden_rules = hidden_rules" by code_simp+
  have a: "alternates hidden_rules (0, 0) = [(0, 0), (0, 4)]" "push_pos hidden_rules (0, 0) [] = [(0, 0)]" by code_simp+
  show ?thesis
    unfolding grammar_init_rules_def Let_def c grammar_init_stacks_def a init_stacks.simps hidden_diverges using d by simp
qed

end
