(* ===== verification/GrammarDecode.thy ===== *)
theory GrammarDecode
  imports Utf8
begin

text \<open>
  The two UTF-8 decoders of \<open>src/llama-grammar.cpp\<close>: the one of the grammar parser, which reads one code point at a
  pointer, and the streaming one that decodes the pieces of tokens and carries an incomplete sequence over to
  the next piece.

  A C string is the list of bytes before its terminating zero; \<open>c_str\<close> cuts a \<open>std::string\<close> there.
\<close>

definition c_str :: "byte list \<Rightarrow> byte list" where
  "c_str s = takeWhile (\<lambda>b. b \<noteq> 0) s"

section \<open>The decoder of the grammar parser\<close>

definition grammar_lookup :: "nat list" where
  "grammar_lookup = [1, 1, 1, 1, 1, 1, 1, 1, 1, 1, 1, 1, 2, 2, 3, 4]"

text \<open>The loop over the continuation bytes, with the number of bytes still expected.\<close>

fun decode_bytes :: "nat \<Rightarrow> byte list \<Rightarrow> cpt \<Rightarrow> cpt \<times> byte list" where
  "decode_bytes (Suc n) (b # bs) value = decode_bytes n bs (push_bit 6 value + (widen b AND 0x3f))"
| "decode_bytes n bs value = (value, bs)"

definition decode_utf8 :: "byte list \<Rightarrow> cpt \<times> byte list" where
  "decode_utf8 src =
     (case src of [] \<Rightarrow> (0, [])
      | first_byte # rest \<Rightarrow>
          (let len = grammar_lookup ! unat (drop_bit 4 first_byte);
               m = push_bit (8 - len) 1 - 1
           in decode_bytes (len - 1) rest (widen first_byte AND m)))"

section \<open>The streaming decoder\<close>

record partial_utf8 =
  pu_value :: cpt
  pu_remain :: int

definition partial_lookup :: "int list" where
  "partial_lookup = [1, 1, 1, 1, 1, 1, 1, 1, 0, 0, 0, 0, 2, 2, 3, 4]"

text \<open>The first loop continues the sequence of the previous piece; \<open>None\<close> is the abort on an invalid byte.\<close>

fun decode_continue :: "byte list \<Rightarrow> cpt \<Rightarrow> int \<Rightarrow> (byte list \<times> cpt \<times> int) option" where
  "decode_continue [] value n_remain = Some ([], value, n_remain)"
| "decode_continue (next_byte # bs) value n_remain =
     (if n_remain > 0 then
        (if drop_bit 6 next_byte \<noteq> 2 then None
         else decode_continue bs (push_bit 6 value + (widen next_byte AND 0x3f)) (n_remain - 1))
      else Some (next_byte # bs, value, n_remain))"

text \<open>The inner loop of the second one does not look at the kind of the bytes.\<close>

fun decode_tail :: "byte list \<Rightarrow> cpt \<Rightarrow> int \<Rightarrow> byte list \<times> cpt \<times> int" where
  "decode_tail [] value n_remain = ([], value, n_remain)"
| "decode_tail (b # bs) value n_remain =
     (if n_remain > 0 then decode_tail bs (push_bit 6 value + (widen b AND 0x3f)) (n_remain - 1)
      else (b # bs, value, n_remain))"

lemma decode_tail_length: "decode_tail bs v n = (bs', v', n') \<Longrightarrow> length bs' \<le> length bs"
  by (induction bs v n rule: decode_tail.induct) (auto split: if_splits)

function decode_seqs :: "byte list \<Rightarrow> cpt \<Rightarrow> int \<Rightarrow> cpt list \<Rightarrow> cpt list \<times> partial_utf8" where
  "decode_seqs [] value n_remain code_points = (code_points @ [0], \<lparr>pu_value = value, pu_remain = n_remain\<rparr>)"
| "decode_seqs (first_byte # bs) value n_remain code_points =
     (let n = partial_lookup ! unat (drop_bit 4 first_byte) - 1 in
      if n < 0 then ([0], \<lparr>pu_value = 0, pu_remain = n\<rparr>)
      else
        (let m = push_bit (nat (7 - n)) 1 - 1 in
         case decode_tail bs (widen first_byte AND m) n of
           (rest, value', n') \<Rightarrow> decode_seqs rest value' n' (if n' = 0 then code_points @ [value'] else code_points)))"
  by pat_completeness auto
termination
  by (relation "measure (\<lambda>(bs, v, n, cps). length bs)")
    (auto dest!: decode_tail_length[OF sym] simp: less_Suc_eq_le)

definition decode_utf8_partial :: "byte list \<Rightarrow> partial_utf8 \<Rightarrow> cpt list \<times> partial_utf8" where
  "decode_utf8_partial src partial_start =
     (case decode_continue (c_str src) (pu_value partial_start) (pu_remain partial_start) of
        None \<Rightarrow> ([0], \<lparr>pu_value = 0, pu_remain = - 1\<rparr>)
      | Some (rest, value, n_remain) \<Rightarrow>
          decode_seqs rest value n_remain (if pu_remain partial_start > 0 \<and> n_remain = 0 then [value] else []))"

section \<open>A byte-wise reference\<close>

text \<open>One byte of a strict decoder: continuation bytes exactly where they are expected.\<close>

definition lead_remain :: "byte \<Rightarrow> int" where
  "lead_remain b = partial_lookup ! unat (drop_bit 4 b) - 1"

definition lead_value :: "byte \<Rightarrow> cpt" where
  "lead_value b = widen b AND (push_bit (nat (7 - lead_remain b)) 1 - 1)"

definition strict_step :: "cpt \<times> int \<Rightarrow> byte \<Rightarrow> (cpt list \<times> cpt \<times> int) option" where
  "strict_step s b =
     (case s of (v, n) \<Rightarrow>
        if n > 0 then
          (if drop_bit 6 b \<noteq> 2 then None
           else (let v' = push_bit 6 v + (widen b AND 0x3f) in Some (if n = 1 then [v'] else [], v', n - 1)))
        else if lead_remain b < 0 then None
        else Some (if lead_remain b = 0 then [lead_value b] else [], lead_value b, lead_remain b))"

fun strict_run :: "cpt \<times> int \<Rightarrow> byte list \<Rightarrow> (cpt list \<times> cpt \<times> int) option" where
  "strict_run s [] = Some ([], s)"
| "strict_run s (b # bs) =
     (case strict_step s b of None \<Rightarrow> None
      | Some (cps, s') \<Rightarrow> (case strict_run s' bs of None \<Rightarrow> None | Some (cps', s'') \<Rightarrow> Some (cps @ cps', s'')))"

lemma strict_run_append:
  "strict_run s (xs @ ys) =
     (case strict_run s xs of None \<Rightarrow> None
      | Some (cps, s') \<Rightarrow> (case strict_run s' ys of None \<Rightarrow> None | Some (cps', s'') \<Rightarrow> Some (cps @ cps', s'')))"
  by (induction xs arbitrary: s) (auto split: option.splits)

lemma strict_remain: "strict_run (v, n) bs = Some (cps, v', n') \<Longrightarrow> 0 \<le> n \<Longrightarrow> 0 \<le> n'"
proof (induction bs arbitrary: v n cps)
  case (Cons b bs)
  then obtain c1 v1 n1 c2 where s: "strict_step (v, n) b = Some (c1, v1, n1)" "strict_run (v1, n1) bs = Some (c2, v', n')"
    by (auto split: option.splits)
  have "0 \<le> n1" using s(1) Cons.prems(2) by (auto simp: strict_step_def Let_def split: if_splits)
  then show ?case using Cons.IH s(2) by blast
qed simp

lemma continue_strict:
  assumes "strict_run (v, n) bs = Some (cps, s)" "0 \<le> n"
  shows "\<exists>rest v1 n1 cps'. decode_continue bs v n = Some (rest, v1, n1) \<and> 0 \<le> n1 \<and> (0 < n1 \<longrightarrow> rest = []) \<and>
    strict_run (v1, n1) rest = Some (cps', s) \<and> cps = (if 0 < n \<and> n1 = 0 then [v1] else []) @ cps'"
  using assms
proof (induction bs arbitrary: v n cps)
  case (Cons b bs)
  show ?case
  proof (cases "0 < n")
    case False
    then show ?thesis using Cons.prems by auto
  next
    case True
    let ?v = "push_bit 6 v + (widen b AND 0x3f)"
    from Cons.prems(1) True obtain c2 where r: "drop_bit 6 b = 2" "strict_run (?v, n - 1) bs = Some (c2, s)"
      "cps = (if n = 1 then [?v] else []) @ c2"
      by (auto simp: strict_step_def Let_def split: option.splits if_splits)
    obtain rest v1 n1 cps' where ih: "decode_continue bs ?v (n - 1) = Some (rest, v1, n1)" "0 \<le> n1" "0 < n1 \<longrightarrow> rest = []"
      "strict_run (v1, n1) rest = Some (cps', s)" "c2 = (if 0 < n - 1 \<and> n1 = 0 then [v1] else []) @ cps'"
      using Cons.IH[OF r(2)] True by auto
    show ?thesis
    proof (cases "n = 1")
      case n1: True
      then have "rest = bs \<and> v1 = ?v \<and> n1 = 0" using ih(1) by (cases bs) auto
      then show ?thesis using ih r True n1 by auto
    next
      case False
      then show ?thesis using ih r True by auto
    qed
  qed
qed auto

lemma tail_strict:
  assumes "strict_run (v, n) bs = Some (cps, s)" "0 \<le> n"
  shows "\<exists>rest v1 n1 cps'. decode_tail bs v n = (rest, v1, n1) \<and> 0 \<le> n1 \<and> (0 < n1 \<longrightarrow> rest = []) \<and>
    strict_run (v1, n1) rest = Some (cps', s) \<and> cps = (if 0 < n \<and> n1 = 0 then [v1] else []) @ cps'"
proof -
  have "decode_continue bs v n = Some r \<Longrightarrow> decode_tail bs v n = r" for r
    by (induction bs v n rule: decode_continue.induct) (auto split: if_splits)
  then show ?thesis using continue_strict[OF assms] by blast
qed

lemma seqs_strict:
  "strict_run (v, n) bs = Some (cps, v', n') \<Longrightarrow> (0 < n \<longrightarrow> bs = []) \<Longrightarrow> 0 \<le> n \<Longrightarrow>
   decode_seqs bs v n acc = (acc @ cps @ [0], \<lparr>pu_value = v', pu_remain = n'\<rparr>)"
proof (induction bs v n acc arbitrary: cps rule: decode_seqs.induct)
  case (2 b bs v n acc)
  then have n: "n = 0" by auto
  let ?n = "lead_remain b" and ?v = "lead_value b"
  from "2.prems"(1) n obtain c2 where r: "0 \<le> ?n" "strict_run (?v, ?n) bs = Some (c2, v', n')"
    "cps = (if ?n = 0 then [?v] else []) @ c2"
    by (auto simp: strict_step_def split: option.splits if_splits)
  obtain rest v1 n1 c3 where t: "decode_tail bs ?v ?n = (rest, v1, n1)" "0 \<le> n1" "0 < n1 \<longrightarrow> rest = []"
    "strict_run (v1, n1) rest = Some (c3, v', n')" "c2 = (if 0 < ?n \<and> n1 = 0 then [v1] else []) @ c3"
    using tail_strict[OF r(2,1)] by blast
  have z: "n1 = 0 \<and> v1 = ?v" if "?n = 0" using that t(1) by (cases bs) auto
  have cps: "cps = (if n1 = 0 then [v1] else []) @ c3" using r(1,3) t(5) z by (cases "?n = 0") auto
  have "decode_seqs rest v1 n1 (if n1 = 0 then acc @ [v1] else acc) =
      ((if n1 = 0 then acc @ [v1] else acc) @ c3 @ [0], \<lparr>pu_value = v', pu_remain = n'\<rparr>)"
    using "2.IH"[OF refl _ refl t(1)[symmetric, unfolded lead_value_def, folded lead_remain_def, unfolded lead_remain_def] refl] r(1) t(3,4,2)
    by (simp add: lead_remain_def)
  then show ?case
    using r(1) t(1) cps by (cases "n1 = 0") (simp_all add: Let_def lead_value_def flip: lead_remain_def)
qed auto

section \<open>Pieces of encoded text\<close>

lemma add_payload: "push_bit 6 v + (w AND 0x3f) = push_bit 6 v OR (w AND (0x3f :: cpt))"
  by (rule disjunctive_add) (auto simp: masks bit_simps)

lemma cont_top_bits: "is_cont b \<longleftrightarrow> drop_bit 6 b = (2 :: byte)"
proof -
  have "(b AND 0xc0 = 0x80) = (drop_bit 6 b = (2 :: byte))"
    by (rule all_bytes[of "\<lambda>b. (b AND 0xc0 = 0x80) = (drop_bit 6 b = (2 :: byte))"]) code_simp
  then show ?thesis by (simp add: is_cont_def)
qed

text \<open>What the table and the mask make of a lead byte.\<close>

lemma lead_byte_table:
  "\<not> bit b 7 \<Longrightarrow> lead_remain b = 0 \<and> lead_value b = widen b"
  "bit b 7 \<Longrightarrow> bit b 6 \<Longrightarrow> \<not> bit b 5 \<Longrightarrow> lead_remain b = 1 \<and> lead_value b = widen b AND 0x1f"
  "bit b 7 \<Longrightarrow> bit b 6 \<Longrightarrow> bit b 5 \<Longrightarrow> \<not> bit b 4 \<Longrightarrow> lead_remain b = 2 \<and> lead_value b = widen b AND 0x0f"
  "bit b 7 \<Longrightarrow> bit b 6 \<Longrightarrow> bit b 5 \<Longrightarrow> bit b 4 \<Longrightarrow> \<not> bit b 3 \<Longrightarrow> lead_remain b = 3 \<and> lead_value b = widen b AND 0x07"
proof -
  have "(\<not> bit b 7 \<longrightarrow> lead_remain b = 0 \<and> lead_value b = widen b) \<and>
    (bit b 7 \<and> bit b 6 \<and> \<not> bit b 5 \<longrightarrow> lead_remain b = 1 \<and> lead_value b = widen b AND 0x1f) \<and>
    (bit b 7 \<and> bit b 6 \<and> bit b 5 \<and> \<not> bit b 4 \<longrightarrow> lead_remain b = 2 \<and> lead_value b = widen b AND 0x0f) \<and>
    (bit b 7 \<and> bit b 6 \<and> bit b 5 \<and> bit b 4 \<and> \<not> bit b 3 \<longrightarrow> lead_remain b = 3 \<and> lead_value b = widen b AND 0x07)"
    by (rule all_bytes[of "\<lambda>b. _ b" b]) code_simp
  then show "\<not> bit b 7 \<Longrightarrow> lead_remain b = 0 \<and> lead_value b = widen b"
    "bit b 7 \<Longrightarrow> bit b 6 \<Longrightarrow> \<not> bit b 5 \<Longrightarrow> lead_remain b = 1 \<and> lead_value b = widen b AND 0x1f"
    "bit b 7 \<Longrightarrow> bit b 6 \<Longrightarrow> bit b 5 \<Longrightarrow> \<not> bit b 4 \<Longrightarrow> lead_remain b = 2 \<and> lead_value b = widen b AND 0x0f"
    "bit b 7 \<Longrightarrow> bit b 6 \<Longrightarrow> bit b 5 \<Longrightarrow> bit b 4 \<Longrightarrow> \<not> bit b 3 \<Longrightarrow> lead_remain b = 3 \<and> lead_value b = widen b AND 0x07"
    by blast+
qed

definition join6 :: "cpt \<Rightarrow> byte \<Rightarrow> cpt" where
  "join6 v b = push_bit 6 v + (widen b AND 0x3f)"

lemma strict_run_join:
  "lead_remain a = 1 \<Longrightarrow> is_cont b \<Longrightarrow> strict_run (v, 0) [a, b] = Some ([join6 (lead_value a) b], join6 (lead_value a) b, 0)"
  "lead_remain a = 2 \<Longrightarrow> is_cont b \<Longrightarrow> is_cont c \<Longrightarrow> strict_run (v, 0) [a, b, c] =
     Some ([join6 (join6 (lead_value a) b) c], join6 (join6 (lead_value a) b) c, 0)"
  "lead_remain a = 3 \<Longrightarrow> is_cont b \<Longrightarrow> is_cont c \<Longrightarrow> is_cont d \<Longrightarrow> strict_run (v, 0) [a, b, c, d] =
     Some ([join6 (join6 (join6 (lead_value a) b) c) d], join6 (join6 (join6 (lead_value a) b) c) d, 0)"
  by (simp_all add: strict_step_def cont_top_bits Let_def flip: join6_def)

lemma join6_cpt:
  "join6 (widen a AND 0x1f) b = cpt2 a b"
  "join6 (join6 (widen a AND 0x0f) b) c = cpt3 a b c"
  "join6 (join6 (join6 (widen a AND 0x07) b) c) d = cpt4 a b c d"
  unfolding join6_def add_payload cpt2_def cpt3_def cpt4_def
  by (simp_all only: push_bit_or push_bit_push_bit or.assoc) (simp_all add: or.assoc)

lemma strict_run_bytes:
  "lead_remain a = 0 \<Longrightarrow> strict_run (v, 0) [a] = Some ([lead_value a], lead_value a, 0)"
  "lead_remain a = 1 \<Longrightarrow> lead_value a = widen a AND 0x1f \<Longrightarrow> is_cont b \<Longrightarrow>
     strict_run (v, 0) [a, b] = Some ([cpt2 a b], cpt2 a b, 0)"
  "lead_remain a = 2 \<Longrightarrow> lead_value a = widen a AND 0x0f \<Longrightarrow> is_cont b \<Longrightarrow> is_cont c \<Longrightarrow>
     strict_run (v, 0) [a, b, c] = Some ([cpt3 a b c], cpt3 a b c, 0)"
  "lead_remain a = 3 \<Longrightarrow> lead_value a = widen a AND 0x07 \<Longrightarrow> is_cont b \<Longrightarrow> is_cont c \<Longrightarrow> is_cont d \<Longrightarrow>
     strict_run (v, 0) [a, b, c, d] = Some ([cpt4 a b c d], cpt4 a b c d, 0)"
proof -
  show "lead_remain a = 0 \<Longrightarrow> strict_run (v, 0) [a] = Some ([lead_value a], lead_value a, 0)"
    by (simp add: strict_step_def)
qed (simp_all only: strict_run_join join6_cpt)

lemma strict_run_cpt:
  assumes "unicode_cpt_to_utf8 c = Some bs"
  shows "\<exists>v'. strict_run (v, 0) bs = Some ([c], v', 0)"
proof -
  consider (1) "c \<le> 0x7f" | (2) "\<not> c \<le> 0x7f" "c \<le> 0x7ff"
    | (3) "\<not> c \<le> 0x7f" "\<not> c \<le> 0x7ff" "c \<le> 0xffff"
    | (4) "\<not> c \<le> 0x7f" "\<not> c \<le> 0x7ff" "\<not> c \<le> 0xffff" "c \<le> 0x10ffff"
    using assms by (auto simp: unicode_cpt_to_utf8_def split: if_splits)
  then show ?thesis
  proof cases
    case 1
    with assms have "bs = [low_byte c]" by (simp add: unicode_cpt_to_utf8_def)
    then show ?thesis
      using strict_run_bytes(1)[of "low_byte c" v] lead_byte_table(1)[OF lead_byte_bits(1)[OF 1]] widen_low_byte[OF 1] by simp
  next
    case 2
    with assms have bs: "bs = [low_byte (0xc0 OR (drop_bit 6 c AND 0x1f)), low_byte (0x80 OR (c AND 0x3f))]"
      by (simp add: unicode_cpt_to_utf8_def cpt_gaps)
    have "c < 0x800" using 2(2) by (rule order.strict_trans1) simp
    then show ?thesis unfolding bs
      using strict_run_bytes(2)[OF _ _ is_cont_low, of _ v c] lead_byte_table(2)[OF lead_byte_bits(2-4)] by (simp add: cpt2_encode)
  next
    case 3
    with assms have bs: "bs = [low_byte (0xe0 OR (drop_bit 12 c AND 0x0f)),
        low_byte (0x80 OR (drop_bit 6 c AND 0x3f)), low_byte (0x80 OR (c AND 0x3f))]"
      by (simp add: unicode_cpt_to_utf8_def cpt_gaps)
    have "c < 0x10000" using 3(3) by (rule order.strict_trans1) simp
    then show ?thesis unfolding bs
      using strict_run_bytes(3)[OF _ _ is_cont_low is_cont_low, of _ v _ c] lead_byte_table(3)[OF lead_byte_bits(5-8)] by (simp add: cpt3_encode)
  next
    case 4
    with assms have bs: "bs = [low_byte (0xf0 OR (drop_bit 18 c AND 0x07)),
        low_byte (0x80 OR (drop_bit 12 c AND 0x3f)), low_byte (0x80 OR (drop_bit 6 c AND 0x3f)),
        low_byte (0x80 OR (c AND 0x3f))]"
      by (simp add: unicode_cpt_to_utf8_def cpt_gaps)
    show ?thesis unfolding bs
      using 4(4) strict_run_bytes(4)[OF _ _ is_cont_low is_cont_low is_cont_low, of _ v _ _ c] lead_byte_table(4)[OF lead_byte_bits(9-13)]
      by (simp add: cpt4_encode)
  qed
qed

lemma strict_run_text:
  "unicode_cpts_to_utf8 cs = Some bs \<Longrightarrow> \<exists>v'. strict_run (v, 0) bs = Some (cs, v', 0)"
proof (induction cs arbitrary: bs v)
  case (Cons c cs)
  then obtain b1 b2 where b: "unicode_cpt_to_utf8 c = Some b1" "unicode_cpts_to_utf8 cs = Some b2" "bs = b1 @ b2"
    by (auto split: option.splits)
  obtain v1 where "strict_run (v, 0) b1 = Some ([c], v1, 0)" using strict_run_cpt[OF b(1)] by blast
  moreover obtain v2 where "strict_run (v1, 0) b2 = Some (cs, v2, 0)" using Cons.IH[OF b(2)] by blast
  ultimately show ?case by (simp add: b(3) strict_run_append)
qed simp

text \<open>The pieces of a text, decoded one after the other, each from the state the previous one left.\<close>

fun decode_pieces :: "byte list list \<Rightarrow> partial_utf8 \<Rightarrow> cpt list \<times> partial_utf8" where
  "decode_pieces [] p = ([], p)"
| "decode_pieces (piece # pieces) p =
     (case decode_utf8_partial piece p of (cps, p') \<Rightarrow>
        (case decode_pieces pieces p' of (cps', p'') \<Rightarrow> (butlast cps @ cps', p'')))"

lemma decode_partial_strict:
  assumes "strict_run (v, n) bs = Some (cps, v', n')" "0 \<le> n" "0 \<notin> set bs"
  shows "decode_utf8_partial bs \<lparr>pu_value = v, pu_remain = n\<rparr> = (cps @ [0], \<lparr>pu_value = v', pu_remain = n'\<rparr>)"
proof -
  have z: "c_str bs = bs" using assms(3) by (simp add: c_str_def takeWhile_eq_all_conv) (metis)
  obtain rest v1 n1 cps' where c: "decode_continue bs v n = Some (rest, v1, n1)" "0 \<le> n1" "0 < n1 \<longrightarrow> rest = []"
    "strict_run (v1, n1) rest = Some (cps', v', n')" "cps = (if 0 < n \<and> n1 = 0 then [v1] else []) @ cps'"
    using continue_strict[OF assms(1,2)] by blast
  show ?thesis
    using seqs_strict[OF c(4,3,2), of "if 0 < n \<and> n1 = 0 then [v1] else []"] c(1,5) by (simp add: decode_utf8_partial_def z)
qed

lemma decode_pieces_strict:
  "strict_run (v, n) (concat pieces) = Some (cps, v', n') \<Longrightarrow> 0 \<le> n \<Longrightarrow> 0 \<notin> set (concat pieces) \<Longrightarrow>
   decode_pieces pieces \<lparr>pu_value = v, pu_remain = n\<rparr> = (cps, \<lparr>pu_value = v', pu_remain = n'\<rparr>)"
proof (induction pieces arbitrary: v n cps)
  case (Cons p ps)
  from Cons.prems(1) obtain c1 v1 n1 c2 where s: "strict_run (v, n) p = Some (c1, v1, n1)"
    "strict_run (v1, n1) (concat ps) = Some (c2, v', n')" "cps = c1 @ c2"
    by (auto simp: strict_run_append split: option.splits)
  then show ?case
    using decode_partial_strict[OF s(1) Cons.prems(2)] Cons.IH[OF s(2) strict_remain[OF s(1) Cons.prems(2)]] Cons.prems(3) by simp
qed simp

text \<open>C25. However the UTF-8 text of a model output is cut into token pieces, also inside a code point, decoding the pieces
  one by one gives the code points of the text, and no incomplete sequence is left at the end.\<close>

theorem grammar_decode_pieces:
  assumes "unicode_cpts_to_utf8 cs = Some (concat pieces)" "0 \<notin> set (concat pieces)"
  shows "\<exists>v. decode_pieces pieces \<lparr>pu_value = 0, pu_remain = 0\<rparr> = (cs, \<lparr>pu_value = v, pu_remain = 0\<rparr>)"
  using strict_run_text[OF assms(1), of 0] decode_pieces_strict[OF _ _ assms(2), of 0 0] by fastforce

theorem grammar_decode_pieces_witness:
  "fst (decode_pieces [[0x48, 0xc3], [], [0xa9, 0xe2, 0x82], [0xac]] \<lparr>pu_value = 0, pu_remain = 0\<rparr>) = [0x48, 0xe9, 0x20ac]"
  using grammar_decode_pieces[of "[0x48, 0xe9, 0x20ac]" "[[0x48, 0xc3], [], [0xa9, 0xe2, 0x82], [0xac]]"]
  by (simp add: unicode_cpt_to_utf8_def low_byte_def) (metis fst_conv)

end
