(* ===== verification/GrammarSampler.thy ===== *)
theory GrammarSampler
  imports GrammarTotal GrammarDecode
begin

text \<open>
  The use of a grammar in sampling (\<open>src/llama-grammar.cpp\<close>): which candidate tokens are rejected
  (\<open>llama_grammar_reject_candidates\<close>), the mask on the logits (\<open>llama_grammar_sample_impl\<close>), the acceptance of a chosen token
  (\<open>llama_grammar_accept_token\<close>, \<open>llama_grammar_accept_str\<close>) and the lazy grammar that waits for a trigger
  (\<open>llama_grammar_accept_impl\<close>).

  The vocabulary (\<open>token_to_piece\<close>, \<open>is_eog\<close>) and \<open>std::regex\<close> are parameters.
\<close>

section \<open>Candidates\<close>

text \<open>\<open>code_points\<close> points into a zero-terminated array: the array and the offset.\<close>

record grammar_candidate =
  cand_index :: nat
  cand_cps :: "cpt list"
  cand_pos :: nat
  cand_partial :: partial_utf8
  cand_id :: llama_token

type_synonym candidates = "grammar_candidate list"

abbreviation cand_cp :: "grammar_candidate \<Rightarrow> cpt" where
  "cand_cp tok \<equiv> cand_cps tok ! cand_pos tok"

definition token_pos :: "grammar_rules \<Rightarrow> gpos \<Rightarrow> bool" where
  "token_pos rules p \<longleftrightarrow> type_at rules p = LLAMA_GRETYPE_TOKEN \<or> type_at rules p = LLAMA_GRETYPE_TOKEN_NOT"

text \<open>A stack whose top is a token element looks at the token itself.\<close>

definition rejected_by_token :: "grammar_rules \<Rightarrow> gpos \<Rightarrow> grammar_candidate \<Rightarrow> bool" where
  "rejected_by_token rules p tok =
     (if cand_cp tok = 0 then pu_remain (cand_partial tok) \<noteq> 0
      else llama_grammar_match_token rules p (cand_id tok) \<noteq> Inr True)"

text \<open>The loop over the candidates at a character element: the rejects so far, and the candidates that go on.\<close>

fun match_candidates :: "grammar_rules \<Rightarrow> gpos \<Rightarrow> candidates \<Rightarrow> candidates \<Rightarrow> candidates
    \<Rightarrow> grammar_error + (candidates \<times> candidates)" where
  "match_candidates rules p [] rejects next_candidates = Inr (rejects, next_candidates)"
| "match_candidates rules p (tok # toks) rejects next_candidates =
     (if cand_cp tok = 0 then
        (if pu_remain (cand_partial tok) \<noteq> 0 then
           (case llama_grammar_match_partial_char rules p (pu_value (cand_partial tok)) (pu_remain (cand_partial tok)) of
              Inl e \<Rightarrow> Inl e
            | Inr ok \<Rightarrow> match_candidates rules p toks (if ok then rejects else rejects @ [tok]) next_candidates)
         else match_candidates rules p toks rejects next_candidates)
      else
        (case llama_grammar_match_char rules p (cand_cp tok) of
           Inl e \<Rightarrow> Inl e
         | Inr (True, _) \<Rightarrow> match_candidates rules p toks rejects (next_candidates @ [tok\<lparr>cand_pos := cand_pos tok + 1\<rparr>])
         | Inr (False, _) \<Rightarrow> match_candidates rules p toks (rejects @ [tok]) next_candidates))"

text \<open>One stack; \<open>reject_next\<close> is the call of \<open>llama_grammar_reject_candidates\<close> on the stacks behind the matched element.\<close>

definition llama_grammar_reject_candidates_for_stack ::
  "(grammar_stack list \<Rightarrow> candidates \<Rightarrow> (grammar_error + candidates) option) \<Rightarrow> grammar_rules \<Rightarrow> grammar_stack \<Rightarrow> candidates
    \<Rightarrow> (grammar_error + candidates) option" where
  "llama_grammar_reject_candidates_for_stack reject_next rules stack candidates =
     (case stack of
        [] \<Rightarrow> Some (Inr (filter (\<lambda>tok. cand_cp tok \<noteq> 0 \<or> pu_remain (cand_partial tok) \<noteq> 0) candidates))
      | stack_pos # rest \<Rightarrow>
          if token_pos rules stack_pos then Some (Inr (filter (rejected_by_token rules stack_pos) candidates))
          else
            (case match_candidates rules stack_pos candidates [] [] of
               Inl e \<Rightarrow> Some (Inl e)
             | Inr (rejects, next_candidates) \<Rightarrow>
                 (case llama_grammar_match_char rules stack_pos 0 of
                    Inl e \<Rightarrow> Some (Inl e)
                  | Inr (_, stack_pos_after) \<Rightarrow>
                      (case llama_grammar_advance_stack rules (push_pos rules stack_pos_after rest) [] of
                         None \<Rightarrow> None
                       | Some (Inl e) \<Rightarrow> Some (Inl e)
                       | Some (Inr next_stacks) \<Rightarrow>
                           (case reject_next next_stacks next_candidates of
                              None \<Rightarrow> None
                            | Some (Inl e) \<Rightarrow> Some (Inl e)
                            | Some (Inr next_rejects) \<Rightarrow>
                                Some (Inr (rejects @ map (\<lambda>tok. tok\<lparr>cand_pos := cand_pos tok - 1\<rparr>) next_rejects)))))))"

text \<open>The loop over the stacks: what one stack rejects is offered to the next.\<close>

fun reject_stacks :: "(grammar_stack \<Rightarrow> candidates \<Rightarrow> (grammar_error + candidates) option) \<Rightarrow> grammar_stack list \<Rightarrow> candidates
    \<Rightarrow> (grammar_error + candidates) option" where
  "reject_stacks for_stack [] rejects = Some (Inr rejects)"
| "reject_stacks for_stack (stack # stacks) rejects =
     (case for_stack stack rejects of Some (Inr rejects') \<Rightarrow> reject_stacks for_stack stacks rejects' | r \<Rightarrow> r)"

text \<open>The first argument bounds the depth of the recursion: every level consumes a code point of all candidates
  (\<open>reject_depth\<close> is enough, \<open>reject_returns\<close>).\<close>

fun llama_grammar_reject_candidates :: "nat \<Rightarrow> grammar_rules \<Rightarrow> grammar_stack list \<Rightarrow> candidates \<Rightarrow> (grammar_error + candidates) option" where
  "llama_grammar_reject_candidates 0 rules stacks candidates = None"
| "llama_grammar_reject_candidates (Suc n) rules stacks candidates =
     (if stacks = [] then Some (Inl (Grammar_abort ''!stacks.empty()''))
      else if candidates = [] then Some (Inr [])
      else reject_stacks (llama_grammar_reject_candidates_for_stack (llama_grammar_reject_candidates n rules) rules) stacks candidates)"

definition reject_depth :: "candidates \<Rightarrow> nat" where
  "reject_depth candidates = Suc (Suc (fold max (map (\<lambda>tok. length (cand_cps tok) - cand_pos tok) candidates) 0))"

section \<open>The grammar\<close>

record 'pat llama_grammar =
  g_rules :: grammar_rules
  g_stacks :: "grammar_stack list"
  g_partial_utf8 :: partial_utf8
  g_lazy :: bool
  g_awaiting_trigger :: bool
  g_trigger_buffer :: "byte list"
  g_trigger_buffer_positions :: "(llama_token \<times> nat \<times> nat) list"
  g_trigger_tokens :: "llama_token list"
  g_trigger_patterns :: "'pat list"

definition new_grammar :: "grammar_rules \<Rightarrow> grammar_stack list \<Rightarrow> bool \<Rightarrow> llama_token list \<Rightarrow> 'pat list \<Rightarrow> 'pat llama_grammar" where
  "new_grammar rules stacks lazy trigger_tokens trigger_patterns =
     \<lparr>g_rules = rules, g_stacks = stacks, g_partial_utf8 = \<lparr>pu_value = 0, pu_remain = 0\<rparr>, g_lazy = lazy,
      g_awaiting_trigger = lazy, g_trigger_buffer = [], g_trigger_buffer_positions = [],
      g_trigger_tokens = trigger_tokens, g_trigger_patterns = trigger_patterns\<rparr>"

section \<open>llama_grammar_sample_impl\<close>

record 'l token_data =
  td_id :: llama_token
  td_logit :: 'l

text \<open>The loop over the token data: the logits masked at once, and the candidates for the grammar.\<close>

fun sample_scan :: "(llama_token \<Rightarrow> byte list) \<Rightarrow> (llama_token \<Rightarrow> bool) \<Rightarrow> 'l \<Rightarrow> bool \<Rightarrow> partial_utf8 \<Rightarrow> nat \<Rightarrow> 'l token_data list
    \<Rightarrow> 'l token_data list \<times> candidates" where
  "sample_scan token_to_piece is_eog neg_inf allow_eog pu i [] = ([], [])"
| "sample_scan token_to_piece is_eog neg_inf allow_eog pu i (td # tds) =
     (case sample_scan token_to_piece is_eog neg_inf allow_eog pu (Suc i) tds of
        (data, cands) \<Rightarrow>
          (let piece = token_to_piece (td_id td) in
           if is_eog (td_id td) then ((if allow_eog then td else td\<lparr>td_logit := neg_inf\<rparr>) # data, cands)
           else if piece = [] \<or> hd piece = 0 then (td\<lparr>td_logit := neg_inf\<rparr> # data, cands)
           else (case decode_utf8_partial piece pu of (cps, p) \<Rightarrow>
             (td # data, \<lparr>cand_index = i, cand_cps = cps, cand_pos = 0, cand_partial = p, cand_id = td_id td\<rparr> # cands))))"

fun mask_rejects :: "'l \<Rightarrow> candidates \<Rightarrow> 'l token_data list \<Rightarrow> 'l token_data list" where
  "mask_rejects neg_inf [] data = data"
| "mask_rejects neg_inf (r # rs) data =
     mask_rejects neg_inf rs (data[cand_index r := (data ! cand_index r)\<lparr>td_logit := neg_inf\<rparr>])"

definition llama_grammar_sample_impl :: "(llama_token \<Rightarrow> byte list) \<Rightarrow> (llama_token \<Rightarrow> bool) \<Rightarrow> 'l \<Rightarrow> 'pat llama_grammar
    \<Rightarrow> 'l token_data list \<Rightarrow> (grammar_error + 'l token_data list) option" where
  "llama_grammar_sample_impl token_to_piece is_eog neg_inf g data =
     (if g_awaiting_trigger g then Some (Inr data)
      else
        (let allow_eog = ([] \<in> set (g_stacks g)) in
         case sample_scan token_to_piece is_eog neg_inf allow_eog (g_partial_utf8 g) 0 data of
           (data', cands) \<Rightarrow>
             (case llama_grammar_reject_candidates (reject_depth cands) (g_rules g) (g_stacks g) cands of
                None \<Rightarrow> None
              | Some (Inl e) \<Rightarrow> Some (Inl e)
              | Some (Inr rejects) \<Rightarrow> Some (Inr (mask_rejects neg_inf rejects data')))))"

section \<open>llama_grammar_accept_token and llama_grammar_accept_str\<close>

text \<open>The loop over the code points, from one stack on; it stops when no stack is left.\<close>

fun accept_from :: "grammar_rules \<Rightarrow> cpt list \<Rightarrow> grammar_stack list \<Rightarrow> (grammar_error + grammar_stack list) option" where
  "accept_from rules [] current_stacks = Some (Inr current_stacks)"
| "accept_from rules (c # cs) current_stacks =
     (case accept_stacks rules current_stacks c [] of
        Some (Inr next_stacks) \<Rightarrow> if next_stacks = [] then Some (Inr []) else accept_from rules cs next_stacks
      | r \<Rightarrow> r)"

definition accept_token_stack :: "grammar_rules \<Rightarrow> llama_token \<Rightarrow> cpt list \<Rightarrow> grammar_stack \<Rightarrow> grammar_stack list
    \<Rightarrow> (grammar_error + grammar_stack list) option" where
  "accept_token_stack rules token code_points stack stacks_new =
     (case stack of [] \<Rightarrow> Some (Inr stacks_new)
      | pos # rest \<Rightarrow>
          if token_pos rules pos then
            (case llama_grammar_match_token rules pos token of
               Inl e \<Rightarrow> Some (Inl e)
             | Inr True \<Rightarrow> llama_grammar_advance_stack rules (push_pos rules (gnext pos) rest) stacks_new
             | Inr False \<Rightarrow> Some (Inr stacks_new))
          else
            (case accept_from rules (butlast code_points) [stack] of
               Some (Inr survivors) \<Rightarrow> Some (Inr (fold add_stack survivors stacks_new))
             | r \<Rightarrow> r))"

fun accept_token_stacks :: "grammar_rules \<Rightarrow> llama_token \<Rightarrow> cpt list \<Rightarrow> grammar_stack list \<Rightarrow> grammar_stack list
    \<Rightarrow> (grammar_error + grammar_stack list) option" where
  "accept_token_stacks rules token code_points [] stacks_new = Some (Inr stacks_new)"
| "accept_token_stacks rules token code_points (stack # stacks) stacks_new =
     (case accept_token_stack rules token code_points stack stacks_new of
        Some (Inr stacks_new') \<Rightarrow> accept_token_stacks rules token code_points stacks stacks_new'
      | r \<Rightarrow> r)"

definition llama_grammar_accept_token :: "'pat llama_grammar \<Rightarrow> llama_token \<Rightarrow> byte list \<Rightarrow> (grammar_error + 'pat llama_grammar) option" where
  "llama_grammar_accept_token g token piece =
     (case decode_utf8_partial piece (g_partial_utf8 g) of
        (code_points, p) \<Rightarrow>
          (case accept_token_stacks (g_rules g) token code_points (g_stacks g) [] of
             None \<Rightarrow> None
           | Some (Inl e) \<Rightarrow> Some (Inl e)
           | Some (Inr []) \<Rightarrow> Some (Inl (Grammar_throw ''Unexpected empty grammar stack after accepting piece''))
           | Some (Inr stacks_new) \<Rightarrow> Some (Inr (g\<lparr>g_stacks := stacks_new, g_partial_utf8 := p\<rparr>))))"

definition llama_grammar_accept_str :: "'pat llama_grammar \<Rightarrow> byte list \<Rightarrow> (grammar_error + 'pat llama_grammar) option" where
  "llama_grammar_accept_str g piece =
     (case decode_utf8_partial piece (g_partial_utf8 g) of
        (code_points, p) \<Rightarrow>
          (case accept_all_chrs (g_rules g) (butlast code_points) (g_stacks g) of
             None \<Rightarrow> None
           | Some (Inl e) \<Rightarrow> Some (Inl e)
           | Some (Inr []) \<Rightarrow> Some (Inl (Grammar_throw ''Unexpected empty grammar stack after accepting piece''))
           | Some (Inr stacks) \<Rightarrow> Some (Inr (g\<lparr>g_stacks := stacks, g_partial_utf8 := p\<rparr>))))"

section \<open>Triggers of a lazy grammar\<close>

text \<open>A match of a regular expression: position and length of the match and its groups.\<close>

type_synonym smatch = "(nat \<times> nat) list"

text \<open>From the first non-empty capturing group, or the whole match.\<close>

definition find_start_pos :: "smatch \<Rightarrow> nat" where
  "find_start_pos m = (case find (\<lambda>(pos, len). len > 0) (tl m) of Some (pos, len) \<Rightarrow> pos | None \<Rightarrow> fst (hd m))"

definition trigger_pattern_find :: "(byte list \<Rightarrow> byte list \<Rightarrow> smatch option) \<Rightarrow> (byte list \<Rightarrow> byte list \<Rightarrow> smatch option)
    \<Rightarrow> byte list \<Rightarrow> byte list \<Rightarrow> nat option" where
  "trigger_pattern_find regex_match regex_search pattern input =
     (case (if pattern \<noteq> [] \<and> hd pattern = 0x5e \<and> last pattern = 0x24 then regex_match pattern input else None) of
        Some m \<Rightarrow> Some (find_start_pos m)
      | None \<Rightarrow> map_option find_start_pos (regex_search pattern input))"

fun first_trigger :: "('pat \<Rightarrow> byte list \<Rightarrow> nat option) \<Rightarrow> 'pat list \<Rightarrow> byte list \<Rightarrow> nat option" where
  "first_trigger pat_find [] buffer = None"
| "first_trigger pat_find (pat # pats) buffer = (case pat_find pat buffer of Some start \<Rightarrow> Some start | None \<Rightarrow> first_trigger pat_find pats buffer)"

text \<open>The tokens to replay: those that end behind \<open>start\<close>, the first one cut there.\<close>

fun replay_pieces :: "byte list \<Rightarrow> nat \<Rightarrow> (llama_token \<times> nat \<times> nat) list \<Rightarrow> (llama_token \<times> byte list) list" where
  "replay_pieces buffer start [] = []"
| "replay_pieces buffer start ((tok, tok_start, tok_end) # toks) =
     (if tok_end \<le> start then replay_pieces buffer start toks
      else
        (let piece_start = (if tok_start < start then start else tok_start)
         in (tok, take (tok_end - piece_start) (drop piece_start buffer)) # replay_pieces buffer start toks))"

fun accept_tokens :: "'pat llama_grammar \<Rightarrow> (llama_token \<times> byte list) list \<Rightarrow> (grammar_error + 'pat llama_grammar) option" where
  "accept_tokens g [] = Some (Inr g)"
| "accept_tokens g ((tok, piece) # toks) =
     (case llama_grammar_accept_token g tok piece of Some (Inr g') \<Rightarrow> accept_tokens g' toks | r \<Rightarrow> r)"

definition llama_grammar_accept_impl :: "(llama_token \<Rightarrow> byte list) \<Rightarrow> (llama_token \<Rightarrow> bool) \<Rightarrow> ('pat \<Rightarrow> byte list \<Rightarrow> nat option)
    \<Rightarrow> 'pat llama_grammar \<Rightarrow> llama_token \<Rightarrow> (grammar_error + 'pat llama_grammar) option" where
  "llama_grammar_accept_impl token_to_piece is_eog pat_find g token =
     (let piece = token_to_piece token in
      if g_awaiting_trigger g then
        (if token \<in> set (g_trigger_tokens g) then
           llama_grammar_accept_token (g\<lparr>g_awaiting_trigger := False, g_trigger_buffer := []\<rparr>) token piece
         else
           (let g1 = g\<lparr>g_trigger_buffer_positions := g_trigger_buffer_positions g @
                         [(token, length (g_trigger_buffer g), length (g_trigger_buffer g) + length piece)],
                       g_trigger_buffer := g_trigger_buffer g @ piece\<rparr>
            in case first_trigger pat_find (g_trigger_patterns g) (g_trigger_buffer g1) of
                 None \<Rightarrow> Some (Inr g1)
               | Some start \<Rightarrow>
                   (case accept_tokens (g1\<lparr>g_awaiting_trigger := False\<rparr>)
                      (replay_pieces (g_trigger_buffer g1) start (g_trigger_buffer_positions g1)) of
                      Some (Inr g2) \<Rightarrow> Some (Inr (g2\<lparr>g_trigger_buffer := [], g_trigger_buffer_positions := []\<rparr>))
                    | r \<Rightarrow> r)))
      else if is_eog token then
        (if [] \<in> set (g_stacks g) then Some (Inr g) else Some (Inl (Grammar_abort ''fatal error'')))
      else llama_grammar_accept_token g token piece)"

end
