(* ===== verification/GrammarSampling.thy ===== *)
theory GrammarSampling
  imports GrammarSampler
begin

text \<open>
  What the sampler with a grammar guarantees: which candidates are rejected (theory \<open>GrammarSampler\<close>), and that a token it
  leaves can be accepted.
\<close>

section \<open>The specification of a rejection\<close>

text \<open>Can the code points \<open>cs\<close>, followed by an incomplete code point \<open>pu\<close>, of the token \<open>token\<close> be read from the stack?\<close>

fun takes :: "grammar_rules \<Rightarrow> grammar_stack \<Rightarrow> cpt list \<Rightarrow> partial_utf8 \<Rightarrow> llama_token \<Rightarrow> bool" where
  "takes rules s [] pu token \<longleftrightarrow>
     pu_remain pu = 0 \<or>
     (s \<noteq> [] \<and> \<not> token_pos rules (hd s) \<and> llama_grammar_match_partial_char rules (hd s) (pu_value pu) (pu_remain pu) = Inr True)"
| "takes rules s (c # cs) pu token \<longleftrightarrow>
     (case s of [] \<Rightarrow> False
      | p # rest \<Rightarrow>
          if token_pos rules p then llama_grammar_match_token rules p token = Inr True
          else (\<exists>p' t. llama_grammar_match_char rules p c = Inr (True, p') \<and> terminal rules t \<and>
                  ereach rules (push_pos rules p' rest) t \<and> takes rules t cs pu token))"

definition cand_rest :: "grammar_candidate \<Rightarrow> cpt list" where
  "cand_rest tok = takeWhile (\<lambda>c. c \<noteq> 0) (drop (cand_pos tok) (cand_cps tok))"

definition cand_ok :: "grammar_candidate \<Rightarrow> bool" where
  "cand_ok tok \<longleftrightarrow> 0 \<in> set (drop (cand_pos tok) (cand_cps tok))"

abbreviation taken_by :: "grammar_rules \<Rightarrow> grammar_stack \<Rightarrow> grammar_candidate \<Rightarrow> bool" where
  "taken_by rules s tok \<equiv> takes rules s (cand_rest tok) (cand_partial tok) (cand_id tok)"

abbreviation cand_next :: "grammar_candidate \<Rightarrow> grammar_candidate" where
  "cand_next tok \<equiv> tok\<lparr>cand_pos := cand_pos tok + 1\<rparr>"

lemma cand_pos_bound: "cand_ok tok \<Longrightarrow> cand_pos tok < length (cand_cps tok)"
  by (cases "cand_pos tok < length (cand_cps tok)") (simp_all add: cand_ok_def)

lemma cand_drop: "cand_ok tok \<Longrightarrow> drop (cand_pos tok) (cand_cps tok) = cand_cp tok # drop (Suc (cand_pos tok)) (cand_cps tok)"
  using cand_pos_bound by (simp add: Cons_nth_drop_Suc)

lemma cand_rest_end: "cand_ok tok \<Longrightarrow> cand_cp tok = 0 \<Longrightarrow> cand_rest tok = []"
  by (simp add: cand_rest_def cand_drop)

lemma cand_rest_more: "cand_ok tok \<Longrightarrow> cand_cp tok \<noteq> 0 \<Longrightarrow> cand_rest tok = cand_cp tok # cand_rest (cand_next tok)"
  by (simp add: cand_rest_def cand_drop)

lemma cand_next_ok: "cand_ok tok \<Longrightarrow> cand_cp tok \<noteq> 0 \<Longrightarrow> cand_ok (cand_next tok)"
  using cand_drop[of tok] by (simp add: cand_ok_def)

text \<open>The position behind a character set does not depend on the character.\<close>

lemma match_char_loop_pos: "snd (match_char_loop rules p c f) = snd (match_char_loop rules p d g)"
proof (induction "room rules p" arbitrary: p f g rule: less_induct)
  case less
  define q where "q = (if type_at rules (gnext p) = LLAMA_GRETYPE_CHAR_RNG_UPPER then gnext (gnext p) else gnext p)"
  have e: "\<exists>f'. match_char_loop rules p c f =
      (if type_at rules q = LLAMA_GRETYPE_CHAR_ALT then match_char_loop rules q c f' else (f', q))" for c f
    by (subst match_char_loop.simps) (auto simp: q_def Let_def)
  obtain f1 where 1: "match_char_loop rules p c f =
      (if type_at rules q = LLAMA_GRETYPE_CHAR_ALT then match_char_loop rules q c f1 else (f1, q))" using e by blast
  obtain f2 where 2: "match_char_loop rules p d g =
      (if type_at rules q = LLAMA_GRETYPE_CHAR_ALT then match_char_loop rules q d f2 else (f2, q))" using e by blast
  show ?case
  proof (cases "type_at rules q = LLAMA_GRETYPE_CHAR_ALT")
    case True
    then have "0 < room rules q" by (auto simp: room_def elem_at_def split: if_splits)
    then have "room rules q < room rules p" by (auto simp: q_def room_def gnext_def split: if_splits)
    then show ?thesis unfolding 1 2 using less True by simp
  next
    case False
    then show ?thesis unfolding 1 2 by simp
  qed
qed

lemma match_char_pos:
  "llama_grammar_match_char rules p c = Inr (b, q) \<Longrightarrow> llama_grammar_match_char rules p d = Inr (b', q') \<Longrightarrow> q = q'"
  using match_char_loop_pos[of rules p c False d False]
  by (auto simp: llama_grammar_match_char_def split: if_splits prod.splits)

text \<open>The loop over the candidates at a character element.\<close>

definition matches_char :: "grammar_rules \<Rightarrow> gpos \<Rightarrow> cpt \<Rightarrow> bool" where
  "matches_char rules p c \<longleftrightarrow> (\<exists>q. llama_grammar_match_char rules p c = Inr (True, q))"

lemma matches_char: "llama_grammar_match_char rules p c = Inr (b, q) \<Longrightarrow> matches_char rules p c \<longleftrightarrow> b"
  by (cases b) (simp_all add: matches_char_def)

definition goes_on :: "grammar_rules \<Rightarrow> gpos \<Rightarrow> grammar_candidate \<Rightarrow> bool" where
  "goes_on rules p tok \<longleftrightarrow> cand_cp tok \<noteq> 0 \<and> matches_char rules p (cand_cp tok)"

definition fails_at :: "grammar_rules \<Rightarrow> gpos \<Rightarrow> grammar_candidate \<Rightarrow> bool" where
  "fails_at rules p tok \<longleftrightarrow>
     (if cand_cp tok = 0 then pu_remain (cand_partial tok) \<noteq> 0 \<and>
        llama_grammar_match_partial_char rules p (pu_value (cand_partial tok)) (pu_remain (cand_partial tok)) \<noteq> Inr True
      else \<not> goes_on rules p tok)"

lemma match_candidates_result:
  "match_candidates rules p toks rej nxt = Inr (rej', nxt') \<Longrightarrow>
   set rej' = set rej \<union> {tok \<in> set toks. fails_at rules p tok} \<and> nxt' = nxt @ map cand_next (filter (goes_on rules p) toks)"
proof (induction rules p toks rej nxt rule: match_candidates.induct)
  case (1 rules p rej nxt)
  then show ?case by simp
next
  case (2 rules p tok toks rej nxt)
  show ?case
  proof (cases "cand_cp tok = 0")
    case True
    show ?thesis
    proof (cases "pu_remain (cand_partial tok) \<noteq> 0")
      case True
      obtain ok where ok: "llama_grammar_match_partial_char rules p (pu_value (cand_partial tok)) (pu_remain (cand_partial tok)) = Inr ok"
        using 2(5) True \<open>cand_cp tok = 0\<close> by (auto split: sum.splits)
      show ?thesis using 2(1)[OF \<open>cand_cp tok = 0\<close> True ok] 2(5) True \<open>cand_cp tok = 0\<close> ok
        by (cases ok) (auto simp: goes_on_def fails_at_def)
    next
      case False
      then show ?thesis using 2(2)[OF \<open>cand_cp tok = 0\<close>] 2(5) \<open>cand_cp tok = 0\<close> by (auto simp: goes_on_def fails_at_def)
    qed
  next
    case False
    obtain b q where m: "llama_grammar_match_char rules p (cand_cp tok) = Inr (b, q)"
      using 2(5) False by (auto split: sum.splits)
    show ?thesis
    proof (cases b)
      case True
      then show ?thesis using 2(3)[OF False] 2(5) False m matches_char[OF m] by (auto simp: goes_on_def fails_at_def)
    next
      case b: False
      then show ?thesis using 2(4)[OF False] 2(5) False m matches_char[OF m] by (auto simp: goes_on_def fails_at_def)
    qed
  qed
qed

section \<open>Rejections are exact\<close>

definition rejects_exactly :: "grammar_rules \<Rightarrow> grammar_stack list \<Rightarrow> candidates \<Rightarrow> candidates \<Rightarrow> bool" where
  "rejects_exactly rules stacks cands rejects \<longleftrightarrow>
     set rejects = {tok \<in> set cands. \<forall>s \<in> set stacks. \<not> taken_by rules s tok}"

lemma for_stack_exact:
  assumes "llama_grammar_reject_candidates_for_stack next rules s cands = Some (Inr rejects)"
    and next_ok: "\<And>ss cs r. next ss cs = Some (Inr r) \<Longrightarrow> (\<forall>tok \<in> set cs. cand_ok tok) \<Longrightarrow> rejects_exactly rules ss cs r"
    and ok: "\<forall>tok \<in> set cands. cand_ok tok"
  shows "set rejects = {tok \<in> set cands. \<not> taken_by rules s tok}"
proof (cases s)
  case Nil
  have "cand_cp tok \<noteq> 0 \<or> pu_remain (cand_partial tok) \<noteq> 0 \<longleftrightarrow> \<not> taken_by rules [] tok" if "tok \<in> set cands" for tok
    using ok that by (cases "cand_cp tok = 0") (simp_all add: cand_rest_end cand_rest_more)
  then have e: "filter (\<lambda>tok. cand_cp tok \<noteq> 0 \<or> pu_remain (cand_partial tok) \<noteq> 0) cands = filter (\<lambda>tok. \<not> taken_by rules [] tok) cands"
    by (intro filter_cong refl)
  have "rejects = filter (\<lambda>tok. cand_cp tok \<noteq> 0 \<or> pu_remain (cand_partial tok) \<noteq> 0) cands"
    using assms(1) Nil by (simp add: llama_grammar_reject_candidates_for_stack_def)
  then have "rejects = filter (\<lambda>tok. \<not> taken_by rules [] tok) cands" unfolding e .
  then show ?thesis unfolding Nil by simp
next
  case (Cons p rest)
  show ?thesis
  proof (cases "token_pos rules p")
    case True
    have "rejected_by_token rules p tok \<longleftrightarrow> \<not> taken_by rules (p # rest) tok" if "tok \<in> set cands" for tok
      using ok that True by (cases "cand_cp tok = 0") (simp_all add: cand_rest_end cand_rest_more rejected_by_token_def)
    then have e: "filter (rejected_by_token rules p) cands = filter (\<lambda>tok. \<not> taken_by rules (p # rest) tok) cands"
      by (intro filter_cong refl)
    have "rejects = filter (rejected_by_token rules p) cands"
      using assms(1) Cons True by (simp add: llama_grammar_reject_candidates_for_stack_def)
    then have "rejects = filter (\<lambda>tok. \<not> taken_by rules (p # rest) tok) cands" unfolding e .
    then show ?thesis unfolding Cons by simp
  next
    case False
    obtain rej nxt b q ss nrej where m: "match_candidates rules p cands [] [] = Inr (rej, nxt)"
      "llama_grammar_match_char rules p 0 = Inr (b, q)"
      "llama_grammar_advance_stack rules (push_pos rules q rest) [] = Some (Inr ss)"
      "next ss nxt = Some (Inr nrej)" and r: "rejects = rej @ map (\<lambda>tok. tok\<lparr>cand_pos := cand_pos tok - 1\<rparr>) nrej"
      using assms(1) Cons False
      by (auto simp: llama_grammar_reject_candidates_for_stack_def split: sum.splits prod.splits option.splits)
    note mc = match_candidates_result[OF m(1)]
    have nok: "\<forall>tok \<in> set nxt. cand_ok tok" using mc ok cand_next_ok by (auto simp: goes_on_def)
    have nr: "set nrej = {tok \<in> set nxt. \<forall>t \<in> set ss. \<not> taken_by rules t tok}"
      using next_ok[OF m(4) nok] by (simp add: rejects_exactly_def)
    have ss: "set ss = {t. terminal rules t \<and> ereach rules (push_pos rules q rest) t}" using advance_stack_result[OF m(3)] by simp
    have tk: "taken_by rules s tok \<longleftrightarrow> (if cand_cp tok = 0 then \<not> fails_at rules p tok
        else goes_on rules p tok \<and> (\<exists>t \<in> set ss. taken_by rules t (cand_next tok)))" if "tok \<in> set cands" for tok
    proof (cases "cand_cp tok = 0")
      case True
      then show ?thesis using ok that Cons False by (simp add: cand_rest_end fails_at_def)
    next
      case c: False
      have "taken_by rules s tok \<longleftrightarrow> (\<exists>q' t. llama_grammar_match_char rules p (cand_cp tok) = Inr (True, q') \<and> terminal rules t \<and>
          ereach rules (push_pos rules q' rest) t \<and> taken_by rules t (cand_next tok))"
        using ok that Cons False c by (simp add: cand_rest_more)
      then show ?thesis using c match_char_pos[OF _ m(2)] unfolding ss goes_on_def matches_char_def by auto
    qed
    have bk: "tok \<in> set (map (\<lambda>tok. tok\<lparr>cand_pos := cand_pos tok - 1\<rparr>) nrej) \<longleftrightarrow>
        tok \<in> set cands \<and> goes_on rules p tok \<and> (\<forall>t \<in> set ss. \<not> taken_by rules t (cand_next tok))" for tok
      unfolding set_map nr using mc by (force simp: image_iff)
    have "tok \<in> set rejects \<longleftrightarrow> tok \<in> set cands \<and> \<not> taken_by rules s tok" for tok
    proof (cases "tok \<in> set cands")
      case True
      have "tok \<in> set rejects \<longleftrightarrow> fails_at rules p tok \<or> (goes_on rules p tok \<and> (\<forall>t \<in> set ss. \<not> taken_by rules t (cand_next tok)))"
        unfolding r set_append Un_iff bk using mc True by simp
      then show ?thesis unfolding tk[OF True] using True by (auto simp: fails_at_def goes_on_def)
    next
      case False
      then show ?thesis unfolding r set_append Un_iff bk using mc by simp
    qed
    then show ?thesis by blast
  qed
qed

lemma reject_stacks_exact:
  assumes "\<And>s cs r. f s cs = Some (Inr r) \<Longrightarrow> (\<forall>tok \<in> set cs. cand_ok tok) \<Longrightarrow> set r = {tok \<in> set cs. \<not> taken_by rules s tok}"
  shows "reject_stacks f ss cands = Some (Inr rejects) \<Longrightarrow> \<forall>tok \<in> set cands. cand_ok tok \<Longrightarrow> rejects_exactly rules ss cands rejects"
proof (induction ss arbitrary: cands)
  case Nil
  then show ?case by (simp add: rejects_exactly_def)
next
  case (Cons s ss)
  obtain r where r: "f s cands = Some (Inr r)" "reject_stacks f ss r = Some (Inr rejects)"
    using Cons.prems(1) by (auto split: option.splits sum.splits)
  have sr: "set r = {tok \<in> set cands. \<not> taken_by rules s tok}" using assms[OF r(1) Cons.prems(2)] .
  then have "\<forall>tok \<in> set r. cand_ok tok" using Cons.prems(2) by simp
  from Cons.IH[OF r(2) this] show ?case unfolding rejects_exactly_def sr by auto
qed

lemma reject_exact:
  "llama_grammar_reject_candidates n rules stacks cands = Some (Inr rejects) \<Longrightarrow> \<forall>tok \<in> set cands. cand_ok tok \<Longrightarrow>
   rejects_exactly rules stacks cands rejects"
proof (induction n arbitrary: stacks cands rejects)
  case 0
  then show ?case by simp
next
  case (Suc n)
  show ?case
  proof (cases "cands = []")
    case True
    then show ?thesis using Suc.prems by (simp add: rejects_exactly_def split: if_splits)
  next
    case False
    then have "reject_stacks (llama_grammar_reject_candidates_for_stack (llama_grammar_reject_candidates n rules) rules) stacks cands
        = Some (Inr rejects)" using Suc.prems(1) by (simp split: if_splits)
    then show ?thesis
      by (rule reject_stacks_exact[rotated]) (use Suc.prems(2) for_stack_exact[OF _ Suc.IH] in blast)+
  qed
qed

section \<open>The recursion is deep enough\<close>

lemma match_candidates_total:
  assumes "char_type (type_at rules p)"
  shows "\<exists>r. match_candidates rules p toks rej nxt = Inr r"
proof -
  have c: "\<exists>b q. llama_grammar_match_char rules p c = Inr (b, q)" for c
    using assms by (auto simp: llama_grammar_match_char_def char_type_def is_positive_char_def split: prod.splits)
  have m: "\<exists>b. llama_grammar_match_partial_char rules p v k = Inr b" for v k
    using assms by (auto simp: llama_grammar_match_partial_char_def char_type_def is_positive_char_def Let_def)
  show ?thesis
  proof (induction toks arbitrary: rej nxt)
    case Nil
    then show ?case by simp
  next
    case (Cons tok toks)
    obtain b q where "llama_grammar_match_char rules p (cand_cp tok) = Inr (b, q)" using c by blast
    moreover obtain b' where
      "llama_grammar_match_partial_char rules p (pu_value (cand_partial tok)) (pu_remain (cand_partial tok)) = Inr b'" using m by blast
    ultimately show ?case using Cons by (cases b) simp_all
  qed
qed

lemma terminal_char: "terminal rules (p # rest) \<Longrightarrow> \<not> token_pos rules p \<Longrightarrow> char_type (type_at rules p)"
  by (auto simp: terminal_def token_pos_def token_type_def)

definition deep_enough :: "nat \<Rightarrow> candidates \<Rightarrow> bool" where
  "deep_enough n cands \<longleftrightarrow> 0 < n \<and> (\<forall>tok \<in> set cands. length (cand_rest tok) + 2 \<le> n)"

lemma for_stack_total:
  assumes ok: "grammar_ok rules" and s: "sound_stack rules s" "terminal rules s"
    and cands: "\<forall>tok \<in> set cands. cand_ok tok" "0 < n" "deep_enough (Suc n) cands"
    and next_ok: "\<And>ss cs. ss \<noteq> [] \<Longrightarrow> sound_stacks rules ss \<Longrightarrow> \<forall>tok \<in> set cs. cand_ok tok \<Longrightarrow> deep_enough n cs \<Longrightarrow> \<exists>r. next ss cs = Some (Inr r)"
  shows "\<exists>r. llama_grammar_reject_candidates_for_stack next rules s cands = Some (Inr r)"
proof (cases s)
  case Nil
  then show ?thesis by (simp add: llama_grammar_reject_candidates_for_stack_def)
next
  case (Cons p rest)
  show ?thesis
  proof (cases "token_pos rules p")
    case True
    then show ?thesis using Cons by (simp add: llama_grammar_reject_candidates_for_stack_def)
  next
    case False
    have ch: "char_type (type_at rules p)" using s(2) Cons False terminal_char by blast
    obtain rej nxt where m: "match_candidates rules p cands [] [] = Inr (rej, nxt)" using match_candidates_total[OF ch] by (metis prod.collapse)
    obtain b q where mc: "match_char_loop rules p 0 False = (b, q)" by (rule prod.exhaust)
    have m0: "llama_grammar_match_char rules p 0 = Inr (b = is_positive_char rules p, q)"
      using ch mc by (auto simp: llama_grammar_match_char_def char_type_def is_positive_char_def)
    have sq: "sound_stack rules (push_pos rules q rest)"
      using match_char_loop_head_ok[OF _ mc] ok s(1) Cons sound_push by (simp add: grammar_ok_def)
    obtain ss where ss: "llama_grammar_advance_stack rules (push_pos rules q rest) [] = Some (Inr ss)" using advance_total[OF ok sq] by blast
    note mr = match_candidates_result[OF m]
    have "\<forall>tok \<in> set nxt. cand_ok tok" using mr cands(1) cand_next_ok by (auto simp: goes_on_def)
    moreover have "deep_enough n nxt"
      unfolding deep_enough_def
    proof
      show "0 < n" by (rule cands(2))
      show "\<forall>tok \<in> set nxt. length (cand_rest tok) + 2 \<le> n"
      proof
        fix tok assume "tok \<in> set nxt"
        then obtain t where t: "t \<in> set cands" "cand_cp t \<noteq> 0" "tok = cand_next t" using mr by (auto simp: goes_on_def)
        then have "length (cand_rest t) = Suc (length (cand_rest tok))" using cands(1) cand_rest_more by simp
        then show "length (cand_rest tok) + 2 \<le> n" using cands(3) t(1) unfolding deep_enough_def by auto
      qed
    qed
    moreover have "sound_stacks rules ss" using advance_sound[OF ok sq _ ss] by (simp add: sound_stacks_def)
    ultimately obtain nrej where "next ss nxt = Some (Inr nrej)" using next_ok[OF advance_nonempty[OF ok sq ss]] by blast
    then show ?thesis using Cons False m m0 ss by (simp add: llama_grammar_reject_candidates_for_stack_def)
  qed
qed

lemma reject_returns:
  assumes ok: "grammar_ok rules"
  shows "stacks \<noteq> [] \<Longrightarrow> sound_stacks rules stacks \<Longrightarrow> \<forall>tok \<in> set cands. cand_ok tok \<Longrightarrow> deep_enough n cands \<Longrightarrow>
    \<exists>r. llama_grammar_reject_candidates n rules stacks cands = Some (Inr r)"
proof (induction n arbitrary: stacks cands)
  case 0
  then show ?case by (simp add: deep_enough_def)
next
  case (Suc n)
  let ?f = "llama_grammar_reject_candidates_for_stack (llama_grammar_reject_candidates n rules) rules"
  show ?case
  proof (cases "cands = []")
    case True
    then show ?thesis using Suc.prems(1) by simp
  next
    case False
    have n: "0 < n" using False Suc.prems(4) by (cases cands) (auto simp: deep_enough_def)
    have "\<exists>r. reject_stacks ?f ss cs = Some (Inr r)"
      if "sound_stacks rules ss" "\<forall>tok \<in> set cs. cand_ok tok" "deep_enough (Suc n) cs" for ss cs
      using that
    proof (induction ss arbitrary: cs)
      case Nil
      then show ?case by simp
    next
      case (Cons s ss)
      have g: "sound_stack rules s" "terminal rules s" "sound_stacks rules ss" using Cons.prems(1) by (simp_all add: sound_stacks_def)
      have "\<exists>r. ?f s cs = Some (Inr r)"
        by (rule for_stack_total[OF ok g(1,2) Cons.prems(2) n Cons.prems(3)]) (rule Suc.IH)
      then obtain r where r: "?f s cs = Some (Inr r)" by blast
      have "set r = {tok \<in> set cs. \<not> taken_by rules s tok}"
        by (rule for_stack_exact[OF r reject_exact Cons.prems(2)])
      then have "\<forall>tok \<in> set r. cand_ok tok" "deep_enough (Suc n) r" using Cons.prems(2,3) by (simp_all add: deep_enough_def)
      then show ?case using Cons.IH[OF g(3)] r by simp
    qed
    then show ?thesis using Suc.prems False by simp
  qed
qed

lemma fold_max_ge: "(x :: nat) \<in> set xs \<Longrightarrow> x \<le> fold max xs a" "a \<le> fold max xs a"
proof -
  show ge: "a \<le> fold max xs a" for xs and a :: nat
  proof (induction xs arbitrary: a)
    case (Cons x xs)
    show ?case using order_trans[OF max.cobounded2[of a x] Cons[of "max x a"]] by simp
  qed simp
  show "x \<in> set xs \<Longrightarrow> x \<le> fold max xs a"
    by (induction xs arbitrary: a) (auto intro: order_trans[OF _ ge])
qed

lemma reject_depth_enough: "deep_enough (reject_depth cands) cands"
proof -
  have "length (cand_rest tok) \<le> fold max (map (\<lambda>tok. length (cand_cps tok) - cand_pos tok) cands) 0" if "tok \<in> set cands" for tok
  proof -
    have "length (cand_rest tok) \<le> length (cand_cps tok) - cand_pos tok"
      unfolding cand_rest_def by (rule order_trans[OF length_takeWhile_le]) simp
    also have "\<dots> \<le> fold max (map (\<lambda>tok. length (cand_cps tok) - cand_pos tok) cands) 0"
      by (rule fold_max_ge(1)) (use that in simp)
    finally show ?thesis .
  qed
  then show ?thesis by (simp add: deep_enough_def reject_depth_def)
qed

section \<open>What accepting a token does\<close>

text \<open>Grammars without token elements.\<close>

definition no_token_elements :: "grammar_rules \<Rightarrow> bool" where
  "no_token_elements rules \<longleftrightarrow>
     list_all (list_all (\<lambda>e. ge_type e \<noteq> LLAMA_GRETYPE_TOKEN \<and> ge_type e \<noteq> LLAMA_GRETYPE_TOKEN_NOT)) rules"

lemma no_token_pos: "no_token_elements rules \<Longrightarrow> \<not> token_pos rules p"
  by (auto simp: no_token_elements_def token_pos_def list_all_length elem_at_def)

inductive reads :: "grammar_rules \<Rightarrow> grammar_stack \<Rightarrow> cpt list \<Rightarrow> grammar_stack \<Rightarrow> bool" for rules where
  reads_nil: "reads rules s [] s"
| reads_step: "\<not> token_pos rules p \<Longrightarrow> llama_grammar_match_char rules p c = Inr (True, q) \<Longrightarrow> terminal rules u \<Longrightarrow>
    ereach rules (push_pos rules q rest) u \<Longrightarrow> reads rules u cs t \<Longrightarrow> reads rules (p # rest) (c # cs) t"

inductive_simps reads_Nil [simp]: "reads rules s [] t"
inductive_simps reads_Cons: "reads rules s (c # cs) t"

lemma takes_reads:
  "takes rules s cs pu token \<Longrightarrow> no_token_elements rules \<Longrightarrow> \<exists>t. reads rules s cs t"
proof (induction rules s cs pu token rule: takes.induct)
  case (2 rules s c cs pu token)
  then obtain p rest q t where "s = p # rest" "llama_grammar_match_char rules p c = Inr (True, q)" "terminal rules t"
    "ereach rules (push_pos rules q rest) t" "takes rules t cs pu token"
    by (auto simp: no_token_pos split: list.splits)
  then show ?case using 2 no_token_pos[OF 2(3)] reads_step by (metis (no_types, lifting))
qed auto

lemma accept_chr_reads:
  assumes "llama_grammar_accept_chr rules s c new = Some (Inr r)"
  shows "set r = set new \<union> {t. reads rules s [c] t}"
proof (cases s)
  case Nil
  then show ?thesis using assms by (simp add: llama_grammar_accept_chr_def reads_Cons)
next
  case (Cons p rest)
  show ?thesis
  proof (cases "token_pos rules p")
    case True
    then show ?thesis using assms Cons by (auto simp: llama_grammar_accept_chr_def token_pos_def reads_Cons)
  next
    case False
    then obtain b q where m: "llama_grammar_match_char rules p c = Inr (b, q)"
      using assms Cons by (auto simp: llama_grammar_accept_chr_def token_pos_def split: sum.splits)
    have rd: "reads rules s [c] t \<longleftrightarrow> b \<and> terminal rules t \<and> ereach rules (push_pos rules q rest) t" for t
      using Cons False m by (cases p, cases q, auto simp: reads_Cons)
    show ?thesis
    proof (cases b)
      case True
      then have "llama_grammar_advance_stack rules (push_pos rules q rest) new = Some (Inr r)"
        using assms Cons False m by (simp add: llama_grammar_accept_chr_def token_pos_def)
      then show ?thesis using advance_stack_result rd True by simp
    next
      case b: False
      then show ?thesis using assms Cons False m rd by (simp add: llama_grammar_accept_chr_def token_pos_def)
    qed
  qed
qed

lemma accept_stacks_reads:
  "accept_stacks rules ss c new = Some (Inr r) \<Longrightarrow> set r = set new \<union> {t. \<exists>s \<in> set ss. reads rules s [c] t}"
proof (induction ss arbitrary: new)
  case Nil
  then show ?case by simp
next
  case (Cons s ss)
  obtain mid where mid: "llama_grammar_accept_chr rules s c new = Some (Inr mid)" "accept_stacks rules ss c mid = Some (Inr r)"
    using Cons.prems by (auto split: option.splits sum.splits)
  show ?case using Cons.IH[OF mid(2)] accept_chr_reads[OF mid(1)] by auto
qed

lemma reads_trans: "reads rules s (c # cs) t \<longleftrightarrow> (\<exists>u. reads rules s [c] u \<and> reads rules u cs t)"
  by (auto simp: reads_Cons)

lemma accept_from_reads:
  "accept_from rules cs ss = Some (Inr r) \<Longrightarrow> set r = {t. \<exists>s \<in> set ss. reads rules s cs t}"
proof (induction cs arbitrary: ss)
  case Nil
  then show ?case by simp
next
  case (Cons c cs)
  obtain mid where mid: "accept_stacks rules ss c [] = Some (Inr mid)" "(if mid = [] then Some (Inr []) else accept_from rules cs mid) = Some (Inr r)"
    using Cons.prems by (auto split: option.splits sum.splits)
  have m: "set mid = {t. \<exists>s \<in> set ss. reads rules s [c] t}" using accept_stacks_reads[OF mid(1)] by simp
  have "set r = {t. \<exists>s \<in> set mid. reads rules s cs t}" using Cons.IH mid(2) by (cases "mid = []") auto
  then show ?case unfolding m reads_trans[of rules _ c cs] by blast
qed

lemma accept_from_total:
  assumes "grammar_ok rules"
  shows "sound_stacks rules ss \<Longrightarrow> \<exists>r. accept_from rules cs ss = Some (Inr r) \<and> sound_stacks rules r"
proof (induction cs arbitrary: ss)
  case Nil
  then show ?case by simp
next
  case (Cons c cs)
  obtain mid where mid: "accept_stacks rules ss c [] = Some (Inr mid)" "sound_stacks rules mid"
    using accept_stacks_total[OF assms Cons.prems, of "[]" c] by (auto simp: sound_stacks_def)
  then show ?case using Cons.IH[OF mid(2)] by (cases "mid = []") (simp_all add: sound_stacks_def)
qed

lemma set_fold_add [simp]: "set (fold add_stack xs ys) = set xs \<union> set ys"
  by (induction xs arbitrary: ys) auto

lemma accept_token_stacks_reads:
  assumes ok: "grammar_ok rules" "no_token_elements rules"
  shows "sound_stacks rules ss \<Longrightarrow> sound_stacks rules new \<Longrightarrow>
    \<exists>r. accept_token_stacks rules token cps ss new = Some (Inr r) \<and> sound_stacks rules r \<and>
      set r = set new \<union> {t. \<exists>s \<in> set ss. s \<noteq> [] \<and> reads rules s (butlast cps) t}"
proof (induction ss arbitrary: new)
  case Nil
  then show ?case by simp
next
  case (Cons s ss)
  have ss: "sound_stacks rules ss" "sound_stacks rules [s]" using Cons.prems(1) by (simp_all add: sound_stacks_def)
  obtain mid where mid: "accept_token_stack rules token cps s new = Some (Inr mid)" "sound_stacks rules mid"
    "set mid = set new \<union> {t. s \<noteq> [] \<and> reads rules s (butlast cps) t}"
  proof (cases s)
    case Nil
    then show ?thesis using that Cons.prems(2) by (simp add: accept_token_stack_def)
  next
    case p: (Cons p rest)
    obtain r where r: "accept_from rules (butlast cps) [s] = Some (Inr r)" "sound_stacks rules r"
      using accept_from_total[OF ok(1) ss(2)] by blast
    have "sound_stacks rules (fold add_stack r new)"
      using r(2) Cons.prems(2) unfolding sound_stacks_def list_all_iff set_fold_add by blast
    then show ?thesis
      using that[of "fold add_stack r new"] r accept_from_reads[OF r(1)] p no_token_pos[OF ok(2)]
      by (auto simp: accept_token_stack_def)
  qed
  obtain r where r: "accept_token_stacks rules token cps ss mid = Some (Inr r)" "sound_stacks rules r"
    "set r = set mid \<union> {t. \<exists>s \<in> set ss. s \<noteq> [] \<and> reads rules s (butlast cps) t}"
    using Cons.IH[OF ss(1) mid(2)] by blast
  then show ?case using mid by auto
qed

end
