(* ===== verification/GrammarSamplingTheorems.thy ===== *)
theory GrammarSamplingTheorems
  imports GrammarSampling
begin

text \<open>
  The theorems on sampling with a grammar: a token that the mask leaves can be accepted, the trigger of a lazy grammar replays
  exactly the constrained text, and the gap between the mask and the acceptance for token elements.
\<close>

section \<open>The mask\<close>

text \<open>A piece whose code points contain no zero and that is not lost in decoding.\<close>

definition clean_piece :: "byte list \<Rightarrow> partial_utf8 \<Rightarrow> bool" where
  "clean_piece piece pu = (case decode_utf8_partial piece pu of (cps, p) \<Rightarrow>
     list_all (\<lambda>c. c \<noteq> 0) (butlast cps) \<and> (butlast cps \<noteq> [] \<or> pu_remain p \<noteq> 0))"

lemma decode_seqs_last: "decode_seqs bs v n acc = (cps, p) \<Longrightarrow> \<exists>cs. cps = cs @ [0]"
  by (induction bs v n acc rule: decode_seqs.induct) (auto simp: Let_def split: if_splits prod.splits)

lemma decode_last: "decode_utf8_partial piece pu = (cps, p) \<Longrightarrow> \<exists>cs. cps = cs @ [0]"
  unfolding decode_utf8_partial_def by (auto split: option.splits prod.splits dest: decode_seqs_last)

lemma scan_length: "sample_scan ttp eog ninf allow pu i data = (data', cands) \<Longrightarrow> length data' = length data"
  by (induction data arbitrary: i data' cands) (auto simp: Let_def split: prod.splits if_splits)

definition grammar_candidate_for :: "(llama_token \<Rightarrow> byte list) \<Rightarrow> partial_utf8 \<Rightarrow> nat \<Rightarrow> llama_token \<Rightarrow> grammar_candidate" where
  "grammar_candidate_for ttp pu i token = (case decode_utf8_partial (ttp token) pu of
     (cps, p) \<Rightarrow> \<lparr>cand_index = i, cand_cps = cps, cand_pos = 0, cand_partial = p, cand_id = token\<rparr>)"

lemma candidate_ok: "cand_ok (grammar_candidate_for ttp pu i token)"
proof -
  obtain cps p where d: "decode_utf8_partial (ttp token) pu = (cps, p)" by (rule prod.exhaust)
  then show ?thesis using decode_last[OF d] by (auto simp: grammar_candidate_for_def cand_ok_def)
qed

text \<open>What the scan does with the token at \<open>j\<close>.\<close>

lemma scan_spec:
  "sample_scan ttp eog ninf allow pu i data = (data', cands) \<Longrightarrow>
   (\<forall>tok \<in> set cands. cand_ok tok) \<and>
   (\<forall>j < length data. let id = td_id (data ! j) in
      (eog id \<longrightarrow> \<not> allow \<longrightarrow> td_logit (data' ! j) = ninf) \<and>
      (\<not> eog id \<longrightarrow> ttp id = [] \<or> hd (ttp id) = 0 \<longrightarrow> td_logit (data' ! j) = ninf) \<and>
      (\<not> eog id \<longrightarrow> \<not> (ttp id = [] \<or> hd (ttp id) = 0) \<longrightarrow> grammar_candidate_for ttp pu (i + j) id \<in> set cands))"
proof (induction data arbitrary: i data' cands)
  case Nil
  then show ?case by simp
next
  case (Cons td tds)
  obtain d1 c1 where r: "sample_scan ttp eog ninf allow pu (Suc i) tds = (d1, c1)" by (rule prod.exhaust)
  note IH = Cons.IH[OF r]
  let ?id = "td_id td"
  define h where "h = (if eog ?id then (if allow then td else td\<lparr>td_logit := ninf\<rparr>)
     else if ttp ?id = [] \<or> hd (ttp ?id) = 0 then td\<lparr>td_logit := ninf\<rparr> else td)"
  define cs where "cs = (if eog ?id \<or> ttp ?id = [] \<or> hd (ttp ?id) = 0 then c1 else grammar_candidate_for ttp pu i ?id # c1)"
  have e: "data' = h # d1" "cands = cs"
    using Cons.prems r by (auto simp: h_def cs_def Let_def grammar_candidate_for_def split: prod.splits if_splits)
  have ok: "\<forall>tok \<in> set cands. cand_ok tok" using IH candidate_ok unfolding e cs_def by auto
  moreover have "let id = td_id ((td # tds) ! j) in
      (eog id \<longrightarrow> \<not> allow \<longrightarrow> td_logit (data' ! j) = ninf) \<and>
      (\<not> eog id \<longrightarrow> ttp id = [] \<or> hd (ttp id) = 0 \<longrightarrow> td_logit (data' ! j) = ninf) \<and>
      (\<not> eog id \<longrightarrow> \<not> (ttp id = [] \<or> hd (ttp id) = 0) \<longrightarrow> grammar_candidate_for ttp pu (i + j) id \<in> set cands)"
    if j: "j < length (td # tds)" for j
  proof (cases j)
    case 0
    then show ?thesis unfolding e by (simp add: h_def cs_def)
  next
    case (Suc k)
    then have "k < length tds" using j by simp
    then show ?thesis using IH Suc unfolding e by (simp add: Let_def cs_def)
  qed
  ultimately show ?case by blast
qed

lemma mask_length: "length (mask_rejects ninf rs data) = length data"
  by (induction rs arbitrary: data) simp_all

lemma mask_keeps: "td_logit (data ! j) = ninf \<Longrightarrow> j < length data \<Longrightarrow> td_logit (mask_rejects ninf rs data ! j) = ninf"
proof (induction rs arbitrary: data)
  case (Cons r rs)
  show ?case unfolding mask_rejects.simps
    by (rule Cons.IH) (use Cons.prems in \<open>cases "cand_index r = j"; simp\<close>)+
qed simp

lemma mask_hits: "r \<in> set rs \<Longrightarrow> cand_index r = j \<Longrightarrow> j < length data \<Longrightarrow> td_logit (mask_rejects ninf rs data ! j) = ninf"
proof (induction rs arbitrary: data)
  case (Cons x rs)
  then show ?case by (cases "x = r") (auto intro!: mask_keeps)
qed simp

section \<open>The invariant of a running grammar\<close>

definition grammar_running :: "'pat llama_grammar \<Rightarrow> bool" where
  "grammar_running g \<longleftrightarrow> grammar_ok (g_rules g) \<and> no_token_elements (g_rules g) \<and> sound_stacks (g_rules g) (g_stacks g) \<and>
     g_stacks g \<noteq> [] \<and> \<not> g_awaiting_trigger g"

lemma accept_token_running:
  assumes run: "grammar_running g" and d: "decode_utf8_partial piece (g_partial_utf8 g) = (cps, p)"
    and t: "s \<in> set (g_stacks g)" "s \<noteq> []" "reads (g_rules g) s (butlast cps) t"
  shows "\<exists>g'. llama_grammar_accept_token g token piece = Some (Inr g') \<and> grammar_running g'"
proof -
  obtain r where r: "accept_token_stacks (g_rules g) token cps (g_stacks g) [] = Some (Inr r)" "sound_stacks (g_rules g) r"
    "set r = {t. \<exists>s \<in> set (g_stacks g). s \<noteq> [] \<and> reads (g_rules g) s (butlast cps) t}"
    using accept_token_stacks_reads[of "g_rules g" "g_stacks g" "[]" token cps] run by (auto simp: grammar_running_def sound_stacks_def)
  have "r \<noteq> []" using r(3) t by auto
  then obtain x xs where x: "r = x # xs" by (cases r) auto
  have "llama_grammar_accept_token g token piece = Some (Inr (g\<lparr>g_stacks := r, g_partial_utf8 := p\<rparr>))"
    using r(1) d x by (simp add: llama_grammar_accept_token_def)
  then show ?thesis using run r(2) \<open>r \<noteq> []\<close> by (simp add: grammar_running_def)
qed

lemma sample_accept_sim:
  assumes run: "grammar_running g"
    and clean: "\<forall>td \<in> set data. clean_piece (ttp (td_id td)) (g_partial_utf8 g)"
  shows "\<exists>data'. llama_grammar_sample_impl ttp eog ninf g data = Some (Inr data') \<and> length data' = length data \<and>
    (\<forall>j < length data. td_logit (data' ! j) \<noteq> ninf \<longrightarrow>
       (\<exists>g'. llama_grammar_accept_impl ttp eog pat_find g (td_id (data ! j)) = Some (Inr g') \<and> grammar_running g'))"
proof -
  let ?R = "g_rules g" and ?pu = "g_partial_utf8 g"
  obtain d1 cands where sc: "sample_scan ttp eog ninf ([] \<in> set (g_stacks g)) ?pu 0 data = (d1, cands)" by (rule prod.exhaust)
  note spec = scan_spec[OF sc]
  have ok: "\<forall>tok \<in> set cands. cand_ok tok" using spec by simp
  have g: "grammar_ok ?R" "no_token_elements ?R" "sound_stacks ?R (g_stacks g)" "g_stacks g \<noteq> []" "\<not> g_awaiting_trigger g"
    using run by (simp_all add: grammar_running_def)
  obtain rejects where rj: "llama_grammar_reject_candidates (reject_depth cands) ?R (g_stacks g) cands = Some (Inr rejects)"
    using reject_returns[OF g(1,4,3) ok reject_depth_enough] by blast
  have ex: "set rejects = {tok \<in> set cands. \<forall>s \<in> set (g_stacks g). \<not> taken_by ?R s tok}"
    using reject_exact[OF rj ok] by (simp add: rejects_exactly_def)
  let ?data' = "mask_rejects ninf rejects d1"
  have sm: "llama_grammar_sample_impl ttp eog ninf g data = Some (Inr ?data')"
    using sc rj g(5) by (simp add: llama_grammar_sample_impl_def Let_def)
  have len: "length d1 = length data" using scan_length[OF sc] .
  have acc: "\<exists>g'. llama_grammar_accept_impl ttp eog pat_find g (td_id (data ! j)) = Some (Inr g') \<and> grammar_running g'"
    if j: "j < length data" and un: "td_logit (?data' ! j) \<noteq> ninf" for j
  proof -
    let ?id = "td_id (data ! j)"
    have nm: "td_logit (d1 ! j) \<noteq> ninf" using un mask_keeps j len by metis
    show ?thesis
    proof (cases "eog ?id")
      case True
      then have "[] \<in> set (g_stacks g)" using spec j nm by (auto simp: Let_def)
      then show ?thesis using True g(5) run by (simp add: llama_grammar_accept_impl_def)
    next
      case False
      let ?c = "grammar_candidate_for ttp ?pu j ?id"
      have c: "?c \<in> set cands" using spec j nm False by (auto simp: Let_def)
      obtain cps p where d: "decode_utf8_partial (ttp ?id) ?pu = (cps, p)" by (rule prod.exhaust)
      obtain cs where cs: "cps = cs @ [0]" using decode_last[OF d] by blast
      have cl: "list_all (\<lambda>c. c \<noteq> 0) cs" "cs \<noteq> [] \<or> pu_remain p \<noteq> 0"
        using clean j d cs by (auto simp: clean_piece_def dest!: nth_mem)
      have rest: "cand_rest ?c = cs" using d cs cl(1) by (simp add: grammar_candidate_for_def cand_rest_def list_all_iff takeWhile_append2)
      have idx: "cand_index ?c = j" using d by (simp add: grammar_candidate_for_def)
      have "?c \<notin> set rejects" using mask_hits[OF _ idx] un j len by metis
      then obtain s where s: "s \<in> set (g_stacks g)" "taken_by ?R s ?c" using ex c by blast
      have tk: "takes ?R s cs p ?id" using s(2) rest d by (simp add: grammar_candidate_for_def)
      have ne: "s \<noteq> []" using tk cl(2) by (cases cs) auto
      obtain t where "reads ?R s cs t" using takes_reads[OF tk g(2)] by blast
      then have "\<exists>g'. llama_grammar_accept_token g ?id (ttp ?id) = Some (Inr g') \<and> grammar_running g'"
        using accept_token_running[OF run d s(1) ne] cs by simp
      then show ?thesis using False g(5) by (simp add: llama_grammar_accept_impl_def)
    qed
  qed
  show ?thesis using sm acc len by (auto simp: mask_length)
qed


definition demo_piece :: "llama_token \<Rightarrow> byte list" where
  "demo_piece token = (if token = 1 then [97, 99] else if token = 2 then [98] else [99])"

definition demo_grammar :: "byte list llama_grammar" where
  "demo_grammar = new_grammar demo_rules [[(0, 0)], [(0, 4)]] False [] []"

lemma demo_running: "grammar_running demo_grammar"
proof -
  have "no_token_elements demo_rules" "sound_stacks demo_rules [[(0, 0)], [(0, 4)]]" by code_simp+
  then show ?thesis using demo_ok by (simp add: grammar_running_def demo_grammar_def new_grammar_def)
qed


section \<open>Token elements\<close>

text \<open>\<open>root ::= "a" <[5]>\<close>\<close>

definition token_rules :: grammar_rules where
  "token_rules = [[\<lparr>ge_type = LLAMA_GRETYPE_CHAR, ge_value = 97\<rparr>, \<lparr>ge_type = LLAMA_GRETYPE_TOKEN, ge_value = 5\<rparr>,
     \<lparr>ge_type = LLAMA_GRETYPE_END, ge_value = 0\<rparr>]]"

text \<open>With token elements the mask is too weak: for \<open>root ::= "a" <[5]>\<close> it leaves token 5 with the piece \<open>ab\<close> (the
  \<open>a\<close> matches, and the id matches the token element although the token is half read), and accepting that token throws.\<close>

theorem token_element_gap:
  "grammar_init_stacks token_rules 0 = Some (Inr [[(0, 0)]]) \<and>
   llama_grammar_sample_impl (\<lambda>_. [97, 98]) (\<lambda>_. False) (- 1) (new_grammar token_rules [[(0, 0)]] False [] ([] :: byte list list))
      [\<lparr>td_id = 5, td_logit = (3 :: int)\<rparr>] = Some (Inr [\<lparr>td_id = 5, td_logit = 3\<rparr>]) \<and>
   llama_grammar_accept_impl (\<lambda>_. [97, 98]) (\<lambda>_. False) (\<lambda>_ _. None) (new_grammar token_rules [[(0, 0)]] False [] ([] :: byte list list)) 5
      = Some (Inl (Grammar_throw ''Unexpected empty grammar stack after accepting piece''))"
  by code_simp

section \<open>Lazy grammars\<close>

text \<open>The buffered positions tile the buffer.\<close>

fun tiles :: "nat \<Rightarrow> (llama_token \<times> nat \<times> nat) list \<Rightarrow> nat \<Rightarrow> bool" where
  "tiles a [] b \<longleftrightarrow> a = b"
| "tiles a ((tok, s, e) # ts) b \<longleftrightarrow> s = a \<and> a \<le> e \<and> tiles e ts b"

definition trigger_ok :: "'pat llama_grammar \<Rightarrow> bool" where
  "trigger_ok g \<longleftrightarrow> tiles 0 (g_trigger_buffer_positions g) (length (g_trigger_buffer g))"

lemma tiles_le: "tiles a ts b \<Longrightarrow> a \<le> b"
  by (induction ts arbitrary: a) fastforce+

lemma tiles_snoc: "tiles a (ts @ [(tok, b, c)]) c \<longleftrightarrow> tiles a ts b \<and> b \<le> c"
  by (induction ts arbitrary: a) auto

lemma replay_text:
  "tiles a ts (length buf) \<Longrightarrow> concat (map snd (replay_pieces buf start ts)) = drop (max a start) buf"
proof (induction ts arbitrary: a)
  case Nil
  then show ?case by simp
next
  case (Cons t ts)
  obtain tok s e where t: "t = (tok, s, e)" by (rule prod_cases3)
  have s: "s = a" "a \<le> e" "tiles e ts (length buf)" using Cons.prems t by auto
  note IH = Cons.IH[OF s(3)]
  show ?case
  proof (cases "e \<le> start")
    case True
    then show ?thesis using IH s t by (simp add: max_def)
  next
    case False
    let ?b = "max a start"
    have "replay_pieces buf start (t # ts) = (tok, take (e - ?b) (drop ?b buf)) # replay_pieces buf start ts"
      using False s t by (simp add: Let_def max_def)
    moreover have "take (e - ?b) (drop ?b buf) @ drop e buf = drop ?b buf"
    proof -
      have d: "drop (e - ?b) (drop ?b buf) = drop e buf" using s(2) False by simp
      show ?thesis using append_take_drop_id[of "e - ?b" "drop ?b buf"] unfolding d .
    qed
    ultimately show ?thesis using IH False s by (simp add: max_def)
  qed
qed

lemma trigger_buffer_sim:
  fixes ttp :: "llama_token \<Rightarrow> byte list" and g :: "'pat llama_grammar"
  assumes "trigger_ok g" "g_awaiting_trigger g" "token \<notin> set (g_trigger_tokens g)"
  defines "buf \<equiv> g_trigger_buffer g @ ttp token"
  shows "(first_trigger pat_find (g_trigger_patterns g) buf = None \<longrightarrow>
      (\<exists>g'. llama_grammar_accept_impl ttp eog pat_find g token = Some (Inr g') \<and> trigger_ok g' \<and> g_awaiting_trigger g' \<and>
        g_trigger_buffer g' = buf \<and> g_stacks g' = g_stacks g)) \<and>
    (\<forall>start. first_trigger pat_find (g_trigger_patterns g) buf = Some start \<longrightarrow>
      (\<exists>ts g1. concat (map snd ts) = drop start buf \<and> g_stacks g1 = g_stacks g \<and> \<not> g_awaiting_trigger g1 \<and>
        llama_grammar_accept_impl ttp eog pat_find g token =
          (case accept_tokens g1 ts of
             Some (Inr g2) \<Rightarrow> Some (Inr (g2\<lparr>g_trigger_buffer := [], g_trigger_buffer_positions := []\<rparr>)) | r \<Rightarrow> r)))"
proof -
  let ?pos = "g_trigger_buffer_positions g @ [(token, length (g_trigger_buffer g), length (g_trigger_buffer g) + length (ttp token))]"
  let ?g1 = "g\<lparr>g_trigger_buffer_positions := ?pos, g_trigger_buffer := buf\<rparr>"
  have t: "tiles 0 ?pos (length buf)" using assms(1) by (simp add: buf_def trigger_ok_def tiles_snoc)
  have e: "llama_grammar_accept_impl ttp eog pat_find g token =
      (case first_trigger pat_find (g_trigger_patterns g) buf of
                 None \<Rightarrow> Some (Inr ?g1)
               | Some start \<Rightarrow>
                   (case accept_tokens (?g1\<lparr>g_awaiting_trigger := False\<rparr>) (replay_pieces buf start ?pos) of
                      Some (Inr g2) \<Rightarrow> Some (Inr (g2\<lparr>g_trigger_buffer := [], g_trigger_buffer_positions := []\<rparr>))
                    | r \<Rightarrow> r))"
    using assms(2,3) unfolding buf_def
    by (cases "first_trigger pat_find (g_trigger_patterns g) (g_trigger_buffer g @ ttp token)")
      (simp_all add: llama_grammar_accept_impl_def Let_def)
  show ?thesis
  proof (intro conjI impI allI)
    assume "first_trigger pat_find (g_trigger_patterns g) buf = None"
    then show "\<exists>g'. llama_grammar_accept_impl ttp eog pat_find g token = Some (Inr g') \<and> trigger_ok g' \<and> g_awaiting_trigger g' \<and>
        g_trigger_buffer g' = buf \<and> g_stacks g' = g_stacks g"
      using t assms(2) e by (simp add: trigger_ok_def)
  next
    fix start assume f: "first_trigger pat_find (g_trigger_patterns g) buf = Some start"
    show "\<exists>ts g1. concat (map snd ts) = drop start buf \<and> g_stacks g1 = g_stacks g \<and> \<not> g_awaiting_trigger g1 \<and>
        llama_grammar_accept_impl ttp eog pat_find g token =
          (case accept_tokens g1 ts of
             Some (Inr g2) \<Rightarrow> Some (Inr (g2\<lparr>g_trigger_buffer := [], g_trigger_buffer_positions := []\<rparr>)) | r \<Rightarrow> r)"
      by (rule exI[of _ "replay_pieces buf start ?pos"], rule exI[of _ "?g1\<lparr>g_awaiting_trigger := False\<rparr>"])
        (simp add: replay_text[OF t] e f)
  qed
qed

text \<open>C32. A lazy grammar only buffers until it is triggered: without a match the token is appended to the buffer and nothing
  is constrained; at the first match, at \<open>start\<close>, the grammar is given exactly the buffered text from \<open>start\<close> on, in pieces, the
  token that straddles \<open>start\<close> cut there.\<close>

theorem lazy_grammar_replay:
  assumes "trigger_ok g" "g_awaiting_trigger g" "token \<notin> set (g_trigger_tokens g)"
  shows "(first_trigger pat_find (g_trigger_patterns g) (g_trigger_buffer g @ ttp token) = None \<longrightarrow>
      (\<exists>g'. llama_grammar_accept_impl ttp eog pat_find g token = Some (Inr g') \<and> trigger_ok g' \<and> g_awaiting_trigger g' \<and>
        g_trigger_buffer g' = g_trigger_buffer g @ ttp token \<and> g_stacks g' = g_stacks g)) \<and>
    (\<forall>start. first_trigger pat_find (g_trigger_patterns g) (g_trigger_buffer g @ ttp token) = Some start \<longrightarrow>
      (\<exists>ts g1. concat (map snd ts) = drop start (g_trigger_buffer g @ ttp token) \<and> g_stacks g1 = g_stacks g \<and> \<not> g_awaiting_trigger g1 \<and>
        llama_grammar_accept_impl ttp eog pat_find g token =
          (case accept_tokens g1 ts of
             Some (Inr g2) \<Rightarrow> Some (Inr (g2\<lparr>g_trigger_buffer := [], g_trigger_buffer_positions := []\<rparr>)) | r \<Rightarrow> r)))"
  by (rule trigger_buffer_sim[OF assms])

theorem lazy_grammar_replay_witness:
  "\<exists>ts g1. concat (map snd ts) = [97, 99] \<and> g_stacks g1 = [[(0, 0)], [(0, 4)]] \<and> \<not> g_awaiting_trigger g1 \<and>
     llama_grammar_accept_impl demo_piece (\<lambda>_. False) (\<lambda>_ b. Some 0) (new_grammar demo_rules [[(0, 0)], [(0, 4)]] True [] [()]) 1 =
          (case accept_tokens g1 ts of
             Some (Inr g2) \<Rightarrow> Some (Inr (g2\<lparr>g_trigger_buffer := [], g_trigger_buffer_positions := []\<rparr>)) | r \<Rightarrow> r)"
  using lazy_grammar_replay[of "new_grammar demo_rules [[(0, 0)], [(0, 4)]] True [] [()]" 1 "\<lambda>_ b. Some 0" demo_piece "\<lambda>_. False"]
  by (simp add: trigger_ok_def new_grammar_def demo_piece_def)

end
