(* ===== verification/GrammarParser.thy ===== *)
theory GrammarParser
  imports GrammarSampler "HOL-Library.AList"
begin

text \<open>
  The parser of the GBNF notation in \<open>src/llama-grammar.cpp\<close> (\<open>llama_grammar_parser\<close>) and the construction of a grammar from
  a text (\<open>llama_grammar_init_impl\<close> with a string).

  A position in the C string is the list of bytes from it to the terminating zero; \<open>peek\<close> reads zero at the end.  Exceptions
  are \<open>Inl\<close>; the mutually recursive routines take a bound on the number of their calls, and \<open>Out_of_fuel\<close> never leaves
  \<open>parse\<close> (theory \<open>GrammarParserProps\<close>).
\<close>

datatype parse_error = Parse_error string | Out_of_fuel

type_synonym 'a parsed = "parse_error + 'a"

definition bindp :: "'a parsed \<Rightarrow> ('a \<Rightarrow> 'b parsed) \<Rightarrow> 'b parsed" where
  "bindp r f = (case r of Inl e \<Rightarrow> Inl e | Inr x \<Rightarrow> f x)"

lemma bindp_simps [simp]: "bindp (Inl e) f = Inl e" "bindp (Inr x) f = f x"
  by (simp_all add: bindp_def)

lemma bindp_Inr: "bindp r f = Inr y \<longleftrightarrow> (\<exists>x. r = Inr x \<and> f x = Inr y)"
  by (cases r) simp_all

lemma bindp_Inl: "bindp r f = Inl e \<longleftrightarrow> r = Inl e \<or> (\<exists>x. r = Inr x \<and> f x = Inl e)"
  by (cases r) simp_all

definition peek :: "byte list \<Rightarrow> byte" where
  "peek s = (case s of [] \<Rightarrow> 0 | c # _ \<Rightarrow> c)"

lemma peek_Cons [simp]: "peek (c # s) = c" by (simp add: peek_def)
lemma peek_Nil [simp]: "peek [] = 0" by (simp add: peek_def)

section \<open>Lexical routines\<close>

definition is_digit_char :: "byte \<Rightarrow> bool" where
  "is_digit_char c \<longleftrightarrow> 0x30 \<le> c \<and> c \<le> 0x39"

definition is_word_char :: "byte \<Rightarrow> bool" where
  "is_word_char c \<longleftrightarrow> (0x61 \<le> c \<and> c \<le> 0x7a) \<or> (0x41 \<le> c \<and> c \<le> 0x5a) \<or> c = 0x2d \<or> is_digit_char c"

definition hex_digit :: "byte \<Rightarrow> cpt option" where
  "hex_digit c =
     (if 0x61 \<le> c \<and> c \<le> 0x66 then Some (widen c - 0x61 + 10)
      else if 0x41 \<le> c \<and> c \<le> 0x46 then Some (widen c - 0x41 + 10)
      else if 0x30 \<le> c \<and> c \<le> 0x39 then Some (widen c - 0x30)
      else None)"

text \<open>The loop, with the number of digits still to read; leaving it early is the exception.\<close>

fun parse_hex :: "byte list \<Rightarrow> nat \<Rightarrow> cpt \<Rightarrow> (cpt \<times> byte list) parsed" where
  "parse_hex s 0 value = Inr (value, s)"
| "parse_hex [] (Suc n) value = Inl (Parse_error ''expecting hex chars'')"
| "parse_hex (c # s) (Suc n) value =
     (case hex_digit c of Some d \<Rightarrow> parse_hex s n (push_bit 4 value + d) | None \<Rightarrow> Inl (Parse_error ''expecting hex chars''))"

function parse_space :: "byte list \<Rightarrow> bool \<Rightarrow> byte list" where
  "parse_space [] newline_ok = []"
| "parse_space (c # s) newline_ok =
     (if c = 0x23 then parse_space (dropWhile (\<lambda>b. b \<noteq> 0x0d \<and> b \<noteq> 0x0a) s) newline_ok
      else if c = 0x20 \<or> c = 0x09 \<or> (newline_ok \<and> (c = 0x0d \<or> c = 0x0a)) then parse_space s newline_ok
      else c # s)"
  by pat_completeness auto
termination by (relation "measure (\<lambda>(s, _). length s)") (auto simp: less_Suc_eq_le length_dropWhile_le)

definition parse_name :: "byte list \<Rightarrow> (byte list \<times> byte list) parsed" where
  "parse_name src =
     (let name = takeWhile is_word_char src in
      if name = [] then Inl (Parse_error ''expecting name'') else Inr (name, dropWhile is_word_char src))"

definition parse_int :: "byte list \<Rightarrow> (byte list \<times> byte list) parsed" where
  "parse_int src =
     (let digits = takeWhile is_digit_char src in
      if digits = [] then Inl (Parse_error ''expecting integer'') else Inr (digits, dropWhile is_digit_char src))"

text \<open>\<open>std::stoull\<close> and, where \<open>unsigned long\<close> has 64 bits, \<open>std::stoul\<close>.\<close>

definition stoull :: "byte list \<Rightarrow> 64 word parsed" where
  "stoull digits =
     (let n = foldl (\<lambda>n d. 10 * n + (uint d - 0x30)) 0 digits in
      if n < 2 ^ 64 then Inr (word_of_int n) else Inl (Parse_error ''stoull''))"

definition parse_char :: "byte list \<Rightarrow> (cpt \<times> byte list) parsed" where
  "parse_char src =
     (case src of
        [] \<Rightarrow> Inl (Parse_error ''unexpected end of input'')
      | c # s \<Rightarrow>
          if c = 0x5c then
            (let e = peek s; s2 = drop 1 s in
             if e = 0x78 then parse_hex s2 2 0
             else if e = 0x75 then parse_hex s2 4 0
             else if e = 0x55 then parse_hex s2 8 0
             else if e = 0x74 then Inr (0x09, s2)
             else if e = 0x72 then Inr (0x0d, s2)
             else if e = 0x6e then Inr (0x0a, s2)
             else if e = 0x5c \<or> e = 0x22 \<or> e = 0x5b \<or> e = 0x5d then Inr (widen e, s2)
             else Inl (Parse_error ''unknown escape''))
          else Inr (decode_utf8 src))"

text \<open>\<open>tokenize\<close> is the call of the vocabulary on \<open><...>\<close> with special tokens parsed; \<open>None\<close> is the null pointer.\<close>

definition parse_token :: "(byte list \<Rightarrow> llama_token list) option \<Rightarrow> byte list \<Rightarrow> (cpt \<times> byte list) parsed" where
  "parse_token vocab src =
     (if peek src \<noteq> 0x3c then Inl (Parse_error ''expecting <'')
      else
        (let pos = drop 1 src in
         if peek pos = 0x5b then
           bindp (parse_int (drop 1 pos)) (\<lambda>(digits, pos).
             bindp (stoull digits) (\<lambda>token_id.
               if peek pos \<noteq> 0x5d then Inl (Parse_error ''expecting ]'')
               else if peek (drop 1 pos) \<noteq> 0x3e then Inl (Parse_error ''expecting >'')
               else Inr (ucast token_id, drop 2 pos)))
         else
           (case vocab of
              None \<Rightarrow> Inl (Parse_error ''no vocab to parse token'')
            | Some tokenize \<Rightarrow>
                (let name = takeWhile (\<lambda>b. b \<noteq> 0x3e) pos; pos' = dropWhile (\<lambda>b. b \<noteq> 0x3e) pos in
                 if peek pos' \<noteq> 0x3e then Inl (Parse_error ''expecting >'')
                 else
                   (case tokenize ([0x3c] @ name @ [0x3e]) of
                      [token] \<Rightarrow> Inr (word_of_int token, drop 1 pos')
                    | _ \<Rightarrow> Inl (Parse_error ''invalid token''))))))"

section \<open>The parser's state\<close>

text \<open>\<open>symbol_ids\<close> is a \<open>std::map\<close>: an association list with distinct keys.\<close>

record grammar_parser =
  symbol_ids :: "(byte list \<times> nat) list"
  parser_rules :: grammar_rules

definition get_symbol_id :: "grammar_parser \<Rightarrow> byte list \<Rightarrow> nat \<times> grammar_parser" where
  "get_symbol_id p name =
     (let next_id = u32 (length (symbol_ids p)) in
      case map_of (symbol_ids p) name of
        Some i \<Rightarrow> (i, p)
      | None \<Rightarrow> (next_id, p\<lparr>symbol_ids := symbol_ids p @ [(name, next_id)]\<rparr>))"

text \<open>\<open>std::to_string\<close>\<close>

fun decimal :: "nat \<Rightarrow> byte list" where
  "decimal n = (if n < 10 then [of_nat (0x30 + n)] else decimal (n div 10) @ [of_nat (0x30 + n mod 10)])"

declare decimal.simps [simp del]

definition generate_symbol_id :: "grammar_parser \<Rightarrow> byte list \<Rightarrow> nat \<times> grammar_parser" where
  "generate_symbol_id p base_name =
     (let next_id = u32 (length (symbol_ids p))
      in (next_id, p\<lparr>symbol_ids := AList.update (base_name @ [0x5f] @ decimal next_id) next_id (symbol_ids p)\<rparr>))"

definition add_rule :: "nat \<Rightarrow> grammar_element list \<Rightarrow> grammar_parser \<Rightarrow> grammar_parser" where
  "add_rule rule_id rule p =
     (let rules = (if length (parser_rules p) \<le> rule_id
                   then parser_rules p @ replicate (rule_id + 1 - length (parser_rules p)) [] else parser_rules p)
      in p\<lparr>parser_rules := rules[rule_id := rule]\<rparr>)"

abbreviation elem :: "gretype \<Rightarrow> cpt \<Rightarrow> grammar_element" where
  "elem t v \<equiv> \<lparr>ge_type = t, ge_value = v\<rparr>"

text \<open>What a call of \<open>parse_sequence\<close> keeps: the rule it extends and the last symbol.\<close>

record seq_state =
  sq_rule :: "grammar_element list"
  sq_last_sym_start :: nat
  sq_n_prev_rules :: "64 word"
  sq_parser :: grammar_parser

definition begin_sym :: "seq_state \<Rightarrow> seq_state" where
  "begin_sym st = st\<lparr>sq_last_sym_start := length (sq_rule st), sq_n_prev_rules := 1\<rparr>"

definition push_elem :: "gretype \<Rightarrow> cpt \<Rightarrow> seq_state \<Rightarrow> seq_state" where
  "push_elem t v st = st\<lparr>sq_rule := sq_rule st @ [elem t v]\<rparr>"

section \<open>Repetitions\<close>

definition MAX_REPETITION_THRESHOLD :: "64 word" where
  "MAX_REPETITION_THRESHOLD = 2000"

definition UINT64_MAX :: "64 word" where
  "UINT64_MAX = - 1"

text \<open>The loop that adds the optional rules; \<open>i\<close> counts up to \<open>n_opt\<close>.\<close>

fun add_rec_rules :: "nat \<Rightarrow> nat \<Rightarrow> bool \<Rightarrow> byte list \<Rightarrow> grammar_element list \<Rightarrow> nat \<Rightarrow> grammar_parser \<Rightarrow> nat \<times> grammar_parser" where
  "add_rec_rules i 0 no_max rule_name prev_rule last_rec_rule_id p = (last_rec_rule_id, p)"
| "add_rec_rules i (Suc n) no_max rule_name prev_rule last_rec_rule_id p =
     (case generate_symbol_id p rule_name of
        (rec_rule_id, p1) \<Rightarrow>
          (let rec_rule = prev_rule @
                 (if i > 0 \<or> no_max then [elem LLAMA_GRETYPE_RULE_REF (of_nat (if no_max then rec_rule_id else last_rec_rule_id))] else []) @
                 [elem LLAMA_GRETYPE_ALT 0, elem LLAMA_GRETYPE_END 0]
           in add_rec_rules (Suc i) n no_max rule_name prev_rule rec_rule_id (add_rule rec_rule_id rec_rule p1)))"

text \<open>The number of optional rules: an unsigned 64-bit difference.\<close>

definition repetition_n_opt :: "64 word \<Rightarrow> 64 word \<Rightarrow> 64 word" where
  "repetition_n_opt min_times max_times = (if max_times = UINT64_MAX then 1 else max_times - min_times)"

definition repetition_total_rules :: "64 word \<Rightarrow> 64 word \<Rightarrow> 64 word" where
  "repetition_total_rules min_times max_times =
     (if max_times \<noteq> UINT64_MAX \<and> max_times > 0 then max_times else if min_times > 0 then min_times else 1)"

definition handle_repetitions :: "byte list \<Rightarrow> 64 word \<Rightarrow> 64 word \<Rightarrow> seq_state \<Rightarrow> seq_state parsed" where
  "handle_repetitions rule_name min_times max_times st =
     (let no_max = (max_times = UINT64_MAX);
          rule = sq_rule st; last_sym_start = sq_last_sym_start st in
      if last_sym_start = length rule then Inl (Parse_error ''expecting preceding item'')
      else
        (let prev_rule = drop last_sym_start rule;
             total_rules = repetition_total_rules min_times max_times;
             n_prev = sq_n_prev_rules st * total_rules in
         if n_prev \<ge> MAX_REPETITION_THRESHOLD then
           Inl (Parse_error ''number of rules that are going to be repeated multiplied by the new repetition exceeds sane defaults'')
         else
           (let rule1 = (if min_times = 0 then take last_sym_start rule else rule @ concat (replicate (unat (min_times - 1)) prev_rule));
                n_opt = repetition_n_opt min_times max_times in
            case add_rec_rules 0 (unat n_opt) no_max rule_name prev_rule 0 (sq_parser st) of
              (last_rec_rule_id, p) \<Rightarrow>
                Inr (st\<lparr>sq_rule := (if n_opt > 0 then rule1 @ [elem LLAMA_GRETYPE_RULE_REF (of_nat last_rec_rule_id)] else rule1),
                        sq_n_prev_rules := n_prev, sq_parser := p\<rparr>))))"

text \<open>The bounds in braces: what follows the opening brace.\<close>

definition parse_bounds :: "byte list \<Rightarrow> bool \<Rightarrow> ((64 word \<times> 64 word) \<times> byte list) parsed" where
  "parse_bounds pos is_nested =
     (if \<not> is_digit_char (peek pos) then Inl (Parse_error ''expecting an int'')
      else
        bindp (parse_int pos) (\<lambda>(digits, int_end).
          bindp (stoull digits) (\<lambda>min_times.
            (let pos = parse_space int_end is_nested in
             bindp
               (if peek pos = 0x7d then Inr (min_times, parse_space (drop 1 pos) is_nested)
                else if peek pos = 0x2c then
                  (let pos = parse_space (drop 1 pos) is_nested in
                   bindp
                     (if is_digit_char (peek pos) then
                        bindp (parse_int pos) (\<lambda>(digits, int_end).
                          bindp (stoull digits) (\<lambda>max_times. Inr (max_times, parse_space int_end is_nested)))
                      else Inr (UINT64_MAX, pos))
                     (\<lambda>(max_times, pos).
                       if peek pos \<noteq> 0x7d then Inl (Parse_error ''expecting }'')
                       else Inr (max_times, parse_space (drop 1 pos) is_nested)))
                else Inl (Parse_error ''expecting ,''))
               (\<lambda>(max_times, pos).
                 if min_times > MAX_REPETITION_THRESHOLD \<or> (max_times \<noteq> UINT64_MAX \<and> max_times > MAX_REPETITION_THRESHOLD)
                 then Inl (Parse_error ''number of repetitions exceeds sane defaults'')
                 else Inr ((min_times, max_times), pos))))))"

section \<open>Characters of a literal and of a set\<close>

lemma decode_bytes_length: "length (snd (decode_bytes n bs v)) \<le> length bs"
  by (induction n bs v rule: decode_bytes.induct) auto

lemma parse_hex_length: "parse_hex s n v = Inr (c, s') \<Longrightarrow> length s' \<le> length s"
  by (induction s n v rule: parse_hex.induct) (auto split: option.splits)

lemma parse_char_length: "parse_char s = Inr (c, s') \<Longrightarrow> length s' < length s"
proof (cases s)
  case (Cons b bs)
  assume a: "parse_char s = Inr (c, s')"
  show ?thesis
  proof (cases "b = 0x5c")
    case True
    have "length (drop 1 bs) < length s" using Cons by simp
    then show ?thesis using a Cons True parse_hex_length[of "drop 1 bs"]
      by (auto simp: parse_char_def Let_def split: if_splits dest!: parse_hex_length)
  next
    case False
    then show ?thesis using a Cons decode_bytes_length
      by (auto simp: parse_char_def decode_utf8_def Let_def) (metis less_Suc_eq_le snd_conv)
  qed
qed (simp add: parse_char_def)

text \<open>After the opening quote.\<close>

function parse_literal :: "byte list \<Rightarrow> seq_state \<Rightarrow> (seq_state \<times> byte list) parsed" where
  "parse_literal pos st =
     (if peek pos = 0x22 then Inr (st, pos)
      else if pos = [] then Inl (Parse_error ''unexpected end of input'')
      else
        (case parse_char pos of
           Inl e \<Rightarrow> Inl e
         | Inr (c, pos') \<Rightarrow> parse_literal pos' (push_elem LLAMA_GRETYPE_CHAR c st)))"
  by pat_completeness auto
termination by (relation "measure (\<lambda>(pos, _). length pos)") (auto dest: parse_char_length)

declare parse_literal.simps [simp del]

text \<open>After the opening bracket: one character or range at a time.\<close>

definition range_end :: "byte list \<Rightarrow> seq_state \<Rightarrow> (seq_state \<times> byte list) parsed" where
  "range_end pos st =
     (if peek pos = 0x2d \<and> peek (drop 1 pos) \<noteq> 0x5d then
        (if peek (drop 1 pos) = 0 then Inl (Parse_error ''unexpected end of input'')
         else bindp (parse_char (drop 1 pos)) (\<lambda>(c, pos'). Inr (push_elem LLAMA_GRETYPE_CHAR_RNG_UPPER c st, pos')))
      else Inr (st, pos))"

lemma range_end_length: "range_end pos st = Inr (st', pos') \<Longrightarrow> length pos' \<le> length pos"
  by (auto simp: range_end_def bindp_Inr split: if_splits dest!: parse_char_length)

function parse_set :: "gretype \<Rightarrow> byte list \<Rightarrow> seq_state \<Rightarrow> (seq_state \<times> byte list) parsed" where
  "parse_set start_type pos st =
     (if peek pos = 0x5d then Inr (st, pos)
      else if pos = [] then Inl (Parse_error ''unexpected end of input'')
      else
        (case parse_char pos of
           Inl e \<Rightarrow> Inl e
         | Inr (c, pos1) \<Rightarrow>
             (let t = (if sq_last_sym_start st < length (sq_rule st) then LLAMA_GRETYPE_CHAR_ALT else start_type) in
              case range_end pos1 (push_elem t c st) of
                Inl e \<Rightarrow> Inl e
              | Inr (st', pos2) \<Rightarrow> parse_set start_type pos2 st')))"
  by pat_completeness auto
termination by (relation "measure (\<lambda>(_, pos, _). length pos)") (auto dest!: parse_char_length range_end_length)

declare parse_set.simps [simp del]

section \<open>Sequences and alternates\<close>

text \<open>A group of symbols that needs no recursion; \<open>None\<close> ends the sequence.\<close>

definition parse_symbol :: "(byte list \<Rightarrow> llama_token list) option \<Rightarrow> byte list \<Rightarrow> bool \<Rightarrow> byte list \<Rightarrow> seq_state
    \<Rightarrow> (seq_state \<times> byte list) parsed option" where
  "parse_symbol vocab rule_name is_nested pos st =
     (let c = peek pos in
      if c = 0x22 then
        Some (bindp (parse_literal (drop 1 pos) (begin_sym st)) (\<lambda>(st', pos'). Inr (st', parse_space (drop 1 pos') is_nested)))
      else if c = 0x5b then
        (let pos1 = drop 1 pos;
             (start_type, pos2) = (if peek pos1 = 0x5e then (LLAMA_GRETYPE_CHAR_NOT, drop 1 pos1) else (LLAMA_GRETYPE_CHAR, pos1))
         in Some (bindp (parse_set start_type pos2 (begin_sym st)) (\<lambda>(st', pos'). Inr (st', parse_space (drop 1 pos') is_nested))))
      else if c = 0x3c \<or> c = 0x21 then
        (let (t, pos1) = (if c = 0x21 then (LLAMA_GRETYPE_TOKEN_NOT, drop 1 pos) else (LLAMA_GRETYPE_TOKEN, pos))
         in Some (bindp (parse_token vocab pos1) (\<lambda>(token, token_end).
              Inr (push_elem t token (begin_sym st), parse_space token_end is_nested))))
      else if is_word_char c then
        Some (bindp (parse_name pos) (\<lambda>(name, name_end).
          (case get_symbol_id (sq_parser st) name of
             (ref_rule_id, p) \<Rightarrow>
               Inr (push_elem LLAMA_GRETYPE_RULE_REF (of_nat ref_rule_id) (begin_sym (st\<lparr>sq_parser := p\<rparr>)),
                    parse_space name_end is_nested))))
      else if c = 0x2e then
        Some (Inr (push_elem LLAMA_GRETYPE_CHAR_ANY 0 (begin_sym st), parse_space (drop 1 pos) is_nested))
      else if c = 0x2a then
        Some (bindp (handle_repetitions rule_name 0 UINT64_MAX st) (\<lambda>st'. Inr (st', parse_space (drop 1 pos) is_nested)))
      else if c = 0x2b then
        Some (bindp (handle_repetitions rule_name 1 UINT64_MAX st) (\<lambda>st'. Inr (st', parse_space (drop 1 pos) is_nested)))
      else if c = 0x3f then
        Some (bindp (handle_repetitions rule_name 0 1 st) (\<lambda>st'. Inr (st', parse_space (drop 1 pos) is_nested)))
      else if c = 0x7b then
        Some (bindp (parse_bounds (parse_space (drop 1 pos) is_nested) is_nested) (\<lambda>((min_times, max_times), pos').
          bindp (handle_repetitions rule_name min_times max_times st) (\<lambda>st'. Inr (st', pos'))))
      else None)"

text \<open>The state at the start of \<open>parse_sequence\<close>.\<close>

definition start_sequence :: "grammar_element list \<Rightarrow> grammar_parser \<Rightarrow> seq_state" where
  "start_sequence rule p = \<lparr>sq_rule = rule, sq_last_sym_start = length rule, sq_n_prev_rules = 1, sq_parser = p\<rparr>"

text \<open>\<open>parse_sequence\<close> and \<open>parse_alternates\<close> call each other: \<open>seq\<close> is the call of the former, and the first number bounds
  the depth of the calls.\<close>

type_synonym sequence_parser = "byte list \<Rightarrow> bool \<Rightarrow> byte list \<Rightarrow> seq_state \<Rightarrow> (seq_state \<times> byte list) parsed"

fun more_alternates :: "sequence_parser \<Rightarrow> nat \<Rightarrow> byte list \<Rightarrow> bool \<Rightarrow> byte list \<Rightarrow> seq_state \<Rightarrow> (seq_state \<times> byte list) parsed" where
  "more_alternates seq 0 rule_name is_nested pos st = Inl Out_of_fuel"
| "more_alternates seq (Suc n) rule_name is_nested pos st =
     (if peek pos = 0x7c then
        bindp (seq rule_name is_nested (parse_space (drop 1 pos) True)
                 (start_sequence (sq_rule st @ [elem LLAMA_GRETYPE_ALT 0]) (sq_parser st)))
          (\<lambda>(st', pos'). more_alternates seq n rule_name is_nested pos' st')
      else Inr (st, pos))"

definition parse_alternates :: "sequence_parser \<Rightarrow> byte list \<Rightarrow> nat \<Rightarrow> bool \<Rightarrow> byte list \<Rightarrow> grammar_parser
    \<Rightarrow> (grammar_parser \<times> byte list) parsed" where
  "parse_alternates seq rule_name rule_id is_nested src p =
     bindp (seq rule_name is_nested src (start_sequence [] p)) (\<lambda>(st, pos).
       bindp (more_alternates seq (Suc (length pos)) rule_name is_nested pos st) (\<lambda>(st', pos').
         Inr (add_rule rule_id (sq_rule st' @ [elem LLAMA_GRETYPE_END 0]) (sq_parser st'), pos')))"

definition parse_group :: "sequence_parser \<Rightarrow> byte list \<Rightarrow> bool \<Rightarrow> byte list \<Rightarrow> seq_state \<Rightarrow> (seq_state \<times> byte list) parsed" where
  "parse_group seq rule_name is_nested pos st =
     (let pos1 = parse_space (drop 1 pos) True;
          n_rules_before = length (symbol_ids (sq_parser st)) in
      case generate_symbol_id (sq_parser st) rule_name of
        (sub_rule_id, p1) \<Rightarrow>
          bindp (parse_alternates seq rule_name sub_rule_id True pos1 p1) (\<lambda>(p2, pos2).
            (let st' = st\<lparr>sq_parser := p2, sq_n_prev_rules := of_nat (max 1 (u32_sub (length (symbol_ids p2)) n_rules_before)),
                          sq_last_sym_start := length (sq_rule st)\<rparr>;
                 st'' = push_elem LLAMA_GRETYPE_RULE_REF (of_nat sub_rule_id) st' in
             if peek pos2 \<noteq> 0x29 then Inl (Parse_error ''expecting )'')
             else Inr (st'', parse_space (drop 1 pos2) is_nested))))"

primrec parse_sequence :: "(byte list \<Rightarrow> llama_token list) option \<Rightarrow> nat \<Rightarrow> sequence_parser" where
  "parse_sequence vocab 0 = (\<lambda>rule_name is_nested pos st. Inl Out_of_fuel)"
| "parse_sequence vocab (Suc n) = (\<lambda>rule_name is_nested pos st.
     if pos = [] then Inr (st, pos)
     else if peek pos = 0x28 then
       bindp (parse_group (parse_sequence vocab n) rule_name is_nested pos st) (\<lambda>(st', pos'). parse_sequence vocab n rule_name is_nested pos' st')
     else
       (case parse_symbol vocab rule_name is_nested pos st of
          None \<Rightarrow> Inr (st, pos)
        | Some r \<Rightarrow> bindp r (\<lambda>(st', pos'). parse_sequence vocab n rule_name is_nested pos' st')))"

section \<open>Rules and the whole text\<close>

definition parse_rule :: "(byte list \<Rightarrow> llama_token list) option \<Rightarrow> byte list \<Rightarrow> grammar_parser \<Rightarrow> (grammar_parser \<times> byte list) parsed" where
  "parse_rule vocab src p =
     bindp (parse_name src) (\<lambda>(name, name_end).
       (let pos = parse_space name_end False in
        case get_symbol_id p name of
          (rule_id, p1) \<Rightarrow>
            if \<not> (peek pos = 0x3a \<and> peek (drop 1 pos) = 0x3a \<and> peek (drop 2 pos) = 0x3d) then Inl (Parse_error ''expecting ::='')
            else
              (let pos1 = parse_space (drop 3 pos) True in
               bindp (parse_alternates (parse_sequence vocab (Suc (length pos1))) name rule_id False pos1 p1) (\<lambda>(p2, pos2).
                 if peek pos2 = 0x0d then
                   Inr (p2, parse_space (if peek (drop 1 pos2) = 0x0a then drop 2 pos2 else drop 1 pos2) True)
                 else if peek pos2 = 0x0a then Inr (p2, parse_space (drop 1 pos2) True)
                 else if pos2 \<noteq> [] then Inl (Parse_error ''expecting newline or end'')
                 else Inr (p2, parse_space pos2 True)))))"

text \<open>The loop over the rules, bounded by the length of the text: every rule consumes its name.\<close>

fun parse_rules :: "nat \<Rightarrow> (byte list \<Rightarrow> llama_token list) option \<Rightarrow> byte list \<Rightarrow> grammar_parser \<Rightarrow> grammar_parser parsed" where
  "parse_rules 0 vocab pos p = Inl Out_of_fuel"
| "parse_rules (Suc n) vocab pos p =
     (if pos = [] then Inr p else bindp (parse_rule vocab pos p) (\<lambda>(p', pos'). parse_rules n vocab pos' p'))"

text \<open>The validation: no rule is empty, and every reference is to a rule, or to an identifier the map no longer has.\<close>

definition ref_undefined :: "grammar_parser \<Rightarrow> grammar_element \<Rightarrow> bool" where
  "ref_undefined p e \<longleftrightarrow>
     ge_type e = LLAMA_GRETYPE_RULE_REF \<and>
     (length (parser_rules p) \<le> unat (ge_value e) \<or> parser_rules p ! unat (ge_value e) = []) \<and>
     unat (ge_value e) \<in> snd ` set (symbol_ids p)"

definition validate_rules :: "grammar_parser \<Rightarrow> grammar_parser parsed" where
  "validate_rules p =
     (if list_ex (\<lambda>rule. rule = [] \<or> list_ex (ref_undefined p) rule) (parser_rules p)
      then Inl (Parse_error ''Undefined rule'') else Inr p)"

definition parse_text :: "(byte list \<Rightarrow> llama_token list) option \<Rightarrow> byte list \<Rightarrow> grammar_parser parsed" where
  "parse_text vocab src =
     bindp (parse_rules (Suc (length (c_str src))) vocab (parse_space (c_str src) True) \<lparr>symbol_ids = [], parser_rules = []\<rparr>) validate_rules"

text \<open>\<open>parse\<close> catches the exception, clears the rules and returns false; the symbols are kept.\<close>

definition grammar_parse :: "(byte list \<Rightarrow> llama_token list) option \<Rightarrow> byte list \<Rightarrow> bool \<times> grammar_rules" where
  "grammar_parse vocab src = (case parse_text vocab src of Inl _ \<Rightarrow> (False, []) | Inr p \<Rightarrow> (True, parser_rules p))"

section \<open>llama_grammar_init_impl\<close>

definition llama_grammar_init_impl :: "(byte list \<Rightarrow> llama_token list) option \<Rightarrow> byte list \<Rightarrow> byte list \<Rightarrow> bool \<Rightarrow> 'pat list \<Rightarrow> llama_token list
    \<Rightarrow> (grammar_error + 'pat llama_grammar option) option" where
  "llama_grammar_init_impl vocab grammar_str grammar_root lazy trigger_patterns trigger_tokens =
     (case parse_text vocab grammar_str of
        Inl _ \<Rightarrow> Some (Inr None)
      | Inr p \<Rightarrow>
          if parser_rules p = [] then Some (Inr None)
          else
            (case map_of (symbol_ids p) grammar_root of
               None \<Rightarrow> Some (Inr None)
             | Some start_rule_index \<Rightarrow>
                 (case grammar_init_rules (parser_rules p) start_rule_index of
                    None \<Rightarrow> None
                  | Some (Inl e) \<Rightarrow> Some (Inl e)
                  | Some (Inr None) \<Rightarrow> Some (Inr None)
                  | Some (Inr (Some (vec_rules, stacks))) \<Rightarrow>
                      Some (Inr (Some (new_grammar vec_rules stacks lazy trigger_tokens trigger_patterns))))))"

section \<open>Printing\<close>

definition is_char_element :: "grammar_element \<Rightarrow> bool" where
  "is_char_element e = (case ge_type e of
     LLAMA_GRETYPE_CHAR \<Rightarrow> True | LLAMA_GRETYPE_CHAR_NOT \<Rightarrow> True | LLAMA_GRETYPE_CHAR_ALT \<Rightarrow> True
   | LLAMA_GRETYPE_CHAR_RNG_UPPER \<Rightarrow> True | LLAMA_GRETYPE_CHAR_ANY \<Rightarrow> True | _ \<Rightarrow> False)"

text \<open>\<open>%04X\<close>\<close>

definition hex_upper :: "nat \<Rightarrow> char" where
  "hex_upper d = ''0123456789ABCDEF'' ! d"

fun hex_digits :: "nat \<Rightarrow> string" where
  "hex_digits n = (if n < 16 then [hex_upper n] else hex_digits (n div 16) @ [hex_upper (n mod 16)])"

declare hex_digits.simps [simp del]

definition print_hex4 :: "nat \<Rightarrow> string" where
  "print_hex4 n = (let d = hex_digits n in replicate (4 - length d) CHR ''0'' @ d)"

definition print_decimal :: "nat \<Rightarrow> string" where
  "print_decimal n = map (\<lambda>b. char_of (unat b)) (decimal n)"

definition print_grammar_char :: "cpt \<Rightarrow> string" where
  "print_grammar_char c = (if 0x20 \<le> c \<and> c \<le> 0x7f then [char_of (unat c)] else ''<U+'' @ print_hex4 (unat c) @ ''>'')"

definition gretype_name :: "gretype \<Rightarrow> string" where
  "gretype_name t = (case t of
     LLAMA_GRETYPE_END \<Rightarrow> ''END'' | LLAMA_GRETYPE_ALT \<Rightarrow> ''ALT'' | LLAMA_GRETYPE_RULE_REF \<Rightarrow> ''RULE_REF''
   | LLAMA_GRETYPE_CHAR \<Rightarrow> ''CHAR'' | LLAMA_GRETYPE_CHAR_NOT \<Rightarrow> ''CHAR_NOT'' | LLAMA_GRETYPE_CHAR_RNG_UPPER \<Rightarrow> ''CHAR_RNG_UPPER''
   | LLAMA_GRETYPE_CHAR_ALT \<Rightarrow> ''CHAR_ALT'' | LLAMA_GRETYPE_CHAR_ANY \<Rightarrow> ''CHAR_ANY'' | LLAMA_GRETYPE_TOKEN \<Rightarrow> ''TOKEN''
   | LLAMA_GRETYPE_TOKEN_NOT \<Rightarrow> ''TOKEN_NOT'')"

definition print_elem_binary :: "grammar_element \<Rightarrow> string" where
  "print_elem_binary e = gretype_name (ge_type e) @
     (case ge_type e of
        LLAMA_GRETYPE_END \<Rightarrow> ''('' @ print_decimal (unat (ge_value e)) @ '') ''
      | LLAMA_GRETYPE_ALT \<Rightarrow> ''('' @ print_decimal (unat (ge_value e)) @ '') ''
      | LLAMA_GRETYPE_RULE_REF \<Rightarrow> ''('' @ print_decimal (unat (ge_value e)) @ '') ''
      | LLAMA_GRETYPE_TOKEN \<Rightarrow> ''<['' @ print_decimal (unat (ge_value e)) @ '']> ''
      | LLAMA_GRETYPE_TOKEN_NOT \<Rightarrow> ''!<['' @ print_decimal (unat (ge_value e)) @ '']> ''
      | _ \<Rightarrow> ''(\"'' @ print_grammar_char (ge_value e) @ ''\") '')"

definition print_rule_binary :: "grammar_element list \<Rightarrow> string" where
  "print_rule_binary rule = concat (map print_elem_binary rule) @ [CHR 0x0a]"

text \<open>One element of \<open>print_rule\<close>; \<open>prev\<close> is the element before it and \<open>nxt\<close> the one behind.\<close>

definition print_rule_elem :: "(nat \<Rightarrow> string option) \<Rightarrow> grammar_element option \<Rightarrow> grammar_element \<Rightarrow> grammar_element \<Rightarrow> string parsed" where
  "print_rule_elem names prev e nxt =
     bindp
       (case ge_type e of
          LLAMA_GRETYPE_END \<Rightarrow> Inl (Parse_error ''unexpected end of rule'')
        | LLAMA_GRETYPE_ALT \<Rightarrow> Inr ''| ''
        | LLAMA_GRETYPE_RULE_REF \<Rightarrow>
            (case names (unat (ge_value e)) of None \<Rightarrow> Inl (Parse_error ''map::at'') | Some nm \<Rightarrow> Inr (nm @ '' ''))
        | LLAMA_GRETYPE_CHAR \<Rightarrow> Inr (''['' @ print_grammar_char (ge_value e))
        | LLAMA_GRETYPE_CHAR_NOT \<Rightarrow> Inr (''[^'' @ print_grammar_char (ge_value e))
        | LLAMA_GRETYPE_CHAR_RNG_UPPER \<Rightarrow>
            (if (case prev of None \<Rightarrow> True | Some pe \<Rightarrow> \<not> is_char_element pe)
             then Inl (Parse_error ''LLAMA_GRETYPE_CHAR_RNG_UPPER without preceding char'') else Inr (''-'' @ print_grammar_char (ge_value e)))
        | LLAMA_GRETYPE_CHAR_ALT \<Rightarrow>
            (if (case prev of None \<Rightarrow> True | Some pe \<Rightarrow> \<not> is_char_element pe)
             then Inl (Parse_error ''LLAMA_GRETYPE_CHAR_ALT without preceding char'') else Inr (print_grammar_char (ge_value e)))
        | LLAMA_GRETYPE_CHAR_ANY \<Rightarrow> Inr ''.''
        | LLAMA_GRETYPE_TOKEN \<Rightarrow> Inr (''<['' @ print_decimal (unat (ge_value e)) @ '']> '')
        | LLAMA_GRETYPE_TOKEN_NOT \<Rightarrow> Inr (''!<['' @ print_decimal (unat (ge_value e)) @ '']> ''))
       (\<lambda>out. Inr (out @
          (if is_char_element e \<and> ge_type nxt \<notin> {LLAMA_GRETYPE_CHAR_ALT, LLAMA_GRETYPE_CHAR_RNG_UPPER, LLAMA_GRETYPE_CHAR_ANY}
           then ''] '' else '''')))"

fun print_rule_loop :: "(nat \<Rightarrow> string option) \<Rightarrow> grammar_element option \<Rightarrow> grammar_element list \<Rightarrow> string parsed" where
  "print_rule_loop names prev (e # nxt # es) =
     bindp (print_rule_elem names prev e nxt) (\<lambda>out.
       bindp (print_rule_loop names (Some e) (nxt # es)) (\<lambda>rest. Inr (out @ rest)))"
| "print_rule_loop names prev es = Inr ''''"

definition print_rule :: "nat \<Rightarrow> grammar_element list \<Rightarrow> (nat \<Rightarrow> string option) \<Rightarrow> string parsed" where
  "print_rule rule_id rule names =
     (if rule = [] \<or> ge_type (last rule) \<noteq> LLAMA_GRETYPE_END then Inl (Parse_error ''malformed rule, does not end with LLAMA_GRETYPE_END'')
      else
        (case names rule_id of
           None \<Rightarrow> Inl (Parse_error ''map::at'')
         | Some nm \<Rightarrow> bindp (print_rule_loop names None rule) (\<lambda>out. Inr (nm @ '' ::= '' @ out @ [CHR 0x0a]))))"

end
