(* ===== verification/GrammarParserProps.thy ===== *)
theory GrammarParserProps
  imports GrammarParser
begin

text \<open>
  What the parser of \<open>src/llama-grammar.cpp\<close> guarantees: it always returns, and the rules it returns are the ones the matcher
  needs (resolved references, character sets in shape, one END element per rule).
\<close>

section \<open>Positions only move forward\<close>

lemma parse_space_length: "length (parse_space s b) \<le> length s"
proof (induction s b rule: parse_space.induct)
  case (2 c s b)
  have "length (dropWhile P s) \<le> length s" for P :: "byte \<Rightarrow> bool" by (rule length_dropWhile_le)
  then show ?case using 2 by (auto intro: le_SucI order_trans)
qed simp

lemma dropWhile_shorter: "takeWhile P xs \<noteq> [] \<Longrightarrow> length (dropWhile P xs) < length xs"
  by (cases xs) (auto simp: less_Suc_eq_le length_dropWhile_le split: if_splits)

lemma parse_name_length: "parse_name src = Inr (nm, rest) \<Longrightarrow> length rest < length src"
  by (auto simp: parse_name_def Let_def dropWhile_shorter split: if_splits)

lemma parse_int_length: "parse_int src = Inr (ds, rest) \<Longrightarrow> length rest < length src"
  by (auto simp: parse_int_def Let_def dropWhile_shorter split: if_splits)

lemma parse_literal_length: "parse_literal pos st = Inr (st', pos') \<Longrightarrow> length pos' \<le> length pos"
proof (induction pos st rule: parse_literal.induct)
  case (1 pos st)
  show ?case
  proof (cases "peek pos = 0x22 \<or> pos = []")
    case True
    then show ?thesis using 1(2) by (subst (asm) parse_literal.simps) (auto split: if_splits)
  next
    case False
    then obtain c p1 where c: "parse_char pos = Inr (c, p1)" "parse_literal p1 (push_elem LLAMA_GRETYPE_CHAR c st) = Inr (st', pos')"
      using 1(2) by (subst (asm) parse_literal.simps) (auto split: sum.splits)
    then show ?thesis using 1(1)[OF _ _ c(1) refl] False parse_char_length[OF c(1)] by simp
  qed
qed

lemma parse_set_length: "parse_set t pos st = Inr (st', pos') \<Longrightarrow> length pos' \<le> length pos"
proof (induction t pos st rule: parse_set.induct)
  case (1 t pos st)
  show ?case
  proof (cases "peek pos = 0x5d \<or> pos = []")
    case True
    then show ?thesis using 1(2) by (subst (asm) parse_set.simps) (auto split: if_splits)
  next
    case False
    let ?t = "if sq_last_sym_start st < length (sq_rule st) then LLAMA_GRETYPE_CHAR_ALT else t"
    obtain c p1 s2 p2 where c: "parse_char pos = Inr (c, p1)" "range_end p1 (push_elem ?t c st) = Inr (s2, p2)"
      "parse_set t p2 s2 = Inr (st', pos')"
      using 1(2) False by (subst (asm) parse_set.simps) (auto simp: Let_def split: sum.splits)
    then show ?thesis
      using 1(1)[OF _ _ c(1) refl refl c(2) refl] False parse_char_length[OF c(1)] range_end_length[OF c(2)] by simp
  qed
qed

lemma parse_token_length: "parse_token vocab src = Inr (t, rest) \<Longrightarrow> length rest < length src"
proof -
  assume a: "parse_token vocab src = Inr (t, rest)"
  then have "peek src = 0x3c" by (auto simp: parse_token_def split: if_splits)
  then obtain s where s: "src = 0x3c # s" by (cases src) auto
  have "length (drop 2 q) < length src" if "parse_int (drop 1 s) = Inr (ds, q)" for ds q
    using parse_int_length[OF that] s by simp
  moreover have "length (drop 1 (dropWhile P s)) < length src" for P :: "byte \<Rightarrow> bool"
    using length_dropWhile_le[of P s] s by simp
  ultimately show ?thesis using a s
    by (auto simp: parse_token_def Let_def bindp_Inr split: if_splits option.splits list.splits)
qed

lemma space_drop_length: "length (parse_space (drop n s) b) \<le> length s"
  using parse_space_length[of "drop n s" b] by simp

lemma int_space_length: "parse_int s = Inr (ds, r) \<Longrightarrow> length (parse_space r b) \<le> length s"
  using parse_int_length[of s ds r] parse_space_length[of r b] by simp

lemma parse_bounds_length:
  assumes "parse_bounds pos b = Inr (mm, pos')"
  shows "length pos' \<le> length pos"
proof -
  obtain ds r where i: "parse_int pos = Inr (ds, r)" using assms by (auto simp: parse_bounds_def bindp_Inr split: if_splits)
  let ?q = "parse_space r b"
  have q: "length ?q \<le> length pos" by (rule int_space_length[OF i])
  consider "pos' = parse_space (drop 1 ?q) b"
    | p3 where "pos' = parse_space (drop 1 p3) b" "length p3 \<le> length ?q"
  proof (cases "peek ?q = 0x7d")
    case True
    then show ?thesis using assms i that(1) by (auto simp: parse_bounds_def bindp_Inr Let_def split: if_splits)
  next
    case False
    let ?q2 = "parse_space (drop 1 ?q) b"
    obtain mx p3 where p3: "pos' = parse_space (drop 1 p3) b"
      "(if is_digit_char (peek ?q2) then
                        bindp (parse_int ?q2) (\<lambda>(digits, int_end).
                          bindp (stoull digits) (\<lambda>max_times. Inr (max_times, parse_space int_end b)))
                      else Inr (UINT64_MAX, ?q2)) = Inr (mx, p3)"
      using assms i False by (auto simp: parse_bounds_def bindp_Inr Let_def split: if_splits)
    have "length p3 \<le> length ?q2" using p3(2) by (auto simp: bindp_Inr int_space_length split: if_splits)
    then show ?thesis using that(2)[OF p3(1)] space_drop_length[of 1 ?q b] by simp
  qed
  then show ?thesis
  proof cases
    case 1
    then show ?thesis using space_drop_length[of 1 ?q b] q by simp
  next
    case (2 p3)
    then show ?thesis using space_drop_length[of 1 p3 b] q by simp
  qed
qed

section \<open>No routine runs out of fuel by itself\<close>

lemma parse_hex_fuel: "parse_hex s n v \<noteq> Inl Out_of_fuel"
  by (induction s n v rule: parse_hex.induct) (auto split: option.splits)

lemma parse_char_fuel: "parse_char s \<noteq> Inl Out_of_fuel"
  by (auto simp: parse_char_def Let_def parse_hex_fuel split: list.splits)

lemma parse_literal_fuel: "parse_literal pos st \<noteq> Inl Out_of_fuel"
proof (induction pos st rule: parse_literal.induct)
  case (1 pos st)
  then show ?case using parse_char_fuel[of pos] by (subst parse_literal.simps) (auto split: sum.splits)
qed

lemma range_end_fuel: "range_end pos st \<noteq> Inl Out_of_fuel"
  by (auto simp: range_end_def bindp_Inl parse_char_fuel)

lemma parse_set_fuel: "parse_set t pos st \<noteq> Inl Out_of_fuel"
proof (induction t pos st rule: parse_set.induct)
  case (1 t pos st)
  then show ?case using parse_char_fuel[of pos] range_end_fuel
    by (subst parse_set.simps) (auto simp: Let_def split: sum.splits)
qed

lemma stoull_fuel: "stoull ds \<noteq> Inl Out_of_fuel"
  by (simp add: stoull_def Let_def)

lemma parse_int_fuel: "parse_int s \<noteq> Inl Out_of_fuel" "parse_name s \<noteq> Inl Out_of_fuel"
  by (simp_all add: parse_int_def parse_name_def Let_def)

lemma parse_token_fuel: "parse_token vocab src \<noteq> Inl Out_of_fuel"
  by (auto simp: parse_token_def Let_def bindp_Inl parse_int_fuel stoull_fuel split: option.splits list.splits)

lemma parse_bounds_fuel: "parse_bounds pos b \<noteq> Inl Out_of_fuel"
  by (auto simp: parse_bounds_def Let_def bindp_Inl parse_int_fuel stoull_fuel split: if_splits)

lemma handle_repetitions_fuel: "handle_repetitions nm a b st \<noteq> Inl Out_of_fuel"
  by (auto simp: handle_repetitions_def Let_def split: prod.splits)

lemma parse_symbol_fuel: "parse_symbol vocab nm b pos st \<noteq> Some (Inl Out_of_fuel)"
  unfolding parse_symbol_def Let_def
  by (auto simp: bindp_Inl parse_literal_fuel parse_set_fuel parse_token_fuel parse_int_fuel parse_bounds_fuel handle_repetitions_fuel
    split: prod.splits)

lemma parse_symbol_length:
  assumes "parse_symbol vocab nm b pos st = Some (Inr (st', pos'))" "pos \<noteq> []"
  shows "length pos' < length pos"
proof -
  have d: "length (parse_space (drop 1 s) b) < length pos" if "length s < length pos" for s
    using space_drop_length[of 1 s b] that by simp
  have d0: "length (parse_space (drop 1 pos) b) < length pos"
    using parse_space_length[of "drop 1 pos" b] assms(2) by (cases pos) auto
  have t: "length (drop 1 pos) < length pos" using assms(2) by (cases pos) auto
  have 1: "length (parse_space (drop (Suc 0) p1) b) < length pos" if "parse_literal (drop (Suc 0) pos) s = Inr (st1, p1)" for s st1 p1
    using parse_literal_length[OF that] t d[of p1] by simp
  have 2: "length (parse_space (drop (Suc 0) p1) b) < length pos" if "parse_set ty (drop (Suc 0) pos) s = Inr (st1, p1)" for ty s st1 p1
    using parse_set_length[OF that] t d[of p1] by simp
  have 3: "length (parse_space (drop (Suc 0) p1) b) < length pos" if "parse_set ty (drop (Suc (Suc 0)) pos) s = Inr (st1, p1)" for ty s st1 p1
    using parse_set_length[OF that] t d[of p1] by simp
  have 4: "length (parse_space p1 b) < length pos" if "parse_token vocab pos = Inr (tk, p1)" for tk p1
    using parse_token_length[OF that] parse_space_length[of p1 b] by simp
  have 5: "length (parse_space p1 b) < length pos" if "parse_token vocab (drop (Suc 0) pos) = Inr (tk, p1)" for tk p1
    using parse_token_length[OF that] t parse_space_length[of p1 b] by simp
  have 6: "length (parse_space p1 b) < length pos" if "parse_name pos = Inr (n, p1)" for n p1
    using parse_name_length[OF that] parse_space_length[of p1 b] by simp
  have 7: "length p1 < length pos" if "parse_bounds (parse_space (drop (Suc 0) pos) b) b = Inr (mm, p1)" for mm p1
    using parse_bounds_length[OF that] d0 by simp
  have 8: "length (parse_space (drop (Suc 0) pos) b) < length pos" using d0 by simp
  show ?thesis using assms(1) unfolding parse_symbol_def Let_def
    by (auto simp: bindp_Inr split: if_splits prod.splits dest: 1 2 3 4 5 6 7 intro: 8) (metis 6 surj_pair)
qed

section \<open>The calls are deep enough\<close>

definition seq_returns :: "sequence_parser \<Rightarrow> nat \<Rightarrow> bool" where
  "seq_returns seq n \<longleftrightarrow> (\<forall>nm b pos st. length pos < n \<longrightarrow> seq nm b pos st \<noteq> Inl Out_of_fuel \<and>
     (\<forall>st' pos'. seq nm b pos st = Inr (st', pos') \<longrightarrow> length pos' \<le> length pos))"

lemma seq_returnsD:
  "seq_returns seq n \<Longrightarrow> length pos < n \<Longrightarrow> seq nm b pos st \<noteq> Inl Out_of_fuel"
  "seq_returns seq n \<Longrightarrow> length pos < n \<Longrightarrow> seq nm b pos st = Inr (st', pos') \<Longrightarrow> length pos' \<le> length pos"
  unfolding seq_returns_def by blast+

lemma more_alternates_returns:
  "seq_returns seq n \<Longrightarrow> length pos < m \<Longrightarrow> length pos < n \<Longrightarrow>
   more_alternates seq m nm b pos st \<noteq> Inl Out_of_fuel \<and>
   (\<forall>st' pos'. more_alternates seq m nm b pos st = Inr (st', pos') \<longrightarrow> length pos' \<le> length pos)"
proof (induction m arbitrary: pos st)
  case 0
  then show ?case by simp
next
  case (Suc m)
  show ?case
  proof (cases "peek pos = 0x7c")
    case True
    let ?q = "parse_space (drop 1 pos) True" and ?s = "start_sequence (sq_rule st @ [elem LLAMA_GRETYPE_ALT 0]) (sq_parser st)"
    have "pos \<noteq> []" using True by auto
    then have q: "length ?q < length pos" using parse_space_length[of "drop 1 pos" True] by (cases pos) auto
    then have qn: "length ?q < n" using Suc.prems by simp
    show ?thesis
    proof (cases "seq nm b ?q ?s")
      case (Inl e)
      then show ?thesis using True seq_returnsD(1)[OF Suc.prems(1) qn, of nm b ?s] by auto
    next
      case (Inr r)
      obtain st1 p1 where r: "r = (st1, p1)" by (rule prod.exhaust)
      have p1: "length p1 \<le> length ?q" by (rule seq_returnsD(2)[OF Suc.prems(1) qn Inr[unfolded r]])
      have "length p1 < m" "length p1 < n" using p1 q Suc.prems by simp_all
      from Suc.IH[OF Suc.prems(1) this, of st1] show ?thesis using True Inr r p1 q by auto
    qed
  next
    case False
    then show ?thesis by simp
  qed
qed

lemma parse_alternates_returns:
  assumes "seq_returns seq n" "length pos < n"
  shows "parse_alternates seq nm i b pos p \<noteq> Inl Out_of_fuel \<and>
   (\<forall>p' pos'. parse_alternates seq nm i b pos p = Inr (p', pos') \<longrightarrow> length pos' \<le> length pos)"
proof (cases "seq nm b pos (start_sequence [] p)")
  case (Inl e)
  then show ?thesis using seq_returnsD(1)[OF assms, of nm b "start_sequence [] p"] by (auto simp: parse_alternates_def)
next
  case (Inr r)
  obtain st1 p1 where r: "r = (st1, p1)" by (rule prod.exhaust)
  have p1: "length p1 \<le> length pos" by (rule seq_returnsD(2)[OF assms Inr[unfolded r]])
  have "length p1 < Suc (length p1)" "length p1 < n" using p1 assms(2) by simp_all
  from more_alternates_returns[OF assms(1) this, of nm b st1]
  show ?thesis using Inr r p1 by (auto simp: parse_alternates_def bindp_Inl bindp_Inr)
qed

lemma parse_group_returns:
  assumes "seq_returns seq n" "length pos \<le> n" "pos \<noteq> []"
  shows "parse_group seq nm b pos st \<noteq> Inl Out_of_fuel \<and>
   (\<forall>st' pos'. parse_group seq nm b pos st = Inr (st', pos') \<longrightarrow> length pos' < length pos)"
proof -
  obtain i p1 where g: "generate_symbol_id (sq_parser st) nm = (i, p1)" by (rule prod.exhaust)
  let ?q = "parse_space (drop 1 pos) True"
  have q: "length ?q < length pos" using parse_space_length[of "drop 1 pos" True] assms(3) by (cases pos) auto
  then have qn: "length ?q < n" using assms(2) by simp
  note r = parse_alternates_returns[OF assms(1) qn, of nm i True p1]
  have "length (parse_space (drop 1 p2) b) < length pos" if "parse_alternates seq nm i True ?q p1 = Inr (p', p2)" for p' p2
    using r that q space_drop_length[of 1 p2 b] by fastforce
  then show ?thesis using r by (auto simp: parse_group_def g Let_def bindp_Inl bindp_Inr split: if_splits)
qed

lemma parse_sequence_returns: "seq_returns (parse_sequence vocab n) n"
proof (induction n)
  case 0
  then show ?case by (simp add: seq_returns_def)
next
  case (Suc n)
  let ?seq = "parse_sequence vocab n"
  have go: "r \<noteq> Inl Out_of_fuel \<Longrightarrow> (\<And>st1 p1. r = Inr (st1, p1) \<Longrightarrow> length p1 < length pos) \<Longrightarrow>
      bindp r (\<lambda>(st', pos'). ?seq nm b pos' st') \<noteq> Inl Out_of_fuel \<and>
      (\<forall>st' pos'. bindp r (\<lambda>(st', pos'). ?seq nm b pos' st') = Inr (st', pos') \<longrightarrow> length pos' \<le> length pos)"
    if "length pos < Suc n" for r nm b and pos :: "byte list"
  proof (cases r)
    case (Inr x)
    obtain st1 p1 where x: "x = (st1, p1)" by (rule prod.exhaust)
    assume "\<And>st1 p1. r = Inr (st1, p1) \<Longrightarrow> length p1 < length pos"
    then have l: "length p1 < length pos" "length p1 < n" using Inr x that by fastforce+
    show ?thesis using seq_returnsD[OF Suc l(2)] l(1) Inr x by fastforce
  qed auto
  show ?case
    unfolding seq_returns_def
  proof (intro allI impI)
    fix nm b and pos :: "byte list" and st assume l: "length pos < Suc n"
    let ?r = "parse_sequence vocab (Suc n) nm b pos st"
    show "?r \<noteq> Inl Out_of_fuel \<and> (\<forall>st' pos'. ?r = Inr (st', pos') \<longrightarrow> length pos' \<le> length pos)"
    proof (cases "pos = []")
      case True
      then show ?thesis by simp
    next
      case False
      show ?thesis
      proof (cases "peek pos = 0x28")
        case True
        have ln: "length pos \<le> n" using l by simp
        note gr = parse_group_returns[OF Suc ln False, of nm b st]
        have "?r = bindp (parse_group ?seq nm b pos st) (\<lambda>(st', pos'). ?seq nm b pos' st')" using True False by simp
        then show ?thesis using go[OF l, of "parse_group ?seq nm b pos st" nm b] gr by simp
      next
        case paren: False
        show ?thesis
        proof (cases "parse_symbol vocab nm b pos st")
          case None
          then show ?thesis using paren False by simp
        next
          case (Some s)
          have "?r = bindp s (\<lambda>(st', pos'). ?seq nm b pos' st')" using paren False Some by simp
          moreover have "s \<noteq> Inl Out_of_fuel" using Some parse_symbol_fuel by metis
          moreover have "length p1 < length pos" if "s = Inr (st1, p1)" for st1 p1
            using parse_symbol_length[OF _ False] Some that by metis
          ultimately show ?thesis using go[OF l, of s nm b] by simp
        qed
      qed
    qed
  qed
qed

lemma parse_rule_returns:
  "parse_rule vocab src p \<noteq> Inl Out_of_fuel \<and> (\<forall>p' pos'. parse_rule vocab src p = Inr (p', pos') \<longrightarrow> length pos' < length src)"
proof (cases "parse_name src")
  case (Inl e)
  then show ?thesis using parse_int_fuel(2)[of src] by (simp add: parse_rule_def)
next
  case (Inr x)
  obtain nm ne where x: "x = (nm, ne)" by (rule prod.exhaust)
  obtain i p1 where g: "get_symbol_id p nm = (i, p1)" by (rule prod.exhaust)
  let ?pos = "parse_space ne False"
  let ?pos1 = "parse_space (drop 3 ?pos) True"
  have l: "length ?pos1 < length src"
    using space_drop_length[of 3 ?pos True] parse_space_length[of ne False] parse_name_length[OF Inr[unfolded x]] by simp
  have f: "length ?pos1 < Suc (length ?pos1)" by simp
  note r = parse_alternates_returns[OF parse_sequence_returns f, of vocab nm i False p1]
  have "length (parse_space (drop k p2) True) < length src" "length (parse_space p2 True) < length src"
    if "parse_alternates (parse_sequence vocab (Suc (length ?pos1))) nm i False ?pos1 p1 = Inr (p', p2)" for p' p2 k
    using r that l space_drop_length[of k p2 True] parse_space_length[of p2 True] by fastforce+
  then show ?thesis using r Inr x g
    by (auto simp: parse_rule_def Let_def bindp_Inl bindp_Inr simp del: parse_sequence.simps split: if_splits)
qed

lemma parse_rules_returns: "length pos < n \<Longrightarrow> parse_rules n vocab pos p \<noteq> Inl Out_of_fuel"
proof (induction n arbitrary: pos p)
  case (Suc n)
  show ?case
  proof (cases "pos = []")
    case False
    show ?thesis
    proof
      assume "parse_rules (Suc n) vocab pos p = Inl Out_of_fuel"
      then obtain p' pos' where "parse_rule vocab pos p = Inr (p', pos')" "parse_rules n vocab pos' p' = Inl Out_of_fuel"
        using False parse_rule_returns[of vocab pos p] by (auto simp: bindp_Inl)
      then show False using Suc parse_rule_returns[of vocab pos p] by fastforce
    qed
  qed simp
qed simp

lemma parse_text_returns: "parse_text vocab src \<noteq> Inl Out_of_fuel"
proof -
  have "length (parse_space (c_str src) True) < Suc (length (c_str src))" using parse_space_length[of "c_str src" True] by simp
  from parse_rules_returns[OF this, of vocab] show ?thesis by (auto simp: parse_text_def bindp_Inl validate_rules_def)
qed

end
