(* ===== verification/GrammarParserShape.thy ===== *)
theory GrammarParserShape
  imports GrammarParserProps
begin

text \<open>
  The rules a successful parse returns: every rule ends with its one END element, character sets are in shape, and every
  reference is to a rule.  The invariant is kept by every routine of the parser; while a group is parsed, references
  up to the identifier of its synthesized rule count as known (\<open>bound\<close>).
\<close>

section \<open>Lists of elements\<close>

lemma follows_any: "follows_ok LLAMA_GRETYPE_ALT t \<Longrightarrow> follows_ok s t"
  by (auto simp: follows_ok_def)

lemma rule_shape_any: "rule_shape LLAMA_GRETYPE_ALT es \<Longrightarrow> rule_shape t es"
  by (cases es) (auto intro: follows_any)

lemma rule_shape_append:
  "rule_shape t (xs @ ys) \<longleftrightarrow> rule_shape t xs \<and> rule_shape (if xs = [] then t else ge_type (last xs)) ys"
  by (induction xs arbitrary: t) auto

lemma rule_shape_app: "rule_shape t xs \<Longrightarrow> rule_shape LLAMA_GRETYPE_ALT ys \<Longrightarrow> rule_shape t (xs @ ys)"
  by (auto simp: rule_shape_append intro: rule_shape_any)

lemma rule_shape_concat: "rule_shape LLAMA_GRETYPE_ALT es \<Longrightarrow> rule_shape t (concat (replicate n es))"
  by (induction n arbitrary: t) (auto intro: rule_shape_app rule_shape_any)

definition plain :: "grammar_element list \<Rightarrow> bool" where
  "plain es \<longleftrightarrow> (\<forall>e \<in> set es. ge_type e \<noteq> LLAMA_GRETYPE_END)"

lemma plain_simps [simp]: "plain []" "plain (e # es) \<longleftrightarrow> ge_type e \<noteq> LLAMA_GRETYPE_END \<and> plain es"
  "plain (xs @ ys) \<longleftrightarrow> plain xs \<and> plain ys"
  by (auto simp: plain_def)

definition rule_done :: "grammar_element list \<Rightarrow> bool" where
  "rule_done r \<longleftrightarrow> (\<exists>es. r = es @ [end_elem] \<and> plain es \<and> rule_shape LLAMA_GRETYPE_ALT es)"

lemma copy_done: "rule_done r \<Longrightarrow> copy_rule r = r"
proof -
  assume "rule_done r"
  then obtain es where r: "r = es @ [end_elem]" "plain es" by (auto simp: rule_done_def)
  then have "takeWhile (\<lambda>e. ge_type e \<noteq> LLAMA_GRETYPE_END) r = es" by (subst r(1), subst takeWhile_append2) (auto simp: plain_def end_elem_def)
  then show ?thesis by (simp add: copy_rule_def r(1))
qed

lemma shape_done: "rule_done r \<Longrightarrow> rule_shape LLAMA_GRETYPE_ALT r"
  by (auto simp: rule_done_def end_elem_def intro!: rule_shape_app)

section \<open>The invariant\<close>

abbreviation symbol_values :: "grammar_parser \<Rightarrow> nat set" where
  "symbol_values p \<equiv> snd ` set (symbol_ids p)"

abbreviation n_symbols :: "grammar_parser \<Rightarrow> nat" where
  "n_symbols p \<equiv> length (symbol_ids p)"

abbreviation small :: "grammar_parser \<Rightarrow> bool" where
  "small p \<equiv> n_symbols p < 2 ^ 32"

definition known :: "nat \<Rightarrow> grammar_parser \<Rightarrow> nat \<Rightarrow> bool" where
  "known bound p v \<longleftrightarrow> v \<in> symbol_values p \<or> v < length (parser_rules p) \<or> v < bound"

definition refs_known :: "nat \<Rightarrow> grammar_parser \<Rightarrow> grammar_element list \<Rightarrow> bool" where
  "refs_known bound p es \<longleftrightarrow> (\<forall>e \<in> set es. ge_type e = LLAMA_GRETYPE_RULE_REF \<longrightarrow> known bound p (unat (ge_value e)))"

lemma refs_known_simps [simp]: "refs_known b p []"
  "refs_known b p (e # es) \<longleftrightarrow> (ge_type e = LLAMA_GRETYPE_RULE_REF \<longrightarrow> known b p (unat (ge_value e))) \<and> refs_known b p es"
  "refs_known b p (xs @ ys) \<longleftrightarrow> refs_known b p xs \<and> refs_known b p ys"
  by (auto simp: refs_known_def)

definition parser_inv :: "nat \<Rightarrow> grammar_parser \<Rightarrow> bool" where
  "parser_inv bound p \<longleftrightarrow> (\<forall>v \<in> symbol_values p. v \<le> n_symbols p) \<and>
     (\<forall>r \<in> set (parser_rules p). r = [] \<or> rule_done r) \<and> (\<forall>r \<in> set (parser_rules p). refs_known bound p r)"

definition parser_ext :: "grammar_parser \<Rightarrow> grammar_parser \<Rightarrow> bool" where
  "parser_ext p p' \<longleftrightarrow> (\<forall>v bound. known bound p v \<longrightarrow> known bound p' v)"

lemma parser_ext_refl [simp]: "parser_ext p p" by (simp add: parser_ext_def)

lemma parser_ext_trans: "parser_ext p q \<Longrightarrow> parser_ext q r \<Longrightarrow> parser_ext p r" by (simp add: parser_ext_def)

lemma refs_known_ext: "refs_known b p es \<Longrightarrow> parser_ext p p' \<Longrightarrow> refs_known b p' es"
  by (auto simp: refs_known_def parser_ext_def)

section \<open>Symbols and rules\<close>

lemma update_length: "length al \<le> length (AList.update k v al)"
  by (induction al) auto

lemma update_values: "snd ` set (AList.update k v al) \<subseteq> insert v (snd ` set al)" "v \<in> snd ` set (AList.update k v al)"
  by (induction al) auto

lemma get_symbol_id_cases:
  assumes "get_symbol_id p nm = (i, p')"
  obtains (old) "p' = p" "(nm, i) \<in> set (symbol_ids p)"
    | (new) "i = u32 (n_symbols p)" "p' = p\<lparr>symbol_ids := symbol_ids p @ [(nm, i)]\<rparr>"
proof (cases "map_of (symbol_ids p) nm")
  case None
  then show ?thesis using assms new by (auto simp: get_symbol_id_def Let_def)
next
  case (Some v)
  then show ?thesis using assms old map_of_SomeD[OF Some] by (simp add: get_symbol_id_def)
qed

lemma get_symbol_id_symbols: "get_symbol_id p nm = (i, p') \<Longrightarrow> n_symbols p \<le> n_symbols p'"
  by (erule get_symbol_id_cases) simp_all

lemma get_symbol_id_inv:
  assumes "get_symbol_id p nm = (i, p')" "small p'" "parser_inv b p"
  shows "parser_inv b p' \<and> parser_ext p p' \<and> known b p' i \<and> i < 2 ^ 32"
  using assms(1)
proof (cases rule: get_symbol_id_cases)
  case old
  then have "i \<in> symbol_values p" by force
  then have "i \<le> n_symbols p" "known b p i" using assms(3) by (auto simp: parser_inv_def known_def)
  then show ?thesis using assms(2,3) old by simp
next
  case new
  have i: "i = n_symbols p" "i < 2 ^ 32" using new assms(2) by simp_all
  have ext: "parser_ext p p'" by (auto simp: parser_ext_def known_def new(2))
  have "\<forall>v \<in> symbol_values p'. v \<le> n_symbols p'"
    using assms(3) i(1) unfolding parser_inv_def new(2) by auto
  then have "parser_inv b p'"
    using assms(3) refs_known_ext[OF _ ext] unfolding parser_inv_def by (auto simp: new(2))
  moreover have "known b p' i" by (simp add: known_def new(2))
  ultimately show ?thesis using ext i(2) by blast
qed

lemma generate_spec:
  assumes "generate_symbol_id p nm = (w, p1)"
  shows "n_symbols p \<le> n_symbols p1" "parser_rules p1 = parser_rules p"
    "small p1 \<Longrightarrow> w = n_symbols p" "symbol_values p1 \<subseteq> insert w (symbol_values p)"
proof -
  have e: "w = u32 (n_symbols p)" "p1 = p\<lparr>symbol_ids := AList.update (nm @ [0x5f] @ decimal w) w (symbol_ids p)\<rparr>"
    using assms by (auto simp: generate_symbol_id_def Let_def)
  show l: "n_symbols p \<le> n_symbols p1" unfolding e(2) by (simp add: update_length)
  show "parser_rules p1 = parser_rules p" unfolding e(2) by simp
  show "symbol_values p1 \<subseteq> insert w (symbol_values p)"
    unfolding e(2) using update_values(1)[of _ w "symbol_ids p"] by simp
  show "w = n_symbols p" if "small p1" using l that e(1) by simp
qed

text \<open>Opening a synthesized rule: everything known before stays known below the bound.\<close>

lemma generate_inv:
  assumes "generate_symbol_id p nm = (w, p1)" "small p1" "parser_inv b p"
  shows "parser_inv (max b (Suc w)) p1" and "\<And>v. known b p v \<Longrightarrow> known (max b (Suc w)) p1 v"
proof -
  note g = generate_spec[OF assms(1)]
  have le: "v \<le> w" if "v \<in> symbol_values p" for v using assms(3) that g(3)[OF assms(2)] by (auto simp: parser_inv_def)
  show k: "known (max b (Suc w)) p1 v" if "known b p v" for v
    using that le g(2) by (auto simp: known_def less_Suc_eq_le less_max_iff_disj)
  show "parser_inv (max b (Suc w)) p1"
    unfolding parser_inv_def
  proof (intro conjI ballI)
    show "v \<le> n_symbols p1" if "v \<in> symbol_values p1" for v
      using that g(1,4) g(3)[OF assms(2)] assms(3) by (fastforce simp: parser_inv_def)
    show "r = [] \<or> rule_done r" if "r \<in> set (parser_rules p1)" for r using that assms(3) g(2) by (simp add: parser_inv_def)
    show "refs_known (max b (Suc w)) p1 r" if "r \<in> set (parser_rules p1)" for r
      using that assms(3) g(2) k unfolding parser_inv_def refs_known_def by auto
  qed
qed

text \<open>Closing it: its rule is there.\<close>

lemma close_bound: "known (max b (Suc w)) p v \<Longrightarrow> w < length (parser_rules p) \<Longrightarrow> known b p v"
  by (auto simp: known_def less_max_iff_disj)

lemma close_inv: "parser_inv (max b (Suc w)) p \<Longrightarrow> w < length (parser_rules p) \<Longrightarrow> parser_inv b p"
  unfolding parser_inv_def refs_known_def using close_bound by blast

lemma add_rule_spec:
  "symbol_ids (add_rule i r p) = symbol_ids p" "i < length (parser_rules (add_rule i r p))"
  "length (parser_rules p) \<le> length (parser_rules (add_rule i r p))"
  "set (parser_rules (add_rule i r p)) \<subseteq> {r, []} \<union> set (parser_rules p)"
  using set_update_subset_insert[of "parser_rules p" i r]
    set_update_subset_insert[of "parser_rules p @ replicate (i + 1 - length (parser_rules p)) []" i r]
  by (auto simp: add_rule_def Let_def split: if_splits)

lemma add_rule_inv:
  assumes "parser_inv b p" "rule_done r" "refs_known b p r"
  shows "parser_inv b (add_rule i r p)" "parser_ext p (add_rule i r p)"
proof -
  note a = add_rule_spec[where i = i and r = r and p = p]
  show e: "parser_ext p (add_rule i r p)" using a(1,3) by (auto simp: parser_ext_def known_def)
  show "parser_inv b (add_rule i r p)"
    unfolding parser_inv_def
  proof (intro conjI ballI)
    fix x assume "x \<in> set (parser_rules (add_rule i r p))"
    then have "x = r \<or> x = [] \<or> x \<in> set (parser_rules p)" using a(4) by blast
    then show "x = [] \<or> rule_done x" "refs_known b (add_rule i r p) x"
      using assms refs_known_ext[OF _ e] by (auto simp: parser_inv_def)
  qed (use assms(1) a(1) in \<open>auto simp: parser_inv_def\<close>)
qed

section \<open>Repetitions\<close>

lemma add_rec_rules_symbols: "add_rec_rules i n nm name prev l p = (l', p') \<Longrightarrow> n_symbols p \<le> n_symbols p'"
proof (induction i n nm name prev l p rule: add_rec_rules.induct)
  case (2 i n nm name prev l p)
  obtain w p1 where g: "generate_symbol_id p name = (w, p1)" by (rule prod.exhaust)
  show ?case
    using 2(1)[OF g[symmetric] refl] 2(2) generate_spec(1)[OF g] by (simp add: g Let_def add_rule_spec(1))
qed simp

lemma add_rec_rules_inv:
  "add_rec_rules i n no_max name prev l p = (l', p') \<Longrightarrow> small p' \<Longrightarrow> parser_inv b p \<Longrightarrow> plain prev \<Longrightarrow>
   rule_shape LLAMA_GRETYPE_ALT prev \<Longrightarrow> refs_known b p prev \<Longrightarrow> (i > 0 \<Longrightarrow> known b p l \<and> l < 2 ^ 32) \<Longrightarrow>
   parser_inv b p' \<and> parser_ext p p' \<and> (i > 0 \<or> n > 0 \<longrightarrow> known b p' l' \<and> l' < 2 ^ 32)"
proof (induction i n no_max name prev l p rule: add_rec_rules.induct)
  case (1 i no_max name prev l p)
  then show ?case by auto
next
  case (2 i n no_max name prev l p)
  obtain w p1 where g: "generate_symbol_id p name = (w, p1)" by (rule prod.exhaust)
  let ?ref = "if i > 0 \<or> no_max then [elem LLAMA_GRETYPE_RULE_REF (of_nat (if no_max then w else l))] else []"
  let ?rec = "prev @ ?ref @ [elem LLAMA_GRETYPE_ALT 0, elem LLAMA_GRETYPE_END 0]"
  let ?p2 = "add_rule w ?rec p1"
  have run: "add_rec_rules (Suc i) n no_max name prev w ?p2 = (l', p')" using 2(2) by (simp add: g Let_def)
  have s1: "small p1" using add_rec_rules_symbols[OF run] 2(3) by (simp add: add_rule_spec(1))
  note gs = generate_spec[OF g]
  have w: "w = n_symbols p" "w < 2 ^ 32" using gs(1) gs(3)[OF s1] s1 by simp_all
  note gi = generate_inv[OF g s1 2(4)]
  let ?B = "max b (Suc w)"
  have kw: "known ?B p1 w" by (simp add: known_def less_max_iff_disj)
  have kprev: "refs_known ?B p1 prev" using 2(7) gi(2) by (auto simp: refs_known_def)
  have "known ?B p1 l \<and> l < 2 ^ 32" if "i > 0" using 2(8)[OF that] gi(2) by blast
  then have kref: "refs_known ?B p1 ?ref" using kw w(2) by (auto simp: unat_small)
  have "rule_shape LLAMA_GRETYPE_ALT (prev @ ?ref @ [elem LLAMA_GRETYPE_ALT 0])" "plain (prev @ ?ref @ [elem LLAMA_GRETYPE_ALT 0])"
    using 2(5,6) by (auto simp: follows_ok_def intro!: rule_shape_app)
  then have rdone: "rule_done ?rec" unfolding rule_done_def by (intro exI[of _ "prev @ ?ref @ [elem LLAMA_GRETYPE_ALT 0]"]) (simp add: end_elem_def)
  have "refs_known ?B p1 ?rec" using kprev kref by simp
  from add_rule_inv[OF gi(1) rdone this, of w] have a: "parser_inv ?B ?p2" "parser_ext p1 ?p2" .
  have wl: "w < length (parser_rules ?p2)" by (rule add_rule_spec(2))
  have inv2: "parser_inv b ?p2" by (rule close_inv[OF a(1) wl])
  have ext: "parser_ext p ?p2"
  proof -
    have "known bound ?p2 v" if "known bound p v" for bound v
    proof -
      have "v \<le> w" if "v \<in> symbol_values p" using 2(4) that w(1) by (auto simp: parser_inv_def)
      then have "known (max bound (Suc w)) p1 v" using that gs(2) by (auto simp: known_def less_Suc_eq_le less_max_iff_disj)
      then show ?thesis using a(2) close_bound[OF _ wl] unfolding parser_ext_def by blast
    qed
    then show ?thesis by (simp add: parser_ext_def)
  qed
  have "known b ?p2 w \<and> w < 2 ^ 32" using wl w(2) by (simp add: known_def)
  then have "parser_inv b p' \<and> parser_ext ?p2 p' \<and> (known b p' l' \<and> l' < 2 ^ 32)"
    using 2(1)[OF g[symmetric] refl run 2(3) inv2 2(5,6) refs_known_ext[OF 2(7) ext]] by simp
  then show ?case using parser_ext_trans[OF ext] by blast
qed

section \<open>A sequence\<close>

definition seq_inv :: "nat \<Rightarrow> seq_state \<Rightarrow> bool" where
  "seq_inv b st \<longleftrightarrow> parser_inv b (sq_parser st) \<and> plain (sq_rule st) \<and> rule_shape LLAMA_GRETYPE_ALT (sq_rule st) \<and>
     rule_shape LLAMA_GRETYPE_ALT (drop (sq_last_sym_start st) (sq_rule st)) \<and> refs_known b (sq_parser st) (sq_rule st) \<and>
     sq_last_sym_start st \<le> length (sq_rule st)"

text \<open>One routine takes \<open>st\<close> to \<open>st'\<close>: symbols are only added, and, as long as identifiers fit in 32 bits, the invariant is kept.\<close>

definition seq_to :: "seq_state \<Rightarrow> seq_state \<Rightarrow> bool" where
  "seq_to st st' \<longleftrightarrow> n_symbols (sq_parser st) \<le> n_symbols (sq_parser st') \<and>
     (small (sq_parser st') \<longrightarrow> (\<forall>b. seq_inv b st \<longrightarrow> seq_inv b st' \<and> parser_ext (sq_parser st) (sq_parser st')))"

lemma seq_to_refl: "seq_to st st" by (simp add: seq_to_def)

lemma seq_to_trans: "seq_to a b \<Longrightarrow> seq_to b c \<Longrightarrow> seq_to a c"
  unfolding seq_to_def by (meson parser_ext_trans le_less_trans order_trans)

lemma seq_to_same:
  assumes "sq_parser st' = sq_parser st" "\<And>b. seq_inv b st \<Longrightarrow> seq_inv b st'"
  shows "seq_to st st'"
  using assms by (simp add: seq_to_def)

lemma begin_sym_inv: "seq_inv b st \<Longrightarrow> seq_inv b (begin_sym st)"
  by (simp add: seq_inv_def begin_sym_def)

text \<open>Pushing an element that may follow the last one of the current symbol.\<close>

definition push_ok :: "seq_state \<Rightarrow> gretype \<Rightarrow> bool" where
  "push_ok st t \<longleftrightarrow> t \<noteq> LLAMA_GRETYPE_END \<and>
     follows_ok (if sq_last_sym_start st = length (sq_rule st) then LLAMA_GRETYPE_ALT else ge_type (last (sq_rule st))) t"

lemma push_inv:
  assumes "seq_inv b st" "push_ok st t" "t = LLAMA_GRETYPE_RULE_REF \<Longrightarrow> known b (sq_parser st) (unat v)"
  shows "seq_inv b (push_elem t v st)"
proof -
  let ?r = "sq_rule st" and ?l = "sq_last_sym_start st"
  have f: "follows_ok (if ?r = [] then LLAMA_GRETYPE_ALT else ge_type (last ?r)) t"
    using assms(1,2) follows_any by (auto simp: push_ok_def seq_inv_def split: if_splits)
  have g: "follows_ok (if drop ?l ?r = [] then LLAMA_GRETYPE_ALT else ge_type (last (drop ?l ?r))) t"
    using assms(1,2) by (auto simp: push_ok_def seq_inv_def last_drop split: if_splits)
  show ?thesis using assms f g by (auto simp: seq_inv_def push_elem_def rule_shape_append push_ok_def)
qed

lemma push_simple: "t \<in> {LLAMA_GRETYPE_CHAR, LLAMA_GRETYPE_CHAR_NOT, LLAMA_GRETYPE_CHAR_ANY, LLAMA_GRETYPE_TOKEN, LLAMA_GRETYPE_TOKEN_NOT,
    LLAMA_GRETYPE_RULE_REF} \<Longrightarrow> push_ok st t"
  by (auto simp: push_ok_def follows_ok_def)

lemma push_elem_parser [simp]: "sq_parser (push_elem t v st) = sq_parser st" "sq_parser (begin_sym st) = sq_parser st"
  "sq_last_sym_start (push_elem t v st) = sq_last_sym_start st" "sq_rule (push_elem t v st) = sq_rule st @ [elem t v]"
  "sq_last_sym_start (begin_sym st) = length (sq_rule st)" "sq_rule (begin_sym st) = sq_rule st"
  by (simp_all add: push_elem_def begin_sym_def)

lemma parse_literal_inv:
  "parse_literal pos st = Inr (st', pos') \<Longrightarrow> sq_parser st' = sq_parser st \<and> (seq_inv b st \<longrightarrow> seq_inv b st')"
proof (induction pos st rule: parse_literal.induct)
  case (1 pos st)
  show ?case
  proof (cases "peek pos = 0x22 \<or> pos = []")
    case True
    then show ?thesis using 1(2) by (subst (asm) parse_literal.simps) (auto split: if_splits)
  next
    case False
    then obtain c p1 where c: "parse_char pos = Inr (c, p1)" "parse_literal p1 (push_elem LLAMA_GRETYPE_CHAR c st) = Inr (st', pos')"
      using 1(2) by (subst (asm) parse_literal.simps) (auto split: sum.splits)
    have "seq_inv b st \<Longrightarrow> seq_inv b (push_elem LLAMA_GRETYPE_CHAR c st)" by (rule push_inv) (auto intro: push_simple)
    then show ?thesis using 1(1)[OF _ _ c(1) refl c(2)] False by simp
  qed
qed

definition in_set :: "seq_state \<Rightarrow> bool" where
  "in_set st \<longleftrightarrow> (sq_last_sym_start st < length (sq_rule st) \<longrightarrow>
     ge_type (last (sq_rule st)) \<in> {LLAMA_GRETYPE_CHAR, LLAMA_GRETYPE_CHAR_NOT, LLAMA_GRETYPE_CHAR_ALT, LLAMA_GRETYPE_CHAR_RNG_UPPER})"

lemma parse_set_inv:
  "parse_set t pos st = Inr (st', pos') \<Longrightarrow> t \<in> {LLAMA_GRETYPE_CHAR, LLAMA_GRETYPE_CHAR_NOT} \<Longrightarrow> in_set st \<Longrightarrow>
   sq_last_sym_start st \<le> length (sq_rule st) \<Longrightarrow>
   sq_parser st' = sq_parser st \<and> (seq_inv b st \<longrightarrow> seq_inv b st')"
proof (induction t pos st rule: parse_set.induct)
  case (1 t pos st)
  show ?case
  proof (cases "peek pos = 0x5d \<or> pos = []")
    case True
    then show ?thesis using 1(2) by (subst (asm) parse_set.simps) (auto split: if_splits)
  next
    case False
    let ?t = "if sq_last_sym_start st < length (sq_rule st) then LLAMA_GRETYPE_CHAR_ALT else t"
    obtain c p1 s2 p2 where c: "parse_char pos = Inr (c, p1)" "range_end p1 (push_elem ?t c st) = Inr (s2, p2)"
      "parse_set t p2 s2 = Inr (st', pos')"
      using 1(2) False by (subst (asm) parse_set.simps) (auto simp: Let_def split: sum.splits)
    let ?s1 = "push_elem ?t c st"
    have tt: "?t \<in> {LLAMA_GRETYPE_CHAR, LLAMA_GRETYPE_CHAR_NOT, LLAMA_GRETYPE_CHAR_ALT}" using 1(3) by auto
    have ok: "push_ok st ?t" using 1(3-5) by (auto simp: push_ok_def follows_ok_def in_set_def)
    have i1: "seq_inv b ?s1" if "seq_inv b st" using push_inv[OF that ok] tt by auto
    have s2: "s2 = ?s1 \<or> (\<exists>u. s2 = push_elem LLAMA_GRETYPE_CHAR_RNG_UPPER u ?s1)"
      using c(2) by (auto simp: range_end_def bindp_Inr split: if_splits)
    have ok2: "push_ok ?s1 LLAMA_GRETYPE_CHAR_RNG_UPPER" using tt 1(5) by (auto simp: push_ok_def follows_ok_def)
    have i2: "seq_inv b s2" if "seq_inv b st" using s2 push_inv[OF i1[OF that] ok2] i1[OF that] by auto
    have "in_set s2" "sq_last_sym_start s2 \<le> length (sq_rule s2)" "sq_parser s2 = sq_parser st"
      using s2 tt 1(5) by (auto simp: in_set_def)
    then show ?thesis using 1(1)[OF _ _ c(1) refl refl c(2) refl c(3) 1(3)] False i2 by simp
  qed
qed

lemma seq_inv_make:
  assumes "parser_inv b p" "rule_shape LLAMA_GRETYPE_ALT ru" "rule_shape LLAMA_GRETYPE_ALT (drop l ru)" "l \<le> length ru"
    "plain ru" "refs_known b p ru" "c \<Longrightarrow> known b p (unat v)"
    and "sq_rule st = (if c then ru @ [elem LLAMA_GRETYPE_RULE_REF v] else ru)" "sq_parser st = p" "sq_last_sym_start st = l"
  shows "seq_inv b st"
  using assms by (auto simp: seq_inv_def follows_ok_def intro!: rule_shape_app)

lemma handle_repetitions_inv:
  assumes "handle_repetitions nm mn mx st = Inr st'"
  shows "seq_to st st'"
proof -
  let ?rule = "sq_rule st" and ?l = "sq_last_sym_start st"
  let ?prev = "drop ?l ?rule"
  let ?rule1 = "if mn = 0 then take ?l ?rule else ?rule @ concat (replicate (unat (mn - 1)) ?prev)"
  let ?n = "unat (repetition_n_opt mn mx)"
  obtain l' p' where r: "add_rec_rules 0 ?n (mx = UINT64_MAX) nm ?prev 0 (sq_parser st) = (l', p')" by (rule prod.exhaust)
  have st': "\<exists>k. st' = st\<lparr>sq_rule := (if ?n > 0 then ?rule1 @ [elem LLAMA_GRETYPE_RULE_REF (of_nat l')] else ?rule1),
      sq_n_prev_rules := k, sq_parser := p'\<rparr>"
    using assms r by (auto simp: handle_repetitions_def Let_def word_gt_0 unat_gt_0 split: if_splits)
  then have pr: "sq_parser st' = p'" "sq_last_sym_start st' = ?l"
    and rl: "sq_rule st' = (if ?n > 0 then ?rule1 @ [elem LLAMA_GRETYPE_RULE_REF (of_nat l')] else ?rule1)" by auto
  have "seq_inv b st' \<and> parser_ext (sq_parser st) p'" if s: "small p'" and i: "seq_inv b st" for b
  proof -
    have prev: "plain ?prev" "rule_shape LLAMA_GRETYPE_ALT ?prev" "refs_known b (sq_parser st) ?prev"
      using i by (auto simp: seq_inv_def plain_def refs_known_def dest: in_set_dropD)
    have "parser_inv b (sq_parser st)" using i by (simp add: seq_inv_def)
    note a = add_rec_rules_inv[OF r s this prev, simplified]
    have ext: "parser_ext (sq_parser st) p'" using a by blast
    have le: "?l \<le> length ?rule" using i by (simp add: seq_inv_def)
    have rep: "set (concat (replicate k ?prev)) \<subseteq> set ?rule" for k by (auto dest: in_set_dropD)
    have "rule_shape LLAMA_GRETYPE_ALT (take ?l ?rule)"
      using i rule_shape_append[of LLAMA_GRETYPE_ALT "take ?l ?rule" ?prev] by (simp add: seq_inv_def)
    then have r1: "rule_shape LLAMA_GRETYPE_ALT ?rule1" "rule_shape LLAMA_GRETYPE_ALT (drop ?l ?rule1)" "?l \<le> length ?rule1"
      using i prev(2) le by (auto simp: seq_inv_def intro!: rule_shape_app rule_shape_concat)
    have sub: "set ?rule1 \<subseteq> set ?rule" using rep by (auto dest: in_set_takeD)
    have r2: "plain ?rule1" "refs_known b p' ?rule1"
      using i sub refs_known_ext[OF _ ext] unfolding seq_inv_def plain_def refs_known_def by blast+
    have "known b p' (unat (word_of_nat l' :: 32 word))" if "?n > 0" using a that by (simp add: unat_small)
    then have "seq_inv b st'"
      using a by (intro seq_inv_make[OF _ r1 r2 _ rl pr]) blast+
    then show ?thesis using ext by simp
  qed
  then show ?thesis using add_rec_rules_symbols[OF r] pr(1) by (simp add: seq_to_def)
qed

lemma parse_symbol_inv:
  assumes "parse_symbol vocab nm b pos st = Some (Inr (st', pos'))"
  shows "seq_to st st'"
proof -
  have lit: "seq_to st s1" if "parse_literal q (begin_sym st) = Inr (s1, p1)" for q s1 p1
    by (rule seq_to_same) (use parse_literal_inv[OF that] begin_sym_inv in auto)
  have set: "seq_to st s1" if "parse_set t q (begin_sym st) = Inr (s1, p1)" "t = LLAMA_GRETYPE_CHAR \<or> t = LLAMA_GRETYPE_CHAR_NOT" for t q s1 p1
    by (rule seq_to_same) (use parse_set_inv[OF that(1)] that(2) begin_sym_inv in \<open>auto simp: in_set_def\<close>)
  have one: "seq_to st (push_elem t v (begin_sym st))"
    if "t = LLAMA_GRETYPE_TOKEN \<or> t = LLAMA_GRETYPE_TOKEN_NOT \<or> t = LLAMA_GRETYPE_CHAR_ANY" for t v
    by (rule seq_to_same) (use that in \<open>auto intro!: push_inv begin_sym_inv push_simple\<close>)
  have ref: "seq_to st (push_elem LLAMA_GRETYPE_RULE_REF (of_nat i) (begin_sym (st\<lparr>sq_parser := p\<rparr>)))"
    if g: "get_symbol_id (sq_parser st) n = (i, p)" for n i p
    unfolding seq_to_def
  proof (intro conjI impI allI)
    show "n_symbols (sq_parser st) \<le> n_symbols (sq_parser (push_elem LLAMA_GRETYPE_RULE_REF (of_nat i) (begin_sym (st\<lparr>sq_parser := p\<rparr>))))"
      using get_symbol_id_symbols[OF g] by simp
  next
    fix b
    assume s: "small (sq_parser (push_elem LLAMA_GRETYPE_RULE_REF (of_nat i) (begin_sym (st\<lparr>sq_parser := p\<rparr>))))" and i: "seq_inv b st"
    have sp: "small p" using s by simp
    have "parser_inv b (sq_parser st)" using i by (simp add: seq_inv_def)
    note k = get_symbol_id_inv[OF g sp this]
    have "seq_inv b (begin_sym (st\<lparr>sq_parser := p\<rparr>))"
      using i k refs_known_ext unfolding seq_inv_def by (auto simp: begin_sym_def)
    from push_inv[OF this push_simple, of LLAMA_GRETYPE_RULE_REF "of_nat i"] k
    show "seq_inv b (push_elem LLAMA_GRETYPE_RULE_REF (of_nat i) (begin_sym (st\<lparr>sq_parser := p\<rparr>)))"
      and "parser_ext (sq_parser st) (sq_parser (push_elem LLAMA_GRETYPE_RULE_REF (of_nat i) (begin_sym (st\<lparr>sq_parser := p\<rparr>))))"
      by (simp_all add: unat_small)
  qed
  show ?thesis using assms unfolding parse_symbol_def Let_def
    by (auto simp: bindp_Inr case_prod_beta split: if_splits intro: one handle_repetitions_inv dest: lit set)
      (metis ref prod.collapse)
qed

section \<open>Alternates, groups and rules\<close>

definition par_to :: "grammar_parser \<Rightarrow> grammar_parser \<Rightarrow> bool" where
  "par_to p p' \<longleftrightarrow> n_symbols p \<le> n_symbols p' \<and>
     (small p' \<longrightarrow> (\<forall>b. parser_inv b p \<longrightarrow> parser_inv b p' \<and> parser_ext p p'))"

lemma par_to_trans: "par_to a b \<Longrightarrow> par_to b c \<Longrightarrow> par_to a c"
  unfolding par_to_def by (meson parser_ext_trans le_less_trans order_trans)

definition seq_sound :: "sequence_parser \<Rightarrow> bool" where
  "seq_sound seq \<longleftrightarrow> (\<forall>nm b pos st st' pos'. seq nm b pos st = Inr (st', pos') \<longrightarrow> seq_to st st')"

lemma more_alternates_inv:
  "seq_sound seq \<Longrightarrow> more_alternates seq n nm b pos st = Inr (st', pos') \<Longrightarrow> seq_to st st'"
proof (induction n arbitrary: pos st)
  case 0
  then show ?case by simp
next
  case (Suc n)
  show ?case
  proof (cases "peek pos = 0x7c")
    case True
    let ?s = "start_sequence (sq_rule st @ [elem LLAMA_GRETYPE_ALT 0]) (sq_parser st)"
    obtain s1 p1 where r: "seq nm b (parse_space (drop 1 pos) True) ?s = Inr (s1, p1)" "more_alternates seq n nm b p1 s1 = Inr (st', pos')"
      using Suc.prems(2) True by (auto simp: bindp_Inr)
    have "seq_to st ?s"
      by (rule seq_to_same) (auto simp: start_sequence_def seq_inv_def follows_ok_def intro!: rule_shape_app)
    moreover have "seq_to ?s s1" using r(1) Suc.prems(1) unfolding seq_sound_def by blast
    ultimately show ?thesis using Suc.IH[OF Suc.prems(1) r(2)] seq_to_trans by blast
  next
    case False
    then show ?thesis using Suc.prems(2) by (simp add: seq_to_refl)
  qed
qed

lemma parse_alternates_inv:
  assumes "seq_sound seq" "parse_alternates seq nm i b pos p = Inr (p', pos')"
  shows "par_to p p' \<and> i < length (parser_rules p')"
proof -
  obtain s1 p1 st' where r: "seq nm b pos (start_sequence [] p) = Inr (s1, p1)"
    "more_alternates seq (Suc (length p1)) nm b p1 s1 = Inr (st', pos')"
    "p' = add_rule i (sq_rule st' @ [elem LLAMA_GRETYPE_END 0]) (sq_parser st')"
    using assms(2) by (auto simp: parse_alternates_def bindp_Inr simp del: more_alternates.simps)
  have "seq_to (start_sequence [] p) s1" using r(1) assms(1) unfolding seq_sound_def by blast
  then have to: "seq_to (start_sequence [] p) st'" using more_alternates_inv[OF assms(1) r(2)] seq_to_trans by blast
  have "parser_inv b p' \<and> parser_ext p p'" if s: "small p'" and i: "parser_inv b p" for b
  proof -
    have "seq_inv b (start_sequence [] p)" using i by (simp add: start_sequence_def seq_inv_def)
    then have k: "seq_inv b st'" "parser_ext p (sq_parser st')"
      using to s by (auto simp: seq_to_def r(3) add_rule_spec(1) start_sequence_def)
    then have "rule_done (sq_rule st' @ [elem LLAMA_GRETYPE_END 0])" by (auto simp: rule_done_def end_elem_def seq_inv_def)
    from add_rule_inv[OF _ this, of b "sq_parser st'" i] k show ?thesis
      unfolding r(3) seq_inv_def by (auto intro: parser_ext_trans)
  qed
  moreover have "n_symbols p \<le> n_symbols p'" using to by (simp add: seq_to_def r(3) add_rule_spec(1) start_sequence_def)
  ultimately show ?thesis by (simp add: par_to_def r(3) add_rule_spec(2))
qed

lemma group_ext:
  assumes "generate_symbol_id p nm = (w, p1)" "small p1" "parser_inv b p" "parser_ext p1 p2" "w < length (parser_rules p2)"
  shows "parser_ext p p2"
proof -
  note g = generate_spec[OF assms(1)]
  have "known bound p2 v" if k: "known bound p v" for bound v
  proof -
    have "v \<le> w" if "v \<in> symbol_values p" using assms(3) that g(3)[OF assms(2)] by (auto simp: parser_inv_def)
    then have "known (max bound (Suc w)) p1 v" using k g(2) by (auto simp: known_def less_Suc_eq_le less_max_iff_disj)
    then show ?thesis using assms(4) close_bound[OF _ assms(5)] unfolding parser_ext_def by blast
  qed
  then show ?thesis by (simp add: parser_ext_def)
qed

lemma parse_group_inv:
  assumes "seq_sound seq" "parse_group seq nm b pos st = Inr (st', pos')"
  shows "seq_to st st'"
proof -
  obtain w p1 where g: "generate_symbol_id (sq_parser st) nm = (w, p1)" by (rule prod.exhaust)
  obtain p2 pos2 k where r: "parse_alternates seq nm w True (parse_space (drop 1 pos) True) p1 = Inr (p2, pos2)"
    "st' = push_elem LLAMA_GRETYPE_RULE_REF (of_nat w) (st\<lparr>sq_parser := p2, sq_n_prev_rules := k, sq_last_sym_start := length (sq_rule st)\<rparr>)"
    using assms(2) by (auto simp: parse_group_def g Let_def bindp_Inr split: if_splits)
  from parse_alternates_inv[OF assms(1) r(1)] have a: "par_to p1 p2" and wl: "w < length (parser_rules p2)" by simp_all
  have pr: "sq_parser st' = p2" by (simp add: r(2))
  have "seq_inv b st' \<and> parser_ext (sq_parser st) p2" if s: "small p2" and i: "seq_inv b st" for b
  proof -
    have s1: "small p1" using s a by (simp add: par_to_def)
    have pi: "parser_inv b (sq_parser st)" using i by (simp add: seq_inv_def)
    have "parser_inv (max b (Suc w)) p2" and e12: "parser_ext p1 p2"
      using generate_inv(1)[OF g s1 pi] a s by (simp_all add: par_to_def)
    then have p2: "parser_inv b p2" using close_inv wl by blast
    have ext: "parser_ext (sq_parser st) p2" by (rule group_ext[OF g s1 pi e12 wl])
    have w: "w < 2 ^ 32" using generate_spec(1,3)[OF g] s1 by simp
    let ?st = "st\<lparr>sq_parser := p2, sq_n_prev_rules := k, sq_last_sym_start := length (sq_rule st)\<rparr>"
    have "seq_inv b ?st" using i p2 refs_known_ext[OF _ ext] by (auto simp: seq_inv_def)
    from push_inv[OF this push_simple, of LLAMA_GRETYPE_RULE_REF "of_nat w"] have "seq_inv b st'"
      using wl w by (simp add: r(2) unat_small known_def)
    then show ?thesis using ext by simp
  qed
  moreover have "n_symbols (sq_parser st) \<le> n_symbols p2" using generate_spec(1)[OF g] a by (simp add: par_to_def)
  ultimately show ?thesis by (simp add: seq_to_def pr)
qed

lemma parse_sequence_sound: "seq_sound (parse_sequence vocab n)"
proof (induction n)
  case 0
  then show ?case by (simp add: seq_sound_def)
next
  case (Suc n)
  have cont: "seq_to st st'" if "r = Inr (s1, p1)" "seq_to st s1" "parse_sequence vocab n nm b p1 s1 = Inr (st', pos')" for r s1 p1 st st' nm b pos'
    using that Suc seq_to_trans unfolding seq_sound_def by blast
  show ?case
    unfolding seq_sound_def
  proof (intro allI impI)
    fix nm b pos st st' pos' assume a: "parse_sequence vocab (Suc n) nm b pos st = Inr (st', pos')"
    consider "st' = st" | s1 p1 where "parse_group (parse_sequence vocab n) nm b pos st = Inr (s1, p1)" "parse_sequence vocab n nm b p1 s1 = Inr (st', pos')"
      | s1 p1 where "parse_symbol vocab nm b pos st = Some (Inr (s1, p1))" "parse_sequence vocab n nm b p1 s1 = Inr (st', pos')"
      using a by (auto simp: bindp_Inr split: if_splits option.splits)
    then show "seq_to st st'"
    proof cases
      case 1
      then show ?thesis by (simp add: seq_to_refl)
    next
      case (2 s1 p1)
      then show ?thesis using cont[OF 2(1) parse_group_inv[OF Suc 2(1)] 2(2)] by simp
    next
      case (3 s1 p1)
      then show ?thesis using cont[OF refl parse_symbol_inv[OF 3(1)] 3(2)] by simp
    qed
  qed
qed

lemma parse_rule_inv:
  assumes "parse_rule vocab src p = Inr (p', pos')"
  shows "par_to p p'"
proof -
  obtain nm ne where x: "parse_name src = Inr (nm, ne)" using assms by (auto simp: parse_rule_def bindp_Inr)
  obtain i p1 where g: "get_symbol_id p nm = (i, p1)" by (rule prod.exhaust)
  obtain n q pos2 where "parse_alternates (parse_sequence vocab n) nm i False q p1 = Inr (p', pos2)"
    using assms by (auto simp: parse_rule_def bindp_Inr x g Let_def simp del: parse_sequence.simps split: if_splits)
  from parse_alternates_inv[OF parse_sequence_sound this] have "par_to p1 p'" by simp
  moreover have "par_to p p1"
    using get_symbol_id_symbols[OF g] get_symbol_id_inv[OF g] by (simp add: par_to_def)
  ultimately show ?thesis using par_to_trans by blast
qed

lemma parse_rules_inv: "parse_rules n vocab pos p = Inr p' \<Longrightarrow> par_to p p'"
proof (induction n arbitrary: pos p)
  case (Suc n)
  show ?case
  proof (cases "pos = []")
    case True
    then show ?thesis using Suc.prems by (simp add: par_to_def)
  next
    case False
    then obtain p1 q where "parse_rule vocab pos p = Inr (p1, q)" "parse_rules n vocab q p1 = Inr p'"
      using Suc.prems by (auto simp: bindp_Inr)
    then show ?thesis using Suc.IH parse_rule_inv par_to_trans by blast
  qed
qed simp

lemma parsed_rules_ok:
  assumes "parse_text vocab src = Inr p" "small p"
  shows "refs_ok (parser_rules p) \<and> shape_ok (parser_rules p) \<and> map copy_rule (parser_rules p) = parser_rules p"
proof -
  let ?p0 = "\<lparr>symbol_ids = [], parser_rules = []\<rparr>"
  obtain n q where r: "parse_rules n vocab q ?p0 = Inr p" "validate_rules p = Inr p"
    using assms(1) by (auto simp: parse_text_def bindp_Inr validate_rules_def simp del: parse_rules.simps split: if_splits)
  have "parser_inv 0 ?p0" by (simp add: parser_inv_def)
  then have inv: "parser_inv 0 p" using parse_rules_inv[OF r(1)] assms(2) by (auto simp: par_to_def)
  have v: "r \<noteq> [] \<and> (\<forall>e \<in> set r. \<not> ref_undefined p e)" if "r \<in> set (parser_rules p)" for r
    using r(2) that by (auto simp: validate_rules_def list_ex_iff split: if_splits)
  have dn: "rule_done r" if "r \<in> set (parser_rules p)" for r using inv v[OF that] that by (auto simp: parser_inv_def)
  have "unat (ge_value e) < length (parser_rules p)"
    if "r \<in> set (parser_rules p)" "e \<in> set r" "ge_type e = LLAMA_GRETYPE_RULE_REF" for r e
  proof (rule ccontr)
    assume n: "\<not> unat (ge_value e) < length (parser_rules p)"
    have "known 0 p (unat (ge_value e))" using inv that unfolding parser_inv_def refs_known_def by blast
    then have "ref_undefined p e" using n that(3) by (auto simp: known_def ref_undefined_def)
    then show False using v[OF that(1)] that(2) by blast
  qed
  then have "refs_ok (parser_rules p)" unfolding refs_ok_def list_all_iff by blast
  moreover have "shape_ok (parser_rules p)" using dn shape_done by (auto simp: shape_ok_def list_all_iff)
  moreover have "map copy_rule (parser_rules p) = parser_rules p" using dn copy_done by (simp add: map_idI)
  ultimately show ?thesis by blast
qed

section \<open>Theorems\<close>

text \<open>C17. A grammar text that parses gives well-formed rules: every reference is to a rule, every rule ends with its one END
  element, and character sets are in the shape the matcher asserts.\<close>

theorem parsed_rules_wellformed:
  assumes "parse_text vocab src = Inr p" "length (symbol_ids p) < 2 ^ 32"
  shows "refs_ok (parser_rules p) \<and> shape_ok (parser_rules p) \<and> map copy_rule (parser_rules p) = parser_rules p"
  by (rule parsed_rules_ok[OF assms])

text \<open>\<open>r::=("a")*\<close>\<close>

definition demo_text :: "byte list" where
  "demo_text = [0x72, 0x3a, 0x3a, 0x3d, 0x28, 0x22, 0x61, 0x22, 0x29, 0x2a]"

definition demo_parsed :: grammar_parser where
  "demo_parsed =
     \<lparr>symbol_ids = [([0x72], 0), ([0x72, 0x5f, 0x31], 1), ([0x72, 0x5f, 0x32], 2)],
      parser_rules = [[elem LLAMA_GRETYPE_RULE_REF 2, elem LLAMA_GRETYPE_END 0],
        [elem LLAMA_GRETYPE_CHAR 97, elem LLAMA_GRETYPE_END 0],
        [elem LLAMA_GRETYPE_RULE_REF 1, elem LLAMA_GRETYPE_RULE_REF 2, elem LLAMA_GRETYPE_ALT 0, elem LLAMA_GRETYPE_END 0]]\<rparr>"

lemma demo_parse: "parse_text None demo_text = Inr demo_parsed"
  by code_simp

theorem parsed_rules_wellformed_witness: "refs_ok (parser_rules demo_parsed) \<and> shape_ok (parser_rules demo_parsed)"
  using parsed_rules_wellformed[OF demo_parse] by (simp add: demo_parsed_def)

text \<open>C27. The parser always returns: on every text, nested groups included, it gives rules or a syntax error.\<close>

theorem parser_returns: "parse_text vocab src \<noteq> Inl Out_of_fuel"
  by (rule parse_text_returns)

text \<open>A repetition with its bounds in the wrong order is not refused: \<open>{3,1}\<close> reads as the bounds 3 and 1, passes every
  limit, and asks for 18446744073709551614 optional rules, because the difference of the bounds wraps.\<close>

theorem reversed_bounds_wrap:
  "parse_bounds [0x33, 0x2c, 0x31, 0x7d] False = Inr ((3, 1), []) \<and>
   repetition_total_rules 3 1 < MAX_REPETITION_THRESHOLD \<and> uint (repetition_n_opt 3 1) = 18446744073709551614"
  by code_simp

end
