(* ===== verification/Vocab.thy ===== *)
theory Vocab
  imports Utf8
begin

text \<open>
  The vocabulary of \<open>src/llama-vocab.cpp\<close> (\<open>struct llama_vocab::impl\<close>): the tokens with their texts, scores and attributes,
  the lookup from text to token, and the byte tokens.  The vocabulary itself comes from the model file; its fields that the
  tokenizers use are the fields of the record \<open>llama_vocab\<close>.  The score is a \<open>float\<close> of which only the order matters, except
  in the unigram tokenizer; it is a type parameter.  The priority queues of the standard library, which two tokenizers use,
  are lists from which a greatest element is taken.

  The assertion that a vocabulary type is set (\<open>GGML_ASSERT(type != LLAMA_VOCAB_TYPE_NONE)\<close>) at the start of the accessors is
  made once, where the type is dispatched on.
\<close>

type_synonym str = "byte list"

datatype vocab_error =
    Out_of_range \<comment> \<open>\<open>std::out_of_range\<close> from \<open>at\<close>\<close>
  | Invalid_argument \<comment> \<open>\<open>std::invalid_argument\<close>\<close>
  | Length_error \<comment> \<open>\<open>std::length_error\<close>\<close>
  | Runtime_error \<comment> \<open>\<open>std::runtime_error\<close>\<close>
  | Abort \<comment> \<open>\<open>GGML_ASSERT\<close>, \<open>GGML_ABORT\<close>\<close>
  | Undefined \<comment> \<open>an access outside of an array\<close>

type_synonym 'a vres = "vocab_error + 'a"

datatype llama_vocab_type =
    LLAMA_VOCAB_TYPE_NONE
  | LLAMA_VOCAB_TYPE_SPM
  | LLAMA_VOCAB_TYPE_BPE
  | LLAMA_VOCAB_TYPE_WPM
  | LLAMA_VOCAB_TYPE_UGM
  | LLAMA_VOCAB_TYPE_RWKV
  | LLAMA_VOCAB_TYPE_PLAMO2

type_synonym token_attr = "32 word"

abbreviation LLAMA_TOKEN_ATTR_UNKNOWN :: token_attr where "LLAMA_TOKEN_ATTR_UNKNOWN \<equiv> 1"
abbreviation LLAMA_TOKEN_ATTR_UNUSED :: token_attr where "LLAMA_TOKEN_ATTR_UNUSED \<equiv> 2"
abbreviation LLAMA_TOKEN_ATTR_NORMAL :: token_attr where "LLAMA_TOKEN_ATTR_NORMAL \<equiv> 4"
abbreviation LLAMA_TOKEN_ATTR_CONTROL :: token_attr where "LLAMA_TOKEN_ATTR_CONTROL \<equiv> 8"
abbreviation LLAMA_TOKEN_ATTR_USER_DEFINED :: token_attr where "LLAMA_TOKEN_ATTR_USER_DEFINED \<equiv> 16"
abbreviation LLAMA_TOKEN_ATTR_BYTE :: token_attr where "LLAMA_TOKEN_ATTR_BYTE \<equiv> 32"
abbreviation LLAMA_TOKEN_ATTR_LSTRIP :: token_attr where "LLAMA_TOKEN_ATTR_LSTRIP \<equiv> 128"
abbreviation LLAMA_TOKEN_ATTR_RSTRIP :: token_attr where "LLAMA_TOKEN_ATTR_RSTRIP \<equiv> 256"

abbreviation LLAMA_VOCAB_PRE_TYPE_GEMMA4 :: nat where "LLAMA_VOCAB_PRE_TYPE_GEMMA4 \<equiv> 50"

record 's token_data =
  td_text :: str
  td_score :: 's
  td_attr :: token_attr

record 's llama_vocab =
  v_type :: llama_vocab_type
  v_pre_type :: nat
  token_to_id :: "str \<rightharpoonup> llama_token"
  id_to_token :: "'s token_data list"
  bpe_ranks :: "str \<times> str \<rightharpoonup> int"
  max_token_len :: nat
  special_bos_id :: llama_token
  special_eos_id :: llama_token
  special_unk_id :: llama_token
  special_sep_id :: llama_token
  cache_special_tokens :: "llama_token list"
  cache_token_to_piece :: "str list"
  v_add_space_prefix :: bool
  v_add_bos :: bool
  v_add_eos :: bool
  v_ignore_merges :: bool
  v_clean_spaces :: bool
  v_remove_extra_whitespaces :: bool
  v_escape_whitespaces :: bool
  v_treat_whitespace_as_suffix :: bool

lemma unicode_len_utf8_pos: "0 < unicode_len_utf8 c"
  by (rule all_bytes[of "\<lambda>c. 0 < unicode_len_utf8 c"]) code_simp

section \<open>Accessors\<close>

definition text_to_token :: "'s llama_vocab \<Rightarrow> str \<Rightarrow> llama_token" where
  "text_to_token v t = (case token_to_id v t of Some tok \<Rightarrow> tok | None \<Rightarrow> LLAMA_TOKEN_NULL)"

definition n_tokens :: "'s llama_vocab \<Rightarrow> nat" where
  "n_tokens v = u32 (length (id_to_token v))"

text \<open>\<open>static_cast<uint32_t>(token)\<close>.\<close>

definition as_u32 :: "llama_token \<Rightarrow> nat" where
  "as_u32 t = nat (t mod 4294967296)"

text \<open>\<open>id_to_token.at(id)\<close>: the index is converted to \<open>size_t\<close>, so a negative one is out of range.\<close>

definition get_token_data :: "'s llama_vocab \<Rightarrow> llama_token \<Rightarrow> 's token_data vres" where
  "get_token_data v t =
     (if 0 \<le> t \<and> nat t < length (id_to_token v) then Inr (id_to_token v ! nat t) else Inl Out_of_range)"

definition token_get_attr :: "'s llama_vocab \<Rightarrow> llama_token \<Rightarrow> token_attr vres" where
  "token_get_attr v t = (case get_token_data v t of Inl e \<Rightarrow> Inl e | Inr d \<Rightarrow> Inr (td_attr d))"

text \<open>The predicates index with \<open>[]\<close>, which is undefined outside of the vector.\<close>

definition has_attr :: "'s llama_vocab \<Rightarrow> llama_token \<Rightarrow> token_attr \<Rightarrow> bool vres" where
  "has_attr v t a =
     (if 0 \<le> t \<and> nat t < length (id_to_token v) then Inr (td_attr (id_to_token v ! nat t) AND a \<noteq> 0) else Inl Undefined)"

definition is_byte :: "'s llama_vocab \<Rightarrow> llama_token \<Rightarrow> bool vres" where
  "is_byte v t = has_attr v t LLAMA_TOKEN_ATTR_BYTE"

definition is_normal :: "'s llama_vocab \<Rightarrow> llama_token \<Rightarrow> bool vres" where
  "is_normal v t = has_attr v t LLAMA_TOKEN_ATTR_NORMAL"

definition is_user_defined :: "'s llama_vocab \<Rightarrow> llama_token \<Rightarrow> bool vres" where
  "is_user_defined v t = has_attr v t LLAMA_TOKEN_ATTR_USER_DEFINED"

definition is_unused :: "'s llama_vocab \<Rightarrow> llama_token \<Rightarrow> bool vres" where
  "is_unused v t = has_attr v t LLAMA_TOKEN_ATTR_UNUSED"

text \<open>\<open>hex[i]\<close> for \<open>hex = "0123456789ABCDEF"\<close>, and the text \<open><0xXX>\<close> of a byte token.\<close>

definition hex_char :: "byte \<Rightarrow> byte" where
  "hex_char b = (if b < 10 then 48 + b else 55 + b)"

definition byte_token_text :: "byte \<Rightarrow> str" where
  "byte_token_text ch = [60, 48, 120, hex_char (drop_bit 4 ch), hex_char (ch AND 15), 62]"

text \<open>The text \<open>buf2\<close> of the fallback is terminated by 0, so for the byte 0 it is empty.\<close>

definition byte_to_token :: "'s llama_vocab \<Rightarrow> byte \<Rightarrow> llama_token vres" where
  "byte_to_token v ch =
     (case v_type v of
        LLAMA_VOCAB_TYPE_NONE \<Rightarrow> Inl Abort
      | LLAMA_VOCAB_TYPE_RWKV \<Rightarrow> Inl Abort
      | LLAMA_VOCAB_TYPE_PLAMO2 \<Rightarrow>
          (case token_to_id v (byte_token_text ch) of Some t \<Rightarrow> Inr t | None \<Rightarrow> Inl Out_of_range)
      | LLAMA_VOCAB_TYPE_WPM \<Rightarrow>
          (case unicode_byte_to_utf8 ch of
             None \<Rightarrow> Inl Out_of_range
           | Some t \<Rightarrow> (case token_to_id v t of Some tok \<Rightarrow> Inr tok | None \<Rightarrow> Inl Out_of_range))
      | LLAMA_VOCAB_TYPE_BPE \<Rightarrow>
          (case unicode_byte_to_utf8 ch of
             None \<Rightarrow> Inl Out_of_range
           | Some t \<Rightarrow> (case token_to_id v t of Some tok \<Rightarrow> Inr tok | None \<Rightarrow> Inl Out_of_range))
      | _ \<Rightarrow>
          (case token_to_id v (byte_token_text ch) of
             Some t \<Rightarrow> Inr t
           | None \<Rightarrow> (case token_to_id v (if ch = 0 then [] else [ch]) of Some t \<Rightarrow> Inr t | None \<Rightarrow> Inl Out_of_range)))"

text \<open>The assertions of \<open>find_bpe_rank\<close> that the texts have no space.\<close>

definition find_bpe_rank :: "'s llama_vocab \<Rightarrow> str \<Rightarrow> str \<Rightarrow> int vres" where
  "find_bpe_rank v token_left token_right =
     (if 32 \<in> set token_left \<or> 32 \<in> set token_right then Inl Abort
      else (case bpe_ranks v (token_left, token_right) of None \<Rightarrow> Inr (- 1) | Some r \<Rightarrow> Inr r))"

text \<open>A vocabulary without tokens, to build small ones from.\<close>

definition blank_vocab :: "llama_vocab_type \<Rightarrow> 's llama_vocab" where
  "blank_vocab ty = \<lparr>v_type = ty, v_pre_type = 0, token_to_id = Map.empty, id_to_token = [], bpe_ranks = Map.empty,
     max_token_len = 0, special_bos_id = LLAMA_TOKEN_NULL, special_eos_id = LLAMA_TOKEN_NULL, special_unk_id = LLAMA_TOKEN_NULL,
     special_sep_id = LLAMA_TOKEN_NULL, cache_special_tokens = [], cache_token_to_piece = [],
     v_add_space_prefix = False, v_add_bos = False, v_add_eos = False, v_ignore_merges = False, v_clean_spaces = False,
     v_remove_extra_whitespaces = False, v_escape_whitespaces = True, v_treat_whitespace_as_suffix = False\<rparr>"

section \<open>Priority queues\<close>

definition pq_top :: "('b \<Rightarrow> 'b \<Rightarrow> bool) \<Rightarrow> 'b list \<Rightarrow> 'b" where
  "pq_top lt q = foldl (\<lambda>m y. if lt m y then y else m) (hd q) (tl q)"

definition pq_pop :: "('b \<Rightarrow> 'b \<Rightarrow> bool) \<Rightarrow> 'b list \<Rightarrow> 'b list" where
  "pq_pop lt q = remove1 (pq_top lt q) q"

lemma pq_top_in: "q \<noteq> [] \<Longrightarrow> pq_top lt q \<in> set q"
proof -
  have "foldl (\<lambda>m y. if lt m y then y else m) x ys \<in> insert x (set ys)" for x ys
  proof (induction ys arbitrary: x)
    case (Cons y ys)
    have "foldl (\<lambda>m y. if lt m y then y else m) (if lt x y then y else x) ys \<in> insert (if lt x y then y else x) (set ys)"
      by (rule Cons.IH)
    then show ?case by (auto split: if_splits)
  qed simp
  from this[of "hd q" "tl q"] show "q \<noteq> [] \<Longrightarrow> ?thesis" by (cases q) (simp_all add: pq_top_def)
qed

lemma pq_pop_length: "q \<noteq> [] \<Longrightarrow> length (pq_pop lt q) < length q"
  by (simp add: pq_pop_def length_remove1 pq_top_in)

text \<open>The order a priority queue needs: a strict weak order.  Its top is an element that no element exceeds.\<close>

locale weak_order =
  fixes lt :: "'b \<Rightarrow> 'b \<Rightarrow> bool"
  assumes asym: "lt x y \<Longrightarrow> \<not> lt y x"
    and trans_not: "\<not> lt x y \<Longrightarrow> \<not> lt y z \<Longrightarrow> \<not> lt x z"
begin

lemma foldl_top:
  "\<not> lt (foldl (\<lambda>m y. if lt m y then y else m) x ys) x
   \<and> (\<forall>y \<in> set ys. \<not> lt (foldl (\<lambda>m y. if lt m y then y else m) x ys) y)"
proof (induction ys arbitrary: x)
  case Nil
  then show ?case using asym by auto
next
  case (Cons y ys)
  define x' where "x' = (if lt x y then y else x)"
  have ih: "\<not> lt (foldl (\<lambda>m y. if lt m y then y else m) x' ys) x'"
    "\<forall>y \<in> set ys. \<not> lt (foldl (\<lambda>m y. if lt m y then y else m) x' ys) y"
    using Cons.IH[of x'] by blast+
  have "\<not> lt x' x" "\<not> lt x' y" using asym by (auto simp: x'_def)
  then show ?case using ih trans_not by (simp add: x'_def[symmetric])
qed

lemma top_greatest: "y \<in> set q \<Longrightarrow> \<not> lt (pq_top lt q) y"
  using foldl_top[of "hd q" "tl q"] by (cases q) (auto simp: pq_top_def)

end

end
