(* ===== verification/TokMerge.thy ===== *)
theory TokMerge
  imports Vocab
begin

text \<open>
  The two tokenizers of \<open>src/llama-vocab.cpp\<close> that merge symbols: SPM (sentencepiece) and BPE.  A text is cut into UTF-8
  characters, the symbols are linked in a list over an array, and a work queue holds the pairs of neighbours that may be
  merged; an entry whose symbols have changed since is skipped when it is taken.  A pointer \<open>const char * text\<close> is the string
  it points into (\<open>sym_base\<close>) and an offset.
\<close>

record llm_symbol =
  sym_prev :: int
  sym_next :: int
  sym_base :: str
  sym_off :: nat
  sym_n :: nat

definition sym_str :: "llm_symbol \<Rightarrow> str" where
  "sym_str s = take (sym_n s) (drop (sym_off s) (sym_base s))"

definition alive :: "llm_symbol list \<Rightarrow> nat" where
  "alive syms = length (List.filter (\<lambda>s. 0 < sym_n s) syms)"

text \<open>The loop that splits a text into UTF-8 characters; both tokenizers have it.\<close>

function split_symbols :: "str \<Rightarrow> int \<Rightarrow> nat \<Rightarrow> llm_symbol list" where
  "split_symbols base index offs =
     (if offs < length base then
        (let n = min (unicode_len_utf8 (base ! offs)) (length base - offs);
             offs' = offs + n
         in \<lparr>sym_prev = index - 1, sym_next = (if offs' = length base then - 1 else index + 1),
             sym_base = base, sym_off = offs, sym_n = n\<rparr> # split_symbols base (index + 1) offs')
      else [])"
  by pat_completeness auto
termination
  by (relation "measure (\<lambda>(b, i, k). length b - k)") (auto simp: min_def unicode_len_utf8_pos intro: diff_less_mono2)

declare split_symbols.simps [simp del]

section \<open>The SPM tokenizer\<close>

record 's llm_bigram_spm =
  spm_left :: nat
  spm_right :: nat
  spm_score :: 's
  spm_size :: nat

definition spm_comparator :: "('s::linorder) llm_bigram_spm \<Rightarrow> 's llm_bigram_spm \<Rightarrow> bool" where
  "spm_comparator l r \<longleftrightarrow> spm_score l < spm_score r \<or> spm_score l = spm_score r \<and> spm_left r < spm_left l"

record 's spm_session =
  spm_symbols :: "llm_symbol list"
  spm_queue :: "'s llm_bigram_spm list"
  spm_rev_merge :: "str \<rightharpoonup> nat \<times> nat"

definition try_add_bigram :: "('s::linorder) llama_vocab \<Rightarrow> int \<Rightarrow> int \<Rightarrow> 's spm_session \<Rightarrow> 's spm_session vres" where
  "try_add_bigram v left right st =
     (if left = - 1 \<or> right = - 1 then Inr st
      else
        (let L = spm_symbols st ! nat left; R = spm_symbols st ! nat right;
             txt = take (sym_n L + sym_n R) (drop (sym_off L) (sym_base L));
             token = text_to_token v txt
         in if token = LLAMA_TOKEN_NULL then Inr st
            else if n_tokens v \<le> as_u32 token then Inr st
            else
              (case get_token_data v token of
                 Inl e \<Rightarrow> Inl e
               | Inr tok_data \<Rightarrow>
                   Inr (st\<lparr>spm_queue := spm_queue st @ [\<lparr>spm_left = nat left, spm_right = nat right, spm_score = td_score tok_data,
                                                       spm_size = length txt\<rparr>],
                           spm_rev_merge := (spm_rev_merge st)(txt \<mapsto> (nat left, nat right))\<rparr>))))"

fun spm_seed :: "('s::linorder) llama_vocab \<Rightarrow> nat list \<Rightarrow> 's spm_session \<Rightarrow> 's spm_session vres" where
  "spm_seed v [] st = Inr st"
| "spm_seed v (i # is) st =
     (case try_add_bigram v (int i - 1) (int i) st of Inl e \<Rightarrow> Inl e | Inr st' \<Rightarrow> spm_seed v is st')"

text \<open>\<open>left.n += right.n; right.n = 0\<close>, and the right symbol leaves the chain.\<close>

definition merge_symbols :: "nat \<Rightarrow> nat \<Rightarrow> llm_symbol list \<Rightarrow> llm_symbol list" where
  "merge_symbols left right syms =
     (let syms1 = syms[left := (syms ! left)\<lparr>sym_n := sym_n (syms ! left) + sym_n (syms ! right)\<rparr>];
          syms2 = syms1[right := (syms1 ! right)\<lparr>sym_n := 0\<rparr>];
          syms3 = syms2[left := (syms2 ! left)\<lparr>sym_next := sym_next (syms2 ! right)\<rparr>];
          nx = sym_next (syms3 ! right)
      in if nx \<ge> 0 then syms3[nat nx := (syms3 ! nat nx)\<lparr>sym_prev := int left\<rparr>] else syms3)"

definition spm_merge :: "('s::linorder) llama_vocab \<Rightarrow> 's llm_bigram_spm \<Rightarrow> 's spm_session \<Rightarrow> 's spm_session vres" where
  "spm_merge v b st =
     (let syms = merge_symbols (spm_left b) (spm_right b) (spm_symbols st);
          st1 = st\<lparr>spm_symbols := syms\<rparr>
      in case try_add_bigram v (sym_prev (syms ! spm_left b)) (int (spm_left b)) st1 of
           Inl e \<Rightarrow> Inl e
         | Inr st2 \<Rightarrow> try_add_bigram v (int (spm_left b)) (sym_next (syms ! spm_left b)) st2)"

definition spm_stale :: "'s llm_bigram_spm \<Rightarrow> llm_symbol list \<Rightarrow> bool" where
  "spm_stale b syms \<longleftrightarrow>
     sym_n (syms ! spm_left b) = 0 \<or> sym_n (syms ! spm_right b) = 0 \<or>
     sym_n (syms ! spm_left b) + sym_n (syms ! spm_right b) \<noteq> spm_size b"

lemma alive_update: "i < length syms \<Longrightarrow> alive (syms[i := s]) + (if 0 < sym_n (syms ! i) then 1 else 0)
    = alive syms + (if 0 < sym_n s then 1 else 0)"
  unfolding alive_def by (rule length_filter_update)

lemma alive_update_same: "sym_n s = sym_n (syms ! i) \<Longrightarrow> alive (syms[i := s]) = alive syms"
  using alive_update[of i syms s] by (cases "i < length syms") (auto simp: list_update_beyond)

lemma merge_symbols_alive:
  assumes "left < length syms" "right < length syms" "0 < sym_n (syms ! left)" "0 < sym_n (syms ! right)"
  shows "alive (merge_symbols left right syms) < alive syms"
proof -
  define syms1 where "syms1 = syms[left := (syms ! left)\<lparr>sym_n := sym_n (syms ! left) + sym_n (syms ! right)\<rparr>]"
  define syms2 where "syms2 = syms1[right := (syms1 ! right)\<lparr>sym_n := 0\<rparr>]"
  have a1: "alive syms1 = alive syms" using assms alive_update[of left syms "(syms ! left)\<lparr>sym_n := sym_n (syms ! left) + sym_n (syms ! right)\<rparr>"] by (simp add: syms1_def)
  have "0 < sym_n (syms1 ! right)" using assms by (auto simp: syms1_def nth_list_update)
  then have a2: "alive syms2 < alive syms1"
    using alive_update[of right syms1 "(syms1 ! right)\<lparr>sym_n := 0\<rparr>"] assms by (simp add: syms2_def syms1_def)
  have "alive (merge_symbols left right syms) = alive syms2"
    by (simp add: merge_symbols_def Let_def syms1_def[symmetric] syms2_def[symmetric] alive_update_same)
  then show ?thesis using a1 a2 by simp
qed

lemma try_add_bigram_size:
  assumes "try_add_bigram v left right st = Inr st'"
  shows "spm_symbols st' = spm_symbols st \<and> length (spm_queue st') \<le> length (spm_queue st) + 1"
  using assms by (auto simp: try_add_bigram_def Let_def split: if_splits sum.splits)

lemma spm_merge_size:
  assumes "spm_merge v b st = Inr st'"
  shows "spm_symbols st' = merge_symbols (spm_left b) (spm_right b) (spm_symbols st) \<and> length (spm_queue st') \<le> length (spm_queue st) + 2"
  using assms by (auto simp: spm_merge_def Let_def split: sum.splits dest!: try_add_bigram_size)

function spm_loop :: "('s::linorder) llama_vocab \<Rightarrow> 's spm_session \<Rightarrow> 's spm_session vres" where
  "spm_loop v st =
     (if spm_queue st = [] then Inr st
      else
        (let b = pq_top spm_comparator (spm_queue st);
             st' = st\<lparr>spm_queue := pq_pop spm_comparator (spm_queue st)\<rparr>
         in if length (spm_symbols st) \<le> spm_left b \<or> length (spm_symbols st) \<le> spm_right b then Inl Undefined
            else if spm_stale b (spm_symbols st) then spm_loop v st'
            else (case spm_merge v b st' of Inl e \<Rightarrow> Inl e | Inr st'' \<Rightarrow> spm_loop v st'')))"
  by pat_completeness auto
termination
proof (relation "measure (\<lambda>(v, st). 3 * alive (spm_symbols st) + length (spm_queue st))", goal_cases)
  case (2 v st b st')
  then show ?case using pq_pop_length[of "spm_queue st" spm_comparator] by simp
next
  case (3 v st b st' st'')
  have "alive (spm_symbols st'') < alive (spm_symbols st)"
    using 3 spm_merge_size[of v b st' st''] merge_symbols_alive[of "spm_left b" "spm_symbols st" "spm_right b"]
    by (auto simp: spm_stale_def)
  moreover have "length (spm_queue st'') \<le> length (spm_queue st) + 1"
    using 3 spm_merge_size[of v b st' st''] pq_pop_length[of "spm_queue st" spm_comparator] by simp
  ultimately show ?case by simp
qed simp

declare spm_loop.simps [simp del]

text \<open>The fallback of a symbol without a token: its bytes, or the pieces it was merged from.\<close>

fun spm_bytes :: "'s llama_vocab \<Rightarrow> str \<Rightarrow> llama_token list \<Rightarrow> llama_token list vres" where
  "spm_bytes v [] out = Inr out"
| "spm_bytes v (c # cs) out = (case byte_to_token v c of Inl e \<Rightarrow> Inl e | Inr t \<Rightarrow> spm_bytes v cs (out @ [t]))"

partial_function (option) resegment ::
  "'s llama_vocab \<Rightarrow> 's spm_session \<Rightarrow> llm_symbol \<Rightarrow> llama_token list \<Rightarrow> llama_token list vres option" where
  "resegment v st symbol out =
     (let txt = sym_str symbol; token = text_to_token v txt
      in if token \<noteq> LLAMA_TOKEN_NULL then Some (Inr (out @ [token]))
         else
           (case spm_rev_merge st txt of
              None \<Rightarrow> Some (spm_bytes v txt out)
            | Some (a, b) \<Rightarrow>
                Option.bind (resegment v st (spm_symbols st ! a) out)
                  (\<lambda>r. case r of Inl e \<Rightarrow> Some (Inl e) | Inr out' \<Rightarrow> resegment v st (spm_symbols st ! b) out')))"

partial_function (option) spm_output ::
  "'s llama_vocab \<Rightarrow> 's spm_session \<Rightarrow> int \<Rightarrow> llama_token list \<Rightarrow> llama_token list vres option" where
  "spm_output v st i out =
     (if i = - 1 then Some (Inr out)
      else if i < 0 \<or> length (spm_symbols st) \<le> nat i then Some (Inl Undefined)
      else
        Option.bind (resegment v st (spm_symbols st ! nat i) out)
          (\<lambda>r. case r of Inl e \<Rightarrow> Some (Inl e) | Inr out' \<Rightarrow> spm_output v st (sym_next (spm_symbols st ! nat i)) out'))"

declare resegment.simps [code] spm_output.simps [code]

definition spm_tokenize :: "('s::linorder) llama_vocab \<Rightarrow> str \<Rightarrow> llama_token list \<Rightarrow> llama_token list vres option" where
  "spm_tokenize v txt out =
     (let syms = split_symbols txt 0 0
      in case spm_seed v [1..<length syms] \<lparr>spm_symbols = syms, spm_queue = [], spm_rev_merge = Map.empty\<rparr> of
           Inl e \<Rightarrow> Some (Inl e)
         | Inr st \<Rightarrow> (case spm_loop v st of Inl e \<Rightarrow> Some (Inl e) | Inr st' \<Rightarrow> spm_output v st' 0 out))"

section \<open>The BPE tokenizer\<close>

record llm_bigram_bpe =
  bpe_left :: nat
  bpe_right :: nat
  bpe_text :: str
  bpe_rank :: int
  bpe_size :: nat

definition bpe_comparator :: "llm_bigram_bpe \<Rightarrow> llm_bigram_bpe \<Rightarrow> bool" where
  "bpe_comparator l r \<longleftrightarrow> bpe_rank r < bpe_rank l \<or> bpe_rank l = bpe_rank r \<and> bpe_left r < bpe_left l"

record bpe_session =
  bpe_symbols :: "llm_symbol list"
  bpe_queue :: "llm_bigram_bpe list"

definition add_new_bigram :: "'s llama_vocab \<Rightarrow> int \<Rightarrow> int \<Rightarrow> bpe_session \<Rightarrow> bpe_session vres" where
  "add_new_bigram v left right st =
     (if left = - 1 \<or> right = - 1 then Inr st
      else
        (let left_token = sym_str (bpe_symbols st ! nat left); right_token = sym_str (bpe_symbols st ! nat right)
         in case find_bpe_rank v left_token right_token of
              Inl e \<Rightarrow> Inl e
            | Inr rank_found \<Rightarrow>
                if rank_found < 0 then Inr st
                else Inr (st\<lparr>bpe_queue := bpe_queue st @
                       [\<lparr>bpe_left = nat left, bpe_right = nat right, bpe_text = left_token @ right_token,
                         bpe_rank = rank_found, bpe_size = length left_token + length right_token\<rparr>]\<rparr>)))"

fun bpe_seed :: "'s llama_vocab \<Rightarrow> nat list \<Rightarrow> bpe_session \<Rightarrow> bpe_session vres" where
  "bpe_seed v [] st = Inr st"
| "bpe_seed v (i # is) st =
     (case add_new_bigram v (int i - 1) (int i) st of Inl e \<Rightarrow> Inl e | Inr st' \<Rightarrow> bpe_seed v is st')"

definition bpe_stale :: "llm_bigram_bpe \<Rightarrow> llm_symbol list \<Rightarrow> bool" where
  "bpe_stale b syms \<longleftrightarrow>
     sym_n (syms ! bpe_left b) = 0 \<or> sym_n (syms ! bpe_right b) = 0 \<or>
     sym_str (syms ! bpe_left b) @ sym_str (syms ! bpe_right b) \<noteq> bpe_text b"

definition bpe_merge :: "'s llama_vocab \<Rightarrow> llm_bigram_bpe \<Rightarrow> bpe_session \<Rightarrow> bpe_session vres" where
  "bpe_merge v b st =
     (let syms = merge_symbols (bpe_left b) (bpe_right b) (bpe_symbols st);
          st1 = st\<lparr>bpe_symbols := syms\<rparr>
      in case add_new_bigram v (sym_prev (syms ! bpe_left b)) (int (bpe_left b)) st1 of
           Inl e \<Rightarrow> Inl e
         | Inr st2 \<Rightarrow> add_new_bigram v (int (bpe_left b)) (sym_next (syms ! bpe_left b)) st2)"

lemma add_new_bigram_size:
  assumes "add_new_bigram v left right st = Inr st'"
  shows "bpe_symbols st' = bpe_symbols st \<and> length (bpe_queue st') \<le> length (bpe_queue st) + 1"
  using assms by (auto simp: add_new_bigram_def Let_def split: if_splits sum.splits)

lemma bpe_merge_size:
  assumes "bpe_merge v b st = Inr st'"
  shows "bpe_symbols st' = merge_symbols (bpe_left b) (bpe_right b) (bpe_symbols st) \<and> length (bpe_queue st') \<le> length (bpe_queue st) + 2"
  using assms by (auto simp: bpe_merge_def Let_def split: sum.splits dest!: add_new_bigram_size)

function bpe_loop :: "'s llama_vocab \<Rightarrow> bpe_session \<Rightarrow> bpe_session vres" where
  "bpe_loop v st =
     (if bpe_queue st = [] then Inr st
      else
        (let b = pq_top bpe_comparator (bpe_queue st);
             st' = st\<lparr>bpe_queue := pq_pop bpe_comparator (bpe_queue st)\<rparr>
         in if length (bpe_symbols st) \<le> bpe_left b \<or> length (bpe_symbols st) \<le> bpe_right b then Inl Undefined
            else if bpe_stale b (bpe_symbols st) then bpe_loop v st'
            else (case bpe_merge v b st' of Inl e \<Rightarrow> Inl e | Inr st'' \<Rightarrow> bpe_loop v st'')))"
  by pat_completeness auto
termination
proof (relation "measure (\<lambda>(v, st). 3 * alive (bpe_symbols st) + length (bpe_queue st))", goal_cases)
  case (2 v st b st')
  then show ?case using pq_pop_length[of "bpe_queue st" bpe_comparator] by simp
next
  case (3 v st b st' st'')
  have "alive (bpe_symbols st'') < alive (bpe_symbols st)"
    using 3 bpe_merge_size[of v b st' st''] merge_symbols_alive[of "bpe_left b" "bpe_symbols st" "bpe_right b"]
    by (auto simp: bpe_stale_def)
  moreover have "length (bpe_queue st'') \<le> length (bpe_queue st) + 1"
    using 3 bpe_merge_size[of v b st' st''] pq_pop_length[of "bpe_queue st" bpe_comparator] by simp
  ultimately show ?case by simp
qed simp

declare bpe_loop.simps [simp del]

text \<open>The symbols of a word: the whole word if merges are ignored for words with a token, and for newlines of Gemma 4.\<close>

definition bpe_word_symbols :: "'s llama_vocab \<Rightarrow> str \<Rightarrow> llm_symbol list" where
  "bpe_word_symbols v word =
     (let whole = [\<lparr>sym_prev = - 1, sym_next = - 1, sym_base = word, sym_off = 0, sym_n = length word\<rparr>]
      in if v_ignore_merges v \<and> text_to_token v word \<noteq> LLAMA_TOKEN_NULL then whole
         else if v_pre_type v = LLAMA_VOCAB_PRE_TYPE_GEMMA4 \<and> list_all (\<lambda>c. c = 10) word \<and> text_to_token v word \<noteq> LLAMA_TOKEN_NULL
         then whole
         else split_symbols word 0 0)"

definition bpe_word :: "'s llama_vocab \<Rightarrow> str \<Rightarrow> llm_symbol list vres" where
  "bpe_word v word =
     (let syms = bpe_word_symbols v word
      in case bpe_seed v [1..<length syms] \<lparr>bpe_symbols = syms, bpe_queue = []\<rparr> of
           Inl e \<Rightarrow> Inl e
         | Inr st \<Rightarrow> (case bpe_loop v st of Inl e \<Rightarrow> Inl e | Inr st' \<Rightarrow> Inr (bpe_symbols st')))"

text \<open>The symbols of all words are linked to one list.\<close>

fun append_final :: "llm_symbol list \<Rightarrow> llm_symbol list \<times> int \<Rightarrow> llm_symbol list \<times> int" where
  "append_final [] (final, final_prev_index) = (final, final_prev_index)"
| "append_final (s # syms) (final, final_prev_index) =
     (if 0 < sym_n s then
        (let final' = (if final_prev_index \<noteq> - 1
                       then final[nat final_prev_index := (final ! nat final_prev_index)\<lparr>sym_next := int (length final)\<rparr>]
                       else final)
         in append_final syms (final' @ [s\<lparr>sym_prev := final_prev_index, sym_next := - 1\<rparr>], int (length final')))
      else append_final syms (final, final_prev_index))"

fun bpe_words :: "'s llama_vocab \<Rightarrow> str list \<Rightarrow> llm_symbol list \<times> int \<Rightarrow> (llm_symbol list \<times> int) vres" where
  "bpe_words v [] acc = Inr acc"
| "bpe_words v (word # words) acc =
     (case bpe_word v word of Inl e \<Rightarrow> Inl e | Inr syms \<Rightarrow> bpe_words v words (append_final syms acc))"

definition bpe_byte_encode :: "'s llama_vocab \<Rightarrow> bool" where
  "bpe_byte_encode v \<longleftrightarrow> v_pre_type v \<noteq> LLAMA_VOCAB_PRE_TYPE_GEMMA4"

fun bpe_bytes :: "'s llama_vocab \<Rightarrow> str \<Rightarrow> llama_token list \<Rightarrow> llama_token list" where
  "bpe_bytes v [] out = out"
| "bpe_bytes v (c # cs) out =
     (let token_multibyte = text_to_token v (if bpe_byte_encode v then [c] else byte_token_text c)
      in bpe_bytes v cs (if token_multibyte \<noteq> LLAMA_TOKEN_NULL then out @ [token_multibyte] else out))"

definition bpe_emit :: "'s llama_vocab \<Rightarrow> llm_symbol \<Rightarrow> llama_token list \<Rightarrow> llama_token list" where
  "bpe_emit v symbol out =
     (if sym_n symbol = 0 then out
      else
        (let txt = sym_str symbol; token = text_to_token v txt
         in if token = LLAMA_TOKEN_NULL then bpe_bytes v txt out else out @ [token]))"

partial_function (option) bpe_output ::
  "'s llama_vocab \<Rightarrow> llm_symbol list \<Rightarrow> int \<Rightarrow> llama_token list \<Rightarrow> llama_token list vres option" where
  "bpe_output v syms i out =
     (if i = - 1 then Some (Inr out)
      else if i < 0 \<or> length syms \<le> nat i then Some (Inl Undefined)
      else bpe_output v syms (sym_next (syms ! nat i)) (bpe_emit v (syms ! nat i) out))"

declare bpe_output.simps [code]

text \<open>The argument \<open>words\<close> is the result of \<open>unicode_regex_split\<close> on the text.\<close>

definition bpe_tokenize :: "'s llama_vocab \<Rightarrow> str list \<Rightarrow> llama_token list \<Rightarrow> llama_token list vres option" where
  "bpe_tokenize v words out =
     (case bpe_words v words ([], - 1) of
        Inl e \<Rightarrow> Some (Inl e)
      | Inr (final, _) \<Rightarrow> if final = [] then Some (Inr out) else bpe_output v final 0 out)"

end
