(* ===== verification/TokMergeProps.thy ===== *)
theory TokMergeProps
  imports TokMerge
begin

text \<open>
  What the work queue of theory \<open>TokMerge\<close> computes: the same pieces as the plain algorithm that merges, again and again,
  the best pair of neighbours, the leftmost one among equals (\<open>greedy_merge\<close>).  The argument is made once, in the locale
  \<open>bigram_queue\<close>, on queue entries reduced to the indices, the key and the size; both tokenizers interpret it.
\<close>

section \<open>The plain algorithm\<close>

fun best_pair :: "('k \<Rightarrow> 'k \<Rightarrow> bool) \<Rightarrow> (str \<Rightarrow> str \<Rightarrow> 'k option) \<Rightarrow> str list \<Rightarrow> (nat \<times> 'k) option" where
  "best_pair better key (a # b # ps) =
     (case (key a b, best_pair better key (b # ps)) of
        (None, None) \<Rightarrow> None
      | (Some k, None) \<Rightarrow> Some (0, k)
      | (None, Some (i, k')) \<Rightarrow> Some (Suc i, k')
      | (Some k, Some (i, k')) \<Rightarrow> if better k' k then Some (Suc i, k') else Some (0, k))"
| "best_pair better key ps = None"

definition merge_at :: "nat \<Rightarrow> str list \<Rightarrow> str list" where
  "merge_at i ps = take i ps @ (ps ! i @ ps ! Suc i) # drop (i + 2) ps"

lemma best_pair_bound: "best_pair better key ps = Some (i, k) \<Longrightarrow> Suc i < length ps \<and> key (ps ! i) (ps ! Suc i) = Some k"
proof (induction better key ps arbitrary: i k rule: best_pair.induct)
  case (1 better key a b ps)
  then show ?case by (auto split: option.splits if_splits)
qed simp_all

lemma length_merge_at: "Suc i < length ps \<Longrightarrow> length (merge_at i ps) = length ps - 1"
  by (simp add: merge_at_def)

lemma concat_merge_at: "Suc i < length ps \<Longrightarrow> concat (merge_at i ps) = concat ps"
proof -
  assume i: "Suc i < length ps"
  have "ps = take i ps @ ps ! i # ps ! Suc i # drop (i + 2) ps"
    using i by (simp add: Cons_nth_drop_Suc)
  then have "concat ps = concat (take i ps @ ps ! i # ps ! Suc i # drop (i + 2) ps)" by (rule arg_cong)
  then show ?thesis by (simp add: merge_at_def)
qed

function greedy_merge :: "('k \<Rightarrow> 'k \<Rightarrow> bool) \<Rightarrow> (str \<Rightarrow> str \<Rightarrow> 'k option) \<Rightarrow> str list \<Rightarrow> str list" where
  "greedy_merge better key ps =
     (case best_pair better key ps of None \<Rightarrow> ps | Some (i, k) \<Rightarrow> greedy_merge better key (merge_at i ps))"
  by pat_completeness auto
termination
  by (relation "measure (\<lambda>(b, key, ps). length ps)") (auto dest!: best_pair_bound simp: length_merge_at)

declare greedy_merge.simps [simp del]

text \<open>The pieces that remain make up the text, and no two neighbours can be merged.\<close>

lemma concat_greedy_merge: "concat (greedy_merge better key ps) = concat ps"
proof (induction better key ps rule: greedy_merge.induct)
  case (1 better key ps)
  then show ?case
    by (subst greedy_merge.simps) (auto split: option.splits dest!: best_pair_bound simp: concat_merge_at)
qed

lemma nat_all_split: "(\<forall>i. P i) \<longleftrightarrow> P 0 \<and> (\<forall>i. P (Suc i))"
  by (metis not0_implies_Suc)

lemma best_pair_None: "best_pair better key ps = None \<longleftrightarrow> (\<forall>i. Suc i < length ps \<longrightarrow> key (ps ! i) (ps ! Suc i) = None)"
proof (induction better key ps rule: best_pair.induct)
  case (1 better key a b ps)
  have "(\<forall>i. Suc i < length (a # b # ps) \<longrightarrow> key ((a # b # ps) ! i) ((a # b # ps) ! Suc i) = None) \<longleftrightarrow>
    key a b = None \<and> (\<forall>i. Suc i < length (b # ps) \<longrightarrow> key ((b # ps) ! i) ((b # ps) ! Suc i) = None)"
    by (subst nat_all_split) simp
  then show ?case using 1 by (auto split: option.splits)
qed simp_all

lemma greedy_merge_done: "Suc i < length (greedy_merge better key ps) \<Longrightarrow>
    key (greedy_merge better key ps ! i) (greedy_merge better key ps ! Suc i) = None"
proof (induction better key ps rule: greedy_merge.induct)
  case (1 better key ps)
  show ?case
  proof (cases "best_pair better key ps")
    case None
    then show ?thesis using 1 best_pair_None[of better key ps] by (simp add: greedy_merge.simps)
  next
    case (Some p)
    then show ?thesis using 1 by (cases p) (simp add: greedy_merge.simps)
  qed
qed

section \<open>Chains of symbols\<close>

fun adj :: "nat list \<Rightarrow> (nat \<times> nat) list" where
  "adj (x # y # xs) = (x, y) # adj (y # xs)"
| "adj xs = []"

lemma adj_append: "adj (xs @ x # ys) = adj (xs @ [x]) @ adj (x # ys)"
  by (induction xs rule: adj.induct) simp_all

definition layout :: "str \<Rightarrow> llm_symbol list \<Rightarrow> bool" where
  "layout base syms \<longleftrightarrow> (\<forall>i < length syms. sym_base (syms ! i) = base) \<and>
     (\<forall>i j. i < j \<longrightarrow> j < length syms \<longrightarrow> sym_off (syms ! i) < sym_off (syms ! j))"

definition chain :: "str \<Rightarrow> llm_symbol list \<Rightarrow> nat list \<Rightarrow> bool" where
  "chain base syms c \<longleftrightarrow> c \<noteq> [] \<and> sorted_wrt (<) c \<and> set c = {i. i < length syms \<and> 0 < sym_n (syms ! i)} \<and>
     sym_prev (syms ! hd c) = - 1 \<and> sym_next (syms ! last c) = - 1 \<and>
     sym_off (syms ! last c) + sym_n (syms ! last c) = length base \<and>
     (\<forall>(i, j) \<in> set (adj c). sym_next (syms ! i) = int j \<and> sym_prev (syms ! j) = int i \<and>
        sym_off (syms ! i) + sym_n (syms ! i) = sym_off (syms ! j))"

definition pieces :: "llm_symbol list \<Rightarrow> nat list \<Rightarrow> str list" where
  "pieces syms c = map (\<lambda>i. sym_str (syms ! i)) c"

lemma merge_symbols_length [simp]: "length (merge_symbols l r syms) = length syms"
  by (simp add: merge_symbols_def Let_def)

lemma nth_update_any: "xs[k := v] ! i = (if i = k \<and> i < length xs then v else xs ! i)"
  by (cases "k < length xs") (auto simp: nth_list_update list_update_beyond)

lemma merge_symbols_nth:
  assumes "l < length syms" "r < length syms" "l \<noteq> r"
  shows "merge_symbols l r syms ! i =
     (let s = (if i = l then (syms ! l)\<lparr>sym_n := sym_n (syms ! l) + sym_n (syms ! r), sym_next := sym_next (syms ! r)\<rparr>
               else if i = r then (syms ! r)\<lparr>sym_n := 0\<rparr> else syms ! i)
      in if 0 \<le> sym_next (syms ! r) \<and> i = nat (sym_next (syms ! r)) \<and> i < length syms then s\<lparr>sym_prev := int l\<rparr> else s)"
proof -
  define syms3 where "syms3 = syms[l := (syms ! l)\<lparr>sym_n := sym_n (syms ! l) + sym_n (syms ! r), sym_next := sym_next (syms ! r)\<rparr>,
    r := (syms ! r)\<lparr>sym_n := 0\<rparr>]"
  have "merge_symbols l r syms = (if 0 \<le> sym_next (syms3 ! r)
      then syms3[nat (sym_next (syms3 ! r)) := (syms3 ! nat (sym_next (syms3 ! r)))\<lparr>sym_prev := int l\<rparr>] else syms3)"
    using assms by (simp add: merge_symbols_def Let_def syms3_def list_update_swap[of r l] nth_list_update)
  moreover have "sym_next (syms3 ! r) = sym_next (syms ! r)" using assms by (simp add: syms3_def)
  moreover have "syms3 ! i = (if i = l then (syms ! l)\<lparr>sym_n := sym_n (syms ! l) + sym_n (syms ! r), sym_next := sym_next (syms ! r)\<rparr>
               else if i = r then (syms ! r)\<lparr>sym_n := 0\<rparr> else syms ! i)" for i
    using assms by (simp add: syms3_def nth_list_update)
  moreover have "length syms3 = length syms" by (simp add: syms3_def)
  ultimately show ?thesis by (auto simp: Let_def nth_update_any)
qed

lemma merge_symbols_sel:
  assumes "l < length syms" "r < length syms" "l \<noteq> r"
  shows "sym_off (merge_symbols l r syms ! i) = sym_off (syms ! i)"
    and "sym_base (merge_symbols l r syms ! i) = sym_base (syms ! i)"
    and "sym_n (merge_symbols l r syms ! i)
       = (if i = l then sym_n (syms ! l) + sym_n (syms ! r) else if i = r then 0 else sym_n (syms ! i))"
    and "sym_next (merge_symbols l r syms ! i) = (if i = l then sym_next (syms ! r) else sym_next (syms ! i))"
    and "nat (sym_next (syms ! r)) < length syms \<Longrightarrow> sym_prev (merge_symbols l r syms ! i)
       = (if int i = sym_next (syms ! r) then int l else sym_prev (syms ! i))"
  by (simp_all add: merge_symbols_nth[OF assms] Let_def, auto)

lemma sorted_split_unique:
  "sorted_wrt (<) (xs @ x # ys) \<Longrightarrow> x \<notin> set xs \<and> x \<notin> set ys" for x :: nat
  by (auto simp: sorted_wrt_append)

lemma adj_mem: "(i, j) \<in> set (adj c) \<Longrightarrow> i \<in> set c \<and> j \<in> set c"
  by (induction c rule: adj.induct) auto

lemma adj_split: "(i, j) \<in> set (adj c) \<longleftrightarrow> (\<exists>xs ys. c = xs @ i # j # ys)"
proof (induction c rule: adj.induct)
  case (1 x y c)
  have "(\<exists>xs ys. x # y # c = xs @ i # j # ys) \<longleftrightarrow> i = x \<and> j = y \<or> (\<exists>xs ys. y # c = xs @ i # j # ys)"
    by (auto simp: Cons_eq_append_conv)
  then show ?case using 1 by auto
qed (auto simp: Cons_eq_append_conv)

section \<open>The work queue\<close>

text \<open>An entry of the queue: the indices of the pair, its key, and the size of the merged text when the pair was found.\<close>

type_synonym 'k qentry = "nat \<times> nat \<times> 'k \<times> nat"

definition sub :: "llm_symbol list \<Rightarrow> nat \<Rightarrow> nat \<Rightarrow> str" where
  "sub syms i n = take n (drop (sym_off (syms ! i)) (sym_base (syms ! i)))"

lemma sym_str_sub: "sym_str (syms ! i) = sub syms i (sym_n (syms ! i))"
  by (simp add: sym_str_def sub_def)

definition entry_sound :: "(str \<Rightarrow> str \<Rightarrow> 'k option) \<Rightarrow> llm_symbol list \<Rightarrow> 'k qentry \<Rightarrow> bool" where
  "entry_sound key syms e = (case e of (l, r, k, sz) \<Rightarrow>
     l < r \<and> r < length syms \<and>
     (\<exists>a b. 0 < a \<and> 0 < b \<and> sz = a + b \<and> sym_off (syms ! l) + a = sym_off (syms ! r) \<and>
        key (sub syms l a) (sub syms r b) = Some k \<and>
        (sym_n (syms ! l) = 0 \<or> a \<le> sym_n (syms ! l)) \<and> (sym_n (syms ! r) = 0 \<or> b \<le> sym_n (syms ! r))))"

definition entries_complete :: "(str \<Rightarrow> str \<Rightarrow> 'k option) \<Rightarrow> llm_symbol list \<Rightarrow> nat list \<Rightarrow> 'k qentry set \<Rightarrow> bool" where
  "entries_complete key syms c Q \<longleftrightarrow>
     (\<forall>(i, j) \<in> set (adj c). \<forall>k. key (sym_str (syms ! i)) (sym_str (syms ! j)) = Some k \<longrightarrow>
        (i, j, k, sym_n (syms ! i) + sym_n (syms ! j)) \<in> Q)"

definition queue_inv :: "(str \<Rightarrow> str \<Rightarrow> 'k option) \<Rightarrow> str \<Rightarrow> llm_symbol list \<Rightarrow> nat list \<Rightarrow> 'k qentry set \<Rightarrow> bool" where
  "queue_inv key base syms c Q \<longleftrightarrow>
     layout base syms \<and> chain base syms c \<and> (\<forall>e \<in> Q. entry_sound key syms e) \<and> entries_complete key syms c Q"

definition entry_stale :: "llm_symbol list \<Rightarrow> 'k qentry \<Rightarrow> bool" where
  "entry_stale syms e = (case e of (l, r, k, sz) \<Rightarrow>
     sym_n (syms ! l) = 0 \<or> sym_n (syms ! r) = 0 \<or> sym_n (syms ! l) + sym_n (syms ! r) \<noteq> sz)"

text \<open>The entry a call of \<open>try_add_bigram\<close> or \<open>add_new_bigram\<close> adds.\<close>

definition fresh :: "(str \<Rightarrow> str \<Rightarrow> 'k option) \<Rightarrow> llm_symbol list \<Rightarrow> int \<Rightarrow> int \<Rightarrow> 'k qentry list" where
  "fresh key syms i j =
     (if i = - 1 \<or> j = - 1 then []
      else (case key (sym_str (syms ! nat i)) (sym_str (syms ! nat j)) of
              None \<Rightarrow> []
            | Some k \<Rightarrow> [(nat i, nat j, k, sym_n (syms ! nat i) + sym_n (syms ! nat j))]))"

lemma chain_alive: "chain base syms c \<Longrightarrow> i \<in> set c \<longleftrightarrow> i < length syms \<and> 0 < sym_n (syms ! i)"
  by (simp add: chain_def)

lemma layout_off_inj: "layout base syms \<Longrightarrow> i < length syms \<Longrightarrow> j < length syms \<Longrightarrow> sym_off (syms ! i) = sym_off (syms ! j) \<Longrightarrow> i = j"
  unfolding layout_def by (metis less_irrefl linorder_neqE_nat)

lemma chain_end:
  assumes "layout base syms" "chain base syms c" "i \<in> set c"
  shows "sym_off (syms ! i) + sym_n (syms ! i) \<le> length base"
proof -
  obtain xs ys where c: "c = xs @ i # ys" using assms(3) by (auto simp: in_set_conv_decomp)
  show ?thesis
  proof (cases ys)
    case Nil
    then show ?thesis using assms(2) c by (simp add: chain_def)
  next
    case (Cons j zs)
    have "(i, j) \<in> set (adj c)" using c Cons by (auto simp: adj_split)
    then have 1: "sym_off (syms ! i) + sym_n (syms ! i) = sym_off (syms ! j)" using assms(2) by (auto simp: chain_def)
    have la: "last c \<in> set c" using c by simp
    have "sorted_wrt (<) (j # zs)" using assms(2) c Cons by (simp add: chain_def sorted_wrt_append)
    then have "j \<le> last (j # zs)" by (cases zs) (auto dest: last_in_set intro: less_imp_le)
    then have "j \<le> last c" using c Cons by simp
    moreover have "last c < length syms" using chain_alive[OF assms(2)] la by blast
    ultimately have "sym_off (syms ! j) \<le> sym_off (syms ! last c)"
      using assms(1) unfolding layout_def by (cases "j = last c") (auto simp: less_imp_le)
    then show ?thesis using 1 assms(2) by (simp add: chain_def)
  qed
qed

text \<open>An entry that is not stale is a pair of neighbours, with its current key.\<close>

lemma live_entry:
  assumes inv: "queue_inv key base syms c Q" and e: "(l, r, k, sz) \<in> Q" and live: "\<not> entry_stale syms (l, r, k, sz)"
  shows "(l, r) \<in> set (adj c) \<and> key (sym_str (syms ! l)) (sym_str (syms ! r)) = Some k
     \<and> l < r \<and> r < length syms \<and> sz = sym_n (syms ! l) + sym_n (syms ! r)"
proof -
  have lay: "layout base syms" and ch: "chain base syms c" using inv by (auto simp: queue_inv_def)
  obtain a b where ab: "l < r" "r < length syms" "0 < a" "0 < b" "sz = a + b" "sym_off (syms ! l) + a = sym_off (syms ! r)"
    "key (sub syms l a) (sub syms r b) = Some k" "sym_n (syms ! l) = 0 \<or> a \<le> sym_n (syms ! l)" "sym_n (syms ! r) = 0 \<or> b \<le> sym_n (syms ! r)"
    using inv e by (auto simp: queue_inv_def entry_sound_def)
  have n: "sym_n (syms ! l) = a" "sym_n (syms ! r) = b" using ab live by (auto simp: entry_stale_def)
  have mem: "l \<in> set c" "r \<in> set c" using ab n chain_alive[OF ch] by auto
  obtain xs ys where c: "c = xs @ l # ys" using mem(1) by (auto simp: in_set_conv_decomp)
  have "ys \<noteq> []"
  proof
    assume "ys = []"
    then have "sym_off (syms ! l) + a = length base" using ch c n by (simp add: chain_def)
    then show False using chain_end[OF lay ch mem(2)] ab n by simp
  qed
  then obtain j zs where ys: "ys = j # zs" by (cases ys) auto
  have adjj: "(l, j) \<in> set (adj c)" using c ys by (auto simp: adj_split)
  then have "sym_off (syms ! l) + a = sym_off (syms ! j)" using ch n by (auto simp: chain_def)
  moreover have "j < length syms" using adj_mem[OF adjj] chain_alive[OF ch] by auto
  ultimately have "j = r" using ab(6) by (intro layout_off_inj[OF lay _ ab(2)]) simp_all
  then show ?thesis using adjj ab n by (simp add: sym_str_sub)
qed

text \<open>Merging two neighbours.\<close>

lemma chain_prev:
  assumes "chain base syms c" "i \<in> set c"
  shows "sym_prev (syms ! i) = - 1 \<and> i = hd c \<or> (\<exists>h. (h, i) \<in> set (adj c) \<and> sym_prev (syms ! i) = int h)"
proof -
  obtain xs ys where c: "c = xs @ i # ys" using assms(2) by (auto simp: in_set_conv_decomp)
  show ?thesis
  proof (cases xs rule: rev_cases)
    case Nil
    then show ?thesis using assms(1) c by (simp add: chain_def)
  next
    case (snoc zs h)
    then have "(h, i) \<in> set (adj c)" using c by (auto simp: adj_split)
    then show ?thesis using assms(1) by (auto simp: chain_def)
  qed
qed

lemma chain_next:
  assumes "chain base syms c" "i \<in> set c"
  shows "sym_next (syms ! i) = - 1 \<and> i = last c \<or> (\<exists>j. (i, j) \<in> set (adj c) \<and> sym_next (syms ! i) = int j)"
proof -
  obtain xs ys where c: "c = xs @ i # ys" using assms(2) by (auto simp: in_set_conv_decomp)
  show ?thesis
  proof (cases ys)
    case Nil
    then show ?thesis using assms(1) c by (simp add: chain_def)
  next
    case (Cons j zs)
    then have "(i, j) \<in> set (adj c)" using c by (auto simp: adj_split)
    then show ?thesis using assms(1) by (auto simp: chain_def)
  qed
qed

lemma chain_pair:
  assumes "layout base syms" "chain base syms c" "(i, j) \<in> set (adj c)"
  shows "i < j" "i < length syms" "j < length syms" "0 < sym_n (syms ! i)" "0 < sym_n (syms ! j)"
    "sym_next (syms ! i) = int j" "sym_prev (syms ! j) = int i" "sym_off (syms ! i) + sym_n (syms ! i) = sym_off (syms ! j)"
proof -
  obtain xs ys where c: "c = xs @ i # j # ys" using assms(3) by (auto simp: adj_split)
  show "i < j" using assms(2) c by (simp add: chain_def sorted_wrt_append)
  show "i < length syms" "j < length syms" "0 < sym_n (syms ! i)" "0 < sym_n (syms ! j)"
    using chain_alive[OF assms(2)] c by auto
  show "sym_next (syms ! i) = int j" "sym_prev (syms ! j) = int i" "sym_off (syms ! i) + sym_n (syms ! i) = sym_off (syms ! j)"
    using assms(2,3) by (auto simp: chain_def)
qed

lemma adj_increasing: "sorted_wrt (<) c \<Longrightarrow> (i, j) \<in> set (adj c) \<Longrightarrow> i < j"
  by (induction c rule: adj.induct) auto

lemma adj_removed:
  assumes "sorted_wrt (<) (xs @ l # r # ys)" and "(i, j) \<in> set (adj (xs @ l # ys))"
  shows "i = l \<and> (r, j) \<in> set (adj (xs @ l # r # ys)) \<or> i \<noteq> l \<and> i \<noteq> r \<and> j \<noteq> r \<and> (i, j) \<in> set (adj (xs @ l # r # ys))"
proof -
  have dist: "r \<notin> set xs" "l \<notin> set xs" "r \<notin> set ys" "l \<notin> set ys" "l \<noteq> r" using assms(1) by (auto simp: sorted_wrt_append)
  have c: "adj (xs @ l # r # ys) = adj (xs @ [l]) @ (l, r) # adj (r # ys)" using adj_append[of xs l "r # ys"] by simp
  consider "(i, j) \<in> set (adj (xs @ [l]))" | "(i, j) \<in> set (adj (l # ys))"
    using assms(2) adj_append[of xs l ys] by auto
  then show ?thesis
  proof cases
    case 1
    have "sorted_wrt (<) (xs @ [l])" using assms(1) by (simp add: sorted_wrt_append)
    then have "i < j" using 1 adj_increasing by blast
    moreover have "i \<in> set (xs @ [l])" "j \<in> set (xs @ [l])" using 1 adj_mem by blast+
    moreover have "\<forall>x \<in> set xs. x < l" using assms(1) by (simp add: sorted_wrt_append)
    ultimately have "i \<noteq> l" "i \<noteq> r" "j \<noteq> r" using dist by auto
    then show ?thesis using 1 c by simp
  next
    case 2
    then obtain y zs where ys: "ys = y # zs" by (cases ys) auto
    then consider "i = l" "j = y" | "(i, j) \<in> set (adj ys)" using 2 by auto
    then show ?thesis
    proof cases
      case 1
      then show ?thesis using c ys by simp
    next
      case 2
      then have "i \<in> set ys" "j \<in> set ys" using adj_mem by blast+
      then have "i \<noteq> l" "i \<noteq> r" "j \<noteq> r" using dist by auto
      moreover have "(i, j) \<in> set (adj (r # ys))" using 2 ys by simp
      ultimately show ?thesis using c by simp
    qed
  qed
qed

lemma merge_layout: "layout base syms \<Longrightarrow> l < length syms \<Longrightarrow> r < length syms \<Longrightarrow> l \<noteq> r \<Longrightarrow> layout base (merge_symbols l r syms)"
  unfolding layout_def by (simp add: merge_symbols_sel)

lemma merge_chain:
  assumes lay: "layout base syms" and ch: "chain base syms c" and c: "c = xs @ l # r # ys"
  shows "chain base (merge_symbols l r syms) (xs @ l # ys)"
proof -
  define syms' where "syms' = merge_symbols l r syms"
  have lr: "(l, r) \<in> set (adj c)" using c by (auto simp: adj_split)
  note p = chain_pair[OF lay ch lr]
  have ne: "l \<noteq> r" using p(1) by simp
  have r_next: "sym_next (syms ! r) = - 1 \<and> r = last c \<or> (\<exists>j. (r, j) \<in> set (adj c) \<and> sym_next (syms ! r) = int j)"
    by (rule chain_next[OF ch]) (simp add: c)
  then have nr: "nat (sym_next (syms ! r)) < length syms"
    using p(2) chain_pair(3)[OF lay ch, of r] by auto
  note sel = merge_symbols_sel(1-4)[OF p(2,3) ne, folded syms'_def] merge_symbols_sel(5)[OF p(2,3) ne nr, folded syms'_def]
  have len: "length syms' = length syms" by (simp add: syms'_def)
  have srt: "sorted_wrt (<) (xs @ l # r # ys)" using ch c by (simp add: chain_def)
  then have dist: "r \<notin> set xs" "l \<notin> set xs" "r \<notin> set ys" "l \<notin> set ys" by (auto simp: sorted_wrt_append)
  have sorted: "sorted_wrt (<) (xs @ l # ys)" using srt by (simp add: sorted_wrt_append)
  have "set (xs @ l # ys) = set c - {r}" using c dist ne by auto
  then have alive: "set (xs @ l # ys) = {i. i < length syms' \<and> 0 < sym_n (syms' ! i)}"
    using chain_alive[OF ch] p(4,5) ne unfolding len sel by (simp only: set_eq_iff) auto
  have first: "sym_prev (syms' ! hd (xs @ l # ys)) = - 1"
  proof -
    have "hd (xs @ l # ys) = hd c" using c by (cases xs) auto
    moreover have "sym_prev (syms ! hd c) = - 1" using ch by (simp add: chain_def)
    moreover have "int (hd c) \<noteq> sym_next (syms ! r)"
      using r_next chain_pair(7)[OF lay ch, of r "hd c"] ch by (auto simp: chain_def)
    ultimately show ?thesis by (simp add: sel)
  qed
  have end_l: "sym_next (syms' ! last (xs @ l # ys)) = - 1 \<and>
      sym_off (syms' ! last (xs @ l # ys)) + sym_n (syms' ! last (xs @ l # ys)) = length base"
  proof (cases ys)
    case Nil
    then have "sym_next (syms ! r) = - 1" "sym_off (syms ! r) + sym_n (syms ! r) = length base" using ch c by (auto simp: chain_def)
    then show ?thesis using Nil ne p(8) by (simp add: sel)
  next
    case (Cons y zs)
    then have la: "last (xs @ l # ys) = last c" using c by simp
    have "last c \<in> set ys" using c Cons by simp
    then have "last c \<noteq> l" "last c \<noteq> r" using dist by auto
    then show ?thesis using ch la unfolding sel la by (simp add: chain_def)
  qed
  have links: "sym_next (syms' ! i) = int j \<and> sym_prev (syms' ! j) = int i \<and> sym_off (syms' ! i) + sym_n (syms' ! i) = sym_off (syms' ! j)"
    if ij: "(i, j) \<in> set (adj (xs @ l # ys))" for i j
    using adj_removed[OF srt ij]
  proof (elim disjE conjE)
    assume i: "i = l" and "(r, j) \<in> set (adj (xs @ l # r # ys))"
    then have rj: "(r, j) \<in> set (adj c)" using c by simp
    note q = chain_pair[OF lay ch rj]
    have "j \<noteq> l" using p(1) q(1) by simp
    then show ?thesis using i q p(8) ne by (simp add: sel)
  next
    assume i: "i \<noteq> l" "i \<noteq> r" "j \<noteq> r" and "(i, j) \<in> set (adj (xs @ l # r # ys))"
    then have ij': "(i, j) \<in> set (adj c)" using c by simp
    note q = chain_pair[OF lay ch ij']
    have "int j \<noteq> sym_next (syms ! r)"
      using r_next chain_pair(7)[OF lay ch, of r j] q(7) i(2) by auto
    then show ?thesis using i q by (simp add: sel)
  qed
  show ?thesis unfolding chain_def syms'_def[symmetric] using sorted alive first end_l links by auto
qed

lemma merge_pieces:
  assumes lay: "layout base syms" and ch: "chain base syms c" and c: "c = xs @ l # r # ys"
  shows "pieces (merge_symbols l r syms) (xs @ l # ys) = merge_at (length xs) (pieces syms c)"
proof -
  have lr: "(l, r) \<in> set (adj c)" using c by (auto simp: adj_split)
  note p = chain_pair[OF lay ch lr]
  have ne: "l \<noteq> r" using p(1) by simp
  note sel = merge_symbols_sel(1-4)[OF p(2,3) ne]
  have dist: "r \<notin> set xs" "l \<notin> set xs" "r \<notin> set ys" "l \<notin> set ys"
    using ch c by (auto simp: chain_def sorted_wrt_append)
  have "sym_str (merge_symbols l r syms ! i) = sym_str (syms ! i)" if "i \<noteq> l" "i \<noteq> r" for i
    using that by (simp add: sym_str_def sel)
  then have rest: "map (\<lambda>i. sym_str (merge_symbols l r syms ! i)) zs = map (\<lambda>i. sym_str (syms ! i)) zs"
    if "l \<notin> set zs" "r \<notin> set zs" for zs
    using that by (intro map_cong refl) metis
  have "sym_base (syms ! l) = sym_base (syms ! r)" using lay p by (simp add: layout_def)
  then have "sym_str (merge_symbols l r syms ! l) = sym_str (syms ! l) @ sym_str (syms ! r)"
    using p(8) by (simp add: sym_str_def sel take_add add.commute)
  then show ?thesis using rest[of xs] rest[of ys] dist
    by (simp add: pieces_def merge_at_def c nth_append)
qed

lemma merge_entry_sound:
  assumes "l < length syms" "r < length syms" "l \<noteq> r" "0 < sym_n (syms ! l)" "entry_sound key syms e"
  shows "entry_sound key (merge_symbols l r syms) e"
proof -
  obtain i j k sz where e: "e = (i, j, k, sz)" by (cases e) auto
  note sel = merge_symbols_sel(1-4)[OF assms(1-3)]
  have sub: "sub (merge_symbols l r syms) i n = sub syms i n" for i n by (simp add: sub_def sel)
  obtain a b where ab: "i < j" "j < length syms" "0 < a" "0 < b" "sz = a + b" "sym_off (syms ! i) + a = sym_off (syms ! j)"
    "key (sub syms i a) (sub syms j b) = Some k" "sym_n (syms ! i) = 0 \<or> a \<le> sym_n (syms ! i)" "sym_n (syms ! j) = 0 \<or> b \<le> sym_n (syms ! j)"
    using assms(5) by (auto simp: entry_sound_def e)
  have grow: "sym_n (merge_symbols l r syms ! x) = 0 \<or> m \<le> sym_n (merge_symbols l r syms ! x)"
    if "sym_n (syms ! x) = 0 \<or> m \<le> sym_n (syms ! x)" for x m
    using that assms(4) by (auto simp: sel(3))
  show ?thesis unfolding entry_sound_def e using ab grow[OF ab(8)] grow[OF ab(9)]
    by (simp add: sub sel(1)) blast
qed

lemma fresh_sound:
  assumes "layout base syms" "chain base syms c" "(i, j) \<in> set (adj c)" "e \<in> set (fresh key syms (int i) (int j))"
  shows "entry_sound key syms e"
proof -
  note p = chain_pair[OF assms(1-3)]
  obtain k where "e = (i, j, k, sym_n (syms ! i) + sym_n (syms ! j))" "key (sym_str (syms ! i)) (sym_str (syms ! j)) = Some k"
    using assms(4) by (auto simp: fresh_def split: option.splits if_splits)
  then show ?thesis using p by (auto simp: entry_sound_def sym_str_sub)
qed

lemma merge_inv:
  assumes inv: "queue_inv key base syms c Q" and c: "c = xs @ l # r # ys" and s': "syms' = merge_symbols l r syms"
    and F: "F = set (fresh key syms' (sym_prev (syms' ! l)) (int l)) \<union> set (fresh key syms' (int l) (sym_next (syms' ! l)))"
    and Q': "Q - {(l, r, k, sz)} \<union> F \<subseteq> Q'" "Q' \<subseteq> Q \<union> F"
  shows "queue_inv key base syms' (xs @ l # ys) Q'"
proof -
  have lay: "layout base syms" and ch: "chain base syms c" and sound: "\<forall>e \<in> Q. entry_sound key syms e"
    and comp: "entries_complete key syms c Q" using inv by (auto simp: queue_inv_def)
  have lr: "(l, r) \<in> set (adj c)" using c by (auto simp: adj_split)
  note p = chain_pair[OF lay ch lr]
  have ne: "l \<noteq> r" using p(1) by simp
  note sel = merge_symbols_sel(1-4)[OF p(2,3) ne, folded s']
  have lay': "layout base syms'" unfolding s' by (rule merge_layout[OF lay p(2,3) ne])
  have ch': "chain base syms' (xs @ l # ys)" unfolding s' by (rule merge_chain[OF lay ch c])
  have srt: "sorted_wrt (<) (xs @ l # r # ys)" using ch c by (simp add: chain_def)
  have prev_fresh: "sym_prev (syms' ! l) = - 1 \<or> (\<exists>h. (h, l) \<in> set (adj (xs @ l # ys)) \<and> sym_prev (syms' ! l) = int h)"
    using chain_prev[OF ch', of l] by auto
  have next_fresh: "sym_next (syms' ! l) = - 1 \<or> (\<exists>j. (l, j) \<in> set (adj (xs @ l # ys)) \<and> sym_next (syms' ! l) = int j)"
    using chain_next[OF ch', of l] by auto
  have "\<forall>e \<in> F. entry_sound key syms' e"
    using prev_fresh next_fresh fresh_sound[OF lay' ch'] unfolding F by (auto simp: fresh_def[of key syms' "- 1"] fresh_def[of key syms' _ "- 1"])
  moreover have "\<forall>e \<in> Q. entry_sound key syms' e"
    using sound merge_entry_sound[OF p(2,3) ne p(4)] unfolding s' by blast
  ultimately have "\<forall>e \<in> Q'. entry_sound key syms' e" using Q'(2) by blast
  moreover have "(i, j, k', sym_n (syms' ! i) + sym_n (syms' ! j)) \<in> Q'"
    if ij: "(i, j) \<in> set (adj (xs @ l # ys))" and k': "key (sym_str (syms' ! i)) (sym_str (syms' ! j)) = Some k'" for i j k'
  proof -
    note q = chain_pair[OF lay' ch' ij]
    consider "i = l" | "j = l" | "i \<noteq> l" "j \<noteq> l" by blast
    then show ?thesis
    proof cases
      case 1
      then have "(i, j, k', sym_n (syms' ! i) + sym_n (syms' ! j)) \<in> F" using q(6) k' by (simp add: F fresh_def)
      then show ?thesis using Q'(1) by blast
    next
      case 2
      then have "(i, j, k', sym_n (syms' ! i) + sym_n (syms' ! j)) \<in> F" using q(7) k' by (simp add: F fresh_def)
      then show ?thesis using Q'(1) by blast
    next
      case 3
      then have old: "i \<noteq> r" "j \<noteq> r" "(i, j) \<in> set (adj c)" using adj_removed[OF srt ij] c by auto
      then have "sym_str (syms' ! i) = sym_str (syms ! i)" "sym_str (syms' ! j) = sym_str (syms ! j)" "sym_n (syms' ! i) = sym_n (syms ! i)"
        "sym_n (syms' ! j) = sym_n (syms ! j)" using 3 by (simp_all add: sym_str_def sel)
      then have "(i, j, k', sym_n (syms' ! i) + sym_n (syms' ! j)) \<in> Q"
        using comp old(3) k' by (auto simp: entries_complete_def)
      then show ?thesis using Q'(1) 3(1) by blast
    qed
  qed
  ultimately show ?thesis using lay' ch' by (auto simp: queue_inv_def entries_complete_def)
qed

section \<open>The best entry\<close>

definition entry_lt :: "('k \<Rightarrow> 'k \<Rightarrow> bool) \<Rightarrow> 'k qentry \<Rightarrow> 'k qentry \<Rightarrow> bool" where
  "entry_lt better e e' = (case (e, e') of ((l, r, k, sz), (l', r', k', sz')) \<Rightarrow> better k' k \<or> k = k' \<and> l' < l)"

locale bigram_queue =
  fixes better :: "'k \<Rightarrow> 'k \<Rightarrow> bool" and key :: "str \<Rightarrow> str \<Rightarrow> 'k option"
  assumes irrefl: "\<not> better k k"
    and transitive: "better a b \<Longrightarrow> better b c \<Longrightarrow> better a c"
    and linear: "k \<noteq> k' \<Longrightarrow> better k k' \<or> better k' k"
begin

lemma entry_weak_order: "weak_order (entry_lt better)"
proof
  fix x y z :: "'k qentry"
  obtain l r k sz where x: "x = (l, r, k, sz)" by (rule prod_cases4)
  obtain l' r' k' sz' where y: "y = (l', r', k', sz')" by (rule prod_cases4)
  obtain l'' r'' k'' sz'' where z: "z = (l'', r'', k'', sz'')" by (rule prod_cases4)
  note xyz = x y z
  have strict: "\<not> better b a" if "better a b" for a b using irrefl transitive that by blast
  show "entry_lt better x y \<Longrightarrow> \<not> entry_lt better y x"
    unfolding xyz entry_lt_def prod.case using irrefl strict by (metis order_less_asym)
  assume xy: "\<not> entry_lt better x y" and yz: "\<not> entry_lt better y z"
  have 1: "better k k' \<or> k = k' \<and> l \<le> l'" using xy linear[of k k'] unfolding xyz entry_lt_def by auto
  have 2: "better k' k'' \<or> k' = k'' \<and> l' \<le> l''" using yz linear[of k' k''] unfolding xyz entry_lt_def by auto
  have "better k k'' \<or> k = k'' \<and> l \<le> l''" using 1 2 transitive[of k k' k''] by (elim disjE conjE) simp_all
  then show "\<not> entry_lt better x z" using irrefl strict[of k k''] unfolding xyz entry_lt_def prod.case by (metis leD)
qed

lemma best_pair_char:
  assumes "Suc i < length ps" "key (ps ! i) (ps ! Suc i) = Some k"
    and "\<And>j k'. Suc j < length ps \<Longrightarrow> key (ps ! j) (ps ! Suc j) = Some k' \<Longrightarrow> \<not> better k' k \<and> (k' = k \<longrightarrow> i \<le> j)"
  shows "best_pair better key ps = Some (i, k)"
  using assms
proof (induction ps arbitrary: i rule: induct_list012)
  case (3 a b ps)
  note later = 3(5)[of "Suc _", simplified]
  show ?case
  proof (cases i)
    case 0
    have k: "key a b = Some k" using 3(4) 0 by simp
    show ?thesis
    proof (cases "best_pair better key (b # ps)")
      case None
      then show ?thesis using k 0 by simp
    next
      case (Some q)
      obtain i' k' where q: "q = (i', k')" by (cases q)
      have "\<not> better k' k" using later[of i' k'] best_pair_bound[OF Some[unfolded q]] by simp
      then show ?thesis using k 0 Some q by simp
    qed
  next
    case (Suc i0)
    have "best_pair better key (b # ps) = Some (i0, k)"
      using 3(3,4) Suc later by (intro 3(2)) auto
    moreover have "better k k''" if "key a b = Some k''" for k''
      using 3(5)[of 0 k''] that Suc linear[of k k''] by auto
    ultimately show ?thesis using Suc by (auto split: option.splits)
  qed
qed simp_all

lemma best_of_top:
  assumes inv: "queue_inv key base syms c Q" and e: "(l, r, k, sz) \<in> Q" and live: "\<not> entry_stale syms (l, r, k, sz)"
    and top: "\<And>e'. e' \<in> Q \<Longrightarrow> \<not> entry_lt better (l, r, k, sz) e'"
  obtains xs ys where "c = xs @ l # r # ys" "best_pair better key (pieces syms c) = Some (length xs, k)"
proof -
  note lv = live_entry[OF inv e live]
  obtain xs ys where c: "c = xs @ l # r # ys" using lv by (auto simp: adj_split)
  have srt: "sorted_wrt (<) c" using inv by (simp add: queue_inv_def chain_def)
  have "best_pair better key (pieces syms c) = Some (length xs, k)"
  proof (rule best_pair_char)
    show "Suc (length xs) < length (pieces syms c)" by (simp add: pieces_def c)
    show "key (pieces syms c ! length xs) (pieces syms c ! Suc (length xs)) = Some k"
      using lv by (simp add: pieces_def c nth_append)
  next
    fix j k' assume j: "Suc j < length (pieces syms c)" and k': "key (pieces syms c ! j) (pieces syms c ! Suc j) = Some k'"
    have "c = take j c @ c ! j # c ! Suc j # drop (j + 2) c" using j by (simp add: pieces_def Cons_nth_drop_Suc)
    then have "(c ! j, c ! Suc j) \<in> set (adj c)" by (auto simp: adj_split)
    then have "(c ! j, c ! Suc j, k', sym_n (syms ! (c ! j)) + sym_n (syms ! (c ! Suc j))) \<in> Q"
      using inv j k' by (auto simp: queue_inv_def entries_complete_def pieces_def)
    from top[OF this] have no: "\<not> better k' k" "k' = k \<Longrightarrow> \<not> c ! j < l" by (auto simp: entry_lt_def)
    have "j < length xs \<Longrightarrow> c ! j < l" using srt by (auto simp: c nth_append sorted_wrt_append)
    then show "\<not> better k' k \<and> (k' = k \<longrightarrow> length xs \<le> j)" using no by force
  qed
  then show ?thesis using that c by blast
qed

lemma best_none:
  assumes inv: "queue_inv key base syms c {}"
  shows "best_pair better key (pieces syms c) = None"
proof -
  have "key (pieces syms c ! j) (pieces syms c ! Suc j) = None" if j: "Suc j < length (pieces syms c)" for j
  proof -
    have "c = take j c @ c ! j # c ! Suc j # drop (j + 2) c" using j by (simp add: pieces_def Cons_nth_drop_Suc)
    then have "(c ! j, c ! Suc j) \<in> set (adj c)" by (auto simp: adj_split)
    then show ?thesis using inv j by (auto simp: queue_inv_def entries_complete_def pieces_def)
  qed
  then show ?thesis by (simp add: best_pair_None)
qed

end

end
