(* ===== verification/TokMergeTheorems.thy ===== *)
theory TokMergeTheorems
  imports TokMergeProps
begin

text \<open>
  The SPM and the BPE tokenizer compute the greedy merging of their texts (theory \<open>TokMergeProps\<close>): the initial symbols
  are a chain, the work queues of both are instances of \<open>bigram_queue\<close>, and the final chain is read out.
\<close>

section \<open>The initial symbols\<close>

function utf8_chars :: "str \<Rightarrow> str list" where
  "utf8_chars s =
     (if s = [] then []
      else (let n = min (unicode_len_utf8 (hd s)) (length s) in take n s # utf8_chars (drop n s)))"
  by pat_completeness auto
termination
  by (relation "measure length") (auto simp: unicode_len_utf8_pos min_def)

declare utf8_chars.simps [simp del]

lemma concat_utf8_chars: "concat (utf8_chars s) = s"
proof (induction s rule: utf8_chars.induct)
  case (1 s)
  then show ?case by (subst utf8_chars.simps) (simp add: Let_def)
qed

lemma split_symbols_chars: "map sym_str (split_symbols base index offs) = utf8_chars (drop offs base)"
proof (induction base index offs rule: split_symbols.induct)
  case (1 base index offs)
  show ?case
  proof (cases "offs < length base")
    case True
    define n where "n = min (unicode_len_utf8 (base ! offs)) (length base - offs)"
    have "utf8_chars (drop offs base) = take n (drop offs base) # utf8_chars (drop (offs + n) base)"
      using True by (subst utf8_chars.simps) (simp add: Let_def n_def hd_drop_conv_nth add.commute)
    moreover have "map sym_str (split_symbols base (index + 1) (offs + n)) = utf8_chars (drop (offs + n) base)"
      using 1[OF True n_def refl] by simp
    ultimately show ?thesis using True
      by (subst split_symbols.simps) (simp add: Let_def n_def[symmetric] sym_str_def)
  qed (simp add: split_symbols.simps utf8_chars.simps)
qed

lemma split_symbols_nth:
  assumes "i < length (split_symbols base index offs)"
  shows "sym_base (split_symbols base index offs ! i) = base \<and> 0 < sym_n (split_symbols base index offs ! i) \<and>
    sym_prev (split_symbols base index offs ! i) = index + int i - 1 \<and>
    (if Suc i = length (split_symbols base index offs)
     then sym_next (split_symbols base index offs ! i) = - 1 \<and>
       sym_off (split_symbols base index offs ! i) + sym_n (split_symbols base index offs ! i) = length base
     else sym_next (split_symbols base index offs ! i) = index + int i + 1 \<and>
       sym_off (split_symbols base index offs ! i) + sym_n (split_symbols base index offs ! i)
         = sym_off (split_symbols base index offs ! Suc i))"
  using assms
proof (induction base index offs arbitrary: i rule: split_symbols.induct)
  case (1 base index offs)
  have offs: "offs < length base" using 1(2) by (simp add: split_symbols.simps split: if_splits)
  define n where "n = min (unicode_len_utf8 (base ! offs)) (length base - offs)"
  define rest where "rest = split_symbols base (index + 1) (offs + n)"
  have n: "0 < n" "offs + n \<le> length base" using offs unicode_len_utf8_pos by (auto simp: n_def min_def)
  have eq: "split_symbols base index offs =
    \<lparr>sym_prev = index - 1, sym_next = (if offs + n = length base then - 1 else index + 1), sym_base = base, sym_off = offs, sym_n = n\<rparr> # rest"
    using offs by (subst split_symbols.simps) (simp add: Let_def n_def rest_def)
  have empty: "rest = [] \<longleftrightarrow> offs + n = length base"
    using n unfolding rest_def by (subst split_symbols.simps) (auto simp: Let_def)
  have first: "rest \<noteq> [] \<Longrightarrow> sym_off (rest ! 0) = offs + n"
    unfolding rest_def by (subst split_symbols.simps, subst (asm) split_symbols.simps) (simp add: Let_def split: if_splits)
  show ?case
  proof (cases i)
    case 0
    then show ?thesis using n empty first by (auto simp: eq)
  next
    case (Suc k)
    then have k: "k < length rest" using 1(2) by (simp add: eq)
    have "sym_base (rest ! k) = base \<and> 0 < sym_n (rest ! k) \<and> sym_prev (rest ! k) = index + 1 + int k - 1 \<and>
      (if Suc k = length rest then sym_next (rest ! k) = - 1 \<and> sym_off (rest ! k) + sym_n (rest ! k) = length base
       else sym_next (rest ! k) = index + 1 + int k + 1 \<and> sym_off (rest ! k) + sym_n (rest ! k) = sym_off (rest ! Suc k))"
      unfolding rest_def by (rule 1(1)[OF offs n_def refl]) (use k in \<open>simp add: rest_def\<close>)
    moreover have "split_symbols base index offs ! i = rest ! k" "split_symbols base index offs ! Suc i = rest ! Suc k"
      "Suc i = length (split_symbols base index offs) \<longleftrightarrow> Suc k = length rest" using Suc by (simp_all add: eq)
    ultimately show ?thesis using Suc by (simp only: of_nat_Suc) (simp add: algebra_simps split: if_splits)
  qed
qed

lemma adj_upt: "(i, j) \<in> set (adj [0..<n]) \<longleftrightarrow> j = Suc i \<and> j < n"
proof
  assume "(i, j) \<in> set (adj [0..<n])"
  then obtain xs ys where c: "[0..<n] = xs @ i # j # ys" by (auto simp: adj_split)
  have len: "length xs + 2 + length ys = n" using arg_cong[OF c, of length] by simp
  have "[0..<n] ! length xs = i" "[0..<n] ! Suc (length xs) = j" by (simp_all add: c nth_append)
  then show "j = Suc i \<and> j < n" using len by simp
next
  assume j: "j = Suc i \<and> j < n"
  then have "[0..<n] = [0..<i] @ i # j # [Suc j..<n]"
    by (metis Suc_lessD le0 less_imp_le upt_add_eq_append upt_conv_Cons le_add_diff_inverse)
  then show "(i, j) \<in> set (adj [0..<n])" by (auto simp: adj_split)
qed

lemma split_symbols_layout: "layout base (split_symbols base index offs)"
proof -
  define syms where "syms = split_symbols base index offs"
  have step: "sym_off (syms ! i) < sym_off (syms ! Suc i)" if "Suc i < length syms" for i
    using split_symbols_nth[of i base index offs] that by (simp add: syms_def split: if_splits)
  have "sym_off (syms ! i) < sym_off (syms ! j)" if "i < j" "j < length syms" for i j
    using that
  proof (induction j)
    case (Suc j)
    then show ?case using step[of j] by (cases "i = j") auto
  qed simp
  then show ?thesis using split_symbols_nth[of _ base index offs] by (auto simp: layout_def syms_def)
qed

lemma split_symbols_chain:
  assumes "base \<noteq> []"
  shows "chain base (split_symbols base 0 0) [0..<length (split_symbols base 0 0)]"
proof -
  define syms where "syms = split_symbols base 0 0"
  have ne: "0 < length syms" unfolding syms_def using assms by (subst split_symbols.simps) (simp add: Let_def)
  note nth = split_symbols_nth[of _ base 0 0, folded syms_def]
  have "sym_next (syms ! (length syms - 1)) = - 1 \<and> sym_off (syms ! (length syms - 1)) + sym_n (syms ! (length syms - 1)) = length base"
    using nth[of "length syms - 1"] ne by simp
  moreover have "sym_prev (syms ! 0) = - 1" using nth[of 0] ne by simp
  moreover have "sym_next (syms ! i) = int (Suc i) \<and> sym_prev (syms ! Suc i) = int i \<and> sym_off (syms ! i) + sym_n (syms ! i) = sym_off (syms ! Suc i)"
    if "Suc i < length syms" for i
    using nth[of i] nth[of "Suc i"] that by (simp split: if_splits)
  moreover have "set [0..<length syms] = {i. i < length syms \<and> 0 < sym_n (syms ! i)}" using nth by auto
  moreover have "hd [0..<length syms] = 0" "last [0..<length syms] = length syms - 1" using ne by simp_all
  ultimately show ?thesis unfolding chain_def syms_def[symmetric] using ne by (auto simp: adj_upt)
qed

text \<open>The symbols of a chain are the symbols with a text, in their order.\<close>

lemma chain_filter:
  assumes "chain base syms c"
  shows "List.filter (\<lambda>s. 0 < sym_n s) syms = map (nth syms) c"
proof -
  define c' where "c' = List.filter (\<lambda>i. 0 < sym_n (syms ! i)) [0..<length syms]"
  have "sorted_wrt (<) c'" unfolding c'_def by (rule sorted_wrt_filter) simp
  moreover have "set c' = set c" "sorted_wrt (<) c" using assms by (auto simp: chain_def c'_def)
  ultimately have "c' = c" using strict_sorted_equal by blast
  moreover have "List.filter (\<lambda>s. 0 < sym_n s) (map (nth syms) [0..<length syms]) = map (nth syms) c'"
    by (simp add: filter_map c'_def comp_def)
  ultimately show ?thesis by (simp add: map_nth)
qed

section \<open>The SPM tokenizer\<close>

text \<open>What loading a vocabulary establishes: \<open>token_to_id[word] = i\<close> for the index \<open>i\<close> of a token.\<close>

definition vocab_wf :: "'s llama_vocab \<Rightarrow> bool" where
  "vocab_wf v \<longleftrightarrow> length (id_to_token v) < 2 ^ 31 \<and> (\<forall>t tok. token_to_id v t = Some tok \<longrightarrow> 0 \<le> tok \<and> nat tok < length (id_to_token v))"

definition spm_key :: "'s llama_vocab \<Rightarrow> str \<Rightarrow> str \<Rightarrow> 's option" where
  "spm_key v a b = (case token_to_id v (a @ b) of None \<Rightarrow> None | Some t \<Rightarrow> Some (td_score (id_to_token v ! nat t)))"

definition spm_abs :: "'s llm_bigram_spm \<Rightarrow> 's qentry" where
  "spm_abs b = (spm_left b, spm_right b, spm_score b, spm_size b)"

abbreviation (input) spm_better :: "('s::linorder) \<Rightarrow> 's \<Rightarrow> bool" where
  "spm_better a b \<equiv> b < a"

interpretation spm: bigram_queue spm_better "spm_key v" for v
  by unfold_locales auto

lemma spm_comparator_abs: "spm_comparator x y = entry_lt spm_better (spm_abs x) (spm_abs y)"
  by (simp add: spm_comparator_def entry_lt_def spm_abs_def)

interpretation spm_pq: weak_order spm_comparator
  by unfold_locales (unfold spm_comparator_abs,
    fact weak_order.asym[OF spm.entry_weak_order], fact weak_order.trans_not[OF spm.entry_weak_order])

lemma chain_pair_text:
  assumes "layout base syms" "chain base syms c" "(i, j) \<in> set (adj c)"
  shows "take (sym_n (syms ! i) + sym_n (syms ! j)) (drop (sym_off (syms ! i)) (sym_base (syms ! i)))
       = sym_str (syms ! i) @ sym_str (syms ! j)"
    and "length (sym_str (syms ! i) @ sym_str (syms ! j)) = sym_n (syms ! i) + sym_n (syms ! j)"
proof -
  note p = chain_pair[OF assms]
  have base: "sym_base (syms ! i) = base" "sym_base (syms ! j) = base" using assms(1) p by (auto simp: layout_def)
  have "sym_off (syms ! j) + sym_n (syms ! j) \<le> length base"
    by (rule chain_end[OF assms(1,2)]) (use adj_mem[OF assms(3)] in simp)
  then show "length (sym_str (syms ! i) @ sym_str (syms ! j)) = sym_n (syms ! i) + sym_n (syms ! j)"
    using p(8) by (simp add: sym_str_def base)
  show "take (sym_n (syms ! i) + sym_n (syms ! j)) (drop (sym_off (syms ! i)) (sym_base (syms ! i)))
       = sym_str (syms ! i) @ sym_str (syms ! j)"
    using p(8) by (simp add: sym_str_def base take_add add.commute)
qed

lemma vocab_wf_token:
  assumes "vocab_wf v" "token_to_id v t = Some tok"
  shows "text_to_token v t = tok" "tok \<noteq> LLAMA_TOKEN_NULL" "as_u32 tok < n_tokens v"
    "get_token_data v tok = Inr (id_to_token v ! nat tok)"
proof -
  have t: "0 \<le> tok" "nat tok < length (id_to_token v)" "length (id_to_token v) < 2 ^ 31" using assms by (auto simp: vocab_wf_def)
  then have "u32 (length (id_to_token v)) = length (id_to_token v)" by (intro u32_id) simp
  moreover have "as_u32 tok = nat tok" using t by (simp add: as_u32_def)
  ultimately show "as_u32 tok < n_tokens v" using t by (simp add: n_tokens_def)
  show "text_to_token v t = tok" "tok \<noteq> LLAMA_TOKEN_NULL" "get_token_data v tok = Inr (id_to_token v ! nat tok)"
    using t assms(2) by (simp_all add: text_to_token_def get_token_data_def)
qed

definition rev_known :: "'s llama_vocab \<Rightarrow> 's spm_session \<Rightarrow> bool" where
  "rev_known v st \<longleftrightarrow> (\<forall>t p. spm_rev_merge st t = Some p \<longrightarrow> text_to_token v t \<noteq> LLAMA_TOKEN_NULL)"

lemma try_add_abs:
  assumes v: "vocab_wf v" and rev: "rev_known v st" and syms: "spm_symbols st = syms"
    and pair: "layout base syms" "chain base syms c" "i = - 1 \<or> j = - 1 \<or> (nat i, nat j) \<in> set (adj c)"
  shows "\<exists>st'. try_add_bigram v i j st = Inr st' \<and> spm_symbols st' = syms \<and> rev_known v st' \<and>
     map spm_abs (spm_queue st') = map spm_abs (spm_queue st) @ fresh (spm_key v) syms i j"
proof (cases "i = - 1 \<or> j = - 1")
  case True
  then show ?thesis using rev syms by (auto simp: try_add_bigram_def fresh_def)
next
  case False
  then have "(nat i, nat j) \<in> set (adj c)" using pair by simp
  note ptx = chain_pair_text[OF pair(1,2) this]
  define t where "t = sym_str (syms ! nat i) @ sym_str (syms ! nat j)"
  show ?thesis
  proof (cases "token_to_id v t")
    case None
    then show ?thesis using False rev syms ptx by (simp add: try_add_bigram_def fresh_def Let_def text_to_token_def spm_key_def t_def)
  next
    case (Some tok)
    note tok = vocab_wf_token[OF v Some]
    have "try_add_bigram v i j st = Inr (st\<lparr>spm_queue := spm_queue st @ [\<lparr>spm_left = nat i, spm_right = nat j,
        spm_score = td_score (id_to_token v ! nat tok), spm_size = sym_n (syms ! nat i) + sym_n (syms ! nat j)\<rparr>],
        spm_rev_merge := (spm_rev_merge st)(t \<mapsto> (nat i, nat j))\<rparr>)"
      using False tok ptx unfolding t_def by (simp add: try_add_bigram_def Let_def syms)
    moreover have "fresh (spm_key v) syms i j = [(nat i, nat j, td_score (id_to_token v ! nat tok), sym_n (syms ! nat i) + sym_n (syms ! nat j))]"
      using False Some by (simp add: fresh_def spm_key_def t_def)
    moreover have "rev_known v (st\<lparr>spm_queue := q, spm_rev_merge := (spm_rev_merge st)(t \<mapsto> p)\<rparr>)" for q p
      using rev tok by (simp add: rev_known_def)
    ultimately show ?thesis using syms by (simp add: spm_abs_def)
  qed
qed

lemma spm_seed_abs:
  assumes v: "vocab_wf v" and syms: "layout base syms" "chain base syms c"
  shows "\<forall>i \<in> set is. (i - 1, i) \<in> set (adj c) \<and> 0 < i \<Longrightarrow> rev_known v st \<Longrightarrow> spm_symbols st = syms \<Longrightarrow>
    \<exists>st'. spm_seed v is st = Inr st' \<and> spm_symbols st' = syms \<and> rev_known v st' \<and>
      map spm_abs (spm_queue st') = map spm_abs (spm_queue st) @ concat (map (\<lambda>i. fresh (spm_key v) syms (int i - 1) (int i)) is)"
proof (induction "is" arbitrary: st)
  case (Cons i "is")
  have "int i - 1 = - 1 \<or> int i = - 1 \<or> (nat (int i - 1), nat (int i)) \<in> set (adj c)" using Cons.prems by (auto simp: nat_diff_distrib)
  from try_add_abs[OF v Cons.prems(2,3) syms this]
  obtain st1 where st1: "try_add_bigram v (int i - 1) (int i) st = Inr st1" "spm_symbols st1 = syms" "rev_known v st1"
    "map spm_abs (spm_queue st1) = map spm_abs (spm_queue st) @ fresh (spm_key v) syms (int i - 1) (int i)" by blast
  then show ?case using Cons.IH[of st1] Cons.prems by auto
qed simp

lemma queue_inv_mono: "queue_inv key base syms c Q \<Longrightarrow> Q' \<subseteq> Q \<Longrightarrow> entries_complete key syms c Q' \<Longrightarrow> queue_inv key base syms c Q'"
  by (auto simp: queue_inv_def)

text \<open>A stale entry is not needed for completeness.\<close>

lemma queue_inv_drop:
  assumes "queue_inv key base syms c Q" "entry_stale syms e" "Q - {e} \<subseteq> Q'" "Q' \<subseteq> Q"
  shows "queue_inv key base syms c Q'"
proof (rule queue_inv_mono[OF assms(1,4)])
  have "(i, j, k, sym_n (syms ! i) + sym_n (syms ! j)) \<in> Q'"
    if ij: "(i, j) \<in> set (adj c)" and k: "key (sym_str (syms ! i)) (sym_str (syms ! j)) = Some k" for i j k
  proof -
    have "(i, j, k, sym_n (syms ! i) + sym_n (syms ! j)) \<noteq> e"
      using chain_pair(4,5)[of base syms c i j] ij assms(1,2) by (auto simp: queue_inv_def entry_stale_def)
    moreover have "(i, j, k, sym_n (syms ! i) + sym_n (syms ! j)) \<in> Q"
      using assms(1) ij k by (auto simp: queue_inv_def entries_complete_def)
    ultimately show ?thesis using assms(3) by blast
  qed
  then show "entries_complete key syms c Q'" by (auto simp: entries_complete_def)
qed

lemma remove1_bounds:
  shows "set q - {e} \<subseteq> set (remove1 e q)" and "set (remove1 e q) \<subseteq> set q"
proof -
  show "set q - {e} \<subseteq> set (remove1 e q)"
  proof
    fix x assume "x \<in> set q - {e}"
    then show "x \<in> set (remove1 e q)" by (simp add: in_set_remove1)
  qed
  show "set (remove1 e q) \<subseteq> set q" by (rule set_remove1_subset)
qed

text \<open>A merge, on the queue entries: the entry leaves the queue and the entries of the new pairs are added.\<close>

lemma merge_queue_inv:
  assumes inv: "queue_inv key base syms c (set q)" and c: "c = xs @ l # r # ys" and s': "syms' = merge_symbols l r syms"
  shows "queue_inv key base syms' (xs @ l # ys) (set (remove1 (l, r, k, sz) q
      @ fresh key syms' (sym_prev (syms' ! l)) (int l) @ fresh key syms' (int l) (sym_next (syms' ! l))))"
proof -
  show ?thesis
    by (rule merge_inv[OF inv c s' refl, where k = k and sz = sz]) (use remove1_bounds[where q = q and e = "(l, r, k, sz)"] in \<open>auto simp: subset_iff\<close>)
qed

lemma map_remove1_abs: "x \<in> set q \<Longrightarrow> inj_on f (set q) \<Longrightarrow> map f (remove1 x q) = remove1 (f x) (map f q)"
  by (induction q) (auto simp: inj_on_def)

lemma spm_abs_inj: "inj_on spm_abs A"
  by (auto simp: inj_on_def spm_abs_def)

lemma prev_next_pairs:
  assumes "chain base syms c" "l \<in> set c"
  shows "sym_prev (syms ! l) = - 1 \<or> int l = - 1 \<or> (nat (sym_prev (syms ! l)), nat (int l)) \<in> set (adj c)"
    and "int l = - 1 \<or> sym_next (syms ! l) = - 1 \<or> (nat (int l), nat (sym_next (syms ! l))) \<in> set (adj c)"
  using chain_prev[OF assms] chain_next[OF assms] by auto

lemma spm_loop_greedy:
  assumes v: "vocab_wf v"
  shows "queue_inv (spm_key v) base (spm_symbols st) c (spm_abs ` set (spm_queue st)) \<Longrightarrow> rev_known v st \<Longrightarrow>
    \<exists>st' c'. spm_loop v st = Inr st' \<and> layout base (spm_symbols st') \<and> chain base (spm_symbols st') c' \<and> hd c' = hd c \<and> rev_known v st' \<and>
      pieces (spm_symbols st') c' = greedy_merge spm_better (spm_key v) (pieces (spm_symbols st) c)"
  using v
proof (induction v st arbitrary: c rule: spm_loop.induct)
  case (1 v st)
  define syms where "syms = spm_symbols st"
  define q where "q = spm_queue st"
  have inv: "queue_inv (spm_key v) base syms c (set (map spm_abs q))" using 1(3) by (simp add: syms_def q_def)
  then have lay: "layout base syms" and ch: "chain base syms c" by (auto simp: queue_inv_def)
  show ?case
  proof (cases "q = []")
    case True
    then have "best_pair spm_better (spm_key v) (pieces syms c) = None" using spm.best_none[of v base syms c] inv by simp
    then have "greedy_merge spm_better (spm_key v) (pieces syms c) = pieces syms c" by (simp add: greedy_merge.simps)
    then show ?thesis using True lay ch 1(4) by (subst spm_loop.simps) (auto simp: syms_def q_def)
  next
    case False
    define b where "b = pq_top spm_comparator q"
    define st1 where "st1 = st\<lparr>spm_queue := pq_pop spm_comparator q\<rparr>"
    have b: "b \<in> set q" unfolding b_def using False by (rule pq_top_in)
    obtain l r k sz where e: "spm_abs b = (l, r, k, sz)" by (rule prod_cases4)
    have lr: "spm_left b = l" "spm_right b = r" using e by (auto simp: spm_abs_def)
    have eQ: "(l, r, k, sz) \<in> set (map spm_abs q)" using b e by force
    then have range: "l < length syms" "r < length syms" using inv by (auto simp: queue_inv_def entry_sound_def)
    have pop: "map spm_abs (spm_queue st1) = remove1 (l, r, k, sz) (map spm_abs q)"
      using map_remove1_abs[OF b spm_abs_inj] e by (simp add: st1_def pq_pop_def b_def)
    have stale: "spm_stale b syms = entry_stale syms (l, r, k, sz)" using e by (auto simp: spm_stale_def entry_stale_def spm_abs_def)
    have loop: "spm_loop v st = (if spm_stale b syms then spm_loop v st1
        else (case spm_merge v b st1 of Inl e \<Rightarrow> Inl e | Inr st'' \<Rightarrow> spm_loop v st''))"
      using False range by (subst spm_loop.simps) (simp add: Let_def st1_def b_def syms_def q_def lr[unfolded b_def q_def] not_le)
    show ?thesis
    proof (cases "spm_stale b syms")
      case True
      have sub: "set (map spm_abs q) - {(l, r, k, sz)} \<subseteq> set (map spm_abs (spm_queue st1))"
        "set (map spm_abs (spm_queue st1)) \<subseteq> set (map spm_abs q)" unfolding pop by (rule remove1_bounds)+
      have "queue_inv (spm_key v) base (spm_symbols st1) c (spm_abs ` set (spm_queue st1))"
        using queue_inv_drop[OF inv True[unfolded stale] sub] by (simp add: st1_def syms_def)
      then show ?thesis
        using 1(1)[of b st1 c] False True 1(4,5) range loop
        by (simp add: st1_def b_def syms_def q_def lr[unfolded b_def q_def] rev_known_def)
    next
      case live: False
      have top: "\<not> entry_lt spm_better (l, r, k, sz) e'" if "e' \<in> set (map spm_abs q)" for e'
        using that spm_pq.top_greatest[of _ q] by (auto simp: spm_comparator_abs b_def[symmetric] e)
      obtain xs ys where c: "c = xs @ l # r # ys" and best: "best_pair spm_better (spm_key v) (pieces syms c) = Some (length xs, k)"
        using spm.best_of_top[OF inv eQ live[unfolded stale] top] by blast
      define syms' where "syms' = merge_symbols l r syms"
      have inv': "queue_inv (spm_key v) base syms' (xs @ l # ys) (set (map spm_abs (spm_queue st1)
          @ fresh (spm_key v) syms' (sym_prev (syms' ! l)) (int l) @ fresh (spm_key v) syms' (int l) (sym_next (syms' ! l))))"
        unfolding pop by (rule merge_queue_inv[OF inv c syms'_def])
      then have lay': "layout base syms'" and ch': "chain base syms' (xs @ l # ys)" by (auto simp: queue_inv_def)
      have lmem: "l \<in> set (xs @ l # ys)" by simp
      note pn = prev_next_pairs[OF ch' lmem]
      have rev1: "rev_known v (st1\<lparr>spm_symbols := syms'\<rparr>)" using 1(4) by (simp add: rev_known_def st1_def)
      obtain st2 where st2: "try_add_bigram v (sym_prev (syms' ! l)) (int l) (st1\<lparr>spm_symbols := syms'\<rparr>) = Inr st2"
        "spm_symbols st2 = syms'" "rev_known v st2"
        "map spm_abs (spm_queue st2) = map spm_abs (spm_queue st1) @ fresh (spm_key v) syms' (sym_prev (syms' ! l)) (int l)"
        using try_add_abs[OF 1(5) rev1 _ lay' ch' pn(1)] by auto
      obtain st3 where st3: "try_add_bigram v (int l) (sym_next (syms' ! l)) st2 = Inr st3"
        "spm_symbols st3 = syms'" "rev_known v st3"
        "map spm_abs (spm_queue st3) = map spm_abs (spm_queue st2) @ fresh (spm_key v) syms' (int l) (sym_next (syms' ! l))"
        using try_add_abs[OF 1(5) st2(3,2) lay' ch' pn(2)] by auto
      have m: "spm_merge v b st1 = Inr st3"
        using st2(1) st3(1) by (simp add: spm_merge_def Let_def lr st1_def syms'_def syms_def)
      have "queue_inv (spm_key v) base (spm_symbols st3) (xs @ l # ys) (spm_abs ` set (spm_queue st3))"
        using inv' unfolding st3(2) set_map[symmetric] st3(4) st2(4) by simp
      moreover have "hd (xs @ l # ys) = hd c" using c by (cases xs) auto
      moreover have "greedy_merge spm_better (spm_key v) (pieces syms c) = greedy_merge spm_better (spm_key v) (pieces syms' (xs @ l # ys))"
        using best merge_pieces[OF lay ch c] by (subst greedy_merge.simps) (simp add: syms'_def)
      ultimately show ?thesis
        using 1(2)[of b st1 st3 "xs @ l # ys"] False live 1(5) range m st3(2,3) loop
        by (simp add: st1_def b_def syms_def q_def lr[unfolded b_def q_def] not_le)
    qed
  qed
qed

text \<open>The tokens of the pieces: a piece with a token is that token, any other piece its bytes.\<close>

definition spm_piece :: "'s llama_vocab \<Rightarrow> str \<Rightarrow> llama_token list \<Rightarrow> llama_token list vres" where
  "spm_piece v p out = (if text_to_token v p \<noteq> LLAMA_TOKEN_NULL then Inr (out @ [text_to_token v p]) else spm_bytes v p out)"

fun spm_pieces :: "'s llama_vocab \<Rightarrow> str list \<Rightarrow> llama_token list \<Rightarrow> llama_token list vres" where
  "spm_pieces v [] out = Inr out"
| "spm_pieces v (p # ps) out = (case spm_piece v p out of Inl e \<Rightarrow> Inl e | Inr out' \<Rightarrow> spm_pieces v ps out')"

text \<open>The recursion of \<open>resegment\<close> through \<open>rev_merge\<close> is never taken: only texts with a token are entered there.\<close>

lemma resegment_piece: "rev_known v st \<Longrightarrow> resegment v st symbol out = Some (spm_piece v (sym_str symbol) out)"
  by (subst resegment.simps) (auto simp: rev_known_def spm_piece_def Let_def split: option.split)

lemma spm_output_chain:
  assumes "layout base (spm_symbols st)" "chain base (spm_symbols st) c" "rev_known v st"
  shows "c = xs @ i # ys \<Longrightarrow> spm_output v st (int i) out = Some (spm_pieces v (pieces (spm_symbols st) (i # ys)) out)"
proof (induction ys arbitrary: xs i out)
  case Nil
  have i: "i < length (spm_symbols st)" using chain_alive[OF assms(2), of i] Nil by simp
  have nx: "sym_next (spm_symbols st ! i) = - 1" using assms(2) Nil by (simp add: chain_def)
  have fin: "spm_output v st (- 1) o' = Some (Inr o')" for o' by (subst spm_output.simps) simp
  show ?case using i by (subst spm_output.simps)
    (simp add: resegment_piece[OF assms(3)] pieces_def nx fin not_le split: sum.split)
next
  case (Cons j ys)
  have i: "i < length (spm_symbols st)" using chain_alive[OF assms(2), of i] Cons.prems by simp
  have "(i, j) \<in> set (adj c)" using Cons.prems by (auto simp: adj_split)
  then have nx: "sym_next (spm_symbols st ! i) = int j" by (rule chain_pair(6)[OF assms(1,2)])
  have ih: "spm_output v st (int j) o' = Some (spm_pieces v (pieces (spm_symbols st) (j # ys)) o')" for o'
    by (rule Cons.IH[of "xs @ [i]"]) (simp add: Cons.prems)
  show ?case using i by (subst spm_output.simps)
    (simp add: resegment_piece[OF assms(3)] pieces_def nx ih[unfolded pieces_def] not_le split: sum.split)
qed

lemma initial_inv:
  assumes "base \<noteq> []" and syms: "syms = split_symbols base 0 0"
  shows "queue_inv key base syms [0..<length syms] (set (concat (map (\<lambda>i. fresh key syms (int i - 1) (int i)) [1..<length syms])))"
    (is "queue_inv key base syms ?c ?Q")
proof -
  have lay: "layout base syms" unfolding syms by (rule split_symbols_layout)
  have ch: "chain base syms ?c" unfolding syms by (rule split_symbols_chain[OF assms(1)])
  have fr: "fresh key syms (int (Suc i) - 1) (int (Suc i)) = fresh key syms (int i) (int (Suc i))" for i by simp
  have sound: "entry_sound key syms e" if e: "e \<in> ?Q" for e
  proof -
    obtain i where i: "i \<in> set [1..<length syms]" "e \<in> set (fresh key syms (int i - 1) (int i))" using e by auto
    have "0 < i" using i(1) by simp
    then obtain k where k: "i = Suc k" using gr0_implies_Suc by blast
    have "(k, Suc k) \<in> set (adj ?c)" using i k by (simp add: adj_upt)
    from fresh_sound[OF lay ch this] show ?thesis using i k by simp
  qed
  have "(i, j, k, sym_n (syms ! i) + sym_n (syms ! j)) \<in> ?Q"
    if ij: "(i, j) \<in> set (adj ?c)" and k: "key (sym_str (syms ! i)) (sym_str (syms ! j)) = Some k" for i j k
  proof -
    have j: "j = Suc i" "j < length syms" using ij by (simp_all add: adj_upt)
    then have "(i, j, k, sym_n (syms ! i) + sym_n (syms ! j)) \<in> set (fresh key syms (int j - 1) (int j))"
      using k by (simp add: fresh_def nat_add_distrib)
    moreover have "j \<in> set [1..<length syms]" using j by simp
    ultimately show ?thesis by auto
  qed
  then show ?thesis using lay ch sound by (auto simp: queue_inv_def entries_complete_def)
qed

lemma initial_pieces: "pieces (split_symbols base 0 0) [0..<length (split_symbols base 0 0)] = utf8_chars base"
proof -
  have "map (\<lambda>i. sym_str (xs ! i)) [0..<length xs] = map sym_str xs" for xs
    by (rule nth_equalityI) simp_all
  then show ?thesis unfolding pieces_def using split_symbols_chars[of base 0 0] by simp
qed

lemma spm_tokenize_greedy:
  assumes v: "vocab_wf v" and ne: "base \<noteq> []"
  shows "spm_tokenize v base out = Some (spm_pieces v (greedy_merge spm_better (spm_key v) (utf8_chars base)) out)"
proof -
  define syms where "syms = split_symbols base 0 0"
  define st where "st = \<lparr>spm_symbols = syms, spm_queue = [] :: 'a llm_bigram_spm list, spm_rev_merge = Map.empty\<rparr>"
  have lay: "layout base syms" unfolding syms_def by (rule split_symbols_layout)
  have ch: "chain base syms [0..<length syms]" unfolding syms_def by (rule split_symbols_chain[OF ne])
  have "\<forall>i \<in> set [1..<length syms]. (i - 1, i) \<in> set (adj [0..<length syms]) \<and> 0 < i" by (auto simp: adj_upt)
  from spm_seed_abs[OF v lay ch this, of st] obtain st1 where st1: "spm_seed v [1..<length syms] st = Inr st1" "spm_symbols st1 = syms"
    "rev_known v st1" "map spm_abs (spm_queue st1) = concat (map (\<lambda>i. fresh (spm_key v) syms (int i - 1) (int i)) [1..<length syms])"
    by (auto simp: st_def rev_known_def)
  have "queue_inv (spm_key v) base (spm_symbols st1) [0..<length syms] (spm_abs ` set (spm_queue st1))"
    using initial_inv[OF ne syms_def, of "spm_key v"] by (simp only: st1(2) set_map[symmetric] st1(4))
  from spm_loop_greedy[OF v this st1(3)] obtain st2 c where st2: "spm_loop v st1 = Inr st2" "layout base (spm_symbols st2)"
    "chain base (spm_symbols st2) c" "hd c = hd [0..<length syms]" "rev_known v st2"
    "pieces (spm_symbols st2) c = greedy_merge spm_better (spm_key v) (pieces (spm_symbols st1) [0..<length syms])" by blast
  have "0 < length syms" using ch by (simp add: chain_def)
  then have "hd c = 0" using st2(4) by simp
  then obtain ys where "c = [] @ 0 # ys" using st2(3) by (cases c) (auto simp: chain_def)
  from spm_output_chain[OF st2(2,3,5) this, of out] show ?thesis
    using st1(1) st2(1,6) st1(2) initial_pieces[of base] \<open>c = [] @ 0 # ys\<close>
    by (simp add: spm_tokenize_def Let_def syms_def[symmetric] st_def[symmetric])
qed

text \<open>On the empty text the read-out starts at a symbol that does not exist.\<close>

lemma spm_tokenize_empty: "spm_tokenize v [] out = Some (Inl Undefined)"
  by (simp add: spm_tokenize_def split_symbols.simps Let_def spm_loop.simps spm_output.simps)

section \<open>The BPE tokenizer\<close>

definition bpe_key :: "'s llama_vocab \<Rightarrow> str \<Rightarrow> str \<Rightarrow> int option" where
  "bpe_key v a b = (case bpe_ranks v (a, b) of None \<Rightarrow> None | Some r \<Rightarrow> if r < 0 then None else Some r)"

definition bpe_abs :: "llm_bigram_bpe \<Rightarrow> int qentry" where
  "bpe_abs b = (bpe_left b, bpe_right b, bpe_rank b, bpe_size b)"

abbreviation (input) bpe_better :: "int \<Rightarrow> int \<Rightarrow> bool" where
  "bpe_better a b \<equiv> a < b"

interpretation bpe: bigram_queue bpe_better "bpe_key v" for v
  by unfold_locales auto

lemma bpe_comparator_abs: "bpe_comparator x y = entry_lt bpe_better (bpe_abs x) (bpe_abs y)"
  by (simp add: bpe_comparator_def entry_lt_def bpe_abs_def)

interpretation bpe_pq: weak_order bpe_comparator
  by unfold_locales (unfold bpe_comparator_abs,
    fact weak_order.asym[OF bpe.entry_weak_order], fact weak_order.trans_not[OF bpe.entry_weak_order])

text \<open>The text of an entry is the text its size and its left symbol describe, so comparing texts is comparing sizes.\<close>

definition bpe_text_ok :: "llm_symbol list \<Rightarrow> llm_bigram_bpe \<Rightarrow> bool" where
  "bpe_text_ok syms b \<longleftrightarrow> bpe_text b = sub syms (bpe_left b) (bpe_size b)"

lemma bpe_text_ok_merge:
  "l < length syms \<Longrightarrow> r < length syms \<Longrightarrow> l \<noteq> r \<Longrightarrow> bpe_text_ok syms b \<Longrightarrow> bpe_text_ok (merge_symbols l r syms) b"
  by (simp add: bpe_text_ok_def sub_def merge_symbols_sel)

lemma bpe_stale_abs:
  assumes inv: "queue_inv key base syms c Q" and e: "bpe_abs b \<in> Q" and ok: "bpe_text_ok syms b"
  shows "bpe_stale b syms = entry_stale syms (bpe_abs b)"
proof -
  have lay: "layout base syms" and ch: "chain base syms c" using inv by (auto simp: queue_inv_def)
  define l r sz where "l = bpe_left b" and "r = bpe_right b" and "sz = bpe_size b"
  have abs: "bpe_abs b = (l, r, bpe_rank b, sz)" by (simp add: bpe_abs_def l_def r_def sz_def)
  show ?thesis
  proof (cases "sym_n (syms ! l) = 0 \<or> sym_n (syms ! r) = 0")
    case True
    then show ?thesis by (auto simp: bpe_stale_def entry_stale_def abs l_def r_def)
  next
    case False
    obtain x y where xy: "l < r" "r < length syms" "0 < x" "0 < y" "sz = x + y" "sym_off (syms ! l) + x = sym_off (syms ! r)"
      "x \<le> sym_n (syms ! l)" "y \<le> sym_n (syms ! r)"
      using inv e False by (auto simp: queue_inv_def entry_sound_def abs)
    have mem: "l \<in> set c" "r \<in> set c" using xy False chain_alive[OF ch] by auto
    have base: "sym_base (syms ! l) = base" "sym_base (syms ! r) = base" using lay xy by (auto simp: layout_def)
    note ends = chain_end[OF lay ch mem(1)] chain_end[OF lay ch mem(2)]
    have len: "length (sym_str (syms ! l)) = sym_n (syms ! l)" "length (sym_str (syms ! r)) = sym_n (syms ! r)"
      using ends by (simp_all add: sym_str_def base)
    have txt_len: "length (bpe_text b) = sz"
      using ok ends xy by (simp add: bpe_text_ok_def sub_def base l_def[symmetric] sz_def[symmetric])
    have "sym_str (syms ! l) @ sym_str (syms ! r) = bpe_text b" if "sym_n (syms ! l) + sym_n (syms ! r) = sz"
    proof -
      have "(l, r) \<in> set (adj c)" using live_entry[OF inv, of l r "bpe_rank b" sz] e abs that False by (simp add: entry_stale_def)
      from chain_pair_text(1)[OF lay ch this] show ?thesis
        using ok that by (simp add: bpe_text_ok_def sub_def l_def sz_def)
    qed
    moreover have "sym_n (syms ! l) + sym_n (syms ! r) = sz" if "sym_str (syms ! l) @ sym_str (syms ! r) = bpe_text b"
      using arg_cong[OF that, of length] len txt_len by simp
    ultimately show ?thesis using False by (auto simp: bpe_stale_def entry_stale_def abs l_def r_def)
  qed
qed

definition no_space :: "str \<Rightarrow> bool" where
  "no_space s \<longleftrightarrow> 32 \<notin> set s"

lemma sym_str_no_space: "layout base syms \<Longrightarrow> i < length syms \<Longrightarrow> no_space base \<Longrightarrow> 32 \<notin> set (sym_str (syms ! i))"
  by (auto simp: layout_def sym_str_def no_space_def dest!: in_set_takeD in_set_dropD)

lemma add_new_abs:
  assumes sp: "no_space base" and syms: "bpe_symbols st = syms" and ok: "\<forall>b \<in> set (bpe_queue st). bpe_text_ok syms b"
    and pair: "layout base syms" "chain base syms c" "i = - 1 \<or> j = - 1 \<or> (nat i, nat j) \<in> set (adj c)"
  shows "\<exists>st'. add_new_bigram v i j st = Inr st' \<and> bpe_symbols st' = syms \<and> (\<forall>b \<in> set (bpe_queue st'). bpe_text_ok syms b) \<and>
     map bpe_abs (bpe_queue st') = map bpe_abs (bpe_queue st) @ fresh (bpe_key v) syms i j"
proof (cases "i = - 1 \<or> j = - 1")
  case True
  then show ?thesis using ok syms by (auto simp: add_new_bigram_def fresh_def)
next
  case False
  then have ij: "(nat i, nat j) \<in> set (adj c)" using pair by simp
  note ptx = chain_pair_text[OF pair(1,2) ij] and p = chain_pair[OF pair(1,2) ij]
  have ns: "32 \<notin> set (sym_str (syms ! nat i))" "32 \<notin> set (sym_str (syms ! nat j))"
    using sym_str_no_space[OF pair(1) _ sp] p by auto
  have new: "bpe_text_ok syms \<lparr>bpe_left = nat i, bpe_right = nat j, bpe_text = sym_str (syms ! nat i) @ sym_str (syms ! nat j),
      bpe_rank = k, bpe_size = sym_n (syms ! nat i) + sym_n (syms ! nat j)\<rparr>" for k
    using ptx by (simp add: bpe_text_ok_def sub_def)
  have len: "length (sym_str (syms ! nat i)) + length (sym_str (syms ! nat j)) = sym_n (syms ! nat i) + sym_n (syms ! nat j)"
    using ptx(2) by simp
  show ?thesis
    using False ns ok new len syms
    by (auto simp: add_new_bigram_def fresh_def Let_def find_bpe_rank_def bpe_key_def bpe_abs_def split: option.split)
qed

lemma bpe_seed_abs:
  assumes sp: "no_space base" and syms: "layout base syms" "chain base syms c"
  shows "\<forall>i \<in> set is. (i - 1, i) \<in> set (adj c) \<and> 0 < i \<Longrightarrow> \<forall>b \<in> set (bpe_queue st). bpe_text_ok syms b \<Longrightarrow> bpe_symbols st = syms \<Longrightarrow>
    \<exists>st'. bpe_seed v is st = Inr st' \<and> bpe_symbols st' = syms \<and> (\<forall>b \<in> set (bpe_queue st'). bpe_text_ok syms b) \<and>
      map bpe_abs (bpe_queue st') = map bpe_abs (bpe_queue st) @ concat (map (\<lambda>i. fresh (bpe_key v) syms (int i - 1) (int i)) is)"
proof (induction "is" arbitrary: st)
  case (Cons i "is")
  have "int i - 1 = - 1 \<or> int i = - 1 \<or> (nat (int i - 1), nat (int i)) \<in> set (adj c)" using Cons.prems by (auto simp: nat_diff_distrib)
  from add_new_abs[OF sp Cons.prems(3,2) syms this, of v]
  obtain st1 where st1: "add_new_bigram v (int i - 1) (int i) st = Inr st1" "bpe_symbols st1 = syms" "\<forall>b \<in> set (bpe_queue st1). bpe_text_ok syms b"
    "map bpe_abs (bpe_queue st1) = map bpe_abs (bpe_queue st) @ fresh (bpe_key v) syms (int i - 1) (int i)" by blast
  then show ?case using Cons.IH[of st1] Cons.prems by auto
qed simp

lemma bpe_abs_inj: "\<forall>b \<in> A. bpe_text_ok syms b \<Longrightarrow> inj_on bpe_abs A"
  by (auto simp: inj_on_def bpe_abs_def bpe_text_ok_def)

lemma bpe_loop_greedy:
  assumes sp: "no_space base"
  shows "queue_inv (bpe_key v) base (bpe_symbols st) c (bpe_abs ` set (bpe_queue st)) \<Longrightarrow>
    \<forall>b \<in> set (bpe_queue st). bpe_text_ok (bpe_symbols st) b \<Longrightarrow>
    \<exists>st' c'. bpe_loop v st = Inr st' \<and> layout base (bpe_symbols st') \<and> chain base (bpe_symbols st') c' \<and>
      pieces (bpe_symbols st') c' = greedy_merge bpe_better (bpe_key v) (pieces (bpe_symbols st) c)"
proof (induction v st arbitrary: c rule: bpe_loop.induct)
  case (1 v st)
  define syms where "syms = bpe_symbols st"
  define q where "q = bpe_queue st"
  have inv: "queue_inv (bpe_key v) base syms c (set (map bpe_abs q))" using 1(3) by (simp add: syms_def q_def)
  have ok: "\<forall>b \<in> set q. bpe_text_ok syms b" using 1(4) by (simp add: syms_def q_def)
  have lay: "layout base syms" and ch: "chain base syms c" using inv by (auto simp: queue_inv_def)
  show ?case
  proof (cases "q = []")
    case True
    then have "best_pair bpe_better (bpe_key v) (pieces syms c) = None" using bpe.best_none[of v base syms c] inv by simp
    then have "greedy_merge bpe_better (bpe_key v) (pieces syms c) = pieces syms c" by (simp add: greedy_merge.simps)
    then show ?thesis using True lay ch by (subst bpe_loop.simps) (auto simp: syms_def q_def)
  next
    case False
    define b where "b = pq_top bpe_comparator q"
    define st1 where "st1 = st\<lparr>bpe_queue := pq_pop bpe_comparator q\<rparr>"
    have b: "b \<in> set q" unfolding b_def using False by (rule pq_top_in)
    obtain l r k sz where e: "bpe_abs b = (l, r, k, sz)" by (rule prod_cases4)
    have lr: "bpe_left b = l" "bpe_right b = r" using e by (auto simp: bpe_abs_def)
    have eQ: "(l, r, k, sz) \<in> set (map bpe_abs q)" using b e by force
    then have range: "l < length syms" "r < length syms" "l \<noteq> r" using inv by (auto simp: queue_inv_def entry_sound_def)
    have pop: "map bpe_abs (bpe_queue st1) = remove1 (l, r, k, sz) (map bpe_abs q)"
      using map_remove1_abs[OF b bpe_abs_inj[OF ok]] e by (simp add: st1_def pq_pop_def b_def)
    have ok1: "\<forall>b \<in> set (bpe_queue st1). bpe_text_ok syms b"
      using ok set_remove1_subset[of "pq_top bpe_comparator q" q] by (auto simp: st1_def pq_pop_def)
    have stale: "bpe_stale b syms = entry_stale syms (l, r, k, sz)"
      using bpe_stale_abs[OF inv, of b] b ok eQ unfolding e by blast
    have loop: "bpe_loop v st = (if bpe_stale b syms then bpe_loop v st1
        else (case bpe_merge v b st1 of Inl e \<Rightarrow> Inl e | Inr st'' \<Rightarrow> bpe_loop v st''))"
      using False range by (subst bpe_loop.simps) (simp add: Let_def st1_def b_def syms_def q_def lr[unfolded b_def q_def] not_le)
    show ?thesis
    proof (cases "bpe_stale b syms")
      case True
      have sub: "set (map bpe_abs q) - {(l, r, k, sz)} \<subseteq> set (map bpe_abs (bpe_queue st1))"
        "set (map bpe_abs (bpe_queue st1)) \<subseteq> set (map bpe_abs q)" unfolding pop by (rule remove1_bounds)+
      have "queue_inv (bpe_key v) base (bpe_symbols st1) c (bpe_abs ` set (bpe_queue st1))"
        using queue_inv_drop[OF inv True[unfolded stale] sub] by (simp add: st1_def syms_def)
      then show ?thesis
        using 1(1)[of b st1 c] False True ok1 range loop
        by (simp add: st1_def b_def syms_def q_def lr[unfolded b_def q_def])
    next
      case live: False
      have top: "\<not> entry_lt bpe_better (l, r, k, sz) e'" if "e' \<in> set (map bpe_abs q)" for e'
        using that bpe_pq.top_greatest[of _ q] by (auto simp: bpe_comparator_abs b_def[symmetric] e)
      obtain xs ys where c: "c = xs @ l # r # ys" and best: "best_pair bpe_better (bpe_key v) (pieces syms c) = Some (length xs, k)"
        using bpe.best_of_top[OF inv eQ live[unfolded stale] top] by blast
      define syms' where "syms' = merge_symbols l r syms"
      have inv': "queue_inv (bpe_key v) base syms' (xs @ l # ys) (set (map bpe_abs (bpe_queue st1)
          @ fresh (bpe_key v) syms' (sym_prev (syms' ! l)) (int l) @ fresh (bpe_key v) syms' (int l) (sym_next (syms' ! l))))"
        unfolding pop by (rule merge_queue_inv[OF inv c syms'_def])
      then have lay': "layout base syms'" and ch': "chain base syms' (xs @ l # ys)" by (auto simp: queue_inv_def)
      have lmem: "l \<in> set (xs @ l # ys)" by simp
      note pn = prev_next_pairs[OF ch' lmem]
      have ok': "\<forall>b \<in> set (bpe_queue (st1\<lparr>bpe_symbols := syms'\<rparr>)). bpe_text_ok syms' b"
        using ok1 bpe_text_ok_merge[OF range] by (simp add: syms'_def)
      obtain st2 where st2: "add_new_bigram v (sym_prev (syms' ! l)) (int l) (st1\<lparr>bpe_symbols := syms'\<rparr>) = Inr st2"
        "bpe_symbols st2 = syms'" "\<forall>b \<in> set (bpe_queue st2). bpe_text_ok syms' b"
        "map bpe_abs (bpe_queue st2) = map bpe_abs (bpe_queue st1) @ fresh (bpe_key v) syms' (sym_prev (syms' ! l)) (int l)"
        using add_new_abs[OF sp _ ok' lay' ch' pn(1), of v] by auto
      obtain st3 where st3: "add_new_bigram v (int l) (sym_next (syms' ! l)) st2 = Inr st3"
        "bpe_symbols st3 = syms'" "\<forall>b \<in> set (bpe_queue st3). bpe_text_ok syms' b"
        "map bpe_abs (bpe_queue st3) = map bpe_abs (bpe_queue st2) @ fresh (bpe_key v) syms' (int l) (sym_next (syms' ! l))"
        using add_new_abs[OF sp st2(2,3) lay' ch' pn(2), of v] by auto
      have m: "bpe_merge v b st1 = Inr st3"
        using st2(1) st3(1) by (simp add: bpe_merge_def Let_def lr st1_def syms'_def syms_def)
      have "queue_inv (bpe_key v) base (bpe_symbols st3) (xs @ l # ys) (bpe_abs ` set (bpe_queue st3))"
        using inv' unfolding st3(2) set_map[symmetric] st3(4) st2(4) by simp
      moreover have "greedy_merge bpe_better (bpe_key v) (pieces syms c) = greedy_merge bpe_better (bpe_key v) (pieces syms' (xs @ l # ys))"
        using best merge_pieces[OF lay ch c] by (subst greedy_merge.simps) (simp add: syms'_def)
      ultimately show ?thesis
        using 1(2)[of b st1 st3 "xs @ l # ys"] False live range m st3(2,3) loop
        by (simp add: st1_def b_def syms_def q_def lr[unfolded b_def q_def] not_le)
    qed
  qed
qed

text \<open>The pieces of a word, and their tokens.\<close>

definition bpe_word_pieces :: "'s llama_vocab \<Rightarrow> str \<Rightarrow> str list" where
  "bpe_word_pieces v w =
     (if text_to_token v w \<noteq> LLAMA_TOKEN_NULL \<and>
         (v_ignore_merges v \<or> v_pre_type v = LLAMA_VOCAB_PRE_TYPE_GEMMA4 \<and> list_all (\<lambda>c. c = 10) w)
      then List.filter (\<lambda>p. p \<noteq> []) [w] else greedy_merge bpe_better (bpe_key v) (utf8_chars w))"

definition bpe_piece :: "'s llama_vocab \<Rightarrow> str \<Rightarrow> llama_token list \<Rightarrow> llama_token list" where
  "bpe_piece v p out = (if text_to_token v p = LLAMA_TOKEN_NULL then bpe_bytes v p out else out @ [text_to_token v p])"

lemma greedy_merge_Nil: "greedy_merge better key [] = []"
  by (simp add: greedy_merge.simps)

lemma bpe_word_greedy:
  assumes sp: "no_space w"
  shows "\<exists>syms. bpe_word v w = Inr syms \<and> map sym_str (List.filter (\<lambda>s. 0 < sym_n s) syms) = bpe_word_pieces v w"
proof (cases "text_to_token v w \<noteq> LLAMA_TOKEN_NULL \<and>
         (v_ignore_merges v \<or> v_pre_type v = LLAMA_VOCAB_PRE_TYPE_GEMMA4 \<and> list_all (\<lambda>c. c = 10) w)")
  case True
  then have "bpe_word_symbols v w = [\<lparr>sym_prev = - 1, sym_next = - 1, sym_base = w, sym_off = 0, sym_n = length w\<rparr>]"
    by (auto simp: bpe_word_symbols_def Let_def)
  then show ?thesis using True
    by (simp add: bpe_word_def Let_def bpe_loop.simps bpe_word_pieces_def sym_str_def)
next
  case False
  define syms where "syms = split_symbols w 0 0"
  have ws: "bpe_word_symbols v w = syms" using False by (auto simp: bpe_word_symbols_def Let_def syms_def)
  have wp: "bpe_word_pieces v w = greedy_merge bpe_better (bpe_key v) (utf8_chars w)"
    using False unfolding bpe_word_pieces_def by (simp only: if_False)
  show ?thesis
  proof (cases "w = []")
    case True
    then have "syms = []" "utf8_chars w = []" by (simp_all add: syms_def split_symbols.simps utf8_chars.simps)
    then show ?thesis unfolding bpe_word_def ws wp by (simp add: Let_def bpe_loop.simps greedy_merge_Nil)
  next
    case ne: False
    define st where "st = \<lparr>bpe_symbols = syms, bpe_queue = []\<rparr>"
    have lay: "layout w syms" unfolding syms_def by (rule split_symbols_layout)
    have ch: "chain w syms [0..<length syms]" unfolding syms_def by (rule split_symbols_chain[OF ne])
    have "\<forall>i \<in> set [1..<length syms]. (i - 1, i) \<in> set (adj [0..<length syms]) \<and> 0 < i" by (auto simp: adj_upt)
    from bpe_seed_abs[OF sp lay ch this, of st v] obtain st1 where st1: "bpe_seed v [1..<length syms] st = Inr st1" "bpe_symbols st1 = syms"
      "\<forall>b \<in> set (bpe_queue st1). bpe_text_ok syms b"
      "map bpe_abs (bpe_queue st1) = concat (map (\<lambda>i. fresh (bpe_key v) syms (int i - 1) (int i)) [1..<length syms])"
      by (auto simp: st_def)
    have "queue_inv (bpe_key v) w (bpe_symbols st1) [0..<length syms] (bpe_abs ` set (bpe_queue st1))"
      using initial_inv[OF ne syms_def, of "bpe_key v"] by (simp only: st1(2) set_map[symmetric] st1(4))
    from bpe_loop_greedy[OF sp this] st1(2,3) obtain st2 c where st2: "bpe_loop v st1 = Inr st2"
      "chain w (bpe_symbols st2) c"
      "pieces (bpe_symbols st2) c = greedy_merge bpe_better (bpe_key v) (pieces (bpe_symbols st1) [0..<length syms])" by blast
    have "map sym_str (List.filter (\<lambda>s. 0 < sym_n s) (bpe_symbols st2)) = pieces (bpe_symbols st2) c"
      by (simp add: chain_filter[OF st2(2)] pieces_def)
    moreover have "bpe_word v w = Inr (bpe_symbols st2)"
      using st1(1) st2(1) by (simp add: bpe_word_def ws Let_def st_def)
    ultimately show ?thesis using st2(3) wp initial_pieces[of w] st1(2) by (simp add: syms_def)
  qed
qed

text \<open>The final list links all symbols that have a text.\<close>

definition final_linked :: "llm_symbol list \<times> int \<Rightarrow> bool" where
  "final_linked acc \<longleftrightarrow> snd acc = int (length (fst acc)) - 1 \<and>
     (\<forall>i < length (fst acc). 0 < sym_n (fst acc ! i) \<and>
        sym_next (fst acc ! i) = (if Suc i = length (fst acc) then - 1 else int (Suc i)))"

lemma append_final_linked:
  "final_linked acc \<Longrightarrow> final_linked (append_final syms acc) \<and>
     map sym_str (fst (append_final syms acc)) = map sym_str (fst acc) @ map sym_str (List.filter (\<lambda>s. 0 < sym_n s) syms)"
proof (induction syms acc rule: append_final.induct)
  case (2 s syms final fpi)
  show ?case
  proof (cases "0 < sym_n s")
    case False
    then show ?thesis using 2 by simp
  next
    case True
    define final' where "final' = (if fpi \<noteq> - 1 then final[nat fpi := (final ! nat fpi)\<lparr>sym_next := int (length final)\<rparr>] else final)"
    define acc' where "acc' = (final' @ [s\<lparr>sym_prev := fpi, sym_next := - 1\<rparr>], int (length final'))"
    have fpi: "fpi = int (length final) - 1" using 2(3) by (simp add: final_linked_def)
    have len: "length final' = length final" by (simp add: final'_def)
    have at: "final' ! i = (if Suc i = length final then (final ! i)\<lparr>sym_next := int (length final)\<rparr> else final ! i)"
      if "i < length final" for i
      using that fpi by (auto simp: final'_def nth_list_update)
    have lk: "final_linked acc'"
      unfolding final_linked_def acc'_def using 2(3) True
      by (auto simp: len at nth_append final_linked_def less_Suc_eq)
    have "map sym_str final' = map sym_str final"
      by (rule nth_equalityI) (simp_all add: len at sym_str_def)
    moreover have "append_final (s # syms) (final, fpi) = append_final syms acc'"
      using True by (simp add: Let_def final'_def acc'_def)
    ultimately show ?thesis using 2(1)[OF True final'_def] lk True
      by (simp add: acc'_def) (simp add: sym_str_def)
  qed
qed simp

lemma bpe_words_final:
  assumes "\<forall>w \<in> set words. no_space w"
  shows "final_linked acc \<Longrightarrow> \<exists>acc'. bpe_words v words acc = Inr acc' \<and> final_linked acc' \<and>
     map sym_str (fst acc') = map sym_str (fst acc) @ concat (map (bpe_word_pieces v) words)"
  using assms
proof (induction words arbitrary: acc)
  case (Cons w words)
  obtain syms where "bpe_word v w = Inr syms" "map sym_str (List.filter (\<lambda>s. 0 < sym_n s) syms) = bpe_word_pieces v w"
    using bpe_word_greedy[of w v] Cons.prems(2) by auto
  then show ?case using Cons.IH[of "append_final syms acc"] append_final_linked[OF Cons.prems(1), of syms] Cons.prems(2) by auto
qed simp

lemma bpe_output_final:
  assumes "final_linked (final, fpi)"
  shows "i < length final \<Longrightarrow> bpe_output v final (int i) out = Some (Inr (fold (bpe_piece v) (map sym_str (drop i final)) out))"
proof (induction "length final - i" arbitrary: i out)
  case (Suc n)
  have "0 < sym_n (final ! i)" using assms Suc.prems by (simp add: final_linked_def)
  then have emit: "bpe_emit v (final ! i) o' = bpe_piece v (sym_str (final ! i)) o'" for o'
    by (simp add: bpe_emit_def bpe_piece_def Let_def)
  have nx: "sym_next (final ! i) = (if Suc i = length final then - 1 else int (Suc i))"
    using assms Suc.prems by (simp add: final_linked_def)
  have d: "drop i final = final ! i # drop (Suc i) final" using Suc.prems by (simp add: Cons_nth_drop_Suc)
  show ?case
  proof (cases "Suc i = length final")
    case True
    then show ?thesis using Suc.prems by (subst bpe_output.simps) (simp add: emit nx d not_le bpe_output.simps)
  next
    case False
    then have "bpe_output v final (int (Suc i)) o' = Some (Inr (fold (bpe_piece v) (map sym_str (drop (Suc i) final)) o'))" for o'
      using Suc by (intro Suc.hyps(1)) auto
    then show ?thesis using Suc.prems False by (subst bpe_output.simps) (simp add: emit nx d not_le)
  qed
qed simp

lemma bpe_tokenize_greedy:
  assumes "\<forall>w \<in> set words. no_space w"
  shows "bpe_tokenize v words out = Some (Inr (fold (bpe_piece v) (concat (map (bpe_word_pieces v) words)) out))"
proof -
  have "final_linked ([], - 1)" by (simp add: final_linked_def)
  from bpe_words_final[OF assms this, of v] obtain final fpi where f: "bpe_words v words ([], - 1) = Inr (final, fpi)"
    "final_linked (final, fpi)" "map sym_str final = concat (map (bpe_word_pieces v) words)" by auto
  show ?thesis
  proof (cases "final = []")
    case True
    then have "concat (map (bpe_word_pieces v) words) = []" using f(3) by simp
    then show ?thesis using f(1) True by (simp only: bpe_tokenize_def) simp
  next
    case False
    then show ?thesis using f bpe_output_final[OF f(2), of 0 v out] by (simp add: bpe_tokenize_def)
  qed
qed

section \<open>Properties\<close>

text \<open>C3. The SPM tokenizer computes the greedy merging: its work queue, which keeps outdated entries and skips them later,
  gives the tokens of the pieces that remain when, again and again, the pair of neighbours with the highest score is merged, the
  leftmost one among equals.  The pieces make up the text, and no two neighbours that remain form a token.  It always returns.\<close>

theorem spm_merges_greedily:
  assumes "vocab_wf v" "s \<noteq> []"
  shows "spm_tokenize v s out = Some (spm_pieces v (greedy_merge (\<lambda>a b. b < a) (spm_key v) (utf8_chars s)) out)
    \<and> concat (greedy_merge (\<lambda>a b. b < a) (spm_key v) (utf8_chars s)) = s
    \<and> (\<forall>i. Suc i < length (greedy_merge (\<lambda>a b. b < a) (spm_key v) (utf8_chars s)) \<longrightarrow>
         spm_key v (greedy_merge (\<lambda>a b. b < a) (spm_key v) (utf8_chars s) ! i)
           (greedy_merge (\<lambda>a b. b < a) (spm_key v) (utf8_chars s) ! Suc i) = None)"
  using assms by (simp add: spm_tokenize_greedy concat_greedy_merge concat_utf8_chars greedy_merge_done)

text \<open>C9. The BPE tokenizer computes, word by word, the greedy merging by rank: the tokens are those of the pieces that remain
  when the pair of neighbours with the lowest rank is merged, the leftmost one among equals, until no pair has a rank.\<close>

theorem bpe_merges_greedily:
  assumes "\<forall>w \<in> set words. 32 \<notin> set w"
  shows "bpe_tokenize v words out = Some (Inr (fold (bpe_piece v) (concat (map (bpe_word_pieces v) words)) out))
    \<and> concat (concat (map (bpe_word_pieces v) words)) = concat words
    \<and> (\<forall>w i. Suc i < length (greedy_merge (<) (bpe_key v) (utf8_chars w)) \<longrightarrow>
         bpe_key v (greedy_merge (<) (bpe_key v) (utf8_chars w) ! i) (greedy_merge (<) (bpe_key v) (utf8_chars w) ! Suc i) = None)"
proof -
  have "concat (bpe_word_pieces v w) = w" for w
    by (simp add: bpe_word_pieces_def concat_greedy_merge concat_utf8_chars)
  then have "concat (concat (map (bpe_word_pieces v) words)) = concat words" by (induction words) simp_all
  then show ?thesis using assms bpe_tokenize_greedy[of words v out] by (simp add: no_space_def greedy_merge_done)
qed

section \<open>Witnesses\<close>

text \<open>A vocabulary with the tokens \<open>a\<close>, \<open>b\<close>, \<open>ab\<close>, \<open>ba\<close> and the byte token of \<open>z\<close>.\<close>

definition small_vocab :: "llama_vocab_type \<Rightarrow> int llama_vocab" where
  "small_vocab ty = (blank_vocab ty)\<lparr>
     token_to_id := [[97] \<mapsto> 0, [98] \<mapsto> 1, [97, 98] \<mapsto> 2, [98, 97] \<mapsto> 3, [60, 48, 120, 55, 65, 62] \<mapsto> 4],
     id_to_token := map (\<lambda>(t, s). \<lparr>td_text = t, td_score = s, td_attr = LLAMA_TOKEN_ATTR_NORMAL\<rparr>)
       [([97], - 5), ([98], - 5), ([97, 98], - 2), ([98, 97], - 1), ([60, 48, 120, 55, 65, 62], - 9)],
     bpe_ranks := [([97], [98]) \<mapsto> 1, ([98], [97]) \<mapsto> 0]\<rparr>"

lemma small_vocab_wf: "vocab_wf (small_vocab ty)"
  by (simp add: vocab_wf_def small_vocab_def)

theorem spm_merges_greedily_witness:
  "spm_tokenize (small_vocab LLAMA_VOCAB_TYPE_SPM) [97, 98, 97, 122] [] = Some (Inr [0, 3, 4])"
proof -
  have "spm_pieces (small_vocab LLAMA_VOCAB_TYPE_SPM)
      (greedy_merge (\<lambda>a b. b < a) (spm_key (small_vocab LLAMA_VOCAB_TYPE_SPM)) (utf8_chars [97, 98, 97, 122])) [] = Inr [0, 3, 4]"
    by code_simp
  then show ?thesis
    using spm_merges_greedily[of "small_vocab LLAMA_VOCAB_TYPE_SPM" "[97, 98, 97, 122]" "[]"] small_vocab_wf by simp
qed

theorem bpe_merges_greedily_witness:
  "bpe_tokenize (small_vocab LLAMA_VOCAB_TYPE_BPE) [[97, 98, 97], [98, 98]] [] = Some (Inr [0, 3, 1, 1])"
proof -
  have "fold (bpe_piece (small_vocab LLAMA_VOCAB_TYPE_BPE))
      (concat (map (bpe_word_pieces (small_vocab LLAMA_VOCAB_TYPE_BPE)) [[97, 98, 97], [98, 98]])) [] = [0, 3, 1, 1]"
    by code_simp
  then show ?thesis
    using bpe_merges_greedily[of "[[97, 98, 97], [98, 98]]" "small_vocab LLAMA_VOCAB_TYPE_BPE" "[]"] by simp
qed

end
