(* ===== verification/TokTrie.thy ===== *)
theory TokTrie
  imports Vocab "HOL-Library.AList"
begin

text \<open>
  The trie of \<open>src/llama-vocab.cpp\<close> (\<open>struct naive_trie\<close>) and the tokenizer that is a walk in it: RWKV, greedy longest
  match over byte strings.  The vocabulary stores its tokens as escaped texts, which are unescaped when the trie is built.
\<close>

section \<open>The trie\<close>

datatype naive_trie = Trie (children: "(byte \<times> naive_trie) list") (has_value: bool) (node_value: llama_token)

definition empty_trie :: naive_trie where
  "empty_trie = Trie [] False 0"

fun trie_insert :: "str \<Rightarrow> llama_token \<Rightarrow> naive_trie \<Rightarrow> naive_trie" where
  "trie_insert [] v t = Trie (children t) True v"
| "trie_insert (c # key) v t =
     (case map_of (children t) c of
        Some child \<Rightarrow> Trie (AList.update c (trie_insert key v child) (children t)) (has_value t) (node_value t)
      | None \<Rightarrow> Trie (AList.update c (trie_insert key v empty_trie) (children t)) (has_value t) (node_value t))"

definition traverse :: "naive_trie \<Rightarrow> byte \<Rightarrow> naive_trie option" where
  "traverse t c = map_of (children t) c"

text \<open>The offset at which \<open>get_longest_prefix\<close> stops; \<open>key\<close> is what is left of the text at that offset.\<close>

fun get_longest_prefix :: "naive_trie \<Rightarrow> str \<Rightarrow> nat \<Rightarrow> nat" where
  "get_longest_prefix t [] offset = offset"
| "get_longest_prefix t (c # key) offset =
     (case map_of (children t) c of Some child \<Rightarrow> get_longest_prefix child key (offset + 1) | None \<Rightarrow> offset)"

section \<open>RWKV\<close>

text \<open>The state of \<open>llama_unescape_rwkv_token\<close>: \<open>escaping\<close>, \<open>hex_remaining\<close>, \<open>hex_acc\<close> and the output.  A \<open>char\<close> is
  signed, so the bytes from 128 on are below the letter \<open>a\<close>.\<close>

record unescape_state =
  escaping :: bool
  hex_remaining :: byte
  hex_acc :: byte
  un_output :: str

definition unescape_step :: "byte \<Rightarrow> unescape_state \<Rightarrow> unescape_state" where
  "unescape_step c s =
     (if hex_remaining s \<noteq> 0 then
        (let v = (if 97 \<le> c \<and> c < 128 then c - 97 + 10 else c - 48);
             acc = push_bit 4 (hex_acc s) + v;
             remaining = hex_remaining s - 1
         in if remaining = 0 then s\<lparr>hex_remaining := remaining, un_output := un_output s @ [acc], hex_acc := 0\<rparr>
            else s\<lparr>hex_remaining := remaining, hex_acc := acc\<rparr>)
      else if escaping s then
        (let s' = s\<lparr>escaping := False\<rparr>
         in if c = 116 then s'\<lparr>un_output := un_output s @ [9]\<rparr>
            else if c = 110 then s'\<lparr>un_output := un_output s @ [10]\<rparr>
            else if c = 114 then s'\<lparr>un_output := un_output s @ [13]\<rparr>
            else if c = 120 then s'\<lparr>hex_remaining := 2\<rparr>
            else s'\<lparr>un_output := un_output s @ [c]\<rparr>)
      else if c = 92 then s\<lparr>escaping := True\<rparr>
      else s\<lparr>un_output := un_output s @ [c]\<rparr>)"

definition llama_unescape_rwkv_token :: "str \<Rightarrow> str" where
  "llama_unescape_rwkv_token escaped =
     un_output (fold unescape_step escaped \<lparr>escaping = False, hex_remaining = 0, hex_acc = 0, un_output = []\<rparr>)"

definition llm_tokenizer_rwkv :: "'s llama_vocab \<Rightarrow> naive_trie" where
  "llm_tokenizer_rwkv v =
     fold (\<lambda>i t. trie_insert (llama_unescape_rwkv_token (td_text (id_to_token v ! i))) (int i) t) [0..<n_tokens v] empty_trie"

text \<open>\<open>text[i]\<close> of a \<open>std::string\<close>: the terminating 0 at its end, undefined beyond.\<close>

definition str_at :: "str \<Rightarrow> nat \<Rightarrow> byte vres" where
  "str_at s i = (if i < length s then Inr (s ! i) else if i = length s then Inr 0 else Inl Undefined)"

text \<open>The inner loop: \<open>token_id\<close> and \<open>token_length\<close> of the last node with a value.\<close>

function rwkv_walk :: "naive_trie option \<Rightarrow> str \<Rightarrow> nat \<Rightarrow> llama_token \<Rightarrow> nat \<Rightarrow> (llama_token \<times> nat) vres" where
  "rwkv_walk None s position token_id token_length = Inr (token_id, token_length)"
| "rwkv_walk (Some node) s position token_id token_length =
     (let token_id' = (if has_value node then node_value node else token_id);
          token_length' = (if has_value node then position + 1 else token_length)
      in case str_at s (position + 1) of
           Inl e \<Rightarrow> Inl e
         | Inr c \<Rightarrow> rwkv_walk (traverse node c) s (position + 1) token_id' token_length')"
  by pat_completeness auto
termination
  by (relation "measure (\<lambda>(node, s, position, i, l). length s + 1 - position)")
    (auto simp: str_at_def split: if_splits)

partial_function (option) rwkv_tokenize ::
  "naive_trie \<Rightarrow> llama_token \<Rightarrow> str \<Rightarrow> nat \<Rightarrow> llama_token list \<Rightarrow> llama_token list vres option" where
  "rwkv_tokenize token_matcher unk s position out =
     (if position < length s then
        (case traverse token_matcher (s ! position) of
           None \<Rightarrow> rwkv_tokenize token_matcher unk s (position + 1) (out @ [unk])
         | Some node \<Rightarrow>
             (case rwkv_walk (Some node) s position 0 0 of
                Inl e \<Rightarrow> Some (Inl e)
              | Inr (token_id, token_length) \<Rightarrow> rwkv_tokenize token_matcher unk s token_length (out @ [token_id])))
      else Some (Inr out))"

declare rwkv_tokenize.simps [code]

section \<open>The trie as a map\<close>

fun trie_walk :: "naive_trie \<Rightarrow> str \<Rightarrow> naive_trie option" where
  "trie_walk t [] = Some t"
| "trie_walk t (c # key) = Option.bind (traverse t c) (\<lambda>t'. trie_walk t' key)"

definition trie_lookup :: "naive_trie \<Rightarrow> str \<Rightarrow> llama_token option" where
  "trie_lookup t key = (case trie_walk t key of Some n \<Rightarrow> if has_value n then Some (node_value n) else None | None \<Rightarrow> None)"

lemma trie_lookup_Nil: "trie_lookup t [] = (if has_value t then Some (node_value t) else None)"
  by (simp add: trie_lookup_def)

lemma trie_lookup_Cons: "trie_lookup t (c # key) = Option.bind (traverse t c) (\<lambda>t'. trie_lookup t' key)"
  by (cases "traverse t c") (simp_all add: trie_lookup_def)

lemma trie_lookup_empty [simp]: "trie_lookup empty_trie key = None"
  by (cases key) (simp_all add: empty_trie_def trie_lookup_Nil trie_lookup_Cons traverse_def)

lemma traverse_insert: "traverse (trie_insert (c # key) v t) d =
    (if d = c then Some (trie_insert key v (case traverse t c of Some child \<Rightarrow> child | None \<Rightarrow> empty_trie)) else traverse t d)"
  by (auto simp: traverse_def update_conv' split: option.split)

lemma trie_lookup_insert: "trie_lookup (trie_insert key v t) key' = (if key' = key then Some v else trie_lookup t key')"
proof (induction key arbitrary: t key')
  case Nil
  then show ?case by (cases key') (simp_all add: trie_lookup_Nil trie_lookup_Cons traverse_def)
next
  case (Cons c key)
  show ?case
  proof (cases key')
    case Nil
    then show ?thesis by (auto simp: trie_lookup_Nil split: option.split)
  next
    case (Cons d ds)
    then show ?thesis
      by (cases "traverse t c") (auto simp: trie_lookup_Cons traverse_insert Cons.IH simp del: trie_insert.simps)
  qed
qed

text \<open>A trie from the empty one is prefix-closed: a path in it is a prefix of an inserted key.\<close>

lemma trie_walk_insert:
  "trie_walk (trie_insert key v t) p \<noteq> None \<longleftrightarrow> trie_walk t p \<noteq> None \<or> (\<exists>q. key = p @ q)"
proof (induction p arbitrary: key t)
  case Nil
  then show ?case by simp
next
  case (Cons d p)
  show ?case
  proof (cases key)
    case Nil
    then show ?thesis by (simp add: traverse_def)
  next
    case key: (Cons c k)
    have e: "trie_walk empty_trie p = None \<or> p = []" by (cases p) (simp_all add: empty_trie_def traverse_def)
    show ?thesis
    proof (cases "d = c")
      case False
      then show ?thesis by (simp add: key traverse_insert del: trie_insert.simps)
    next
      case True
      then show ?thesis using Cons.IH[of k "case traverse t c of Some child \<Rightarrow> child | None \<Rightarrow> empty_trie"] e
        by (cases "traverse t c") (auto simp: key traverse_insert simp del: trie_insert.simps)
    qed
  qed
qed

definition trie_keys :: "naive_trie \<Rightarrow> str set" where
  "trie_keys t = {k. trie_lookup t k \<noteq> None}"

text \<open>\<open>get_longest_prefix\<close> is the length of the longest prefix that is a path in the trie, whether or not it is a key.\<close>

lemma get_longest_prefix_path:
  "get_longest_prefix t s k \<le> k + length s \<and> k \<le> get_longest_prefix t s k \<and>
   trie_walk t (take (get_longest_prefix t s k - k) s) \<noteq> None \<and>
   (get_longest_prefix t s k - k < length s \<longrightarrow> trie_walk t (take (Suc (get_longest_prefix t s k - k)) s) = None)"
proof (induction t s k rule: get_longest_prefix.induct)
  case (2 t c key k)
  show ?case
  proof (cases "map_of (children t) c")
    case None
    then show ?thesis by (simp add: traverse_def)
  next
    case (Some child)
    define g where "g = get_longest_prefix child key (Suc k)"
    have g: "g \<le> Suc k + length key" "Suc k \<le> g" "trie_walk child (take (g - Suc k) key) \<noteq> None"
      "g - Suc k < length key \<longrightarrow> trie_walk child (take (Suc (g - Suc k)) key) = None"
      using 2[OF Some] by (simp_all add: g_def)
    have d: "g - k = Suc (g - Suc k)" using g(2) by simp
    show ?thesis using g Some by (simp add: g_def[symmetric] d traverse_def)
  qed
qed simp

section \<open>Greedy longest match\<close>

text \<open>The longest prefix of at most \<open>n\<close> bytes that is a key, and the tokens of a text when it is taken again and again.\<close>

fun longest_key :: "naive_trie \<Rightarrow> str \<Rightarrow> nat \<Rightarrow> (llama_token \<times> nat) option" where
  "longest_key t s 0 = None"
| "longest_key t s (Suc n) = (case trie_lookup t (take (Suc n) s) of Some v \<Rightarrow> Some (v, Suc n) | None \<Rightarrow> longest_key t s n)"

lemma longest_key_unique:
  assumes "0 < k" "k \<le> n" "trie_lookup t (take k s) = Some v" "\<And>k'. k < k' \<Longrightarrow> k' \<le> n \<Longrightarrow> trie_lookup t (take k' s) = None"
  shows "longest_key t s n = Some (v, k)"
  using assms(2,4)
proof (induction n)
  case (Suc n)
  then show ?case using assms(1,3) by (cases "k = Suc n") auto
qed (use assms(1) in simp)

lemma longest_key_Some: "longest_key t s n = Some (v, k) \<Longrightarrow> 0 < k \<and> k \<le> n \<and> trie_lookup t (take k s) = Some v"
  by (induction n) (auto split: option.splits)

function greedy_match :: "naive_trie \<Rightarrow> str \<Rightarrow> llama_token list" where
  "greedy_match t s =
     (case longest_key t s (length s) of None \<Rightarrow> [] | Some (v, k) \<Rightarrow> v # greedy_match t (drop k s))"
  by pat_completeness auto
termination
  by (relation "measure (\<lambda>(t, s). length s)") (auto dest!: longest_key_Some)

declare greedy_match.simps [simp del]

lemma trie_walk_append: "trie_walk t (p @ q) = Option.bind (trie_walk t p) (\<lambda>n. trie_walk n q)"
  by (induction p arbitrary: t) (auto split: bind_splits)

lemma trie_walk_longer: "trie_walk t (take k s) = None \<Longrightarrow> k \<le> k' \<Longrightarrow> trie_lookup t (take k' s) = None"
  using trie_walk_append[of t "take k s" "take (k' - k) (drop k s)"] by (simp add: trie_lookup_def take_add[symmetric])

definition no_inner_zero :: "naive_trie \<Rightarrow> bool" where
  "no_inner_zero t \<longleftrightarrow> (\<forall>p. trie_walk t p \<noteq> None \<longrightarrow> 0 \<notin> set (tl p))"

lemma rwkv_walk_longest:
  assumes m: "no_inner_zero m" and r: "r = drop start s" "start \<le> length s"
  shows "1 \<le> j \<Longrightarrow> j \<le> length r \<Longrightarrow> trie_walk m (take j r) = Some node \<Longrightarrow>
    \<exists>res. rwkv_walk (Some node) s (start + j - 1) i0 l0 = Inr res \<and>
      ((\<exists>k. j \<le> k \<and> k \<le> length r \<and> trie_lookup m (take k r) = Some (fst res) \<and> snd res = start + k \<and>
          (\<forall>k'. k < k' \<and> k' \<le> length r \<longrightarrow> trie_lookup m (take k' r) = None)) \<or>
       res = (i0, l0) \<and> (\<forall>k'. j \<le> k' \<and> k' \<le> length r \<longrightarrow> trie_lookup m (take k' r) = None))"
proof (induction "length r - j" arbitrary: j node i0 l0)
  case 0
  then have j: "j = length r" by simp
  have at: "str_at s (start + j) = Inr 0" using r j by (simp add: str_at_def)
  have tr: "traverse node 0 = None"
  proof (rule ccontr)
    assume "traverse node 0 \<noteq> None"
    then have "trie_walk m (take j r @ [0]) \<noteq> None" using 0(4) by (auto simp: trie_walk_append)
    moreover have "0 \<in> set (tl (take j r @ [0]))" using 0(2,3) by (cases r) auto
    ultimately show False using m unfolding no_inner_zero_def by blast
  qed
  have look: "trie_lookup m (take j r) = (if has_value node then Some (node_value node) else None)" using 0(4) by (simp add: trie_lookup_def)
  have "Suc (start + j - Suc 0) = start + j" using 0(2) by simp
  then have "rwkv_walk (Some node) s (start + j - 1) i0 l0 = Inr (if has_value node then (node_value node, start + j) else (i0, l0))"
    using at tr by (simp add: Let_def)
  then show ?case using look j by (cases "has_value node") (auto intro!: exI[of _ j])
next
  case (Suc n)
  then have j: "j < length r" by simp
  then have "start + j < length s" using r by simp
  then have at: "str_at s (start + j) = Inr (r ! j)" using r by (simp add: str_at_def)
  have look: "trie_lookup m (take j r) = (if has_value node then Some (node_value node) else None)" using Suc(5) by (simp add: trie_lookup_def)
  have step: "trie_walk m (take (Suc j) r) = traverse node (r ! j)"
    using j Suc(5) by (simp add: take_Suc_conv_app_nth trie_walk_append split: bind_splits)
  define i1 where "i1 = (if has_value node then node_value node else i0)"
  define l1 where "l1 = (if has_value node then start + j else l0)"
  have eq: "rwkv_walk (Some node) s (start + j - 1) i0 l0 = rwkv_walk (traverse node (r ! j)) s (start + j) i1 l1"
    using at Suc(3) by (simp add: Let_def i1_def l1_def)
  show ?case
  proof (cases "traverse node (r ! j)")
    case None
    then have later: "trie_lookup m (take k' r) = None" if "j < k'" for k' using trie_walk_longer[of m "Suc j" r k'] step that by simp
    show ?thesis
    proof (cases "has_value node")
      case True
      then show ?thesis using None eq look later j Suc(3) by (auto simp: i1_def l1_def intro!: exI[of _ j])
    next
      case False
      then show ?thesis using None eq look later by (auto simp: i1_def l1_def le_less)
    qed
  next
    case (Some node')
    have "\<exists>res. rwkv_walk (Some node') s (start + Suc j - 1) i1 l1 = Inr res \<and>
      ((\<exists>k. Suc j \<le> k \<and> k \<le> length r \<and> trie_lookup m (take k r) = Some (fst res) \<and> snd res = start + k \<and>
          (\<forall>k'. k < k' \<and> k' \<le> length r \<longrightarrow> trie_lookup m (take k' r) = None)) \<or>
       res = (i1, l1) \<and> (\<forall>k'. Suc j \<le> k' \<and> k' \<le> length r \<longrightarrow> trie_lookup m (take k' r) = None))"
      using Suc(1)[of "Suc j" node' i1 l1] Suc(2) j step Some by simp
    then obtain res where res: "rwkv_walk (Some node') s (start + j) i1 l1 = Inr res"
      "(\<exists>k. Suc j \<le> k \<and> k \<le> length r \<and> trie_lookup m (take k r) = Some (fst res) \<and> snd res = start + k \<and>
          (\<forall>k'. k < k' \<and> k' \<le> length r \<longrightarrow> trie_lookup m (take k' r) = None)) \<or>
       res = (i1, l1) \<and> (\<forall>k'. Suc j \<le> k' \<and> k' \<le> length r \<longrightarrow> trie_lookup m (take k' r) = None)" by auto
    from res(2) show ?thesis
    proof
      assume "\<exists>k. Suc j \<le> k \<and> k \<le> length r \<and> trie_lookup m (take k r) = Some (fst res) \<and> snd res = start + k \<and>
          (\<forall>k'. k < k' \<and> k' \<le> length r \<longrightarrow> trie_lookup m (take k' r) = None)"
      then show ?thesis using eq Some res(1) by (metis Suc_leD)
    next
      assume *: "res = (i1, l1) \<and> (\<forall>k'. Suc j \<le> k' \<and> k' \<le> length r \<longrightarrow> trie_lookup m (take k' r) = None)"
      show ?thesis
      proof (cases "has_value node")
        case True
        then show ?thesis using * eq Some res(1) look j Suc(3) by (intro exI[of _ res]) (auto simp: i1_def l1_def Suc_le_eq intro!: exI[of _ j])
      next
        case False
        then have "\<forall>k'. j \<le> k' \<and> k' \<le> length r \<longrightarrow> trie_lookup m (take k' r) = None" using * look by (metis le_eq_less_or_eq Suc_leI)
        then show ?thesis using * eq Some res(1) False by (simp add: i1_def l1_def)
      qed
    qed
  qed
qed

lemma rwkv_tokenize_greedy_at:
  assumes m: "no_inner_zero m" and all: "\<And>b. trie_lookup m [b] \<noteq> None"
  shows "pos \<le> length s \<Longrightarrow> rwkv_tokenize m unk s pos out = Some (Inr (out @ greedy_match m (drop pos s)))"
proof (induction "length s - pos" arbitrary: pos out rule: less_induct)
  case less
  show ?case
  proof (cases "pos = length s")
    case True
    then show ?thesis by (subst rwkv_tokenize.simps) (simp add: greedy_match.simps)
  next
    case False
    then have pos: "pos < length s" using less(2) by simp
    define r where "r = drop pos s"
    have r1: "take 1 r = [s ! pos]" using pos by (simp add: r_def take_Suc_conv_app_nth[of 0, simplified])
    obtain node where node: "trie_walk m (take 1 r) = Some node" "has_value node"
      using all[of "s ! pos"] r1 by (auto simp: trie_lookup_def split: option.splits if_splits)
    then have tr: "traverse m (s ! pos) = Some node" using r1 by (simp split: bind_splits)
    obtain res k where res: "rwkv_walk (Some node) s pos 0 0 = Inr res" "1 \<le> k" "k \<le> length r"
      "trie_lookup m (take k r) = Some (fst res)" "snd res = pos + k"
      "\<forall>k'. k < k' \<and> k' \<le> length r \<longrightarrow> trie_lookup m (take k' r) = None"
    proof -
      have len: "1 \<le> length r" using pos by (simp add: r_def)
      have one: "\<not> (\<forall>k'. 1 \<le> k' \<and> k' \<le> length r \<longrightarrow> trie_lookup m (take k' r) = None)"
        using all[of "s ! pos"] r1 len by auto
      have p: "pos + 1 - 1 = pos" by simp
      show ?thesis using rwkv_walk_longest[OF m r_def less(2) order_refl len node(1), of 0 0] one that unfolding p by blast
    qed
    have "longest_key m r (length r) = Some (fst res, k)" using res(2-4,6) by (intro longest_key_unique) auto
    then have g: "greedy_match m r = fst res # greedy_match m (drop (pos + k) s)"
      by (subst greedy_match.simps) (simp add: r_def add.commute)
    have "pos + k \<le> length s" "length s - (pos + k) < length s - pos" using res(2,3) pos by (auto simp: r_def)
    from less(1)[OF this(2,1)] show ?thesis using pos tr res(1,5) g
      by (subst rwkv_tokenize.simps) (simp add: case_prod_beta r_def)
  qed
qed

section \<open>The trie of a vocabulary\<close>

definition rwkv_text :: "'s llama_vocab \<Rightarrow> nat \<Rightarrow> str" where
  "rwkv_text v i = llama_unescape_rwkv_token (td_text (id_to_token v ! i))"

definition keys_trie :: "(nat \<Rightarrow> str) \<Rightarrow> nat \<Rightarrow> naive_trie" where
  "keys_trie f n = fold (\<lambda>i t. trie_insert (f i) (int i) t) [0..<n] empty_trie"

lemma keys_trie_Suc: "keys_trie f 0 = empty_trie" "keys_trie f (Suc n) = trie_insert (f n) (int n) (keys_trie f n)"
  by (simp_all add: keys_trie_def)

lemma keys_trie_complete: "i < n \<Longrightarrow> trie_lookup (keys_trie f n) (f i) \<noteq> None"
  by (induction n) (auto simp: keys_trie_Suc trie_lookup_insert less_Suc_eq)

lemma keys_trie_sound: "trie_lookup (keys_trie f n) k = Some tok \<Longrightarrow> \<exists>i < n. f i = k \<and> tok = int i"
  by (induction n) (auto simp: keys_trie_Suc trie_lookup_insert less_Suc_eq split: if_splits)

lemma keys_trie_walk: "trie_walk (keys_trie f n) k \<noteq> None \<Longrightarrow> k = [] \<or> (\<exists>i < n. \<exists>q. f i = k @ q)"
proof (induction n)
  case 0
  then show ?case by (cases k) (simp_all add: keys_trie_Suc empty_trie_def traverse_def)
next
  case (Suc n)
  then show ?case using trie_walk_insert[of "f n" "int n" "keys_trie f n" k] by (auto simp: keys_trie_Suc less_Suc_eq)
qed

lemma rwkv_trie: "llm_tokenizer_rwkv v = keys_trie (rwkv_text v) (n_tokens v)"
  by (simp add: llm_tokenizer_rwkv_def keys_trie_def rwkv_text_def)

lemma greedy_match_texts:
  assumes all: "\<And>b. trie_lookup t [b] \<noteq> None" and piece: "\<And>k tok. trie_lookup t k = Some tok \<Longrightarrow> piece tok = k"
  shows "concat (map piece (greedy_match t s)) = s"
  using all piece
proof (induction t s rule: greedy_match.induct)
  case (1 t s)
  show ?case
  proof (cases s)
    case Nil
    then show ?thesis by (simp add: greedy_match.simps)
  next
    case (Cons c cs)
    have found: "longest_key t s n \<noteq> None" if "0 < n" for n
      using that
    proof (induction n)
      case (Suc n)
      then show ?case using 1(2)[of c] Cons by (cases n) (auto split: option.splits)
    qed simp
    have "0 < length s" using Cons by simp
    then obtain tok k where k: "longest_key t s (length s) = Some (tok, k)" using found[of "length s"] by (cases "longest_key t s (length s)") auto
    then have "concat (map piece (greedy_match t (drop k s))) = drop k s" using 1(1)[OF k refl 1(2,3)] by simp
    moreover have "piece tok = take k s" using 1(3) longest_key_Some[OF k] by blast
    ultimately show ?thesis using k by (subst greedy_match.simps) simp
  qed
qed

definition byte_complete :: "'s llama_vocab \<Rightarrow> bool" where
  "byte_complete v \<longleftrightarrow> (\<forall>b. \<exists>i < n_tokens v. rwkv_text v i = [b]) \<and> (\<forall>i < n_tokens v. 0 \<notin> set (tl (rwkv_text v i)))"

lemma greedy_match_values: "tok \<in> set (greedy_match t s) \<Longrightarrow> \<exists>k. trie_lookup t k = Some tok"
proof (induction t s rule: greedy_match.induct)
  case (1 t s)
  show ?case
  proof (cases "longest_key t s (length s)")
    case None
    then show ?thesis using 1(2) by (simp add: greedy_match.simps)
  next
    case (Some p)
    obtain v k where p: "p = (v, k)" by (cases p)
    then have "tok = v \<or> tok \<in> set (greedy_match t (drop k s))" using 1(2) Some by (simp add: greedy_match.simps[of t s])
    then show ?thesis using 1(1)[OF Some p[symmetric]] longest_key_Some[of t s "length s" v k] Some p by blast
  qed
qed

lemma rwkv_lossless:
  assumes "byte_complete v"
  shows "rwkv_tokenize (llm_tokenizer_rwkv v) unk s 0 out = Some (Inr (out @ greedy_match (llm_tokenizer_rwkv v) s))"
    "concat (map (\<lambda>t. rwkv_text v (nat t)) (greedy_match (llm_tokenizer_rwkv v) s)) = s"
    "tok \<in> set (greedy_match (llm_tokenizer_rwkv v) s) \<Longrightarrow> 0 \<le> tok \<and> nat tok < n_tokens v"
proof -
  have all: "trie_lookup (llm_tokenizer_rwkv v) [b] \<noteq> None" for b
    using assms keys_trie_complete unfolding rwkv_trie byte_complete_def by metis
  have "0 \<notin> set (tl p)" if "trie_walk (llm_tokenizer_rwkv v) p \<noteq> None" for p
    using keys_trie_walk[of "rwkv_text v" "n_tokens v" p] that assms unfolding rwkv_trie byte_complete_def by (cases p) fastforce+
  then have "no_inner_zero (llm_tokenizer_rwkv v)" by (simp add: no_inner_zero_def)
  from rwkv_tokenize_greedy_at[OF this all, of 0 s unk out]
  show "rwkv_tokenize (llm_tokenizer_rwkv v) unk s 0 out = Some (Inr (out @ greedy_match (llm_tokenizer_rwkv v) s))" by simp
  show "concat (map (\<lambda>t. rwkv_text v (nat t)) (greedy_match (llm_tokenizer_rwkv v) s)) = s"
  proof (rule greedy_match_texts[OF all])
    show "rwkv_text v (nat tok) = k" if "trie_lookup (llm_tokenizer_rwkv v) k = Some tok" for k tok
      using keys_trie_sound[of "rwkv_text v" "n_tokens v" k tok] that unfolding rwkv_trie by auto
  qed
  show "0 \<le> tok \<and> nat tok < n_tokens v" if m: "tok \<in> set (greedy_match (llm_tokenizer_rwkv v) s)"
    using greedy_match_values[OF m] keys_trie_sound unfolding rwkv_trie by fastforce
qed

text \<open>The RWKV tokenizer is greedy longest match, and loses nothing: if every byte is a token and no token text has a zero
  byte after its first one, it returns the greedy tokens of the text, and their unescaped texts make up the text.\<close>

theorem rwkv_greedy_roundtrip:
  assumes "\<forall>b. \<exists>i < n_tokens v. rwkv_text v i = [b]" and "\<forall>i < n_tokens v. 0 \<notin> set (tl (rwkv_text v i))"
  shows "rwkv_tokenize (llm_tokenizer_rwkv v) unk s 0 out = Some (Inr (out @ greedy_match (llm_tokenizer_rwkv v) s)) \<and>
    concat (map (\<lambda>t. rwkv_text v (nat t)) (greedy_match (llm_tokenizer_rwkv v) s)) = s"
  using rwkv_lossless[of v] assms by (simp add: byte_complete_def)

text \<open>A vocabulary with all bytes and \<open>ab\<close>; the backslash is stored escaped.\<close>

definition byte_vocab :: "int llama_vocab" where
  "byte_vocab = (blank_vocab LLAMA_VOCAB_TYPE_RWKV)\<lparr>id_to_token :=
     map (\<lambda>n. \<lparr>td_text = (if n = 92 then [92, 92] else [word_of_nat n]), td_score = 0, td_attr = LLAMA_TOKEN_ATTR_NORMAL\<rparr>) [0..<256]
     @ [\<lparr>td_text = [97, 98], td_score = 0, td_attr = LLAMA_TOKEN_ATTR_NORMAL\<rparr>]\<rparr>"

lemma byte_vocab_text:
  "n_tokens byte_vocab = 257" "unat b < 257 \<and> rwkv_text byte_vocab (unat b) = [b]"
  "i < 257 \<Longrightarrow> rwkv_text byte_vocab i = (if i = 256 then [97, 98] else [word_of_nat i])"
proof -
  show n: "n_tokens byte_vocab = 257" by (simp add: n_tokens_def byte_vocab_def)
  have un: "llama_unescape_rwkv_token [c] = [c]" if "c \<noteq> 92" for c
    using that by (simp add: llama_unescape_rwkv_token_def unescape_step_def)
  have "llama_unescape_rwkv_token [92, 92] = [92]" "llama_unescape_rwkv_token [97, 98] = [97, 98]"
    by (simp_all add: llama_unescape_rwkv_token_def unescape_step_def)
  moreover have "word_of_nat n \<noteq> (92 :: byte)" if "n < 256" "n \<noteq> 92" for n
    using that by (auto dest!: arg_cong[where f = unat] simp: unat_of_nat)
  ultimately show at: "i < 257 \<Longrightarrow> rwkv_text byte_vocab i = (if i = 256 then [97, 98] else [word_of_nat i])" for i
    by (auto simp: rwkv_text_def byte_vocab_def nth_append un)
  have "unat b < 256" using unsigned_less[of b] by simp
  then show "unat b < 257 \<and> rwkv_text byte_vocab (unat b) = [b]" using at[of "unat b"] by simp
qed

lemma byte_vocab_complete: "byte_complete byte_vocab"
proof -
  have "\<forall>b. \<exists>i < n_tokens byte_vocab. rwkv_text byte_vocab i = [b]" using byte_vocab_text(1,2) by metis
  moreover have "\<forall>i < n_tokens byte_vocab. 0 \<notin> set (tl (rwkv_text byte_vocab i))" by (auto simp: byte_vocab_text(1,3))
  ultimately show ?thesis by (simp add: byte_complete_def)
qed

theorem rwkv_greedy_roundtrip_witness:
  "rwkv_tokenize (llm_tokenizer_rwkv byte_vocab) (- 1) [97, 98, 92] 0 [] = Some (Inr (greedy_match (llm_tokenizer_rwkv byte_vocab) [97, 98, 92])) \<and>
   concat (map (\<lambda>t. rwkv_text byte_vocab (nat t)) (greedy_match (llm_tokenizer_rwkv byte_vocab) [97, 98, 92])) = [97, 98, 92]"
  using rwkv_greedy_roundtrip[of byte_vocab "- 1" "[97, 98, 92]" "[]"] byte_vocab_complete by (simp add: byte_complete_def)

text \<open>Without a token for every byte the position falls back to the start of the text and the loop does not end: the vocabulary
  that only has \<open>ab\<close>, on the text \<open>ac\<close>.\<close>

theorem rwkv_restarts_forever:
  "rwkv_tokenize (trie_insert [97, 98] 0 empty_trie) unk [97, 99] 0 out = None"
proof -
  define m where "m = trie_insert [97, 98] 0 empty_trie"
  obtain node where step: "traverse m 97 = Some node" "rwkv_walk (Some node) [97, 99] 0 0 0 = Inr (0, 0)"
    by (simp add: m_def traverse_def empty_trie_def str_at_def)
  have "rwkv_tokenize t u s pos o' = Some r \<Longrightarrow> t = m \<longrightarrow> s = [97, 99] \<longrightarrow> pos \<noteq> 0" for t u s pos o' r
  proof (induction t u s pos o' r rule: rwkv_tokenize.raw_induct[rotated, consumes 1, case_names body])
    case (body f t u s pos o' r)
    show ?case
    proof (intro impI notI)
      assume "t = m" "s = [97, 99]" "pos = 0"
      then have "f m u [97, 99] 0 (o' @ [0]) = Some r" using body(2) step by (simp del: rwkv_walk.simps)
      then show False using body(1) by blast
    qed
  qed
  then have "rwkv_tokenize m unk [97, 99] 0 out \<noteq> Some r" for r by blast
  then show ?thesis unfolding m_def by (cases "rwkv_tokenize (trie_insert [97, 98] 0 empty_trie) unk [97, 99] 0 out") auto
qed

end
