(* ===== verification/TokUgm.thy ===== *)
theory TokUgm
  imports TokTrie
begin

text \<open>
  The unigram tokenizer of \<open>src/llama-vocab.cpp\<close> (\<open>llm_tokenizer_ugm\<close>): the text is normalized with a table of prefix
  replacements in an XOR-compressed double array, and the segmentation with the highest sum of token scores is found by
  dynamic programming (Viterbi).  The floating-point operations are fields of \<open>float_ops\<close>; a score is of any linearly ordered
  type.
\<close>

record 's float_ops =
  fl_add :: "'s \<Rightarrow> 's \<Rightarrow> 's"
  fl_sub :: "'s \<Rightarrow> 's \<Rightarrow> 's"
  fl_zero :: 's
  fl_max :: 's \<comment> \<open>\<open>FLT_MAX\<close>\<close>
  fl_lowest :: 's \<comment> \<open>\<open>-DBL_MAX\<close>\<close>
  fl_penalty :: 's \<comment> \<open>\<open>unknown_token_score_penalty\<close>\<close>

record 's ugm_tokenizer =
  prefix_replacements :: str
  xcda_array :: "32 word list"
  user_defined_token_matcher :: naive_trie
  token_matcher :: naive_trie
  unknown_token_score :: 's

section \<open>Building the tokenizer\<close>

text \<open>A little-endian \<open>uint32_t\<close>, and the array of those in a blob.\<close>

definition le32 :: "byte \<Rightarrow> byte \<Rightarrow> byte \<Rightarrow> byte \<Rightarrow> 32 word" where
  "le32 a b c d = ucast a OR push_bit 8 (ucast b) OR push_bit 16 (ucast c) OR push_bit 24 (ucast d)"

fun le32_array :: "str \<Rightarrow> 32 word list" where
  "le32_array (a # b # c # d # bs) = le32 a b c d # le32_array bs"
| "le32_array bs = []"

definition parse_charsmap :: "str \<Rightarrow> (32 word list \<times> str) vres" where
  "parse_charsmap charsmap =
     (case charsmap of
        [] \<Rightarrow> Inr ([], [])
      | a # b # c # d # bs \<Rightarrow>
          (let xcda_blob_size = unat (le32 a b c d)
           in if length charsmap \<le> xcda_blob_size + 4 then Inl Runtime_error
              else Inr (le32_array (take (4 * (xcda_blob_size div 4)) bs), drop xcda_blob_size bs))
      | _ \<Rightarrow> Inl Undefined)"

definition ugm_token :: "('s::linorder) llama_vocab \<Rightarrow> nat \<Rightarrow> 's \<times> naive_trie \<times> naive_trie \<Rightarrow> 's \<times> naive_trie \<times> naive_trie" where
  "ugm_token v i acc =
     (let (min_score, matcher, user_matcher) = acc;
          data = id_to_token v ! i;
          normal = (is_normal v (int i) = Inr True);
          user = (is_user_defined v (int i) = Inr True);
          unused = (is_unused v (int i) = Inr True)
      in (if normal then (if td_score data < min_score then td_score data else min_score) else min_score,
          if normal \<or> user \<or> unused then trie_insert (td_text data) (int i) matcher else matcher,
          if user then trie_insert (td_text data) 0 user_matcher else user_matcher))"

definition llm_tokenizer_ugm :: "('s::linorder) float_ops \<Rightarrow> 's llama_vocab \<Rightarrow> str \<Rightarrow> 's ugm_tokenizer vres" where
  "llm_tokenizer_ugm ops v charsmap =
     (case parse_charsmap charsmap of
        Inl e \<Rightarrow> Inl e
      | Inr (xcda, repl) \<Rightarrow>
          (let (min_score, matcher, user_matcher) = fold (ugm_token v) [0..<n_tokens v] (fl_max ops, empty_trie, empty_trie)
           in Inr \<lparr>prefix_replacements = repl, xcda_array = xcda, user_defined_token_matcher = user_matcher,
                   token_matcher = matcher, unknown_token_score = fl_sub ops min_score (fl_penalty ops)\<rparr>))"

section \<open>Normalization\<close>

definition get_node :: "32 word list \<Rightarrow> 32 word \<Rightarrow> 32 word vres" where
  "get_node xcda index = (if length xcda \<le> unat index then Inl Runtime_error else Inr (xcda ! unat index))"

definition xcda_base :: "32 word \<Rightarrow> 32 word" where
  "xcda_base packed_node = push_bit (unat (drop_bit 6 (packed_node AND 0x200))) (drop_bit 10 packed_node)"

definition xcda_lcheck :: "32 word \<Rightarrow> 32 word" where
  "xcda_lcheck packed_node = packed_node AND 0x800000FF"

definition xcda_leaf :: "32 word \<Rightarrow> bool" where
  "xcda_leaf packed_node \<longleftrightarrow> drop_bit 8 packed_node AND 1 = 1"

definition xcda_value :: "32 word \<Rightarrow> 32 word" where
  "xcda_value packed_node = packed_node AND 0x7FFFFFFF"

text \<open>The walk in the double array; \<open>n\<close> is the number of bytes walked, \<open>best\<close> the length and the value of the last leaf.\<close>

fun xcda_walk :: "32 word list \<Rightarrow> 32 word \<Rightarrow> nat \<Rightarrow> str \<Rightarrow> nat \<times> nat \<Rightarrow> (nat \<times> nat) vres" where
  "xcda_walk xcda node_index n [] best = Inr best"
| "xcda_walk xcda node_index n (c # cs) best =
     (if c = 0 then Inr best
      else
        (let index = node_index XOR ucast c
         in case get_node xcda index of
              Inl e \<Rightarrow> Inl e
            | Inr packed \<Rightarrow>
                if xcda_lcheck packed \<noteq> ucast c then Inr best
                else
                  (let index' = index XOR xcda_base packed
                   in if xcda_leaf packed then
                        (case get_node xcda index' of
                           Inl e \<Rightarrow> Inl e
                         | Inr leaf \<Rightarrow> xcda_walk xcda index' (n + 1) cs (n + 1, unat (xcda_value leaf)))
                      else xcda_walk xcda index' (n + 1) cs best)))"

definition xcda_longest :: "32 word list \<Rightarrow> str \<Rightarrow> (nat \<times> nat) vres" where
  "xcda_longest xcda s =
     (if xcda = [] then Inr (0, 0)
      else (case get_node xcda 0 of Inl e \<Rightarrow> Inl e | Inr packed \<Rightarrow> xcda_walk xcda (xcda_base packed) 0 s (0, 0)))"

text \<open>The zero-terminated string that starts at an offset of the replacements.\<close>

definition c_string :: "str \<Rightarrow> nat \<Rightarrow> str vres" where
  "c_string s i = (if 0 \<in> set (drop i s) then Inr (takeWhile (\<lambda>c. c \<noteq> 0) (drop i s)) else Inl Undefined)"

text \<open>A \<open>normalization_result\<close> is the normalized bytes and the number of consumed bytes.\<close>

definition normalize_prefix :: "'s ugm_tokenizer \<Rightarrow> str \<Rightarrow> nat \<Rightarrow> (str \<times> nat) vres" where
  "normalize_prefix ug input input_offset =
     (if input_offset = length input then Inr ([], 0)
      else
        (let rest = drop input_offset input;
             user_len = get_longest_prefix (user_defined_token_matcher ug) rest 0
         in if user_len > 0 then Inr (take user_len rest, user_len)
            else
              (case xcda_longest (xcda_array ug) rest of
                 Inl e \<Rightarrow> Inl e
               | Inr (longest_prefix_length, longest_prefix_offset) \<Rightarrow>
                   if longest_prefix_length > 0 then
                     (if length (prefix_replacements ug) \<le> longest_prefix_offset then Inl Runtime_error
                      else (case c_string (prefix_replacements ug) longest_prefix_offset of
                              Inl e \<Rightarrow> Inl e
                            | Inr r \<Rightarrow> Inr (r, longest_prefix_length)))
                   else
                     (case unicode_cpt_from_utf8 input input_offset of
                        Some (_, prefix_offset) \<Rightarrow>
                          Inr (take (prefix_offset - input_offset) rest, prefix_offset - input_offset)
                      | None \<Rightarrow> Inr ([0xEF, 0xBF, 0xBD], 1)))))"

record norm_state =
  normalized :: str
  is_space_prepended :: bool
  processing_non_ws :: bool

definition ugm_space :: "'s llama_vocab \<Rightarrow> str" where
  "ugm_space v = (if v_escape_whitespaces v then [0xE2, 0x96, 0x81] else [32])"

definition normalize_char :: "'s llama_vocab \<Rightarrow> byte \<Rightarrow> norm_state \<Rightarrow> norm_state" where
  "normalize_char v c st =
     (let shall_prepend_space = (\<not> v_treat_whitespace_as_suffix v \<and> v_add_space_prefix v);
          shall_merge_spaces = v_remove_extra_whitespaces v
      in if c \<noteq> 32 then
           (let st1 = (if \<not> processing_non_ws st then
                         (let st0 = st\<lparr>processing_non_ws := True\<rparr>
                          in if shall_prepend_space \<and> \<not> is_space_prepended st \<or> shall_merge_spaces
                             then st0\<lparr>normalized := normalized st @ ugm_space v, is_space_prepended := True\<rparr> else st0)
                       else st)
            in st1\<lparr>normalized := normalized st1 @ [c]\<rparr>)
         else
           (let st1 = st\<lparr>processing_non_ws := False\<rparr>
            in if \<not> shall_merge_spaces then st1\<lparr>normalized := normalized st @ ugm_space v\<rparr> else st1))"

lemma xcda_walk_bound: "xcda_walk xcda node n s best = Inr (l, off) \<Longrightarrow> l = fst best \<or> n < l \<and> l \<le> n + length s"
  by (induction s arbitrary: node n best) (auto simp: Let_def split: if_splits sum.splits, force+)

lemma normalize_prefix_consumes:
  assumes "normalize_prefix ug input input_offset = Inr (r, consumed)" "input_offset < length input"
  shows "0 < consumed"
  using assms cpt_from_utf8_advances[of input input_offset]
  by (auto simp: normalize_prefix_def Let_def split: if_splits sum.splits option.splits)

function normalize_loop :: "'s llama_vocab \<Rightarrow> 's ugm_tokenizer \<Rightarrow> str \<Rightarrow> nat \<Rightarrow> norm_state \<Rightarrow> norm_state vres" where
  "normalize_loop v ug input input_offset st =
     (if input_offset < length input then
        (case normalize_prefix ug input input_offset of
           Inl e \<Rightarrow> Inl e
         | Inr (r, consumed) \<Rightarrow> normalize_loop v ug input (input_offset + consumed) (fold (normalize_char v) r st))
      else Inr st)"
  by pat_completeness auto
termination
  by (relation "measure (\<lambda>(v, ug, input, i, st). length input - i)")
    (auto dest: normalize_prefix_consumes intro: diff_less_mono2)

declare normalize_loop.simps [simp del]

definition ugm_normalize :: "'s llama_vocab \<Rightarrow> 's ugm_tokenizer \<Rightarrow> str \<Rightarrow> str vres" where
  "ugm_normalize v ug input =
     (case normalize_loop v ug input 0 \<lparr>normalized = [], is_space_prepended = False, processing_non_ws = False\<rparr> of
        Inl e \<Rightarrow> Inl e
      | Inr st \<Rightarrow> Inr (if v_treat_whitespace_as_suffix v \<and> v_add_space_prefix v then normalized st @ ugm_space v else normalized st))"

section \<open>The Viterbi search\<close>

record 's best_tokenization =
  bt_token :: llama_token
  bt_offset :: nat
  bt_score :: 's

definition ugm_token_score :: "'s float_ops \<Rightarrow> 's llama_vocab \<Rightarrow> llama_token \<Rightarrow> 's vres" where
  "ugm_token_score ops v token_id =
     (case get_token_data v token_id of
        Inl e \<Rightarrow> Inl e
      | Inr token_data \<Rightarrow>
          (case is_user_defined v token_id of
             Inl e \<Rightarrow> Inl e
           | Inr user \<Rightarrow> Inr (if user then fl_zero ops else td_score token_data)))"

definition challenge :: "nat \<Rightarrow> ('s::linorder) best_tokenization \<Rightarrow> 's best_tokenization list \<Rightarrow> 's best_tokenization list" where
  "challenge prefix_offset challenger results =
     (if bt_score (results ! prefix_offset) < bt_score challenger then results[prefix_offset := challenger] else results)"

function ugm_walk ::
  "('s::linorder) float_ops \<Rightarrow> 's llama_vocab \<Rightarrow> str \<Rightarrow> nat \<Rightarrow> nat \<Rightarrow> naive_trie option \<Rightarrow> nat \<Rightarrow> 's best_tokenization list \<Rightarrow> bool
    \<Rightarrow> ('s best_tokenization list \<times> bool) vres" where
  "ugm_walk ops v s input_offset n_units None prefix_offset results found = Inr (results, found)"
| "ugm_walk ops v s input_offset n_units (Some node) prefix_offset results found =
     (if prefix_offset \<le> length s then
        (let next_node = traverse node (if prefix_offset < length s then s ! prefix_offset else 0)
         in if has_value node then
              (case ugm_token_score ops v (node_value node) of
                 Inl e \<Rightarrow> Inl e
               | Inr token_score \<Rightarrow>
                   ugm_walk ops v s input_offset n_units next_node (prefix_offset + 1)
                     (challenge prefix_offset \<lparr>bt_token = node_value node, bt_offset = input_offset,
                        bt_score = fl_add ops (bt_score (results ! input_offset)) token_score\<rparr> results)
                     (found \<or> prefix_offset - input_offset = n_units))
            else ugm_walk ops v s input_offset n_units next_node (prefix_offset + 1) results found)
      else Inr (results, found))"
  by pat_completeness auto
termination
  by (relation "measure (\<lambda>(ops, v, s, io, n, node, po, results, found). length s + 1 - po)") auto

definition n_utf8_code_units :: "str \<Rightarrow> nat \<Rightarrow> nat" where
  "n_utf8_code_units s i = min (unicode_len_utf8 (s ! i)) (length s - i)"

lemma n_units_pos: "i < length s \<Longrightarrow> 0 < n_utf8_code_units s i \<and> i + n_utf8_code_units s i \<le> length s"
  using unicode_len_utf8_pos by (auto simp: n_utf8_code_units_def min_def)

definition ugm_step :: "('s::linorder) float_ops \<Rightarrow> 's llama_vocab \<Rightarrow> 's ugm_tokenizer \<Rightarrow> str \<Rightarrow> nat \<Rightarrow> 's best_tokenization list
    \<Rightarrow> 's best_tokenization list vres" where
  "ugm_step ops v ug s input_offset results =
     (let n = n_utf8_code_units s input_offset
      in case ugm_walk ops v s input_offset n (traverse (token_matcher ug) (s ! input_offset)) (input_offset + 1) results False of
           Inl e \<Rightarrow> Inl e
         | Inr (results', found) \<Rightarrow>
             Inr (if \<not> found
                  then challenge (input_offset + n) \<lparr>bt_token = special_unk_id v, bt_offset = input_offset,
                         bt_score = fl_add ops (bt_score (results' ! input_offset)) (unknown_token_score ug)\<rparr> results'
                  else results'))"

function ugm_forward :: "('s::linorder) float_ops \<Rightarrow> 's llama_vocab \<Rightarrow> 's ugm_tokenizer \<Rightarrow> str \<Rightarrow> nat \<Rightarrow> 's best_tokenization list
    \<Rightarrow> 's best_tokenization list vres" where
  "ugm_forward ops v ug s input_offset results =
     (if input_offset < length s then
        (case ugm_step ops v ug s input_offset results of
           Inl e \<Rightarrow> Inl e
         | Inr results' \<Rightarrow> ugm_forward ops v ug s (input_offset + n_utf8_code_units s input_offset) results')
      else Inr results)"
  by pat_completeness auto
termination
  by (relation "measure (\<lambda>(ops, v, ug, s, i, r). length s - i)") (auto dest: n_units_pos intro: diff_less_mono2)

declare ugm_forward.simps [simp del]

text \<open>The loop variable of the backtracking is a reference to the last result, which each step overwrites; no earlier result is
  overwritten, so it is read here by value.\<close>

partial_function (option) ugm_backtrack ::
  "llama_token \<Rightarrow> 's best_tokenization list \<Rightarrow> 's best_tokenization \<Rightarrow> bool \<Rightarrow> llama_token list \<Rightarrow> llama_token list option" where
  "ugm_backtrack unk results t is_prev_unknown out =
     (let is_unknown = (bt_token t = unk);
          out' = (if \<not> (is_prev_unknown \<and> is_unknown) then out @ [bt_token t] else out)
      in if bt_offset t = 0 then Some out' else ugm_backtrack unk results (results ! bt_offset t) is_unknown out')"

declare ugm_backtrack.simps [code]

definition ugm_tokenize ::
  "('s::linorder) float_ops \<Rightarrow> 's llama_vocab \<Rightarrow> 's ugm_tokenizer \<Rightarrow> str \<Rightarrow> llama_token list \<Rightarrow> llama_token list vres option" where
  "ugm_tokenize ops v ug input out =
     (case ugm_normalize v ug input of
        Inl e \<Rightarrow> Some (Inl e)
      | Inr s \<Rightarrow>
          if s = [] then Some (Inr out)
          else
            (let init = replicate (length s + 1) \<lparr>bt_token = special_unk_id v, bt_offset = 0, bt_score = fl_lowest ops\<rparr>
             in case ugm_forward ops v ug s 0 (init[0 := \<lparr>bt_token = special_unk_id v, bt_offset = 0, bt_score = fl_zero ops\<rparr>]) of
                  Inl e \<Rightarrow> Some (Inl e)
                | Inr results \<Rightarrow>
                    map_option (\<lambda>out'. Inr (take (length out) out' @ rev (drop (length out) out')))
                      (ugm_backtrack (special_unk_id v) results (results ! length s) False out)))"

end
