(* ===== verification/TokUgmProps.thy ===== *)
theory TokUgmProps
  imports TokUgm
begin

text \<open>
  The dynamic program of theory \<open>TokUgm\<close> finds a segmentation of the normalized text with the highest score.  A
  segmentation is a path of steps between offsets: a token of the vocabulary, or the unknown token over a whole character
  that is no token.  Steps start at character boundaries, as the program only looks for tokens there.
\<close>

section \<open>Segmentations\<close>

inductive boundary :: "str \<Rightarrow> nat \<Rightarrow> bool" for s where
  start: "boundary s 0"
| next_char: "boundary s i \<Longrightarrow> i < length s \<Longrightarrow> boundary s (i + n_utf8_code_units s i)"

definition seg_step :: "('s::linorder) float_ops \<Rightarrow> 's llama_vocab \<Rightarrow> 's ugm_tokenizer \<Rightarrow> str \<Rightarrow> nat \<Rightarrow> nat \<Rightarrow> llama_token \<Rightarrow> 's \<Rightarrow> bool" where
  "seg_step ops v ug s i j t sc \<longleftrightarrow> boundary s i \<and> i < length s \<and>
     (i < j \<and> j \<le> length s \<and> trie_lookup (token_matcher ug) (take (j - i) (drop i s)) = Some t \<and> ugm_token_score ops v t = Inr sc \<or>
      j = i + n_utf8_code_units s i \<and> t = special_unk_id v \<and> sc = unknown_token_score ug \<and>
      trie_lookup (token_matcher ug) (take (n_utf8_code_units s i) (drop i s)) = None)"

inductive seg_path :: "('s::linorder) float_ops \<Rightarrow> 's llama_vocab \<Rightarrow> 's ugm_tokenizer \<Rightarrow> str \<Rightarrow> nat \<Rightarrow> llama_token list \<Rightarrow> 's \<Rightarrow> bool"
  for ops v ug s where
  empty_path: "seg_path ops v ug s 0 [] (fl_zero ops)"
| step_path: "seg_path ops v ug s i ts a \<Longrightarrow> seg_step ops v ug s i j t sc \<Longrightarrow> seg_path ops v ug s j (ts @ [t]) (fl_add ops a sc)"

text \<open>Runs of the unknown token are merged to one.\<close>

fun collapse :: "llama_token \<Rightarrow> llama_token list \<Rightarrow> llama_token list" where
  "collapse unk (a # b # ts) = (if a = unk \<and> b = unk then collapse unk (b # ts) else a # collapse unk (b # ts))"
| "collapse unk ts = ts"

lemma seg_step_bounds: "seg_step ops v ug s i j t sc \<Longrightarrow> i < j \<and> j \<le> length s \<and> boundary s i \<and> i < length s"
  using n_units_pos[of i s] by (auto simp: seg_step_def)

section \<open>One step of the program\<close>

text \<open>The token matcher only holds tokens of the vocabulary, so their scores are known.\<close>

definition scores_known :: "'s float_ops \<Rightarrow> 's llama_vocab \<Rightarrow> 's ugm_tokenizer \<Rightarrow> bool" where
  "scores_known ops v ug \<longleftrightarrow> (\<forall>k t. trie_lookup (token_matcher ug) k = Some t \<longrightarrow> (\<exists>sc. ugm_token_score ops v t = Inr sc))"

lemma n_tokens_le: "n_tokens v \<le> length (id_to_token v)"
  by (simp add: n_tokens_def u32_def)

lemma ugm_matcher_tokens:
  "trie_lookup (fst (snd (fold (ugm_token v) [0..<n] (m, empty_trie, empty_trie)))) k = Some t \<Longrightarrow> \<exists>i < n. t = int i"
proof (induction n arbitrary: k)
  case (Suc n)
  then show ?case
    by (auto simp: ugm_token_def Let_def case_prod_beta trie_lookup_insert less_Suc_eq split: if_splits)
qed simp

lemma ugm_scores_known:
  assumes "llm_tokenizer_ugm ops v charsmap = Inr ug"
  shows "scores_known ops v ug"
proof -
  have "\<exists>sc. ugm_token_score ops v t = Inr sc" if "trie_lookup (token_matcher ug) k = Some t" for k t
  proof -
    have "\<exists>i < n_tokens v. t = int i"
      using assms that ugm_matcher_tokens[where v = v and n = "n_tokens v" and m = "fl_max ops" and k = k and t = t]
      by (auto simp: llm_tokenizer_ugm_def Let_def case_prod_beta split: sum.splits)
    then have "0 \<le> t" "nat t < length (id_to_token v)" using n_tokens_le[of v] by auto
    then show ?thesis by (simp add: ugm_token_score_def get_token_data_def is_user_defined_def has_attr_def)
  qed
  then show ?thesis by (auto simp: scores_known_def)
qed

text \<open>What a token that starts at \<open>i\<close>, where the best score is \<open>a\<close>, makes of the result at \<open>j\<close>.\<close>

definition offer :: "('s::linorder) float_ops \<Rightarrow> 's llama_vocab \<Rightarrow> 's ugm_tokenizer \<Rightarrow> str \<Rightarrow> nat \<Rightarrow> 's \<Rightarrow> nat \<Rightarrow> 's best_tokenization \<Rightarrow> 's best_tokenization" where
  "offer ops v ug s i a j old =
     (case trie_lookup (token_matcher ug) (take (j - i) (drop i s)) of
        None \<Rightarrow> old
      | Some t \<Rightarrow>
          (case ugm_token_score ops v t of
             Inl e \<Rightarrow> old
           | Inr sc \<Rightarrow> if bt_score old < fl_add ops a sc then \<lparr>bt_token = t, bt_offset = i, bt_score = fl_add ops a sc\<rparr> else old))"

lemma length_challenge [simp]: "length (challenge p c results) = length results"
  by (simp add: challenge_def)

lemma challenge_nth: "challenge p c results ! j = (if j = p \<and> p < length results \<and> bt_score (results ! p) < bt_score c then c else results ! j)"
  by (auto simp: challenge_def nth_list_update list_update_beyond)

lemma ugm_walk_offers:
  assumes known: "scores_known ops v ug" and i: "i < length s" and n: "i + n \<le> length s" "0 < n"
  shows "length results = length s + 1 \<Longrightarrow> i < po \<Longrightarrow> trie_walk (token_matcher ug) (take (po - i) (drop i s)) = node \<Longrightarrow> po \<le> length s \<Longrightarrow>
    \<exists>results' found'. ugm_walk ops v s i n node po results found = Inr (results', found') \<and> length results' = length s + 1 \<and>
      (\<forall>j. results' ! j = (if po \<le> j \<and> j \<le> length s then offer ops v ug s i (bt_score (results ! i)) j (results ! j) else results ! j)) \<and>
      found' = (found \<or> po \<le> i + n \<and> trie_lookup (token_matcher ug) (take n (drop i s)) \<noteq> None)"
proof (induction "length s + 1 - po" arbitrary: po node results found)
  case (Suc m)
  define best where "best = bt_score (results ! i)"
  define key where "key = trie_lookup (token_matcher ug)"
  show ?case
  proof (cases node)
    case None
    then have none: "key (take k (drop i s)) = None" if "po - i \<le> k" for k
      using trie_walk_longer[OF _ that] Suc.prems(3) by (simp add: key_def)
    then have "offer ops v ug s i best j old = old" if "po \<le> j" for j old
      using none[of "j - i"] that by (simp add: offer_def key_def)
    moreover have "po \<le> i + n \<Longrightarrow> key (take n (drop i s)) = None" using none[of n] Suc.prems(2) by simp
    ultimately show ?thesis using None Suc.prems(1) by (auto simp: best_def key_def)
  next
    case (Some nd)
    have look: "key (take (po - i) (drop i s)) = (if has_value nd then Some (node_value nd) else None)"
      using Suc.prems(3) Some by (simp add: key_def trie_lookup_def)
    define next_node where "next_node = traverse nd (if po < length s then s ! po else 0)"
    define found1 where "found1 = (found \<or> has_value nd \<and> po - i = n)"
    obtain r1 where r1: "ugm_walk ops v s i n node po results found = ugm_walk ops v s i n next_node (po + 1) r1 found1"
      "length r1 = length s + 1" "\<And>j. r1 ! j = (if j = po then offer ops v ug s i best j (results ! j) else results ! j)"
    proof (cases "has_value nd")
      case False
      have "offer ops v ug s i best po old = old" for old using look False by (simp add: offer_def key_def)
      then show ?thesis using that[of results] False Some Suc.prems by (simp add: Let_def next_node_def found1_def)
    next
      case True
      obtain sc where sc: "ugm_token_score ops v (node_value nd) = Inr sc"
        using known look True by (auto simp: scores_known_def key_def)
      show ?thesis
      proof (rule that[of "challenge po \<lparr>bt_token = node_value nd, bt_offset = i, bt_score = fl_add ops best sc\<rparr> results"])
        show "ugm_walk ops v s i n node po results found =
          ugm_walk ops v s i n next_node (po + 1) (challenge po \<lparr>bt_token = node_value nd, bt_offset = i, bt_score = fl_add ops best sc\<rparr> results) found1"
          using True Some Suc.prems sc by (simp add: Let_def next_node_def found1_def best_def)
        show "challenge po \<lparr>bt_token = node_value nd, bt_offset = i, bt_score = fl_add ops best sc\<rparr> results ! j
          = (if j = po then offer ops v ug s i best j (results ! j) else results ! j)" for j
          using Suc.prems look True sc by (auto simp: challenge_nth offer_def key_def)
      qed (use Suc.prems in simp)
    qed
    have best1: "bt_score (r1 ! i) = best" using r1(3)[of i] Suc.prems(2) by (simp add: best_def)
    show ?thesis
    proof (cases "po < length s")
      case False
      then have po: "po = length s" using Suc.prems by simp
      have "ugm_walk ops v s i n next_node (po + 1) r1 found1 = Inr (r1, found1)" using po by (cases next_node) simp_all
      moreover have "found1 = (found \<or> po \<le> i + n \<and> key (take n (drop i s)) \<noteq> None)"
        using look po n by (cases "has_value nd") (auto simp: found1_def)
      ultimately show ?thesis using r1 po by (auto simp: best_def key_def)
    next
      case True
      have "trie_walk (token_matcher ug) (take (po + 1 - i) (drop i s)) = next_node"
        using True Suc.prems(2,3) Some by (simp add: Suc_diff_le take_Suc_conv_app_nth trie_walk_append next_node_def split: bind_splits)
      then obtain results' found' where res: "ugm_walk ops v s i n next_node (po + 1) r1 found1 = Inr (results', found')" "length results' = length s + 1"
        "\<And>j. results' ! j = (if po + 1 \<le> j \<and> j \<le> length s then offer ops v ug s i best j (r1 ! j) else r1 ! j)"
        "found' = (found1 \<or> po + 1 \<le> i + n \<and> key (take n (drop i s)) \<noteq> None)"
      proof -
        have hyp: "m = length s + 1 - (po + 1)" "i < po + 1" "po + 1 \<le> length s" using Suc.hyps(2) Suc.prems(2) True by simp_all
        from Suc.hyps(1)[OF hyp(1) r1(2) hyp(2) \<open>trie_walk (token_matcher ug) (take (po + 1 - i) (drop i s)) = next_node\<close> hyp(3), of found1]
        show ?thesis using that best1 unfolding key_def by auto
      qed
      have "found' = (found \<or> po \<le> i + n \<and> key (take n (drop i s)) \<noteq> None)"
      proof (cases "po - i = n")
        case True
        then have "po = i + n" using Suc.prems(2) by simp
        then show ?thesis using look unfolding res(4) found1_def by (cases "has_value nd") simp_all
      next
        case False
        then have "po \<le> i + n \<longleftrightarrow> po + 1 \<le> i + n" using Suc.prems(2) by auto
        then show ?thesis using False unfolding res(4) found1_def by simp
      qed
      then show ?thesis using r1 res(1,2,3) True by (auto simp: best_def key_def)
    qed
  qed
qed simp

text \<open>A whole step at a boundary, with the offer of the unknown token.\<close>

definition offer_all :: "('s::linorder) float_ops \<Rightarrow> 's llama_vocab \<Rightarrow> 's ugm_tokenizer \<Rightarrow> str \<Rightarrow> nat \<Rightarrow> 's \<Rightarrow> nat \<Rightarrow> 's best_tokenization \<Rightarrow> 's best_tokenization" where
  "offer_all ops v ug s i a j old =
     (if j = i + n_utf8_code_units s i \<and> trie_lookup (token_matcher ug) (take (n_utf8_code_units s i) (drop i s)) = None
      then (if bt_score old < fl_add ops a (unknown_token_score ug)
            then \<lparr>bt_token = special_unk_id v, bt_offset = i, bt_score = fl_add ops a (unknown_token_score ug)\<rparr> else old)
      else offer ops v ug s i a j old)"

lemma ugm_step_offers:
  assumes known: "scores_known ops v ug" and i: "i < length s" and len: "length results = length s + 1"
  shows "\<exists>results'. ugm_step ops v ug s i results = Inr results' \<and> length results' = length s + 1 \<and>
     (\<forall>j. results' ! j = (if i < j \<and> j \<le> length s then offer_all ops v ug s i (bt_score (results ! i)) j (results ! j) else results ! j))"
proof -
  define n where "n = n_utf8_code_units s i"
  have n: "i + n \<le> length s" "0 < n" using n_units_pos[OF i] by (simp_all add: n_def)
  have node: "trie_walk (token_matcher ug) (take (i + 1 - i) (drop i s)) = traverse (token_matcher ug) (s ! i)"
    using i by (simp add: take_Suc_conv_app_nth[of 0, simplified] split: bind_splits)
  obtain results' found' where w: "ugm_walk ops v s i n (traverse (token_matcher ug) (s ! i)) (i + 1) results False = Inr (results', found')"
    "length results' = length s + 1"
    "\<And>j. results' ! j = (if i + 1 \<le> j \<and> j \<le> length s then offer ops v ug s i (bt_score (results ! i)) j (results ! j) else results ! j)"
    "found' = (i + 1 \<le> i + n \<and> trie_lookup (token_matcher ug) (take n (drop i s)) \<noteq> None)"
    using ugm_walk_offers[OF known i n len _ node, of False] i by auto
  have a: "bt_score (results' ! i) = bt_score (results ! i)" by (simp add: w(3))
  have f: "found' \<longleftrightarrow> trie_lookup (token_matcher ug) (take n (drop i s)) \<noteq> None" using w(4) n by auto
  show ?thesis
  proof (cases found')
    case True
    then have "ugm_step ops v ug s i results = Inr results'" using w(1) by (simp add: ugm_step_def n_def Let_def)
    then show ?thesis using w(2,3) f True by (auto simp: offer_all_def n_def)
  next
    case False
    then have none: "trie_lookup (token_matcher ug) (take n (drop i s)) = None" using f by simp
    define results'' where "results'' = challenge (i + n) \<lparr>bt_token = special_unk_id v, bt_offset = i,
      bt_score = fl_add ops (bt_score (results ! i)) (unknown_token_score ug)\<rparr> results'"
    have step: "ugm_step ops v ug s i results = Inr results''" using w(1) False a by (simp add: ugm_step_def n_def Let_def results''_def)
    have at: "results' ! (i + n) = results ! (i + n)" using w(3)[of "i + n"] none by (simp add: offer_def)
    have "results'' ! j = (if i < j \<and> j \<le> length s then offer_all ops v ug s i (bt_score (results ! i)) j (results ! j) else results ! j)" for j
    proof (cases "j = i + n")
      case True
      then show ?thesis using n none w(2) at by (simp add: results''_def challenge_nth offer_all_def n_def)
    next
      case False
      then show ?thesis using w(3)[of j] by (auto simp: results''_def challenge_nth offer_all_def n_def)
    qed
    then show ?thesis using step w(2) by (simp add: results''_def)
  qed
qed

lemma offer_all_step:
  assumes "boundary s i" "i < length s" "i < j" "j \<le> length s"
  shows "offer_all ops v ug s i a j old = old \<or>
      (\<exists>t sc. seg_step ops v ug s i j t sc \<and> offer_all ops v ug s i a j old = \<lparr>bt_token = t, bt_offset = i, bt_score = fl_add ops a sc\<rparr>)"
    and "bt_score old \<le> bt_score (offer_all ops v ug s i a j old)"
    and "seg_step ops v ug s i j t sc \<Longrightarrow> fl_add ops a sc \<le> bt_score (offer_all ops v ug s i a j old)"
  using assms by (auto simp: offer_all_def offer_def seg_step_def not_less split: option.split sum.split)

section \<open>The invariant\<close>

definition ugm_inv :: "('s::linorder) float_ops \<Rightarrow> 's llama_vocab \<Rightarrow> 's ugm_tokenizer \<Rightarrow> str \<Rightarrow> nat \<Rightarrow> 's best_tokenization list \<Rightarrow> bool" where
  "ugm_inv ops v ug s o' results \<longleftrightarrow> length results = length s + 1 \<and> boundary s o' \<and>
     bt_score (results ! 0) = fl_zero ops \<and>
     (\<forall>j. 0 < j \<longrightarrow> j \<le> length s \<longrightarrow> bt_score (results ! j) = fl_lowest ops \<or>
        (\<exists>sc. bt_offset (results ! j) < o' \<and> seg_step ops v ug s (bt_offset (results ! j)) j (bt_token (results ! j)) sc \<and>
           bt_score (results ! j) = fl_add ops (bt_score (results ! bt_offset (results ! j))) sc)) \<and>
     (\<forall>i j t sc. i < o' \<longrightarrow> seg_step ops v ug s i j t sc \<longrightarrow> fl_add ops (bt_score (results ! i)) sc \<le> bt_score (results ! j))"

lemma boundary_between: "boundary s b \<Longrightarrow> boundary s a \<Longrightarrow> a < b \<Longrightarrow> a + n_utf8_code_units s a \<le> b"
proof (induction b arbitrary: a rule: less_induct)
  case (less b)
  from less(2) show ?case
  proof cases
    case start
    then show ?thesis using less(4) by simp
  next
    case (next_char b')
    have b': "b' < b" using n_units_pos[of b' s] next_char by simp
    consider "a < b'" | "a = b'" | "b' < a" by linarith
    then show ?thesis
    proof cases
      case 1
      then show ?thesis using less(1)[OF b' next_char(2) less(3)] b' by simp
    next
      case 2
      then show ?thesis using next_char by simp
    next
      case 3
      then show ?thesis using less(1)[OF less(4) less(3) next_char(2)] next_char less(4) by simp
    qed
  qed
qed

lemma ugm_inv_step:
  assumes known: "scores_known ops v ug" and inv: "ugm_inv ops v ug s i results" and i: "i < length s"
    and step: "ugm_step ops v ug s i results = Inr results'"
  shows "ugm_inv ops v ug s (i + n_utf8_code_units s i) results'"
proof -
  define n where "n = n_utf8_code_units s i"
  have n: "0 < n" using n_units_pos[OF i] by (simp add: n_def)
  have len: "length results = length s + 1" and bd: "boundary s i" using inv by (simp_all add: ugm_inv_def)
  have A: "bt_score (results ! j) = fl_lowest ops \<or>
        (\<exists>sc. bt_offset (results ! j) < i \<and> seg_step ops v ug s (bt_offset (results ! j)) j (bt_token (results ! j)) sc \<and>
           bt_score (results ! j) = fl_add ops (bt_score (results ! bt_offset (results ! j))) sc)" if "0 < j" "j \<le> length s" for j
    using inv that by (auto simp: ugm_inv_def)
  have B: "fl_add ops (bt_score (results ! i0)) sc \<le> bt_score (results ! j)" if "i0 < i" "seg_step ops v ug s i0 j t sc" for i0 j t sc
    using inv that by (auto simp: ugm_inv_def)
  have len': "length results' = length s + 1"
    and at: "\<And>j. results' ! j = (if i < j \<and> j \<le> length s then offer_all ops v ug s i (bt_score (results ! i)) j (results ! j) else results ! j)"
    using ugm_step_offers[OF known i len] step by auto
  have old: "results' ! j = results ! j" if "j \<le> i" for j using at[of j] that by simp
  have grow: "bt_score (results ! j) \<le> bt_score (results' ! j)" for j
    using at[of j] offer_all_step(2)[OF bd i, of j] by auto
  have "bt_score (results' ! j) = fl_lowest ops \<or>
        (\<exists>sc. bt_offset (results' ! j) < i + n \<and> seg_step ops v ug s (bt_offset (results' ! j)) j (bt_token (results' ! j)) sc \<and>
           bt_score (results' ! j) = fl_add ops (bt_score (results' ! bt_offset (results' ! j))) sc)" if j: "0 < j" "j \<le> length s" for j
  proof (cases "results' ! j = results ! j")
    case True
    show ?thesis unfolding True using A[OF j] old n by auto
  next
    case False
    then have ij: "i < j" and off: "results' ! j = offer_all ops v ug s i (bt_score (results ! i)) j (results ! j)"
      using at[of j] by (auto split: if_splits)
    obtain t sc where "seg_step ops v ug s i j t sc" "results' ! j = \<lparr>bt_token = t, bt_offset = i, bt_score = fl_add ops (bt_score (results ! i)) sc\<rparr>"
      using offer_all_step(1)[OF bd i ij j(2), where old = "results ! j"] off False by metis
    then show ?thesis using old[of i] n by auto
  qed
  moreover have "fl_add ops (bt_score (results' ! i0)) sc \<le> bt_score (results' ! j)"
    if i0: "i0 < i + n" and st: "seg_step ops v ug s i0 j t sc" for i0 j t sc
  proof -
    have b0: "boundary s i0" and ij: "i0 < j" "j \<le> length s" using seg_step_bounds[OF st] by auto
    have le: "i0 \<le> i" using boundary_between[OF b0 bd] i0 by (force simp: n_def)
    show ?thesis
    proof (cases "i0 = i")
      case True
      then show ?thesis using at[of j] ij offer_all_step(3)[OF bd i, of j] st old[of i] by simp
    next
      case False
      then show ?thesis using B[of i0 j t sc] st le old[of i0] grow[of j] by (simp add: order_trans)
    qed
  qed
  moreover have "boundary s (i + n)" unfolding n_def by (rule next_char[OF bd i])
  moreover have "bt_score (results' ! 0) = fl_zero ops" using old[of 0] inv by (simp add: ugm_inv_def)
  ultimately show ?thesis using len' unfolding ugm_inv_def n_def by blast
qed

lemma ugm_forward_inv:
  assumes known: "scores_known ops v ug"
  shows "ugm_inv ops v ug s i results \<Longrightarrow> i \<le> length s \<Longrightarrow>
    \<exists>results'. ugm_forward ops v ug s i results = Inr results' \<and> ugm_inv ops v ug s (length s) results'"
proof (induction "length s - i" arbitrary: i results rule: less_induct)
  case less
  show ?case
  proof (cases "i < length s")
    case False
    then show ?thesis using less by (subst ugm_forward.simps) auto
  next
    case True
    have "length results = length s + 1" using less(2) by (simp add: ugm_inv_def)
    then obtain r where r: "ugm_step ops v ug s i results = Inr r" using ugm_step_offers[OF known True] by blast
    note n = n_units_pos[OF True]
    have "ugm_inv ops v ug s (i + n_utf8_code_units s i) r" by (rule ugm_inv_step[OF known less(2) True r])
    moreover have "length s - (i + n_utf8_code_units s i) < length s - i" using n by linarith
    ultimately show ?thesis using less(1)[of "i + n_utf8_code_units s i" r] n by (subst ugm_forward.simps) (simp add: True r)
  qed
qed

section \<open>Reading out the result\<close>

inductive backs :: "'s best_tokenization list \<Rightarrow> nat \<Rightarrow> llama_token list \<Rightarrow> bool" for results where
  backs_start: "backs results 0 []"
| backs_step: "0 < j \<Longrightarrow> bt_offset (results ! j) < j \<Longrightarrow> backs results (bt_offset (results ! j)) ts \<Longrightarrow> backs results j (ts @ [bt_token (results ! j)])"

fun merge_unk :: "llama_token \<Rightarrow> bool \<Rightarrow> llama_token list \<Rightarrow> llama_token list" where
  "merge_unk unk p [] = []"
| "merge_unk unk p (t # ts) = (if p \<and> t = unk then merge_unk unk True ts else t # merge_unk unk (t = unk) ts)"

lemma collapse_snoc: "collapse unk (ts @ [y]) = (if ts \<noteq> [] \<and> last ts = unk \<and> y = unk then collapse unk ts else collapse unk ts @ [y])"
  by (induction unk ts rule: collapse.induct) auto

lemma collapse_last: "ts \<noteq> [] \<Longrightarrow> collapse unk ts \<noteq> [] \<and> last (collapse unk ts) = last ts"
  by (induction unk ts rule: collapse.induct) auto

lemma merge_unk_rev: "rev (merge_unk unk p (rev ts)) = (if p \<and> ts \<noteq> [] \<and> last ts = unk then butlast (collapse unk ts) else collapse unk ts)"
proof (induction ts arbitrary: p rule: rev_induct)
  case (snoc y ts)
  have "butlast (collapse (last ts) ts) @ [last ts] = collapse (last ts) ts" if "ts \<noteq> []"
    using collapse_last[OF that, of "last ts"] by (metis append_butlast_last_id)
  then show ?case using snoc by (auto simp: collapse_snoc)
qed simp

lemma ugm_backtrack_backs:
  "backs results j ts \<Longrightarrow> 0 < j \<Longrightarrow> ugm_backtrack unk results (results ! j) p out = Some (out @ merge_unk unk p (rev ts))"
proof (induction j ts arbitrary: p out rule: backs.induct)
  case (backs_step j ts)
  show ?case
  proof (cases "bt_offset (results ! j) = 0")
    case True
    then have "ts = []" using backs_step(3) by (auto elim: backs.cases)
    then show ?thesis using True by (subst ugm_backtrack.simps) simp
  next
    case False
    then show ?thesis using backs_step(4) by (subst ugm_backtrack.simps) (simp add: Let_def)
  qed
qed simp

section \<open>Optimality\<close>

lemma boundary_le: "boundary s i \<Longrightarrow> i \<le> length s"
  by (induction rule: boundary.induct) (auto dest: n_units_pos)

lemma boundary_length: "boundary s (length s)"
proof -
  have "boundary s i \<Longrightarrow> boundary s (length s)" for i
  proof (induction "length s - i" arbitrary: i rule: less_induct)
    case less
    show ?case
    proof (cases "i < length s")
      case True
      have "length s - (i + n_utf8_code_units s i) < length s - i" using n_units_pos[OF True] by linarith
      then show ?thesis using less(1)[OF _ next_char[OF less(2) True]] by blast
    next
      case False
      then show ?thesis using boundary_le[OF less(2)] less(2) by (metis le_antisym not_less)
    qed
  qed
  then show ?thesis using boundary.start by blast
qed

text \<open>Every boundary is reached by some segmentation, as an unknown character is a step.\<close>

lemma boundary_reached:
  assumes known: "scores_known ops v ug"
  shows "boundary s i \<Longrightarrow> \<exists>ts a. seg_path ops v ug s i ts a"
proof (induction rule: boundary.induct)
  case start
  show ?case using empty_path by blast
next
  case (next_char i)
  define n where "n = n_utf8_code_units s i"
  have "\<exists>t sc. seg_step ops v ug s i (i + n) t sc"
    using known next_char n_units_pos[OF next_char(2)]
    by (cases "trie_lookup (token_matcher ug) (take n (drop i s))") (auto simp: seg_step_def scores_known_def n_def)
  then show ?case using next_char(3) step_path unfolding n_def by blast
qed

lemma seg_path_bounded:
  assumes inv: "ugm_inv ops v ug s (length s) results" and mono: "\<forall>a b c. a \<le> b \<longrightarrow> fl_add ops a c \<le> fl_add ops b c"
  shows "seg_path ops v ug s j ts a \<Longrightarrow> a \<le> bt_score (results ! j)"
proof (induction rule: seg_path.induct)
  case empty_path
  then show ?case using inv by (simp add: ugm_inv_def)
next
  case (step_path i ts a j t sc)
  have "fl_add ops a sc \<le> fl_add ops (bt_score (results ! i)) sc" using mono step_path(3) by blast
  also have "\<dots> \<le> bt_score (results ! j)" using inv step_path(2) seg_step_bounds[OF step_path(2)] unfolding ugm_inv_def by blast
  finally show ?case .
qed

lemma seg_path_recorded:
  assumes known: "scores_known ops v ug" and inv: "ugm_inv ops v ug s (length s) results"
    and mono: "\<forall>a b c. a \<le> b \<longrightarrow> fl_add ops a c \<le> fl_add ops b c"
    and above: "\<forall>i ts a. seg_path ops v ug s i ts a \<longrightarrow> fl_lowest ops < a"
  shows "boundary s j \<Longrightarrow> \<exists>ts. backs results j ts \<and> seg_path ops v ug s j ts (bt_score (results ! j))"
proof (induction j rule: less_induct)
  case (less j)
  show ?case
  proof (cases "j = 0")
    case True
    then show ?thesis using inv backs_start[of results] empty_path[of ops v ug s] by (auto simp: ugm_inv_def)
  next
    case False
    obtain ts0 a0 where "seg_path ops v ug s j ts0 a0" using boundary_reached[OF known less(2)] by blast
    then have "fl_lowest ops < bt_score (results ! j)" using seg_path_bounded[OF inv mono] above by (meson less_le_trans)
    moreover have "j \<le> length s" by (rule boundary_le[OF less(2)])
    ultimately obtain sc where sc: "seg_step ops v ug s (bt_offset (results ! j)) j (bt_token (results ! j)) sc"
      "bt_score (results ! j) = fl_add ops (bt_score (results ! bt_offset (results ! j))) sc"
      using inv False unfolding ugm_inv_def by (metis less_irrefl gr0I)
    then have lt: "bt_offset (results ! j) < j" "boundary s (bt_offset (results ! j))" using seg_step_bounds by blast+
    obtain ts where ts: "backs results (bt_offset (results ! j)) ts" "seg_path ops v ug s (bt_offset (results ! j)) ts (bt_score (results ! bt_offset (results ! j)))"
      using less(1)[OF lt] by blast
    have "backs results j (ts @ [bt_token (results ! j)])" using False lt(1) ts(1) by (intro backs_step) simp_all
    moreover have "seg_path ops v ug s j (ts @ [bt_token (results ! j)]) (bt_score (results ! j))"
      using step_path[OF ts(2) sc(1)] sc(2) by simp
    ultimately show ?thesis by blast
  qed
qed

text \<open>C13. The unigram tokenizer finds a best segmentation: its tokens are those of a segmentation of the normalized text into
  vocabulary tokens and unknown characters, with runs of unknowns merged, and no segmentation has a higher score.  This needs of
  the floating-point addition only that it is monotone, and that no score falls to the initial value \<open>-DBL_MAX\<close>.\<close>

theorem ugm_tokenize_optimal:
  assumes "llm_tokenizer_ugm ops v charsmap = Inr ug" "ugm_normalize v ug input = Inr s" "s \<noteq> []"
    and "\<forall>a b c. a \<le> b \<longrightarrow> fl_add ops a c \<le> fl_add ops b c"
    and "\<forall>i ts a. seg_path ops v ug s i ts a \<longrightarrow> fl_lowest ops < a"
  shows "\<exists>ts best. ugm_tokenize ops v ug input out = Some (Inr (out @ collapse (special_unk_id v) ts)) \<and>
    seg_path ops v ug s (length s) ts best \<and> (\<forall>ts' a. seg_path ops v ug s (length s) ts' a \<longrightarrow> a \<le> best)"
proof -
  have known: "scores_known ops v ug" by (rule ugm_scores_known[OF assms(1)])
  define init where "init = (replicate (length s + 1) \<lparr>bt_token = special_unk_id v, bt_offset = 0, bt_score = fl_lowest ops\<rparr>)
    [0 := \<lparr>bt_token = special_unk_id v, bt_offset = 0, bt_score = fl_zero ops\<rparr>]"
  have "ugm_inv ops v ug s 0 init" by (simp add: ugm_inv_def init_def boundary.start nth_list_update)
  then obtain results where res: "ugm_forward ops v ug s 0 init = Inr results" "ugm_inv ops v ug s (length s) results"
    using ugm_forward_inv[OF known, of s 0 init] by blast
  obtain ts where ts: "backs results (length s) ts" "seg_path ops v ug s (length s) ts (bt_score (results ! length s))"
    using seg_path_recorded[OF known res(2) assms(4,5) boundary_length] by blast
  have "ugm_backtrack (special_unk_id v) results (results ! length s) False out
      = Some (out @ merge_unk (special_unk_id v) False (rev ts))"
    using ugm_backtrack_backs[OF ts(1)] assms(3) by simp
  then have "ugm_tokenize ops v ug input out = Some (Inr (out @ rev (merge_unk (special_unk_id v) False (rev ts))))"
    using assms(2,3) res(1) by (simp add: ugm_tokenize_def Let_def init_def)
  then have "ugm_tokenize ops v ug input out = Some (Inr (out @ collapse (special_unk_id v) ts))" by (simp add: merge_unk_rev)
  then show ?thesis using ts(2) seg_path_bounded[OF res(2) assms(4)] by blast
qed

section \<open>A witness\<close>

definition int_ops :: "int float_ops" where
  "int_ops = \<lparr>fl_add = (+), fl_sub = (-), fl_zero = 0, fl_max = 1000000, fl_lowest = - 1000000, fl_penalty = 10\<rparr>"

definition ugm_vocab :: "int llama_vocab" where
  "ugm_vocab = (blank_vocab LLAMA_VOCAB_TYPE_UGM)\<lparr>v_escape_whitespaces := False, special_unk_id := 3,
     id_to_token := map (\<lambda>(t, s). \<lparr>td_text = t, td_score = s, td_attr = LLAMA_TOKEN_ATTR_NORMAL\<rparr>)
       [([97], - 3), ([98], - 3), ([97, 98], - 5)]\<rparr>"

definition ugm_small :: "int ugm_tokenizer" where
  "ugm_small = \<lparr>prefix_replacements = [], xcda_array = [], user_defined_token_matcher = empty_trie,
     token_matcher = keys_trie (\<lambda>i. [[97], [98], [97, 98]] ! i) 3, unknown_token_score = - 15\<rparr>"

lemma ugm_small_built: "llm_tokenizer_ugm int_ops ugm_vocab [] = Inr ugm_small"
  by code_simp

lemma ugm_small_above: "seg_path int_ops ugm_vocab ugm_small s i ts a \<Longrightarrow> - 15 * int i \<le> a"
proof (induction rule: seg_path.induct)
  case (step_path i ts a j t sc)
  have ij: "i < j" using seg_step_bounds[OF step_path(2)] by blast
  have "- 15 \<le> sc"
    using step_path(2) keys_trie_sound[of "\<lambda>i. [[97], [98], [97, 98]] ! i" 3]
    by (auto simp: seg_step_def ugm_small_def ugm_token_score_def get_token_data_def ugm_vocab_def is_user_defined_def has_attr_def
        blank_vocab_def int_ops_def less_Suc_eq numeral_3_eq_3 split: if_splits dest!: keys_trie_sound)
  then show ?case using step_path(3) ij by (simp add: int_ops_def)
qed (simp add: int_ops_def)

theorem ugm_tokenize_optimal_witness:
  "\<exists>ts best. ugm_tokenize int_ops ugm_vocab ugm_small [97, 98, 122] [] = Some (Inr ([] @ collapse (special_unk_id ugm_vocab) ts)) \<and>
    seg_path int_ops ugm_vocab ugm_small [97, 98, 122] 3 ts best \<and>
    (\<forall>ts' a. seg_path int_ops ugm_vocab ugm_small [97, 98, 122] 3 ts' a \<longrightarrow> a \<le> best)"
proof -
  have "ugm_normalize ugm_vocab ugm_small [97, 98, 122] = Inr [97, 98, 122]" by code_simp
  moreover have "fl_lowest int_ops < a" if "seg_path int_ops ugm_vocab ugm_small [97, 98, 122] i ts a" for i ts a
  proof -
    have "i \<le> 3" using that by (cases rule: seg_path.cases) (auto dest: seg_step_bounds)
    then show ?thesis using ugm_small_above[OF that] by (simp add: int_ops_def)
  qed
  moreover have "\<forall>a b c. a \<le> b \<longrightarrow> fl_add int_ops a c \<le> fl_add int_ops b c" by (simp add: int_ops_def)
  ultimately show ?thesis using ugm_tokenize_optimal[OF ugm_small_built, of "[97, 98, 122]" "[97, 98, 122]" "[]"] by (simp add: numeral_3_eq_3)
qed

text \<open>The normalization takes the longest path in the trie of the user-defined tokens for a match, although only a part of a token
  matched: with the user-defined token \<open>E2 96 81 61\<close> (U+2581 and \<open>a\<close>), the character U+2582, \<open>E2 96 82\<close>, is cut after two
  bytes, and its last byte is replaced as invalid.\<close>

theorem partial_user_token_match:
  "ugm_normalize (ugm_vocab\<lparr>v_remove_extra_whitespaces := False\<rparr>)
     (ugm_small\<lparr>user_defined_token_matcher := trie_insert [0xE2, 0x96, 0x81, 0x61] 0 empty_trie\<rparr>) [0xE2, 0x96, 0x82]
   = Inr [0xE2, 0x96, 0xEF, 0xBF, 0xBD]"
  "ugm_normalize ugm_vocab ugm_small [0xE2, 0x96, 0x82] = Inr [0xE2, 0x96, 0x82]"
  by code_simp+

end
