(* ===== verification/UnicodeTables.thy ===== *)
theory UnicodeTables
  imports Utf8
begin

text \<open>
  Character classes and mappings (\<open>src/unicode.cpp\<close>, \<open>src/unicode.h\<close>).  The generated tables of \<open>src/unicode-data.cpp\<close> are the
  fields of a record.  \<open>unicode_map_lowercase\<close> is a \<open>std::unordered_map\<close>: its field is the list of its entries in the order
  in which the container happens to iterate over them, and every property holds for all orders unless it says otherwise.
\<close>

record range_nfd =
  nfd_first :: cpt
  nfd_last :: cpt
  nfd :: cpt

record unicode_tables =
  unicode_ranges_flags :: "(cpt \<times> 16 word) list"
  unicode_set_whitespace :: "cpt list"
  unicode_map_lowercase :: "(cpt \<times> cpt) list"
  unicode_map_uppercase :: "(cpt \<times> cpt) list"
  unicode_ranges_nfd :: "range_nfd list"

section \<open>Flags\<close>

abbreviation UNDEFINED :: "16 word" where "UNDEFINED \<equiv> 0x0001"
abbreviation NUMBER :: "16 word" where "NUMBER \<equiv> 0x0002"
abbreviation LETTER :: "16 word" where "LETTER \<equiv> 0x0004"
abbreviation SEPARATOR :: "16 word" where "SEPARATOR \<equiv> 0x0008"
abbreviation ACCENT_MARK :: "16 word" where "ACCENT_MARK \<equiv> 0x0010"
abbreviation PUNCTUATION :: "16 word" where "PUNCTUATION \<equiv> 0x0020"
abbreviation SYMBOL :: "16 word" where "SYMBOL \<equiv> 0x0040"
abbreviation CONTROL :: "16 word" where "CONTROL \<equiv> 0x0080"
abbreviation MASK_CATEGORIES :: "16 word" where "MASK_CATEGORIES \<equiv> 0x00FF"
abbreviation WHITESPACE :: "16 word" where "WHITESPACE \<equiv> 0x0100"
abbreviation LOWERCASE :: "16 word" where "LOWERCASE \<equiv> 0x0200"
abbreviation UPPERCASE :: "16 word" where "UPPERCASE \<equiv> 0x0400"
abbreviation NFD :: "16 word" where "NFD \<equiv> 0x0800"

text \<open>The bit fields of a \<open>unicode_cpt_flags\<close>.\<close>

definition is_number :: "16 word \<Rightarrow> bool" where "is_number flags \<longleftrightarrow> flags AND NUMBER \<noteq> 0"
definition is_letter :: "16 word \<Rightarrow> bool" where "is_letter flags \<longleftrightarrow> flags AND LETTER \<noteq> 0"
definition is_separator :: "16 word \<Rightarrow> bool" where "is_separator flags \<longleftrightarrow> flags AND SEPARATOR \<noteq> 0"
definition is_punctuation :: "16 word \<Rightarrow> bool" where "is_punctuation flags \<longleftrightarrow> flags AND PUNCTUATION \<noteq> 0"
definition is_symbol :: "16 word \<Rightarrow> bool" where "is_symbol flags \<longleftrightarrow> flags AND SYMBOL \<noteq> 0"
definition is_control :: "16 word \<Rightarrow> bool" where "is_control flags \<longleftrightarrow> flags AND CONTROL \<noteq> 0"
definition is_whitespace :: "16 word \<Rightarrow> bool" where "is_whitespace flags \<longleftrightarrow> flags AND WHITESPACE \<noteq> 0"
definition category_flag :: "16 word \<Rightarrow> 16 word" where "category_flag flags = flags AND MASK_CATEGORIES"

text \<open>The entry of the array \<open>cpt_flags\<close> at one code point: each loop over a table, for the entry at that index.\<close>

definition MAX_CODEPOINTS :: cpt where
  "MAX_CODEPOINTS = 0x110000"

definition range_flags :: "(cpt \<times> 16 word) list \<Rightarrow> cpt \<Rightarrow> 16 word" where
  "range_flags ranges c =
     fold (\<lambda>(range_ini, range_end) acc. if fst range_ini \<le> c \<and> c < fst range_end then snd range_ini else acc)
       (zip ranges (tl ranges)) UNDEFINED"

definition unicode_cpt_flags_array :: "unicode_tables \<Rightarrow> cpt \<Rightarrow> 16 word" where
  "unicode_cpt_flags_array tb c =
     (let f0 = range_flags (unicode_ranges_flags tb) c;
          f1 = (if c \<in> set (unicode_set_whitespace tb) then f0 OR WHITESPACE else f0);
          f2 = (if c \<in> set (map snd (unicode_map_lowercase tb)) then f1 OR LOWERCASE else f1);
          f3 = (if c \<in> set (map snd (unicode_map_uppercase tb)) then f2 OR UPPERCASE else f2)
      in if c \<in> set (map nfd (unicode_ranges_nfd tb)) then f3 OR NFD else f3)"

definition unicode_cpt_flags_from_cpt :: "unicode_tables \<Rightarrow> cpt \<Rightarrow> 16 word" where
  "unicode_cpt_flags_from_cpt tb c = (if c < MAX_CODEPOINTS then unicode_cpt_flags_array tb c else UNDEFINED)"

section \<open>Binary search\<close>

text \<open>\<open>std::lower_bound\<close> with the predicate \<open>less\<close> of an element and the value: halving from \<open>first\<close>, over \<open>len\<close> elements.\<close>

function bound_search :: "('b \<Rightarrow> bool) \<Rightarrow> 'b list \<Rightarrow> nat \<Rightarrow> nat \<Rightarrow> nat" where
  "bound_search before xs first len =
     (if len = 0 then first
      else
        (let half = len div 2; middle = first + half
         in if before (xs ! middle) then bound_search before xs (middle + 1) (len - half - 1)
            else bound_search before xs first half))"
  by pat_completeness auto
termination
  by (relation "measure (\<lambda>(p, xs, first, len). len)") auto

declare bound_search.simps [simp del]

definition lower_bound :: "('b \<Rightarrow> bool) \<Rightarrow> 'b list \<Rightarrow> nat" where
  "lower_bound before xs = bound_search before xs 0 (length xs)"

definition unicode_tolower :: "unicode_tables \<Rightarrow> cpt \<Rightarrow> cpt" where
  "unicode_tolower tb c =
     (let it = lower_bound (\<lambda>pair. fst pair < c) (unicode_map_lowercase tb)
      in if it < length (unicode_map_lowercase tb) \<and> fst (unicode_map_lowercase tb ! it) = c
         then snd (unicode_map_lowercase tb ! it) else c)"

text \<open>\<open>std::upper_bound(...) - 1\<close>: the last range that does not start behind the code point; the first range of the table starts
  at 0.\<close>

definition nfd_of :: "unicode_tables \<Rightarrow> cpt \<Rightarrow> cpt option" where
  "nfd_of tb c =
     (let it = lower_bound (\<lambda>range. \<not> c < nfd_first range) (unicode_ranges_nfd tb)
      in if it = 0 then None
         else (let range = unicode_ranges_nfd tb ! (it - 1)
               in Some (if nfd_first range \<le> c \<and> c \<le> nfd_last range then nfd range else c)))"

fun unicode_cpts_normalize_nfd :: "unicode_tables \<Rightarrow> cpt list \<Rightarrow> cpt list option" where
  "unicode_cpts_normalize_nfd tb [] = Some []"
| "unicode_cpts_normalize_nfd tb (c # cs) =
     (case nfd_of tb c of None \<Rightarrow> None | Some d \<Rightarrow> map_option (Cons d) (unicode_cpts_normalize_nfd tb cs))"

definition unicode_cpt_is_han :: "cpt \<Rightarrow> bool" where
  "unicode_cpt_is_han c \<longleftrightarrow>
     c \<ge> 0x4E00 \<and> c \<le> 0x9FFF \<or> c \<ge> 0x3400 \<and> c \<le> 0x4DBF \<or> c \<ge> 0x20000 \<and> c \<le> 0x2A6DF \<or> c \<ge> 0x2A700 \<and> c \<le> 0x2B73F \<or>
     c \<ge> 0x2B740 \<and> c \<le> 0x2B81F \<or> c \<ge> 0x2B820 \<and> c \<le> 0x2CEAF \<or> c \<ge> 0x2CEB0 \<and> c \<le> 0x2EBEF \<or> c \<ge> 0xF900 \<and> c \<le> 0xFAFF \<or>
     c \<ge> 0x2F800 \<and> c \<le> 0x2FA1F"

section \<open>What the searches find\<close>

text \<open>On a partitioned list the search finds the partition point.\<close>

lemma bound_search_partition:
  assumes "first \<le> k" "k \<le> first + len" "\<And>i. first \<le> i \<Longrightarrow> i < k \<Longrightarrow> before (xs ! i)"
    "\<And>i. k \<le> i \<Longrightarrow> i < first + len \<Longrightarrow> \<not> before (xs ! i)"
  shows "bound_search before xs first len = k"
  using assms
proof (induction before xs first len rule: bound_search.induct)
  case (1 before xs first len)
  show ?case
  proof (cases "len = 0")
    case True
    then show ?thesis using 1(3,4) by (simp add: bound_search.simps)
  next
    case False
    have half: "len div 2 < len" using False by simp
    show ?thesis
    proof (cases "before (xs ! (first + len div 2))")
      case True
      then have "first + len div 2 < k" using 1(6)[of "first + len div 2"] half by force
      then show ?thesis using 1(1)[OF False refl refl True] 1(3-6) True False half
        by (subst bound_search.simps) (simp add: Let_def)
    next
      case below: False
      then have "k \<le> first + len div 2" using 1(5)[of "first + len div 2"] 1(3) by force
      then show ?thesis using 1(2)[OF False refl refl below] 1(3-6) below False half
        by (subst bound_search.simps) (simp add: Let_def)
    qed
  qed
qed

text \<open>On a list sorted by key, the position found is that of the first entry whose key is not smaller.\<close>

lemma lower_bound_sorted:
  assumes "sorted_wrt (\<lambda>x y. key x < (key y :: 'k :: linorder)) xs"
  shows "lower_bound (\<lambda>x. key x < k) xs = length (takeWhile (\<lambda>x. key x < k) xs)"
  unfolding lower_bound_def
proof (rule bound_search_partition)
  let ?n = "length (takeWhile (\<lambda>x. key x < k) xs)"
  show "?n \<le> 0 + length xs" by (simp add: length_takeWhile_le)
  show "key (xs ! i) < k" if "i < ?n" for i
    using that nth_mem[of i "takeWhile (\<lambda>x. key x < k) xs"] set_takeWhileD takeWhile_nth by metis
  show "\<not> key (xs ! i) < k" if "?n \<le> i" "i < 0 + length xs" for i
  proof -
    have n: "?n < length xs" using that by simp
    have "\<not> key (xs ! ?n) < k" by (rule nth_length_takeWhile[OF n])
    moreover have "key (xs ! ?n) \<le> key (xs ! i)"
      using assms that n by (cases "?n = i") (auto simp: sorted_wrt_iff_nth_less intro: order_less_imp_le)
    ultimately show ?thesis by simp
  qed
qed simp

lemma map_of_sorted:
  assumes "sorted_wrt (\<lambda>x y. fst x < (fst y :: 'k :: linorder)) xs"
  shows "map_of xs k = (let n = length (takeWhile (\<lambda>x. fst x < k) xs) in if n < length xs \<and> fst (xs ! n) = k then Some (snd (xs ! n)) else None)"
  using assms
proof (induction xs)
  case (Cons x xs)
  have "map_of xs k = None" if "k \<le> fst x"
    using Cons.prems that by (auto simp: map_of_eq_None_iff)
  then show ?case using Cons by (cases "fst x < k") (auto simp: Let_def)
qed simp


definition letter_tables :: "(cpt \<times> cpt) list \<Rightarrow> unicode_tables" where
  "letter_tables lower = \<lparr>unicode_ranges_flags = [(0, CONTROL), (32, SEPARATOR), (33, PUNCTUATION), (48, NUMBER), (58, PUNCTUATION),
       (65, LETTER), (91, PUNCTUATION), (97, LETTER), (123, PUNCTUATION), (0x110000, UNDEFINED)],
     unicode_set_whitespace = [9, 10, 11, 12, 13, 32], unicode_map_lowercase = lower, unicode_map_uppercase = [],
     unicode_ranges_nfd = [\<lparr>nfd_first = 0, nfd_last = 0, nfd = 0\<rparr>, \<lparr>nfd_first = 0xC0, nfd_last = 0xC5, nfd = 65\<rparr>]\<rparr>"


end
