(* ===== verification/UnicodeSplit.thy ===== *)
theory UnicodeSplit
  imports UnicodeTables
begin

text \<open>
  The pre-tokenizing splitters of \<open>src/unicode.cpp\<close>: hand-written scanners for the regular expressions of the common
  tokenizers.  Each gets the code points of a text and a division of it into ranges, given by their lengths, and returns a
  finer division.  The lambdas \<open>_get_cpt\<close> and \<open>_get_flags\<close> read only inside of the range; the lambda \<open>_add_token\<close> keeps the end
  of the last token.
\<close>

record split_ctx =
  sc_tables :: unicode_tables
  sc_cpts :: "cpt list"
  offset_ini :: nat
  offset_end :: nat

definition OUT_OF_RANGE :: cpt where
  "OUT_OF_RANGE = 0xFFFFFFFF"

definition get_cpt :: "split_ctx \<Rightarrow> nat \<Rightarrow> cpt" where
  "get_cpt c pos = (if offset_ini c \<le> pos \<and> pos < offset_end c then sc_cpts c ! pos else OUT_OF_RANGE)"

definition get_flags :: "split_ctx \<Rightarrow> nat \<Rightarrow> 16 word" where
  "get_flags c pos =
     (if offset_ini c \<le> pos \<and> pos < offset_end c then unicode_cpt_flags_from_cpt (sc_tables c) (sc_cpts c ! pos) else 0)"

record split_state =
  sp_pos :: nat
  prev_end :: nat
  bpe_offsets :: "nat list"

text \<open>\<open>_add_token(end)\<close>: the state and the length it returns.\<close>

definition add_token :: "nat \<Rightarrow> split_state \<Rightarrow> split_state \<times> nat" where
  "add_token e st =
     (let len = e - prev_end st
      in (st\<lparr>prev_end := e, bpe_offsets := (if len > 0 then bpe_offsets st @ [len] else bpe_offsets st)\<rparr>, len))"

text \<open>\<open>pos = e; _add_token(pos);\<close> and \<open>pos += _add_token(e);\<close>\<close>

definition token_to :: "nat \<Rightarrow> split_state \<Rightarrow> split_state" where
  "token_to e st = (fst (add_token e st))\<lparr>sp_pos := e\<rparr>"

definition advance_by_token :: "nat \<Rightarrow> split_state \<Rightarrow> split_state" where
  "advance_by_token e st = (let (st', len) = add_token e st in st'\<lparr>sp_pos := sp_pos st + len\<rparr>)"

text \<open>The loops \<open>while (p(pos)) pos++\<close>; outside of the range no test holds.\<close>

function scan_while :: "nat \<Rightarrow> (nat \<Rightarrow> bool) \<Rightarrow> nat \<Rightarrow> nat" where
  "scan_while e p pos = (if pos < e \<and> p pos then scan_while e p (pos + 1) else pos)"
  by pat_completeness auto
termination
  by (relation "measure (\<lambda>(e, p, pos). e - pos)") auto

declare scan_while.simps [simp del]

lemma scan_while_ge: "pos \<le> scan_while e p pos"
  by (induction e p pos rule: scan_while.induct) (subst scan_while.simps, auto)

definition is_other :: "16 word \<Rightarrow> bool" where
  "is_other flags \<longleftrightarrow> \<not> (is_whitespace flags \<or> is_letter flags \<or> is_number flags) \<and> flags \<noteq> 0"

section \<open>GPT-2\<close>

text \<open>The contractions: \<open>'s\<close> and its like are two code points, \<open>'re\<close> and its like three.\<close>

definition short_contraction :: "cpt \<Rightarrow> bool" where
  "short_contraction c \<longleftrightarrow> c = 115 \<or> c = 116 \<or> c = 109 \<or> c = 100"

definition long_contraction :: "cpt \<Rightarrow> cpt \<Rightarrow> bool" where
  "long_contraction c d \<longleftrightarrow> c = 114 \<and> d = 101 \<or> c = 118 \<and> d = 101 \<or> c = 108 \<and> d = 108"

definition is_newline :: "cpt \<Rightarrow> bool" where
  "is_newline c \<longleftrightarrow> c = 13 \<or> c = 10"

text \<open>The contraction at the current position, of code points that \<open>low\<close> maps to lower case.\<close>

definition contraction_length :: "split_ctx \<Rightarrow> (cpt \<Rightarrow> cpt) \<Rightarrow> nat \<Rightarrow> nat" where
  "contraction_length c low pos =
     (if get_cpt c pos = 39 \<and> pos + 1 < offset_end c then
        (if short_contraction (low (get_cpt c (pos + 1))) then 2
         else if pos + 2 < offset_end c \<and> long_contraction (low (get_cpt c (pos + 1))) (low (get_cpt c (pos + 2))) then 3
         else 0)
      else 0)"

text \<open>The tail of every scanner: \<open>\s+(?!\S)\<close>, \<open>\s+\<close> and a code point that nothing matches; \<open>n\<close> is \<open>num_whitespaces\<close>.\<close>

definition split_spaces :: "split_ctx \<Rightarrow> nat \<Rightarrow> split_state \<Rightarrow> split_state" where
  "split_spaces c n st =
     (if n > 1 \<and> get_cpt c (sp_pos st + n) \<noteq> OUT_OF_RANGE then token_to (sp_pos st + (n - 1)) st
      else if n > 0 then token_to (sp_pos st + n) st
      else token_to (sp_pos st + 1) st)"

definition num_whitespaces :: "split_ctx \<Rightarrow> nat \<Rightarrow> nat" where
  "num_whitespaces c pos = scan_while (offset_end c) (\<lambda>p. is_whitespace (get_flags c p)) pos - pos"

definition gpt2_step :: "split_ctx \<Rightarrow> split_state \<Rightarrow> split_state" where
  "gpt2_step c st =
     (let pos = sp_pos st; cpt = get_cpt c pos; flags = get_flags c pos; k = contraction_length c (\<lambda>x. x) pos
      in if k > 0 then advance_by_token (pos + k) st
         else
           (let flags2 = (if cpt = 32 then get_flags c (pos + 1) else flags);
                start = pos + (if cpt = 32 then 1 else 0)
            in if is_letter flags2 then token_to (scan_while (offset_end c) (\<lambda>p. is_letter (get_flags c p)) start) st
               else if is_number flags2 then token_to (scan_while (offset_end c) (\<lambda>p. is_number (get_flags c p)) start) st
               else if is_other flags2 then token_to (scan_while (offset_end c) (\<lambda>p. is_other (get_flags c p)) start) st
               else split_spaces c (num_whitespaces c pos) st))"

section \<open>Llama 3 and Qwen 2\<close>

text \<open>\<open>\p{N}{1,3}\<close>: the loop over a run of digits adds a token after every three; \<open>ini\<close> is the start of the current one.\<close>

function digit_groups :: "split_ctx \<Rightarrow> nat \<Rightarrow> nat \<Rightarrow> split_state \<Rightarrow> split_state" where
  "digit_groups c ini pos st =
     (if pos < offset_end c \<and> is_number (get_flags c pos) then
        (if pos + 1 - ini \<ge> 3 then digit_groups c (pos + 1) (pos + 1) (fst (add_token (pos + 1) st))
         else digit_groups c ini (pos + 1) st)
      else token_to pos st)"
  by pat_completeness auto
termination
  by (relation "measure (\<lambda>(c, ini, pos, st). offset_end c - pos)") auto

declare digit_groups.simps [simp del]

text \<open>\<open> ?[^\s\p{L}\p{N}]+[\r\n]*\<close> from \<open>pos\<close>, and \<open>last_end_r_or_n\<close>, the end of the last newline in a run of white space.\<close>

definition other_end :: "split_ctx \<Rightarrow> nat \<Rightarrow> nat" where
  "other_end c pos =
     scan_while (offset_end c) (\<lambda>p. is_newline (get_cpt c p)) (scan_while (offset_end c) (\<lambda>p. is_other (get_flags c p)) pos)"

fun last_end_newline :: "split_ctx \<Rightarrow> nat \<Rightarrow> nat \<Rightarrow> nat" where
  "last_end_newline c pos 0 = 0"
| "last_end_newline c pos (Suc n) = (if is_newline (get_cpt c (pos + n)) then pos + n + 1 else last_end_newline c pos n)"

text \<open>White space with \<open>\s*[\r\n]+\<close> in front of the common tail.\<close>

definition split_lines :: "split_ctx \<Rightarrow> split_state \<Rightarrow> split_state" where
  "split_lines c st =
     (let n = num_whitespaces c (sp_pos st); last_end = last_end_newline c (sp_pos st) n
      in if last_end > 0 then token_to last_end st else split_spaces c n st)"

definition llama3_step :: "(nat \<Rightarrow> split_state \<Rightarrow> split_state) \<Rightarrow> split_ctx \<Rightarrow> split_state \<Rightarrow> split_state" where
  "llama3_step digits c st =
     (let pos = sp_pos st; cpt = get_cpt c pos; flags = get_flags c pos; k = contraction_length c (unicode_tolower (sc_tables c)) pos
      in if k > 0 then advance_by_token (pos + k) st
         else if \<not> (is_newline cpt \<or> is_number flags) \<and> (is_letter flags \<or> is_letter (get_flags c (pos + 1)))
         then token_to (scan_while (offset_end c) (\<lambda>p. is_letter (get_flags c p)) (pos + 1)) st
         else if is_number flags then digits pos st
         else
           (let flags2 = (if cpt = 32 then get_flags c (pos + 1) else flags)
            in if \<not> (is_whitespace flags2 \<or> is_letter flags2 \<or> is_number flags2) \<and> flags \<noteq> 0
               then token_to (other_end c (pos + (if cpt = 32 then 1 else 0))) st
               else split_lines c st))"

definition llama3_digits :: "split_ctx \<Rightarrow> nat \<Rightarrow> split_state \<Rightarrow> split_state" where
  "llama3_digits c pos st = digit_groups c pos pos st"

definition qwen2_digits :: "nat \<Rightarrow> split_state \<Rightarrow> split_state" where
  "qwen2_digits pos st = token_to (pos + 1) st"

section \<open>Kimi K2\<close>

definition han_at :: "split_ctx \<Rightarrow> nat \<Rightarrow> bool" where
  "han_at c pos = unicode_cpt_is_han (get_cpt c pos)"

definition word_letter :: "split_ctx \<Rightarrow> nat \<Rightarrow> bool" where
  "word_letter c pos \<longleftrightarrow> is_letter (get_flags c pos) \<and> \<not> han_at c pos"

text \<open>The word from \<open>pos\<close> on with an optional contraction behind it.  The tests \<open>has_letters\<close> hold: the pattern is only tried
  in front of a letter.\<close>

definition kimi_word_end :: "split_ctx \<Rightarrow> nat \<Rightarrow> nat" where
  "kimi_word_end c pos =
     (let e = scan_while (offset_end c) (word_letter c) pos
      in e + contraction_length c (unicode_tolower (sc_tables c)) e)"

definition kimi_step :: "split_ctx \<Rightarrow> split_state \<Rightarrow> split_state" where
  "kimi_step c st =
     (let pos = sp_pos st; cpt = get_cpt c pos; flags = get_flags c pos;
          leading = (\<not> (is_newline cpt \<or> is_letter flags \<or> is_number flags))
      in if unicode_cpt_is_han cpt then token_to (scan_while (offset_end c) (han_at c) pos) st
         else if word_letter c pos then token_to (kimi_word_end c pos) st
         else if leading \<and> word_letter c (pos + 1) then token_to (kimi_word_end c (pos + 1)) st
         else if is_number flags then digit_groups c pos pos st
         else
           (let flags2 = (if cpt = 32 then get_flags c (pos + 1) else flags)
            in if is_other flags2 then token_to (other_end c (pos + (if cpt = 32 then 1 else 0))) st
               else split_lines c st))"

section \<open>Loops over the ranges\<close>

text \<open>The loop \<open>for (pos = offset_ini; pos < offset_end; )\<close>; \<open>None\<close> is a loop that never ends.\<close>

partial_function (option) split_loop :: "(split_state \<Rightarrow> split_state) \<Rightarrow> nat \<Rightarrow> split_state \<Rightarrow> split_state option" where
  "split_loop step e st = (if sp_pos st < e then split_loop step e (step st) else Some st)"

declare split_loop.simps [code]

definition scan_range :: "(split_ctx \<Rightarrow> split_state \<Rightarrow> split_state) \<Rightarrow> split_ctx \<Rightarrow> nat list \<Rightarrow> nat list option" where
  "scan_range step c acc =
     map_option bpe_offsets
       (split_loop (step c) (offset_end c) \<lparr>sp_pos = offset_ini c, prev_end = offset_ini c, bpe_offsets = acc\<rparr>)"

fun split_ranges :: "(split_ctx \<Rightarrow> nat list \<Rightarrow> nat list option) \<Rightarrow> unicode_tables \<Rightarrow> cpt list \<Rightarrow> nat \<Rightarrow> nat list \<Rightarrow> nat list \<Rightarrow> nat list option" where
  "split_ranges scan tb cpts start [] acc = Some acc"
| "split_ranges scan tb cpts start (offset # offsets) acc =
     Option.bind (scan \<lparr>sc_tables = tb, sc_cpts = cpts, offset_ini = start, offset_end = start + offset\<rparr> acc)
       (split_ranges scan tb cpts (start + offset) offsets)"

definition unicode_regex_split_custom_gpt2 :: "unicode_tables \<Rightarrow> cpt list \<Rightarrow> nat list \<Rightarrow> nat list option" where
  "unicode_regex_split_custom_gpt2 tb cpts offsets = split_ranges (scan_range gpt2_step) tb cpts 0 offsets []"

definition unicode_regex_split_custom_llama3 :: "unicode_tables \<Rightarrow> cpt list \<Rightarrow> nat list \<Rightarrow> nat list option" where
  "unicode_regex_split_custom_llama3 tb cpts offsets =
     split_ranges (scan_range (\<lambda>c. llama3_step (llama3_digits c) c)) tb cpts 0 offsets []"

definition unicode_regex_split_custom_qwen2 :: "unicode_tables \<Rightarrow> cpt list \<Rightarrow> nat list \<Rightarrow> nat list option" where
  "unicode_regex_split_custom_qwen2 tb cpts offsets = split_ranges (scan_range (llama3_step qwen2_digits)) tb cpts 0 offsets []"

definition unicode_regex_split_custom_kimi_k2 :: "unicode_tables \<Rightarrow> cpt list \<Rightarrow> nat list \<Rightarrow> nat list option" where
  "unicode_regex_split_custom_kimi_k2 tb cpts offsets = split_ranges (scan_range kimi_step) tb cpts 0 offsets []"

section \<open>AFMoE digits and newlines\<close>

text \<open>The groups of three digits, from \<open>current\<close> to \<open>e\<close>.\<close>

function emit_groups :: "nat \<Rightarrow> nat \<Rightarrow> split_state \<Rightarrow> split_state" where
  "emit_groups current e st = (if current < e then emit_groups (current + 3) e (fst (add_token (current + 3) st)) else st)"
  by pat_completeness auto
termination
  by (relation "measure (\<lambda>(current, e, st). e - current)") auto

declare emit_groups.simps [simp del]

definition afmoe_step :: "split_ctx \<Rightarrow> split_state \<Rightarrow> split_state" where
  "afmoe_step c st =
     (if is_number (get_flags c (sp_pos st)) then
        (let digit_start = sp_pos st;
             pos = scan_while (offset_end c) (\<lambda>p. is_number (get_flags c p)) digit_start;
             remainder = (pos - digit_start) mod 3;
             st1 = (if remainder > 0 then fst (add_token (digit_start + remainder) st) else st)
         in (emit_groups (digit_start + remainder) pos st1)\<lparr>sp_pos := pos\<rparr>)
      else st\<lparr>sp_pos := sp_pos st + 1\<rparr>)"

text \<open>The text behind the last digits is added after the loop.\<close>

definition afmoe_range :: "split_ctx \<Rightarrow> nat list \<Rightarrow> nat list option" where
  "afmoe_range c acc =
     map_option (\<lambda>st. bpe_offsets (if prev_end st < offset_end c then fst (add_token (offset_end c) st) else st))
       (split_loop (afmoe_step c) (offset_end c) \<lparr>sp_pos = offset_ini c, prev_end = offset_ini c, bpe_offsets = acc\<rparr>)"

definition unicode_regex_split_custom_afmoe :: "unicode_tables \<Rightarrow> cpt list \<Rightarrow> nat list \<Rightarrow> nat list option" where
  "unicode_regex_split_custom_afmoe tb cpts offsets = split_ranges afmoe_range tb cpts 0 offsets []"

definition newline_step :: "split_ctx \<Rightarrow> split_state \<Rightarrow> split_state" where
  "newline_step c st =
     (let run_start = sp_pos st; newline = (sc_cpts c ! run_start = 10);
          pos = scan_while (offset_end c) (\<lambda>p. (sc_cpts c ! p = 10) = newline) run_start
      in st\<lparr>sp_pos := pos, prev_end := pos, bpe_offsets := bpe_offsets st @ [pos - run_start]\<rparr>)"

definition unicode_regex_split_custom_newlines :: "unicode_tables \<Rightarrow> cpt list \<Rightarrow> nat list \<Rightarrow> nat list option" where
  "unicode_regex_split_custom_newlines tb cpts offsets = split_ranges (scan_range newline_step) tb cpts 0 offsets []"

section \<open>The dispatch on the expression\<close>

text \<open>The expressions are byte strings; \<open>re\<close> reads a literal in which \<open>%\<close> stands for a backslash.\<close>

definition re :: "string \<Rightarrow> byte list" where
  "re s = map (\<lambda>ch. if ch = CHR ''%'' then 92 else of_char ch) s"

definition llama3_tail :: "string \<Rightarrow> string" where
  "llama3_tail digits = ''|[^%r%n%p{L}%p{N}]?%p{L}+|'' @ digits @ ''| ?[^%s%p{L}%p{N}]+[%r%n]*|%s*[%r%n]+|%s+(?!%S)|%s+''"

definition unicode_regex_split_custom :: "unicode_tables \<Rightarrow> cpt list \<Rightarrow> byte list \<Rightarrow> nat list \<Rightarrow> nat list option" where
  "unicode_regex_split_custom tb cpts regex_expr offsets =
     (if regex_expr = re '''s|'t|'re|'ve|'m|'ll|'d| ?%p{L}+| ?%p{N}+| ?[^%s%p{L}%p{N}]+|%s+(?!%S)''
      then unicode_regex_split_custom_gpt2 tb cpts offsets
      else if regex_expr = re (''(?i:'s|'t|'re|'ve|'m|'ll|'d)'' @ llama3_tail ''%p{N}{1,3}'') \<or>
        regex_expr = re (''(?:'[sS]|'[tT]|'[rR][eE]|'[vV][eE]|'[mM]|'[lL][lL]|'[dD])'' @ llama3_tail ''%p{N}{1,3}'')
      then unicode_regex_split_custom_llama3 tb cpts offsets
      else if regex_expr = re (''(?:'[sS]|'[tT]|'[rR][eE]|'[vV][eE]|'[mM]|'[lL][lL]|'[dD])'' @ llama3_tail ''%p{N}'')
      then unicode_regex_split_custom_qwen2 tb cpts offsets
      else if regex_expr = re ''%p{Han}+'' then unicode_regex_split_custom_kimi_k2 tb cpts offsets
      else if regex_expr = re ''%p{AFMoE_digits}'' then unicode_regex_split_custom_afmoe tb cpts offsets
      else if regex_expr = re ''[^%n]+|[%n]+'' then unicode_regex_split_custom_newlines tb cpts offsets
      else if regex_expr = re ''%d{1,3}(?=(?:%d{3})*%b)'' then unicode_regex_split_custom_afmoe tb cpts offsets
      else Some [])"

end
