(* ===== verification/UnicodeRegex.thy ===== *)
theory UnicodeRegex
  imports UnicodeSplit
begin

text \<open>
  \<open>unicode_regex_split\<close>: each expression refines the division of the text that the expressions before it left, with a
  hand-written splitter where there is one and with the regular expressions of the standard library otherwise, on a text and
  an expression in which the Unicode categories are collapsed to single bytes.  \<open>std::regex\<close> and \<open>std::wregex\<close> are parameters:
  whether an expression compiles, and the list of position and length of its matches in a text.
\<close>

record 'c regex_lib =
  re_valid :: "'c list \<Rightarrow> bool"
  re_search :: "'c list \<Rightarrow> 'c list \<Rightarrow> (nat \<times> nat) list option"

datatype split_error = Not_supported | Failed_regex | Invalid_codepoint

text \<open>The loop over the matches of one range, and the text behind the last.\<close>

fun stl_matches :: "(nat \<times> nat) list \<Rightarrow> nat \<Rightarrow> nat \<Rightarrow> nat list" where
  "stl_matches [] start_idx offset = (if start_idx < offset then [offset - start_idx] else [])"
| "stl_matches ((pos, len) # ms) start_idx offset =
     (if pos > start_idx then [pos - start_idx] else []) @ len # stl_matches ms (pos + len) offset"

fun stl_ranges :: "'c regex_lib \<Rightarrow> 'c list \<Rightarrow> 'c list \<Rightarrow> nat list \<Rightarrow> nat list option" where
  "stl_ranges lib expr txt [] = Some []"
| "stl_ranges lib expr txt (offset # offsets) =
     (case re_search lib expr (take offset txt) of
        None \<Rightarrow> None
      | Some ms \<Rightarrow> map_option ((@) (stl_matches ms 0 offset)) (stl_ranges lib expr (drop offset txt) offsets))"

text \<open>\<open>None\<close> is a \<open>std::regex_error\<close>.\<close>

definition unicode_regex_split_stl :: "'c regex_lib \<Rightarrow> 'c list \<Rightarrow> 'c list \<Rightarrow> nat list \<Rightarrow> nat list option" where
  "unicode_regex_split_stl lib txt expr offsets = (if re_valid lib expr then stl_ranges lib expr txt offsets else None)"

section \<open>Collapsing the categories\<close>

definition k_ucat_enum :: "(byte list \<times> 16 word) list" where
  "k_ucat_enum = [(re ''%p{N}'', NUMBER), (re ''%p{L}'', LETTER), (re ''%p{P}'', PUNCTUATION), (re ''%p{M}'', ACCENT_MARK),
     (re ''%p{S}'', SYMBOL), (re ''%p{Lu}'', LETTER), (re ''%p{Ll}'', LETTER), (re ''%p{Lt}'', LETTER), (re ''%p{Lm}'', LETTER),
     (re ''%p{Lo}'', LETTER)]"

definition k_ucat_cpt :: "(16 word \<times> byte) list" where
  "k_ucat_cpt = [(NUMBER, 0xD1), (LETTER, 0xD2), (PUNCTUATION, 0xD3), (ACCENT_MARK, 0xD4), (SYMBOL, 0xD5)]"

definition k_ucat_map :: "(16 word \<times> byte list) list" where
  "k_ucat_map = [(NUMBER, re ''0-9''), (LETTER, re ''A-Za-z''), (PUNCTUATION, re ''!-#'' @ [0x25] @ re ''-*,-/:-;?-@%[-%]_%{%}''),
     (ACCENT_MARK, []), (SYMBOL, re ''%$%+<->^`%|'')]"

definition find_bytes :: "byte list \<Rightarrow> byte list \<Rightarrow> nat option" where
  "find_bytes pat s = List.find (\<lambda>i. take (length pat) (drop i s) = pat) [0..<length s + 1]"

definition uses_category :: "byte list \<Rightarrow> bool" where
  "uses_category regex_expr \<longleftrightarrow> list_ex (\<lambda>ucat. find_bytes (fst ucat) regex_expr \<noteq> None) k_ucat_enum"

definition collapse_cpt :: "unicode_tables \<Rightarrow> cpt \<Rightarrow> byte" where
  "collapse_cpt tb c =
     (if c < 128 then low_byte c
      else
        (let flags = unicode_cpt_flags_from_cpt tb c
         in if is_whitespace flags then 0x0B
            else (case map_of k_ucat_cpt (category_flag flags) of Some b \<Rightarrow> b | None \<Rightarrow> 0xD0)))"

text \<open>The category that starts at index \<open>i\<close>: what it is replaced with, and the index of its closing brace.\<close>

definition category_at :: "byte list \<Rightarrow> nat \<Rightarrow> bool \<Rightarrow> (byte list \<times> nat) option" where
  "category_at expr i inside =
     (if expr ! i = 92 \<and> i + 3 < length expr \<and> expr ! (i + 1) = 112 \<and> expr ! (i + 2) = 123 then
        (case List.find (\<lambda>j. expr ! j = 125) [i + 3..<length expr] of
           None \<Rightarrow> None
         | Some closing_brace \<Rightarrow>
             (if closing_brace \<le> i + 10 then
                (case map_of k_ucat_enum (take (closing_brace - i + 1) (drop i expr)) of
                   None \<Rightarrow> None
                 | Some cat \<Rightarrow>
                     (case (map_of k_ucat_cpt cat, map_of k_ucat_map cat) of
                        (Some b, Some txt) \<Rightarrow>
                          Some ((if inside then [] else [91]) @ b # txt @ (if inside then [] else [93]), closing_brace)
                      | _ \<Rightarrow> None))
              else None))
      else None)"

lemma category_at_end: "category_at expr i inside = Some (out, e) \<Longrightarrow> i < e"
  by (auto simp: category_at_def find_Some_iff split: if_splits option.splits)

function collapse_regex :: "byte list \<Rightarrow> nat \<Rightarrow> bool \<Rightarrow> byte list" where
  "collapse_regex expr i inside =
     (if i < length expr then
        (if expr ! i = 91 \<and> (i = 0 \<or> expr ! (i - 1) \<noteq> 92) then 91 # collapse_regex expr (i + 1) True
         else if inside \<and> expr ! i = 93 \<and> expr ! (i - 1) \<noteq> 92 then 93 # collapse_regex expr (i + 1) False
         else
           (case category_at expr i inside of
              Some (out, closing_brace) \<Rightarrow> out @ collapse_regex expr (closing_brace + 1) inside
            | None \<Rightarrow> expr ! i # collapse_regex expr (i + 1) inside))
      else [])"
  by pat_completeness auto
termination
  by (relation "measure (\<lambda>(expr, i, inside). length expr - i)") (auto dest: category_at_end)

declare collapse_regex.simps [simp del]

section \<open>The loop over the expressions\<close>

definition regex_split_one :: "unicode_tables \<Rightarrow> byte regex_lib \<Rightarrow> cpt regex_lib \<Rightarrow> cpt list \<Rightarrow> byte list \<Rightarrow> nat list \<Rightarrow>
    (split_error + nat list) option" where
  "regex_split_one tb lib wlib cpts regex_expr offsets =
     map_option (\<lambda>tmp.
       if tmp \<noteq> [] then Inr tmp
       else
         (let cpts_regex = unicode_cpts_from_utf8 regex_expr
          in if uses_category regex_expr then
               (if list_ex (\<lambda>c. c \<ge> 128) cpts_regex then Inl Not_supported
                else (case unicode_regex_split_stl lib (map (collapse_cpt tb) cpts) (collapse_regex regex_expr 0 False) offsets of
                        None \<Rightarrow> Inl Failed_regex | Some r \<Rightarrow> Inr r))
             else
               (case unicode_regex_split_stl wlib
                   (map (\<lambda>c. if c > 0x7F \<and> is_whitespace (unicode_cpt_flags_from_cpt tb c) then 0x0B else c) cpts) cpts_regex offsets of
                  None \<Rightarrow> Inl Failed_regex | Some r \<Rightarrow> Inr r)))
       (unicode_regex_split_custom tb cpts regex_expr offsets)"

fun regex_split_all :: "unicode_tables \<Rightarrow> byte regex_lib \<Rightarrow> cpt regex_lib \<Rightarrow> cpt list \<Rightarrow> byte list list \<Rightarrow> nat list \<Rightarrow>
    (split_error + nat list) option" where
  "regex_split_all tb lib wlib cpts [] offsets = Some (Inr offsets)"
| "regex_split_all tb lib wlib cpts (e # es) offsets =
     Option.bind (regex_split_one tb lib wlib cpts e offsets)
       (\<lambda>r. case r of Inl err \<Rightarrow> Some (Inl err) | Inr offsets' \<Rightarrow> regex_split_all tb lib wlib cpts es offsets')"

text \<open>The words of a division; \<open>unicode_cpt_to_utf8\<close> throws on a code point that has no encoding.\<close>

fun split_words :: "cpt list \<Rightarrow> nat list \<Rightarrow> byte list list option" where
  "split_words cpts [] = Some []"
| "split_words cpts (n # ns) =
     (case unicode_cpts_to_utf8 (take n cpts) of
        None \<Rightarrow> None
      | Some w \<Rightarrow> map_option (Cons w) (split_words (drop n cpts) ns))"

fun encode_bytes :: "byte list \<Rightarrow> byte list option" where
  "encode_bytes [] = Some []"
| "encode_bytes (b # bs) =
     (case unicode_byte_to_utf8 b of None \<Rightarrow> None | Some e \<Rightarrow> map_option ((@) e) (encode_bytes bs))"

fun unicode_byte_encoding_process :: "byte list list \<Rightarrow> byte list list option" where
  "unicode_byte_encoding_process [] = Some []"
| "unicode_byte_encoding_process (word # words) =
     (case Option.bind (unicode_cpts_to_utf8 (unicode_cpts_from_utf8 word)) encode_bytes of
        None \<Rightarrow> None
      | Some e \<Rightarrow> map_option (Cons e) (unicode_byte_encoding_process words))"

definition unicode_regex_split :: "unicode_tables \<Rightarrow> byte regex_lib \<Rightarrow> cpt regex_lib \<Rightarrow> byte list \<Rightarrow> byte list list \<Rightarrow> bool \<Rightarrow>
    (split_error + byte list list) option" where
  "unicode_regex_split tb lib wlib txt regex_exprs byte_encode =
     (let cpts = unicode_cpts_from_utf8 txt
      in map_option (\<lambda>r. case r of
             Inl err \<Rightarrow> Inl err
           | Inr offsets \<Rightarrow>
               (case Option.bind (split_words cpts offsets) (\<lambda>ws. if byte_encode then unicode_byte_encoding_process ws else Some ws) of
                  None \<Rightarrow> Inl Invalid_codepoint | Some ws \<Rightarrow> Inr ws))
           (regex_split_all tb lib wlib cpts regex_exprs [length cpts]))"

end
