(* ===== verification/UnicodeSplitProps.thy ===== *)
theory UnicodeSplitProps
  imports UnicodeRegex
begin

text \<open>
  What the splitters keep: a locale for the scanners, whose law is that a step at the end of the last token adds tokens of
  positive length up to the new position, and one for whatever divides a range, which a scanner does.  Both are interpreted on
  every splitter; the division of the text by \<open>unicode_regex_split\<close> follows.
\<close>

definition divides :: "nat list \<Rightarrow> nat \<Rightarrow> bool" where
  "divides ls n \<longleftrightarrow> (\<forall>l \<in> set ls. 0 < l) \<and> sum_list ls = n"

definition advances :: "split_ctx \<Rightarrow> split_state \<Rightarrow> split_state \<Rightarrow> bool" where
  "advances c st st' \<longleftrightarrow>
     (\<exists>ls p. st' = st\<lparr>sp_pos := p, prev_end := p, bpe_offsets := bpe_offsets st @ ls\<rparr> \<and>
        sp_pos st < p \<and> p \<le> offset_end c \<and> divides ls (p - sp_pos st))"

locale range_splitter =
  fixes scan :: "split_ctx \<Rightarrow> nat list \<Rightarrow> nat list option"
  assumes scan_divides: "offset_ini c \<le> offset_end c \<Longrightarrow>
    \<exists>ls. scan c acc = Some (acc @ ls) \<and> divides ls (offset_end c - offset_ini c)"
begin

lemma ranges_refined:
  "\<exists>lss. split_ranges scan tb cpts start offsets acc = Some (acc @ concat lss) \<and> list_all2 divides lss offsets"
proof (induction offsets arbitrary: start acc)
  case Nil
  show ?case by (intro exI[of _ "[]"]) simp
next
  case (Cons n offsets)
  let ?c = "\<lparr>sc_tables = tb, sc_cpts = cpts, offset_ini = start, offset_end = start + n\<rparr>"
  obtain ls where ls: "scan ?c acc = Some (acc @ ls)" "divides ls n" using scan_divides[of ?c acc] by auto
  obtain lss where "split_ranges scan tb cpts (start + n) offsets (acc @ ls) = Some ((acc @ ls) @ concat lss)"
    "list_all2 divides lss offsets"
    using Cons.IH by blast
  then show ?case using ls by (intro exI[of _ "ls # lss"]) simp
qed

end

locale scanner =
  fixes step :: "split_ctx \<Rightarrow> split_state \<Rightarrow> split_state"
  assumes step_advances: "prev_end st = sp_pos st \<Longrightarrow> offset_ini c \<le> sp_pos st \<Longrightarrow> sp_pos st < offset_end c \<Longrightarrow> advances c st (step c st)"
begin

lemma loop_divides:
  assumes "prev_end st = sp_pos st" "offset_ini c \<le> sp_pos st" "sp_pos st \<le> offset_end c"
  shows "\<exists>ls. map_option bpe_offsets (split_loop (step c) (offset_end c) st) = Some (bpe_offsets st @ ls) \<and>
    divides ls (offset_end c - sp_pos st)"
  using assms
proof (induction "offset_end c - sp_pos st" arbitrary: st rule: less_induct)
  case less
  show ?case
  proof (cases "sp_pos st < offset_end c")
    case True
    obtain ls p where s: "step c st = st\<lparr>sp_pos := p, prev_end := p, bpe_offsets := bpe_offsets st @ ls\<rparr>"
      "sp_pos st < p" "p \<le> offset_end c" "divides ls (p - sp_pos st)"
      using step_advances[OF less.prems(1,2) True] unfolding advances_def by blast
    have "\<exists>ls'. map_option bpe_offsets (split_loop (step c) (offset_end c) (step c st)) = Some ((bpe_offsets st @ ls) @ ls') \<and>
      divides ls' (offset_end c - p)"
      using less.hyps[of "step c st"] less.prems s by (simp del: map_option_eq_Some)
    then obtain ls' where "map_option bpe_offsets (split_loop (step c) (offset_end c) (step c st)) = Some ((bpe_offsets st @ ls) @ ls')"
      "divides ls' (offset_end c - p)"
      by blast
    then show ?thesis using s True
      by (intro exI[of _ "ls @ ls'"]) (subst split_loop.simps, auto simp: divides_def)
  next
    case False
    then show ?thesis using less.prems by (intro exI[of _ "[]"]) (subst split_loop.simps, simp add: divides_def)
  qed
qed

end

sublocale scanner \<subseteq> range_splitter "scan_range step"
proof
  fix c :: split_ctx and acc
  assume "offset_ini c \<le> offset_end c"
  then show "\<exists>ls. scan_range step c acc = Some (acc @ ls) \<and> divides ls (offset_end c - offset_ini c)"
    using loop_divides[of "\<lparr>sp_pos = offset_ini c, prev_end = offset_ini c, bpe_offsets = acc\<rparr>" c]
    by (simp add: scan_range_def)
qed

section \<open>Loops inside of a range\<close>

lemma scan_while_le: "pos \<le> e \<Longrightarrow> scan_while e p pos \<le> e"
  by (induction e p pos rule: scan_while.induct) (subst scan_while.simps, auto)

lemma scan_while_gt: "pos < e \<Longrightarrow> p pos \<Longrightarrow> pos < scan_while e p pos"
  by (subst scan_while.simps) (use scan_while_ge[of "pos + 1" e p] in auto)

lemma flags_inside:
  "is_letter (get_flags c p) \<Longrightarrow> p < offset_end c"
  "is_number (get_flags c p) \<Longrightarrow> p < offset_end c"
  "is_whitespace (get_flags c p) \<Longrightarrow> p < offset_end c"
  "is_other (get_flags c p) \<Longrightarrow> p < offset_end c"
  "get_flags c p \<noteq> 0 \<Longrightarrow> p < offset_end c"
  by (auto simp: get_flags_def is_letter_def is_number_def is_whitespace_def is_other_def split: if_splits)

lemma token_to_advances:
  assumes "prev_end st = sp_pos st" "sp_pos st < e" "e \<le> offset_end c"
  shows "advances c st (token_to e st)"
  unfolding advances_def using assms
  by (intro exI[of _ "[e - sp_pos st]"] exI[of _ e]) (auto simp: token_to_def add_token_def divides_def Let_def)

lemma advance_token_to: "prev_end st = sp_pos st \<Longrightarrow> sp_pos st \<le> e \<Longrightarrow> advance_by_token e st = token_to e st"
  by (simp add: advance_by_token_def token_to_def add_token_def Let_def)

lemma contraction_fits: "contraction_length c low pos > 0 \<Longrightarrow> pos + contraction_length c low pos \<le> offset_end c"
  by (auto simp: contraction_length_def split: if_splits)

lemma whitespace_run: "pos \<le> offset_end c \<Longrightarrow> pos + num_whitespaces c pos \<le> offset_end c"
  using scan_while_le[of pos "offset_end c" "\<lambda>p. is_whitespace (get_flags c p)"] by (simp add: num_whitespaces_def)

lemma split_spaces_advances:
  assumes "prev_end st = sp_pos st" "sp_pos st < offset_end c"
  shows "advances c st (split_spaces c (num_whitespaces c (sp_pos st)) st)"
  using assms whitespace_run[of "sp_pos st" c] unfolding split_spaces_def
  by (auto intro!: token_to_advances)

lemma last_end_bounds: "last_end_newline c pos n > 0 \<Longrightarrow> pos < last_end_newline c pos n \<and> last_end_newline c pos n \<le> pos + n"
  by (induction n) (auto split: if_splits)

lemma split_lines_advances:
  assumes "prev_end st = sp_pos st" "sp_pos st < offset_end c"
  shows "advances c st (split_lines c st)"
  unfolding split_lines_def Let_def
  using assms split_spaces_advances[OF assms] whitespace_run[of "sp_pos st" c]
    last_end_bounds[of c "sp_pos st" "num_whitespaces c (sp_pos st)"]
  by (auto intro!: token_to_advances)

lemma other_end_bounds: "pos \<le> offset_end c \<Longrightarrow> pos \<le> other_end c pos \<and> other_end c pos \<le> offset_end c"
  unfolding other_end_def by (meson order_trans scan_while_ge scan_while_le)

lemma other_end_gt: "pos < offset_end c \<Longrightarrow> is_other (get_flags c pos) \<Longrightarrow> pos < other_end c pos"
  unfolding other_end_def by (meson order_less_le_trans scan_while_ge scan_while_gt)

lemma digit_groups_advance:
  assumes "prev_end st = ini" "ini \<le> pos" "pos \<le> offset_end c"
  shows "\<exists>ls p. digit_groups c ini pos st = st\<lparr>sp_pos := p, prev_end := p, bpe_offsets := bpe_offsets st @ ls\<rparr> \<and>
    pos \<le> p \<and> (pos < offset_end c \<and> is_number (get_flags c pos) \<longrightarrow> pos < p) \<and> p \<le> offset_end c \<and> divides ls (p - ini)"
  using assms
proof (induction c ini pos st rule: digit_groups.induct)
  case (1 c ini pos st)
  show ?case
  proof (cases "pos < offset_end c \<and> is_number (get_flags c pos)")
    case num: True
    show ?thesis
    proof (cases "pos + 1 - ini \<ge> 3")
      case True
      have a: "fst (add_token (pos + 1) st) = st\<lparr>prev_end := pos + 1, bpe_offsets := bpe_offsets st @ [pos + 1 - ini]\<rparr>"
        using 1(3,4) by (simp add: add_token_def Let_def)
      from 1(1)[OF num True] obtain ls p where
        "digit_groups c (pos + 1) (pos + 1) (fst (add_token (pos + 1) st)) =
          (fst (add_token (pos + 1) st))\<lparr>sp_pos := p, prev_end := p, bpe_offsets := bpe_offsets (fst (add_token (pos + 1) st)) @ ls\<rparr>"
        "pos + 1 \<le> p" "p \<le> offset_end c" "divides ls (p - (pos + 1))"
        using a num by auto
      then show ?thesis using num True a 1(4)
        by (intro exI[of _ "(pos + 1 - ini) # ls"] exI[of _ p]) (subst digit_groups.simps, auto simp: divides_def)
    next
      case False
      then obtain ls p where "digit_groups c ini (pos + 1) st = st\<lparr>sp_pos := p, prev_end := p, bpe_offsets := bpe_offsets st @ ls\<rparr>"
        "pos + 1 \<le> p" "p \<le> offset_end c" "divides ls (p - ini)"
        using 1(2)[OF num False] num 1(3,4) by auto
      then show ?thesis using num False by (intro exI[of _ ls] exI[of _ p]) (subst digit_groups.simps, simp)
    qed
  next
    case False
    then show ?thesis using 1(3-5)
      by (intro exI[of _ "if pos > ini then [pos - ini] else []"] exI[of _ pos])
        (subst digit_groups.simps, auto simp: token_to_def add_token_def Let_def divides_def)
  qed
qed

lemma digits_advance:
  assumes "prev_end st = sp_pos st" "sp_pos st < offset_end c" "is_number (get_flags c (sp_pos st))"
  shows "advances c st (digit_groups c (sp_pos st) (sp_pos st) st)"
  using digit_groups_advance[of st "sp_pos st" "sp_pos st" c] assms unfolding advances_def by (meson order_less_imp_le order_refl)

section \<open>The splitters\<close>

lemma letters_end:
  assumes "start \<le> offset_end c" "f = is_letter \<or> f = is_number \<or> f = is_other" "f (get_flags c start)"
  shows "start < scan_while (offset_end c) (\<lambda>p. f (get_flags c p)) start \<and> scan_while (offset_end c) (\<lambda>p. f (get_flags c p)) start \<le> offset_end c"
proof -
  have "start < offset_end c" using assms(2,3) flags_inside(1,2,4) by blast
  then show ?thesis using assms(3) by (simp add: scan_while_gt scan_while_le)
qed

interpretation gpt2: scanner gpt2_step
proof
  fix st :: split_state and c :: split_ctx
  assume st: "prev_end st = sp_pos st" "offset_ini c \<le> sp_pos st" "sp_pos st < offset_end c"
  let ?pos = "sp_pos st"
  let ?sp = "get_cpt c ?pos = 32"
  let ?k = "contraction_length c (\<lambda>x. x) ?pos"
  let ?flags2 = "if ?sp then get_flags c (?pos + 1) else get_flags c ?pos"
  let ?start = "?pos + (if ?sp then 1 else 0)"
  have run: "advances c st (token_to (scan_while (offset_end c) (\<lambda>p. f (get_flags c p)) ?start) st)"
    if f: "f = is_letter \<or> f = is_number \<or> f = is_other" "f ?flags2" for f
    using letters_end[of ?start c f] f st by (intro token_to_advances) (auto split: if_splits)
  show "advances c st (gpt2_step c st)"
  proof (cases "?k > 0")
    case True
    then show ?thesis using contraction_fits[OF True] st
      by (simp add: gpt2_step_def Let_def advance_token_to token_to_advances)
  next
    case False
    then show ?thesis using run[of is_letter] run[of is_number] run[of is_other] split_spaces_advances[OF st(1,3)]
      unfolding gpt2_step_def Let_def by (simp split del: if_split) (simp split: if_split)
  qed
qed

text \<open>Llama 3 and Qwen 2 share a step; they differ in their digits.\<close>

lemma llama3_step_advances:
  assumes st: "prev_end st = sp_pos st" "sp_pos st < offset_end c"
    and digits: "is_number (get_flags c (sp_pos st)) \<Longrightarrow> advances c st (digits (sp_pos st) st)"
  shows "advances c st (llama3_step digits c st)"
proof -
  let ?pos = "sp_pos st"
  let ?sp = "get_cpt c ?pos = 32"
  let ?flags2 = "if ?sp then get_flags c (?pos + 1) else get_flags c ?pos"
  have word: "advances c st (token_to (scan_while (offset_end c) (\<lambda>p. is_letter (get_flags c p)) (?pos + 1)) st)"
    using st scan_while_ge[of "?pos + 1" "offset_end c" "\<lambda>p. is_letter (get_flags c p)"]
    by (intro token_to_advances scan_while_le) auto
  have other: "advances c st (token_to (other_end c (?pos + (if ?sp then 1 else 0))) st)"
    if o: "\<not> (is_whitespace ?flags2 \<or> is_letter ?flags2 \<or> is_number ?flags2)" "get_flags c ?pos \<noteq> 0"
  proof (cases ?sp)
    case True
    then show ?thesis using st other_end_bounds[of "?pos + 1" c] by (intro token_to_advances) auto
  next
    case False
    then show ?thesis using st o other_end_gt[of ?pos c] other_end_bounds[of ?pos c]
      by (intro token_to_advances) (auto simp: is_other_def)
  qed
  show ?thesis
  proof (cases "contraction_length c (unicode_tolower (sc_tables c)) ?pos > 0")
    case True
    then show ?thesis using contraction_fits[OF True] st
      by (simp add: llama3_step_def Let_def advance_token_to token_to_advances)
  next
    case False
    then show ?thesis using word digits other split_lines_advances[OF st]
      unfolding llama3_step_def Let_def by (simp split del: if_split) (simp split: if_split)
  qed
qed

interpretation llama3: scanner "\<lambda>c. llama3_step (llama3_digits c) c"
  by unfold_locales (rule llama3_step_advances; simp add: llama3_digits_def digits_advance)

interpretation qwen2: scanner "llama3_step qwen2_digits"
  by unfold_locales (rule llama3_step_advances; simp add: qwen2_digits_def token_to_advances)

lemma han_inside: "han_at c p \<Longrightarrow> p < offset_end c"
  by (auto simp: han_at_def get_cpt_def unicode_cpt_is_han_def OUT_OF_RANGE_def split: if_splits)

lemma kimi_word_bounds:
  assumes "pos \<le> offset_end c"
  shows "pos \<le> kimi_word_end c pos \<and> kimi_word_end c pos \<le> offset_end c"
    and "word_letter c pos \<Longrightarrow> pos < kimi_word_end c pos"
proof -
  let ?e = "scan_while (offset_end c) (word_letter c) pos"
  have e: "pos \<le> ?e" "?e \<le> offset_end c" using assms by (simp_all add: scan_while_ge scan_while_le)
  then show b: "pos \<le> kimi_word_end c pos \<and> kimi_word_end c pos \<le> offset_end c"
    using contraction_fits[of c "unicode_tolower (sc_tables c)" ?e] unfolding kimi_word_end_def Let_def by (cases "contraction_length c (unicode_tolower (sc_tables c)) ?e > 0") simp_all
  assume w: "word_letter c pos"
  then have "pos < offset_end c" using flags_inside(1) by (auto simp: word_letter_def)
  then have "pos < ?e" using w by (rule scan_while_gt)
  then show "pos < kimi_word_end c pos" unfolding kimi_word_end_def Let_def by linarith
qed

interpretation kimi: scanner kimi_step
proof
  fix st :: split_state and c :: split_ctx
  assume st: "prev_end st = sp_pos st" "offset_ini c \<le> sp_pos st" "sp_pos st < offset_end c"
  let ?pos = "sp_pos st"
  let ?sp = "get_cpt c ?pos = 32"
  let ?flags2 = "if ?sp then get_flags c (?pos + 1) else get_flags c ?pos"
  have han: "advances c st (token_to (scan_while (offset_end c) (han_at c) ?pos) st)" if "unicode_cpt_is_han (get_cpt c ?pos)"
    using st that by (intro token_to_advances scan_while_le scan_while_gt) (simp_all add: han_at_def)
  have word: "advances c st (token_to (kimi_word_end c ?pos) st)" if "word_letter c ?pos"
    using st kimi_word_bounds[of ?pos c] that by (intro token_to_advances) auto
  have word': "advances c st (token_to (kimi_word_end c (?pos + 1)) st)"
    using st kimi_word_bounds(1)[of "?pos + 1" c] by (intro token_to_advances) auto
  have other: "advances c st (token_to (other_end c (?pos + (if ?sp then 1 else 0))) st)" if o: "is_other ?flags2"
    using st o other_end_bounds[of "?pos + 1" c] other_end_gt[of ?pos c] other_end_bounds[of ?pos c]
    by (intro token_to_advances) (auto split: if_splits)
  show "advances c st (kimi_step c st)"
    using han word word' digits_advance[OF st(1,3)] other split_lines_advances[OF st(1,3)]
    unfolding kimi_step_def Let_def by (simp split del: if_split) (simp split: if_split)
qed

interpretation newlines: scanner newline_step
proof
  fix st :: split_state and c :: split_ctx
  assume st: "prev_end st = sp_pos st" "offset_ini c \<le> sp_pos st" "sp_pos st < offset_end c"
  let ?e = "scan_while (offset_end c) (\<lambda>p. (sc_cpts c ! p = 10) = (sc_cpts c ! sp_pos st = 10)) (sp_pos st)"
  have "sp_pos st < ?e" "?e \<le> offset_end c" using st by (simp_all add: scan_while_gt scan_while_le)
  then show "advances c st (newline_step c st)"
    unfolding advances_def newline_step_def Let_def
    by (intro exI[of _ "[?e - sp_pos st]"] exI[of _ ?e]) (simp add: divides_def)
qed

section \<open>AFMoE: the last token may start before the digits\<close>

lemma emit_groups_divide:
  assumes "prev_end st \<le> current" "current \<le> e" "3 dvd e - current"
  shows "\<exists>ls q. emit_groups current e st = st\<lparr>prev_end := q, bpe_offsets := bpe_offsets st @ ls\<rparr> \<and> prev_end st \<le> q \<and> q \<le> e \<and>
    divides ls (q - prev_end st)"
  using assms
proof (induction current e st rule: emit_groups.induct)
  case (1 current e st)
  show ?case
  proof (cases "current < e")
    case True
    have le: "current + 3 \<le> e" "3 dvd e - (current + 3)"
      using True dvd_imp_le[OF 1(4)] dvd_diff_nat[OF 1(4), of 3] by simp_all
    have a: "fst (add_token (current + 3) st) = st\<lparr>prev_end := current + 3, bpe_offsets := bpe_offsets st @ [current + 3 - prev_end st]\<rparr>"
      using 1(2) by (simp add: add_token_def Let_def)
    from 1(1)[OF True] obtain ls q where "emit_groups (current + 3) e (fst (add_token (current + 3) st)) =
        (fst (add_token (current + 3) st))\<lparr>prev_end := q, bpe_offsets := bpe_offsets (fst (add_token (current + 3) st)) @ ls\<rparr>"
      "current + 3 \<le> q" "q \<le> e" "divides ls (q - (current + 3))"
      using a le by auto
    then show ?thesis using True a 1(2)
      by (intro exI[of _ "(current + 3 - prev_end st) # ls"] exI[of _ q]) (subst emit_groups.simps, auto simp: divides_def)
  next
    case False
    then show ?thesis using 1(2,3)
      by (intro exI[of _ "[]"] exI[of _ "prev_end st"]) (subst emit_groups.simps, simp add: divides_def)
  qed
qed

lemma afmoe_step_divides:
  assumes "prev_end st \<le> sp_pos st" "sp_pos st < offset_end c"
  shows "\<exists>ls p q. afmoe_step c st = st\<lparr>sp_pos := p, prev_end := q, bpe_offsets := bpe_offsets st @ ls\<rparr> \<and>
    sp_pos st < p \<and> p \<le> offset_end c \<and> prev_end st \<le> q \<and> q \<le> p \<and> divides ls (q - prev_end st)"
proof (cases "is_number (get_flags c (sp_pos st))")
  case True
  define p where "p = scan_while (offset_end c) (\<lambda>p. is_number (get_flags c p)) (sp_pos st)"
  define r where "r = (p - sp_pos st) mod 3"
  define st1 where "st1 = (if r > 0 then fst (add_token (sp_pos st + r) st) else st)"
  have p: "sp_pos st < p" "p \<le> offset_end c" using True assms(2) by (simp_all add: p_def scan_while_gt scan_while_le)
  have r: "sp_pos st + r \<le> p" "3 dvd p - (sp_pos st + r)"
    using p(1) mod_less_eq_dividend[of "p - sp_pos st" 3] dvd_minus_mod[of 3 "p - sp_pos st"]
    by (auto simp: r_def diff_diff_left[symmetric] simp del: diff_diff_left)
  obtain ls1 q1 where s1: "st1 = st\<lparr>prev_end := q1, bpe_offsets := bpe_offsets st @ ls1\<rparr>" "prev_end st \<le> q1" "q1 \<le> sp_pos st + r"
    "divides ls1 (q1 - prev_end st)"
  proof (cases "r > 0")
    case True
    then show ?thesis using assms(1) that[of "[sp_pos st + r - prev_end st]" "sp_pos st + r"]
      by (auto simp: st1_def add_token_def divides_def Let_def)
  next
    case False
    then show ?thesis using assms(1) that[of "[]" "prev_end st"] by (simp add: st1_def divides_def)
  qed
  obtain ls2 q2 where s2: "emit_groups (sp_pos st + r) p st1 = st1\<lparr>prev_end := q2, bpe_offsets := bpe_offsets st1 @ ls2\<rparr>"
    "q1 \<le> q2" "q2 \<le> p" "divides ls2 (q2 - q1)"
    using emit_groups_divide[of st1 "sp_pos st + r" p] s1 r by auto
  have "afmoe_step c st = (emit_groups (sp_pos st + r) p st1)\<lparr>sp_pos := p\<rparr>"
    using True by (simp add: afmoe_step_def p_def[symmetric] r_def[symmetric] st1_def Let_def)
  then show ?thesis using s1 s2 p
    by (intro exI[of _ "ls1 @ ls2"] exI[of _ p] exI[of _ q2]) (auto simp: divides_def)
next
  case False
  then show ?thesis using assms
    by (intro exI[of _ "[]"] exI[of _ "sp_pos st + 1"] exI[of _ "prev_end st"]) (simp add: afmoe_step_def divides_def)
qed

lemma afmoe_loop_divides:
  assumes "prev_end st \<le> sp_pos st" "sp_pos st \<le> offset_end c"
  shows "\<exists>ls. map_option (\<lambda>st. bpe_offsets (if prev_end st < offset_end c then fst (add_token (offset_end c) st) else st))
      (split_loop (afmoe_step c) (offset_end c) st) = Some (bpe_offsets st @ ls) \<and> divides ls (offset_end c - prev_end st)"
  (is "\<exists>ls. ?f st = Some (bpe_offsets st @ ls) \<and> _")
  using assms
proof (induction "offset_end c - sp_pos st" arbitrary: st rule: less_induct)
  case less
  show ?case
  proof (cases "sp_pos st < offset_end c")
    case True
    obtain ls p q where s: "afmoe_step c st = st\<lparr>sp_pos := p, prev_end := q, bpe_offsets := bpe_offsets st @ ls\<rparr>"
      "sp_pos st < p" "p \<le> offset_end c" "prev_end st \<le> q" "q \<le> p" "divides ls (q - prev_end st)"
      using afmoe_step_divides[OF less.prems(1) True] by blast
    have "\<exists>ls'. ?f (afmoe_step c st) = Some ((bpe_offsets st @ ls) @ ls') \<and> divides ls' (offset_end c - q)"
      using less.hyps[of "afmoe_step c st"] less.prems s by (simp del: map_option_eq_Some)
    then obtain ls' where "?f (afmoe_step c st) = Some ((bpe_offsets st @ ls) @ ls')" "divides ls' (offset_end c - q)" by blast
    moreover have "?f st = ?f (afmoe_step c st)" using True by (subst split_loop.simps) simp
    ultimately show ?thesis using s by (intro exI[of _ "ls @ ls'"]) (auto simp: divides_def)
  next
    case False
    then show ?thesis using less.prems
      by (intro exI[of _ "if prev_end st < offset_end c then [offset_end c - prev_end st] else []"])
        (subst split_loop.simps, auto simp: divides_def add_token_def Let_def)
  qed
qed

interpretation afmoe: range_splitter afmoe_range
proof
  fix c :: split_ctx and acc
  assume "offset_ini c \<le> offset_end c"
  then show "\<exists>ls. afmoe_range c acc = Some (acc @ ls) \<and> divides ls (offset_end c - offset_ini c)"
    using afmoe_loop_divides[of "\<lparr>sp_pos = offset_ini c, prev_end = offset_ini c, bpe_offsets = acc\<rparr>" c]
    by (simp add: afmoe_range_def)
qed

section \<open>The whole split\<close>

definition refines :: "nat list option \<Rightarrow> nat list \<Rightarrow> bool" where
  "refines res offsets \<longleftrightarrow> (\<exists>r. res = Some r \<and> (r = [] \<or> (\<exists>lss. r = concat lss \<and> list_all2 divides lss offsets)))"

lemma refines_ranges:
  assumes "\<And>acc. \<exists>lss. split_ranges scan tb cpts start offsets acc = Some (acc @ concat lss) \<and> list_all2 divides lss offsets"
  shows "refines (split_ranges scan tb cpts start offsets []) offsets"
  using assms[of "[]"] by (auto simp: refines_def)

lemma custom_refines: "refines (unicode_regex_split_custom tb cpts expr offsets) offsets"
proof -
  have "refines (Some []) offsets" by (simp add: refines_def)
  moreover note refines_ranges[OF gpt2.ranges_refined] refines_ranges[OF llama3.ranges_refined] refines_ranges[OF qwen2.ranges_refined]
    refines_ranges[OF kimi.ranges_refined] refines_ranges[OF newlines.ranges_refined] refines_ranges[OF afmoe.ranges_refined]
  ultimately show ?thesis
    unfolding unicode_regex_split_custom_def unicode_regex_split_custom_gpt2_def unicode_regex_split_custom_llama3_def
      unicode_regex_split_custom_qwen2_def unicode_regex_split_custom_kimi_k2_def unicode_regex_split_custom_afmoe_def
      unicode_regex_split_custom_newlines_def
    by (simp split: if_split)
qed

text \<open>What a regular expression library returns: matches in order, inside of the text.\<close>

fun legal_matches :: "(nat \<times> nat) list \<Rightarrow> nat \<Rightarrow> nat \<Rightarrow> bool" where
  "legal_matches [] start n \<longleftrightarrow> start \<le> n"
| "legal_matches ((pos, len) # ms) start n \<longleftrightarrow> start \<le> pos \<and> legal_matches ms (pos + len) n"

definition legal_lib :: "'c regex_lib \<Rightarrow> bool" where
  "legal_lib lib \<longleftrightarrow> (\<forall>expr txt ms. re_search lib expr txt = Some ms \<longrightarrow> legal_matches ms 0 (length txt))"

lemma legal_matches_le: "legal_matches ms start n \<Longrightarrow> start \<le> n"
proof (induction ms arbitrary: start)
  case (Cons m ms)
  obtain pos len where "m = (pos, len)" by (cases m)
  then show ?case using Cons.IH[of "pos + len"] Cons.prems by simp
qed simp

lemma stl_matches_sum: "legal_matches ms start n \<Longrightarrow> sum_list (stl_matches ms start n) = n - start"
proof (induction ms arbitrary: start)
  case (Cons m ms)
  obtain pos len where m: "m = (pos, len)" by (cases m)
  have "pos + len \<le> n" "start \<le> pos" using Cons.prems m legal_matches_le[of ms "pos + len" n] by simp_all
  then show ?case using Cons.IH[of "pos + len"] Cons.prems m by auto
qed simp

lemma stl_ranges_sum:
  assumes "legal_lib lib" "sum_list offsets \<le> length txt" "stl_ranges lib expr txt offsets = Some r"
  shows "sum_list r = sum_list offsets"
  using assms(2,3)
proof (induction offsets arbitrary: "txt" r)
  case (Cons n offsets)
  obtain ms where ms: "re_search lib expr (take n txt) = Some ms" using Cons.prems(2) by (auto split: option.splits)
  obtain r' where r': "stl_ranges lib expr (drop n txt) offsets = Some r'" "r = stl_matches ms 0 n @ r'"
    using Cons.prems(2) ms by auto
  have "legal_matches ms 0 n" using assms(1) ms Cons.prems(1) unfolding legal_lib_def by fastforce
  then show ?case using Cons.IH[OF _ r'(1)] Cons.prems(1) stl_matches_sum[of ms 0 n] r'(2) by simp
qed simp

lemma stl_split_sum:
  "legal_lib lib \<Longrightarrow> sum_list offsets \<le> length s \<Longrightarrow> unicode_regex_split_stl lib s expr offsets = Some r \<Longrightarrow> sum_list r = sum_list offsets"
  using stl_ranges_sum by (auto simp: unicode_regex_split_stl_def split: if_splits)

lemma divides_sum: "list_all2 divides lss offsets \<Longrightarrow> sum_list (concat lss) = sum_list offsets"
  by (induction lss offsets rule: list_all2_induct) (simp_all add: divides_def)

lemma split_one_sum:
  assumes lib: "legal_lib lib" "legal_lib wlib" and sum: "sum_list offsets = length cpts"
  shows "\<exists>r. regex_split_one tb lib wlib cpts expr offsets = Some r \<and> (\<forall>ls. r = Inr ls \<longrightarrow> sum_list ls = length cpts)"
proof -
  obtain tmp where tmp: "unicode_regex_split_custom tb cpts expr offsets = Some tmp"
    "tmp = [] \<or> (\<exists>lss. tmp = concat lss \<and> list_all2 divides lss offsets)"
    using custom_refines[of tb cpts expr offsets] by (auto simp: refines_def)
  show ?thesis
  proof (cases "tmp = []")
    case False
    then show ?thesis using tmp divides_sum sum by (auto simp: regex_split_one_def)
  next
    case True
    define one where "one = (let cpts_regex = unicode_cpts_from_utf8 expr
      in if uses_category expr then
           (if list_ex (\<lambda>c. c \<ge> 128) cpts_regex then Inl Not_supported
            else (case unicode_regex_split_stl lib (map (collapse_cpt tb) cpts) (collapse_regex expr 0 False) offsets of
                    None \<Rightarrow> Inl Failed_regex | Some r \<Rightarrow> Inr r))
         else
           (case unicode_regex_split_stl wlib
               (map (\<lambda>c. if c > 0x7F \<and> is_whitespace (unicode_cpt_flags_from_cpt tb c) then 0x0B else c) cpts) cpts_regex offsets of
              None \<Rightarrow> Inl Failed_regex | Some r \<Rightarrow> Inr r))"
    have "regex_split_one tb lib wlib cpts expr offsets = Some one"
      using tmp(1) True by (simp add: regex_split_one_def one_def)
    moreover have "sum_list ls = length cpts" if "one = Inr ls" for ls
      using that stl_split_sum[OF lib(1), of offsets "map (collapse_cpt tb) cpts"]
        stl_split_sum[OF lib(2), of offsets "map (\<lambda>c. if c > 0x7F \<and> is_whitespace (unicode_cpt_flags_from_cpt tb c) then 0x0B else c) cpts"] sum
      unfolding one_def Let_def by (simp split: if_split_asm option.split_asm)
    ultimately show ?thesis by blast
  qed
qed

lemma split_all_sum:
  assumes "legal_lib lib" "legal_lib wlib"
  shows "sum_list offsets = length cpts \<Longrightarrow>
    \<exists>r. regex_split_all tb lib wlib cpts exprs offsets = Some r \<and> (\<forall>ls. r = Inr ls \<longrightarrow> sum_list ls = length cpts)"
proof (induction exprs arbitrary: offsets)
  case (Cons e exprs)
  obtain r where r: "regex_split_one tb lib wlib cpts e offsets = Some r" "\<forall>ls. r = Inr ls \<longrightarrow> sum_list ls = length cpts"
    using split_one_sum[OF assms Cons.prems] by blast
  show ?case
  proof (cases r)
    case (Inr ls)
    then show ?thesis using r Cons.IH[of ls] by simp
  qed (use r in simp)
qed simp

lemma cpts_to_utf8_append:
  "unicode_cpts_to_utf8 (xs @ ys) = (case unicode_cpts_to_utf8 xs of None \<Rightarrow> None
    | Some a \<Rightarrow> (case unicode_cpts_to_utf8 ys of None \<Rightarrow> None | Some b \<Rightarrow> Some (a @ b)))"
  by (induction xs) (auto split: option.splits)

lemma split_words_concat:
  "split_words cpts ns = Some ws \<Longrightarrow> unicode_cpts_to_utf8 (take (sum_list ns) cpts) = Some (concat ws)"
proof (induction cpts ns arbitrary: ws rule: split_words.induct)
  case (2 cpts n ns)
  obtain w ws' where w: "unicode_cpts_to_utf8 (take n cpts) = Some w" "split_words (drop n cpts) ns = Some ws'" "ws = w # ws'"
    using "2.prems" by (auto split: option.splits)
  show ?case using 2(1)[OF w(1,2)] w by (simp add: take_add cpts_to_utf8_append)
qed simp

lemma split_words_encoded: "split_words cpts ns = Some ws \<Longrightarrow> w \<in> set ws \<Longrightarrow> \<exists>cs. unicode_cpts_to_utf8 cs = Some w"
  by (induction cpts ns arbitrary: ws rule: split_words.induct) (auto split: option.splits)

lemma split_words_total: "unicode_cpts_to_utf8 cpts \<noteq> None \<Longrightarrow> split_words cpts ns \<noteq> None"
proof (induction cpts ns rule: split_words.induct)
  case (2 cpts n ns)
  have "unicode_cpts_to_utf8 (take n cpts @ drop n cpts) \<noteq> None" using "2.prems" by simp
  then obtain a where "unicode_cpts_to_utf8 (take n cpts) = Some a" "unicode_cpts_to_utf8 (drop n cpts) \<noteq> None"
    unfolding cpts_to_utf8_append by (auto split: option.splits)
  then show ?case using "2.IH" by auto
qed simp

definition byte_alphabet :: "byte \<Rightarrow> byte list" where
  "byte_alphabet b = the (unicode_byte_to_utf8 b)"

lemma byte_alphabet: "unicode_byte_to_utf8 b = Some (byte_alphabet b)" "unicode_utf8_to_byte (byte_alphabet b) = Some b"
  using byte_alphabet_roundtrip[of b] by (auto simp: byte_alphabet_def)

definition byte_encoded :: "byte list \<Rightarrow> byte list" where
  "byte_encoded w = concat (map byte_alphabet w)"

lemma encode_bytes_total: "encode_bytes bs = Some (byte_encoded bs)"
  by (induction bs) (simp_all add: byte_alphabet byte_encoded_def)

lemma byte_encoding_words:
  "\<forall>w \<in> set ws. \<exists>cs. unicode_cpts_to_utf8 cs = Some w \<Longrightarrow> unicode_byte_encoding_process ws = Some (map byte_encoded ws)"
proof (induction ws)
  case (Cons w ws)
  then obtain cs where "unicode_cpts_to_utf8 cs = Some w" by auto
  then have "unicode_cpts_to_utf8 (unicode_cpts_from_utf8 w) = Some w"
    using cpts_from_utf8_at_encode[of cs w "[]"] by (simp add: unicode_cpts_from_utf8_def)
  then show ?case using Cons by (simp add: encode_bytes_total)
qed simp

lemma regex_split_words:
  assumes "legal_lib lib" "legal_lib wlib"
  shows "\<exists>r. unicode_regex_split tb lib wlib txt exprs byte_encode = Some r \<and>
    (\<forall>ws. r = Inr ws \<longrightarrow> (\<exists>words. unicode_cpts_to_utf8 (unicode_cpts_from_utf8 txt) = Some (concat words) \<and>
       ws = (if byte_encode then map byte_encoded words else words)))"
proof -
  let ?cpts = "unicode_cpts_from_utf8 txt"
  obtain r where r: "regex_split_all tb lib wlib ?cpts exprs [length ?cpts] = Some r" "\<forall>ls. r = Inr ls \<longrightarrow> sum_list ls = length ?cpts"
    using split_all_sum[OF assms, of "[length ?cpts]" ?cpts tb exprs] by auto
  show ?thesis
  proof (cases r)
    case (Inl e)
    then show ?thesis using r by (simp add: unicode_regex_split_def Let_def)
  next
    case ls: (Inr ls)
    show ?thesis
    proof (cases "split_words ?cpts ls")
      case None
      then show ?thesis using r ls by (simp add: unicode_regex_split_def Let_def)
    next
      case (Some ws)
      then have "unicode_byte_encoding_process ws = Some (map byte_encoded ws)"
        using split_words_encoded byte_encoding_words by blast
      then show ?thesis using r ls Some split_words_concat[OF Some] by (auto simp: unicode_regex_split_def Let_def)
    qed
  qed
qed

text \<open>C15. For every text, list of expressions and behaviour of the standard library's regular expressions, splitting a text
  returns, and when it does not throw, the words in order are the text decoded and encoded again (each in the byte alphabet when
  asked for): nothing is lost, added or reordered, by the hand-written splitters or by the gaps between matches.\<close>

theorem regex_split_lossless:
  assumes "legal_lib lib" "legal_lib wlib"
  shows "\<exists>r. unicode_regex_split tb lib wlib txt exprs byte_encode = Some r \<and>
    (\<forall>ws. r = Inr ws \<longrightarrow> (\<exists>words. unicode_cpts_to_utf8 (unicode_cpts_from_utf8 txt) = Some (concat words) \<and>
       ws = (if byte_encode then map byte_encoded words else words)))"
  by (rule regex_split_words[OF assms])

text \<open>A library that finds every single character.\<close>

definition each_char_lib :: "'c regex_lib" where
  "each_char_lib = \<lparr>re_valid = (\<lambda>e. True), re_search = (\<lambda>e txt. Some (map (\<lambda>i. (i, 1)) [0..<length txt]))\<rparr>"

lemma each_char_legal: "legal_lib each_char_lib"
proof -
  have "legal_matches (map (\<lambda>i. (i, 1)) [k..<n]) k n" if "k \<le> n" for k n
    using that by (induction "n - k" arbitrary: k) (simp_all add: upt_conv_Cons)
  then show ?thesis by (simp add: legal_lib_def each_char_lib_def)
qed

lemma regex_split_lossless_witness:
  "\<exists>r. unicode_regex_split (letter_tables []) each_char_lib each_char_lib [97, 32, 98] [re ''%p{Han}+'', re ''.''] True = Some r \<and>
    (\<forall>ws. r = Inr ws \<longrightarrow> (\<exists>words. unicode_cpts_to_utf8 (unicode_cpts_from_utf8 [97, 32, 98]) = Some (concat words) \<and>
       ws = (if True then map byte_encoded words else words)))"
  by (rule regex_split_lossless[OF each_char_legal each_char_legal])

end
