(* ===== verification/UnicodeSplitRef.thy ===== *)
theory UnicodeSplitRef
  imports UnicodeSplitProps
begin

text \<open>
  The regular expressions that the comments above the splitters give, as a reference: the lengths of the matches at the front of a
  text, in the order in which a backtracking matcher tries them, and the division of a text into first matches.  The splitters for
  GPT-2, Llama 3 and Qwen 2 compute that division; the one for Kimi K2 does not.
\<close>

datatype 'c rx =
    Char "'c \<Rightarrow> bool"
  | Seq "'c rx" "'c rx"
  | Alt "'c rx" "'c rx"
  | Rep nat "nat option" "'c \<Rightarrow> bool"
  | Not_next "'c \<Rightarrow> bool"

primrec rx_lens :: "'c rx \<Rightarrow> 'c list \<Rightarrow> nat list" where
  "rx_lens (Char p) s = (case s of [] \<Rightarrow> [] | x # _ \<Rightarrow> if p x then [1] else [])"
| "rx_lens (Seq r q) s = concat (map (\<lambda>n. map ((+) n) (rx_lens q (drop n s))) (rx_lens r s))"
| "rx_lens (Alt r q) s = rx_lens r s @ rx_lens q s"
| "rx_lens (Rep lo hi p) s =
     (let n = length (takeWhile p s) in rev [lo..<(case hi of None \<Rightarrow> n | Some h \<Rightarrow> min h n) + 1])"
| "rx_lens (Not_next p) s = (case s of [] \<Rightarrow> [0] | x # _ \<Rightarrow> if p x then [] else [0])"

definition rx_first :: "'c rx \<Rightarrow> 'c list \<Rightarrow> nat option" where
  "rx_first r s = (case rx_lens r s of [] \<Rightarrow> None | n # _ \<Rightarrow> Some n)"

function rx_split :: "'c rx \<Rightarrow> 'c list \<Rightarrow> nat list option" where
  "rx_split r s =
     (if s = [] then Some []
      else (case rx_first r s of
              None \<Rightarrow> None
            | Some n \<Rightarrow> if n = 0 then None else map_option (Cons n) (rx_split r (drop n s))))"
  by pat_completeness auto
termination
  by (relation "measure (\<lambda>(r, s). length s)") auto

declare rx_split.simps [simp del]

fun lit :: "('c \<Rightarrow> bool) list \<Rightarrow> 'c rx" where
  "lit [] = Rep 0 (Some 0) (\<lambda>x. False)"
| "lit [p] = Char p"
| "lit (p # ps) = Seq (Char p) (lit ps)"

fun alts :: "'c rx list \<Rightarrow> 'c rx" where
  "alts [] = Rep (Suc 0) (Some 0) (\<lambda>x. False)"
| "alts [r] = r"
| "alts (r # rs) = Alt r (alts rs)"

text \<open>The classes: \<open>\p{L}\<close>, \<open>\p{N}\<close>, \<open>\s\<close>, \<open>[^\s\p{L}\p{N}]\<close> and \<open>[^\r\n\p{L}\p{N}]\<close>.\<close>

definition cls :: "(16 word \<Rightarrow> bool) \<Rightarrow> unicode_tables \<Rightarrow> cpt \<Rightarrow> bool" where
  "cls f tb x = f (unicode_cpt_flags_from_cpt tb x)"

definition rx_other :: "unicode_tables \<Rightarrow> cpt \<Rightarrow> bool" where
  "rx_other tb x \<longleftrightarrow> \<not> cls is_whitespace tb x \<and> \<not> cls is_letter tb x \<and> \<not> cls is_number tb x"

definition rx_lead :: "unicode_tables \<Rightarrow> cpt \<Rightarrow> bool" where
  "rx_lead tb x \<longleftrightarrow> \<not> is_newline x \<and> \<not> cls is_letter tb x \<and> \<not> cls is_number tb x"

abbreviation opt_space :: "cpt rx" where "opt_space \<equiv> Rep 0 (Some (Suc 0)) (\<lambda>x. x = 32)"
abbreviation plus :: "('c \<Rightarrow> bool) \<Rightarrow> 'c rx" where "plus p \<equiv> Rep (Suc 0) None p"

text \<open>\<open>'s|'t|'re|'ve|'m|'ll|'d\<close>, where \<open>ch\<close> gives the class of a letter.\<close>

definition contraction_rx :: "(cpt \<Rightarrow> cpt \<Rightarrow> bool) \<Rightarrow> cpt rx" where
  "contraction_rx ch =
     alts [lit [(=) 39, ch 115], lit [(=) 39, ch 116], lit [(=) 39, ch 114, ch 101], lit [(=) 39, ch 118, ch 101], lit [(=) 39, ch 109],
       lit [(=) 39, ch 108, ch 108], lit [(=) 39, ch 100]]"

definition either_case :: "cpt \<Rightarrow> cpt \<Rightarrow> bool" where
  "either_case k x \<longleftrightarrow> x = k \<or> x = k - 32"

text \<open>\<open>'s|'t|'re|'ve|'m|'ll|'d| ?\p{L}+| ?\p{N}+| ?[^\s\p{L}\p{N}]+|\s+(?!\S)|\s+\<close>\<close>

definition gpt2_rx :: "unicode_tables \<Rightarrow> cpt rx" where
  "gpt2_rx tb =
     alts [contraction_rx (=), Seq opt_space (plus (cls is_letter tb)), Seq opt_space (plus (cls is_number tb)),
       Seq opt_space (plus (rx_other tb)), Seq (plus (cls is_whitespace tb)) (Not_next (\<lambda>x. \<not> cls is_whitespace tb x)),
       plus (cls is_whitespace tb)]"

text \<open>\<open>(?i:'s|'t|'re|'ve|'m|'ll|'d)|[^\r\n\p{L}\p{N}]?\p{L}+|\p{N}{1,3}| ?[^\s\p{L}\p{N}]+[\r\n]*|\s*[\r\n]+|\s+(?!\S)|\s+\<close>, with
  \<open>\p{N}\<close> for Qwen 2.\<close>

definition llama3_rx :: "nat \<Rightarrow> unicode_tables \<Rightarrow> cpt rx" where
  "llama3_rx digits tb =
     alts [contraction_rx either_case, Seq (Rep 0 (Some (Suc 0)) (rx_lead tb)) (plus (cls is_letter tb)), Rep (Suc 0) (Some digits) (cls is_number tb),
       Seq opt_space (Seq (plus (rx_other tb)) (Rep 0 None is_newline)), Seq (Rep 0 None (cls is_whitespace tb)) (plus is_newline),
       Seq (plus (cls is_whitespace tb)) (Not_next (\<lambda>x. \<not> cls is_whitespace tb x)), plus (cls is_whitespace tb)]"

text \<open>What the equivalence needs of the tables: every code point has a flag, a space is white space and neither letter nor number.
  For Llama 3 the categories exclude each other, newlines are white space, and \<open>unicode_tolower\<close> is right on the letters of the
  contractions.\<close>

definition space_tables :: "unicode_tables \<Rightarrow> bool" where
  "space_tables tb \<longleftrightarrow> (\<forall>x. unicode_cpt_flags_from_cpt tb x \<noteq> 0) \<and> cls is_whitespace tb 32 \<and> \<not> cls is_letter tb 32 \<and> \<not> cls is_number tb 32"

definition class_tables :: "unicode_tables \<Rightarrow> bool" where
  "class_tables tb \<longleftrightarrow> space_tables tb \<and> \<not> cls is_number tb 39 \<and> (\<forall>x. \<not> (cls is_letter tb x \<and> cls is_number tb x)) \<and>
     (\<forall>x. is_newline x \<longrightarrow> cls is_whitespace tb x \<and> \<not> cls is_letter tb x \<and> \<not> cls is_number tb x) \<and>
     (\<forall>x. \<forall>k \<in> {115, 116, 109, 100, 114, 101, 118, 108}. unicode_tolower tb x = k \<longleftrightarrow> either_case k x)"

section \<open>First matches\<close>

lemma first_alt: "rx_first (Alt r q) s = (case rx_first r s of None \<Rightarrow> rx_first q s | Some n \<Rightarrow> Some n)"
  by (auto simp: rx_first_def split: list.splits)

lemma rev_upt: "a < b \<Longrightarrow> rev [a..<b] = (b - 1) # rev [a..<b - 1]"
  by (cases b) auto

lemma first_rep: "rx_first (Rep lo hi p) s =
    (let n = length (takeWhile p s); m = (case hi of None \<Rightarrow> n | Some h \<Rightarrow> min h n) in if lo \<le> m then Some m else None)"
  by (auto simp: rx_first_def Let_def rev_upt split: list.splits)

lemma first_plus: "rx_first (plus p) s = (if takeWhile p s = [] then None else Some (length (takeWhile p s)))"
  by (auto simp: first_rep Let_def not_less_eq_eq Suc_le_eq)

text \<open>A sequence whose first part is optional.\<close>

lemma lens_opt: "rx_lens (Seq (Rep 0 (Some (Suc 0)) o1) q) s =
    (case s of [] \<Rightarrow> rx_lens q [] | x # xs \<Rightarrow> if o1 x then map Suc (rx_lens q xs) @ rx_lens q s else rx_lens q s)"
proof (cases s)
  case (Cons x xs)
  have i: "map ((+) 0) l = l" for l :: "nat list" by (simp add: plus_nat.add_0[abs_def] map_idI)
  show ?thesis using Cons i by (auto simp: numeral_2_eq_2 plus_1_eq_Suc)
qed (simp add: map_idI)

lemma first_opt: "rx_first (Seq (Rep 0 (Some (Suc 0)) o1) q) s =
    (case s of [] \<Rightarrow> rx_first q []
     | x # xs \<Rightarrow> if o1 x then (case rx_first q xs of None \<Rightarrow> rx_first q s | Some n \<Rightarrow> Some (Suc n)) else rx_first q s)"
  unfolding rx_first_def lens_opt by (auto split: list.splits)

text \<open>A sequence whose second part matches behind the longest match of the first.\<close>

lemma first_seq:
  "rx_first r s = Some n \<Longrightarrow> rx_first q (drop n s) = Some m \<Longrightarrow> rx_first (Seq r q) s = Some (n + m)"
  by (auto simp: rx_first_def split: list.splits)

lemma first_seq_none: "rx_first r s = None \<Longrightarrow> rx_first (Seq r q) s = None"
  by (auto simp: rx_first_def split: list.splits)

lemma first_char: "rx_first (Char p) s = (case s of [] \<Rightarrow> None | x # _ \<Rightarrow> if p x then Some 1 else None)"
  by (auto simp: rx_first_def split: list.splits)

lemma lens_char_seq: "rx_lens (Seq (Char p) q) s = (case s of [] \<Rightarrow> [] | x # xs \<Rightarrow> if p x then map Suc (rx_lens q xs) else [])"
  by (auto simp: plus_1_eq_Suc split: list.splits)

lemma first_char_seq:
  "rx_first (Seq (Char p) q) s = (case s of [] \<Rightarrow> None | x # xs \<Rightarrow> if p x then map_option Suc (rx_first q xs) else None)"
  unfolding rx_first_def lens_char_seq by (auto split: list.splits)

text \<open>\<open>\s+(?!\S)\<close>: the whole run at the end of the text, otherwise all but the last of it.\<close>

lemma run_next:
  "drop (length (takeWhile p s)) s = [] \<or> \<not> p (hd (drop (length (takeWhile p s)) s))"
  by (metis dropWhile_eq_drop hd_dropWhile)

lemma run_inside: "k < length (takeWhile p s) \<Longrightarrow> \<exists>x xs. drop k s = x # xs \<and> p x"
proof -
  assume k: "k < length (takeWhile p s)"
  then have "k < length s" using length_takeWhile_le[of p s] by linarith
  moreover have "p (s ! k)" using k by (metis nth_mem set_takeWhileD takeWhile_nth)
  ultimately show ?thesis by (metis Cons_nth_drop_Suc)
qed

lemma first_not_next:
  fixes p :: "'c \<Rightarrow> bool" and s :: "'c list"
  defines "n \<equiv> length (takeWhile p s)"
  shows "rx_first (Seq (plus p) (Not_next (\<lambda>x. \<not> p x))) s = (if n > 0 \<and> n = length s then Some n else if n > 1 then Some (n - 1) else None)"
proof -
  let ?f = "\<lambda>k. map ((+) k) (rx_lens (Not_next (\<lambda>x. \<not> p x)) (drop k s))"
  have lens: "rx_lens (Seq (plus p) (Not_next (\<lambda>x. \<not> p x))) s = concat (map ?f (rev [1..<n + 1]))"
    by (simp add: n_def Let_def)
  have f: "?f k = [k]" if "k < n" for k
    using run_inside[of k p s] that by (auto simp: n_def)
  have fn: "?f n = (if n = length s then [n] else [])"
    using run_next[of p s] length_takeWhile_le[of p s] by (auto simp: n_def split: list.splits)
  consider "n = 0" | "n = 1" | "n > 1" by linarith
  then show ?thesis
  proof cases
    case 3
    then obtain m where "n = Suc (Suc m)" by (metis One_nat_def less_imp_Suc_add plus_1_eq_Suc add_Suc)
    then have "rev [1..<n + 1] = n # (n - 1) # rev [1..<n - 1]" by simp
    then have "rx_lens (Seq (plus p) (Not_next (\<lambda>x. \<not> p x))) s = ?f n @ ?f (n - 1) @ concat (map ?f (rev [1..<n - 1]))"
      unfolding lens by (simp only: list.map concat.simps)
    then show ?thesis using f[of "n - 1"] fn 3 by (simp add: rx_first_def del: rx_lens.simps)
  qed (use lens fn in \<open>simp_all add: rx_first_def del: rx_lens.simps\<close>)
qed

text \<open>\<open>\s*[\r\n]+\<close>: up to the last newline of the run.\<close>

fun last_newline :: "cpt list \<Rightarrow> nat \<Rightarrow> nat" where
  "last_newline s 0 = 0"
| "last_newline s (Suc k) = (if is_newline (s ! k) then k + 1 else last_newline s k)"

lemma last_newline_le: "last_newline s n \<le> n"
  by (induction n) auto

lemma first_lines:
  fixes p :: "cpt \<Rightarrow> bool" and s :: "cpt list"
  defines "n \<equiv> length (takeWhile p s)"
  assumes nl: "\<And>x. is_newline x \<Longrightarrow> p x"
  shows "rx_first (Seq (Rep 0 None p) (plus is_newline)) s = (if last_newline s n > 0 then Some (last_newline s n) else None)"
proof -
  let ?f = "\<lambda>k. map ((+) k) (rx_lens (plus is_newline) (drop k s))"
  have lens: "rx_lens (Seq (Rep 0 None p) (plus is_newline)) s = concat (map ?f (rev [0..<n + 1]))"
    by (simp add: n_def Let_def)
  have no: "?f k = []" if "drop k s = [] \<or> \<not> is_newline (hd (drop k s))" for k
    using that by (cases "drop k s") auto
  have fn: "?f n = []"
    using run_next[of p s] nl by (intro no) (auto simp: n_def)
  have down: "(case concat (map ?f (rev [0..<k])) of [] \<Rightarrow> None | m # _ \<Rightarrow> Some m) = (if last_newline s k > 0 then Some (last_newline s k) else None)"
    if "k \<le> n" "k = n \<or> drop k s = [] \<or> \<not> is_newline (hd (drop k s))" for k
    using that
  proof (induction k)
    case (Suc k)
    obtain x xs where x: "drop k s = x # xs" "p x" using run_inside[of k p s] Suc.prems(1) by (auto simp: n_def)
    then have k: "k < length s" "s ! k = x" by (metis drop_eq_Nil linorder_not_le list.distinct(1), metis nth_via_drop)
    show ?case
    proof (cases "is_newline x")
      case True
      have xs: "xs = drop (Suc k) s" using x(1) by (metis drop_Suc list.sel(3) tl_drop)
      have "xs = [] \<or> \<not> is_newline (hd xs)"
        using Suc.prems(2) run_next[of p s] nl unfolding xs n_def by auto
      then have "takeWhile is_newline xs = []" by (cases xs) auto
      then have "?f k = [Suc k]" using x(1) True by simp
      then show ?thesis using True k by simp
    next
      case False
      then have "?f k = []" using no[of k] x(1) by simp
      then show ?thesis using False k Suc x(1) by simp
    qed
  qed simp
  have "rx_first (Seq (Rep 0 None p) (plus is_newline)) s = (case concat (map ?f (rev [0..<n])) of [] \<Rightarrow> None | m # _ \<Rightarrow> Some m)"
    unfolding rx_first_def lens using fn by simp
  then show ?thesis using down[of n] by simp
qed

text \<open>The contractions.\<close>

definition contraction_at :: "(cpt \<Rightarrow> cpt \<Rightarrow> bool) \<Rightarrow> cpt list \<Rightarrow> nat" where
  "contraction_at ch s =
     (case s of
        a # b # t \<Rightarrow>
          (if a = 39 then
             (if ch 115 b \<or> ch 116 b \<or> ch 109 b \<or> ch 100 b then 2
              else (case t of [] \<Rightarrow> 0
                    | c # _ \<Rightarrow> if ch 114 b \<and> ch 101 c \<or> ch 118 b \<and> ch 101 c \<or> ch 108 b \<and> ch 108 c then 3 else 0))
           else 0)
      | _ \<Rightarrow> 0)"

lemma first_contraction:
  assumes "\<And>j k x. ch j x \<Longrightarrow> ch k x \<Longrightarrow> j \<in> {115, 116, 109, 100, 114, 101, 118, 108} \<Longrightarrow> k \<in> {115, 116, 109, 100, 114, 101, 118, 108} \<Longrightarrow> j = k"
  shows "rx_first (contraction_rx ch) s = (if contraction_at ch s > 0 then Some (contraction_at ch s) else None)"
proof -
  have d: "\<not> (ch j x \<and> ch k x)" if "j \<noteq> k" "j \<in> {115, 116, 109, 100, 114, 101, 118, 108}" "k \<in> {115, 116, 109, 100, 114, 101, 118, 108}" for j k x
    using assms[of j x k] that by blast
  have dis: "ch 114 x \<Longrightarrow> \<not> ch 115 x \<and> \<not> ch 116 x \<and> \<not> ch 109 x \<and> \<not> ch 100 x \<and> \<not> ch 118 x \<and> \<not> ch 108 x"
    "ch 118 x \<Longrightarrow> \<not> ch 115 x \<and> \<not> ch 116 x \<and> \<not> ch 109 x \<and> \<not> ch 100 x \<and> \<not> ch 108 x"
    "ch 108 x \<Longrightarrow> \<not> ch 115 x \<and> \<not> ch 116 x \<and> \<not> ch 109 x \<and> \<not> ch 100 x" for x
    using d[of 114 115 x] d[of 114 116 x] d[of 114 109 x] d[of 114 100 x] d[of 114 118 x] d[of 114 108 x] d[of 118 115 x]
      d[of 118 116 x] d[of 118 109 x] d[of 118 100 x] d[of 118 108 x] d[of 108 115 x] d[of 108 116 x] d[of 108 109 x] d[of 108 100 x]
    by simp_all
  consider "s = []" | a where "s = [a]" | a b where "s = [a, b]" | a b c t where "s = a # b # c # t"
    by (metis list.exhaust)
  then show ?thesis
  proof cases
    case 4
    then show ?thesis using dis[of b]
      by (simp add: contraction_rx_def first_alt first_char_seq first_char contraction_at_def)
  qed (simp_all add: contraction_rx_def first_alt first_char_seq first_char contraction_at_def)
qed

section \<open>Scanners that follow an expression\<close>

definition rest :: "split_ctx \<Rightarrow> nat \<Rightarrow> cpt list" where
  "rest c pos = drop pos (take (offset_end c) (sc_cpts c))"

definition step_matches :: "cpt rx \<Rightarrow> split_ctx \<Rightarrow> split_state \<Rightarrow> split_state \<Rightarrow> bool" where
  "step_matches r c st st' \<longleftrightarrow>
     (\<exists>ls p. st' = st\<lparr>sp_pos := p, prev_end := p, bpe_offsets := bpe_offsets st @ ls\<rparr> \<and> sp_pos st < p \<and> p \<le> offset_end c \<and>
        (\<forall>ls'. rx_split r (rest c p) = Some ls' \<longrightarrow> rx_split r (rest c (sp_pos st)) = Some (ls @ ls')))"

fun cut_at :: "'c list \<Rightarrow> nat list \<Rightarrow> 'c list list" where
  "cut_at s [] = []"
| "cut_at s (n # ns) = take n s # cut_at (drop n s) ns"

locale regex_scanner =
  fixes step :: "split_ctx \<Rightarrow> split_state \<Rightarrow> split_state"
    and rx_of :: "unicode_tables \<Rightarrow> cpt rx"
    and ok :: "unicode_tables \<Rightarrow> bool"
  assumes step_first: "ok (sc_tables c) \<Longrightarrow> prev_end st = sp_pos st \<Longrightarrow> offset_ini c \<le> sp_pos st \<Longrightarrow> sp_pos st < offset_end c \<Longrightarrow>
    offset_end c \<le> length (sc_cpts c) \<Longrightarrow> OUT_OF_RANGE \<notin> set (sc_cpts c) \<Longrightarrow> step_matches (rx_of (sc_tables c)) c st (step c st)"
begin

lemma loop_matches:
  assumes "ok (sc_tables c)" "offset_end c \<le> length (sc_cpts c)" "OUT_OF_RANGE \<notin> set (sc_cpts c)" "prev_end st = sp_pos st" "offset_ini c \<le> sp_pos st" "sp_pos st \<le> offset_end c"
  shows "\<exists>ls. map_option bpe_offsets (split_loop (step c) (offset_end c) st) = Some (bpe_offsets st @ ls) \<and>
    rx_split (rx_of (sc_tables c)) (rest c (sp_pos st)) = Some ls"
  using assms(4-6)
proof (induction "offset_end c - sp_pos st" arbitrary: st rule: less_induct)
  case less
  show ?case
  proof (cases "sp_pos st < offset_end c")
    case True
    obtain ls p where s: "step c st = st\<lparr>sp_pos := p, prev_end := p, bpe_offsets := bpe_offsets st @ ls\<rparr>" "sp_pos st < p" "p \<le> offset_end c"
      "\<And>ls'. rx_split (rx_of (sc_tables c)) (rest c p) = Some ls' \<Longrightarrow> rx_split (rx_of (sc_tables c)) (rest c (sp_pos st)) = Some (ls @ ls')"
      using step_first[OF assms(1) less.prems(1,2) True assms(2,3)] unfolding step_matches_def by blast
    have "\<exists>ls'. map_option bpe_offsets (split_loop (step c) (offset_end c) (step c st)) = Some ((bpe_offsets st @ ls) @ ls') \<and>
      rx_split (rx_of (sc_tables c)) (rest c p) = Some ls'"
      using less.hyps[of "step c st"] less.prems s(1-3) by (simp del: map_option_eq_Some)
    then obtain ls' where "map_option bpe_offsets (split_loop (step c) (offset_end c) (step c st)) = Some ((bpe_offsets st @ ls) @ ls')"
      "rx_split (rx_of (sc_tables c)) (rest c p) = Some ls'"
      by blast
    moreover have "split_loop (step c) (offset_end c) st = split_loop (step c) (offset_end c) (step c st)"
      using True by (subst split_loop.simps) simp
    ultimately show ?thesis using s(4) by auto
  next
    case False
    then show ?thesis using less.prems by (subst split_loop.simps) (simp add: rest_def rx_split.simps)
  qed
qed

lemma ranges_match:
  assumes "ok tb" "OUT_OF_RANGE \<notin> set cpts" "start + sum_list offsets \<le> length cpts"
  shows "\<exists>lss. split_ranges (scan_range step) tb cpts start offsets acc = Some (acc @ concat lss) \<and>
    map (rx_split (rx_of tb)) (cut_at (drop start cpts) offsets) = map Some lss"
  using assms(3)
proof (induction offsets arbitrary: start acc)
  case (Cons n offsets)
  let ?c = "\<lparr>sc_tables = tb, sc_cpts = cpts, offset_ini = start, offset_end = start + n\<rparr>"
  let ?st = "\<lparr>sp_pos = start, prev_end = start, bpe_offsets = acc\<rparr>"
  obtain ls where ls: "map_option bpe_offsets (split_loop (step ?c) (offset_end ?c) ?st) = Some (acc @ ls)"
    "rx_split (rx_of tb) (rest ?c start) = Some ls"
    using loop_matches[of ?c ?st] assms(1,2) Cons.prems by auto
  have "rest ?c start = take n (drop start cpts)" by (simp add: rest_def drop_take)
  moreover obtain lss where "split_ranges (scan_range step) tb cpts (start + n) offsets (acc @ ls) = Some ((acc @ ls) @ concat lss)"
    "map (rx_split (rx_of tb)) (cut_at (drop (start + n) cpts) offsets) = map Some lss"
    using Cons.IH[of "start + n" "acc @ ls"] Cons.prems by auto
  moreover have "scan_range step ?c acc = Some (acc @ ls)" using ls(1) by (simp add: scan_range_def)
  ultimately show ?case using ls(2) by (intro exI[of _ "ls # lss"]) (simp add: add.commute)
qed simp

lemma split_is_matching:
  assumes "ok tb" "OUT_OF_RANGE \<notin> set cpts" "sum_list offsets = length cpts"
  shows "split_ranges (scan_range step) tb cpts 0 offsets [] = map_option concat (those (map (rx_split (rx_of tb)) (cut_at cpts offsets)))"
    and "those (map (rx_split (rx_of tb)) (cut_at cpts offsets)) \<noteq> None"
proof -
  obtain lss where "split_ranges (scan_range step) tb cpts 0 offsets [] = Some (concat lss)"
    "map (rx_split (rx_of tb)) (cut_at cpts offsets) = map Some lss"
    using ranges_match[OF assms(1,2), of 0 offsets "[]"] assms(3) by auto
  moreover have "those (map Some lss) = Some lss" by (induction lss) auto
  ultimately show "split_ranges (scan_range step) tb cpts 0 offsets [] = map_option concat (those (map (rx_split (rx_of tb)) (cut_at cpts offsets)))"
    "those (map (rx_split (rx_of tb)) (cut_at cpts offsets)) \<noteq> None"
    by simp_all
qed

end

lemma one_match:
  assumes "prev_end st = sp_pos st" "sp_pos st < offset_end c" "offset_end c \<le> length (sc_cpts c)"
    "rx_first r (rest c (sp_pos st)) = Some n" "n > 0" "sp_pos st + n \<le> offset_end c"
  shows "step_matches r c st (token_to (sp_pos st + n) st)"
proof -
  have "rest c (sp_pos st) \<noteq> []" "drop n (rest c (sp_pos st)) = rest c (sp_pos st + n)"
    using assms(2,3) by (simp_all add: rest_def add.commute)
  then show ?thesis unfolding step_matches_def using assms
    by (intro exI[of _ "[n]"] exI[of _ "sp_pos st + n"])
      (simp add: token_to_def add_token_def Let_def rx_split.simps[of r "rest c (sp_pos st)"])
qed

section \<open>What the lambdas read\<close>

lemma rest_at:
  assumes "offset_ini c \<le> pos" "pos < offset_end c" "offset_end c \<le> length (sc_cpts c)"
  shows "rest c pos = sc_cpts c ! pos # rest c (pos + 1)" "get_cpt c pos = sc_cpts c ! pos"
    "f (get_flags c pos) = cls f (sc_tables c) (sc_cpts c ! pos)"
  using assms by (simp_all add: rest_def get_cpt_def get_flags_def cls_def Cons_nth_drop_Suc[symmetric])

lemma rest_end: "offset_end c \<le> pos \<Longrightarrow> rest c pos = [] \<and> get_cpt c pos = OUT_OF_RANGE \<and> get_flags c pos = 0"
  by (simp add: rest_def get_cpt_def get_flags_def)

lemma rest_length: "offset_end c \<le> length (sc_cpts c) \<Longrightarrow> length (rest c pos) = offset_end c - pos"
  by (simp add: rest_def min_absorb2)

lemma scan_run:
  assumes "pos \<le> offset_end c" "offset_end c \<le> length (sc_cpts c)" "offset_ini c \<le> pos"
    "\<And>p. pos \<le> p \<Longrightarrow> p < offset_end c \<Longrightarrow> f p = q (sc_cpts c ! p)"
  shows "scan_while (offset_end c) f pos = pos + length (takeWhile q (rest c pos))"
  using assms
proof (induction "offset_end c" f pos rule: scan_while.induct)
  case (1 f pos)
  show ?case
  proof (cases "pos < offset_end c")
    case True
    then have r: "rest c pos = sc_cpts c ! pos # rest c (pos + 1)" using rest_at(1) 1(3,4) by blast
    show ?thesis
    proof (cases "f pos")
      case f: True
      then have "scan_while (offset_end c) f (pos + 1) = pos + 1 + length (takeWhile q (rest c (pos + 1)))"
        using True 1(1) 1(3-5) by simp
      then show ?thesis using True f r 1(5)[of pos] by (subst scan_while.simps) simp
    next
      case False
      then show ?thesis using True r 1(5)[of pos] by (subst scan_while.simps) simp
    qed
  next
    case False
    then show ?thesis using 1(2) by (subst scan_while.simps) (simp add: rest_def)
  qed
qed

lemma flags_run:
  assumes "pos \<le> offset_end c" "offset_end c \<le> length (sc_cpts c)" "offset_ini c \<le> pos"
  shows "scan_while (offset_end c) (\<lambda>p. f (get_flags c p)) pos = pos + length (takeWhile (cls f (sc_tables c)) (rest c pos))"
  using assms by (intro scan_run) (simp_all add: rest_at(3))

lemma run_fits: "offset_end c \<le> length (sc_cpts c) \<Longrightarrow> pos \<le> offset_end c \<Longrightarrow> pos + length (takeWhile q (rest c pos)) \<le> offset_end c"
  using length_takeWhile_le[of q "rest c pos"] rest_length[of c pos] by linarith

lemma spaces_run:
  assumes "pos \<le> offset_end c" "offset_end c \<le> length (sc_cpts c)" "offset_ini c \<le> pos"
  shows "num_whitespaces c pos = length (takeWhile (cls is_whitespace (sc_tables c)) (rest c pos))"
  using flags_run[OF assms, of is_whitespace] by (simp add: num_whitespaces_def)

lemma other_cls: "space_tables tb \<Longrightarrow> cls is_other tb = rx_other tb"
  by (auto simp: cls_def is_other_def rx_other_def space_tables_def fun_eq_iff)

section \<open>Steps against the expressions\<close>

lemma first_opt_class:
  assumes "o1 x \<Longrightarrow> \<not> p x"
  shows "rx_first (Seq (Rep 0 (Some (Suc 0)) o1) (plus p)) (x # xs) =
    (let t = (if o1 x then xs else x # xs)
     in if takeWhile p t = [] then None else Some ((if o1 x then 1 else 0) + length (takeWhile p t)))"
  using assms by (simp add: first_opt first_plus)

lemma flags_first:
  assumes "offset_ini c \<le> pos" "offset_end c \<le> length (sc_cpts c)" "\<not> f 0"
  shows "f (get_flags c pos) \<longleftrightarrow> takeWhile (cls f (sc_tables c)) (rest c pos) \<noteq> []"
proof (cases "pos < offset_end c")
  case True
  then show ?thesis using rest_at[OF assms(1) True assms(2)] by simp
next
  case False
  then show ?thesis using assms(3) rest_end[of c pos] by simp
qed

lemma class_zero: "\<not> is_letter 0" "\<not> is_number 0" "\<not> is_other 0" "\<not> is_whitespace 0"
  by (simp_all add: is_letter_def is_number_def is_other_def is_whitespace_def)

lemma contraction_here:
  assumes "offset_ini c \<le> pos" "pos < offset_end c" "offset_end c \<le> length (sc_cpts c)"
  shows "contraction_length c low pos = contraction_at (\<lambda>k x. low x = k) (rest c pos)"
proof -
  note 0 = rest_at(1,2)[OF assms]
  show ?thesis
  proof (cases "pos + 1 < offset_end c")
    case False
    then show ?thesis using 0 rest_end[of c "pos + 1"] by (simp add: contraction_length_def contraction_at_def)
  next
    case 1: True
    note r1 = rest_at(1,2)[of c "pos + 1", OF _ 1 assms(3)]
    show ?thesis
    proof (cases "pos + 2 < offset_end c")
      case False
      then show ?thesis using 0 r1 1 assms(1) rest_end[of c "pos + 2"]
        by (auto simp: contraction_length_def contraction_at_def short_contraction_def)
    next
      case True
      note r2 = rest_at(1,2)[of c "pos + 2", OF _ True assms(3)]
      show ?thesis using 0 r1 r2 1 True assms(1)
        by (simp add: contraction_length_def contraction_at_def short_contraction_def long_contraction_def)
    qed
  qed
qed

lemma first_spaces:
  fixes p :: "cpt \<Rightarrow> bool"
  defines "n s \<equiv> length (takeWhile p s)"
  shows "rx_first (Alt (Seq (plus p) (Not_next (\<lambda>x. \<not> p x))) (plus p)) s =
    (if n s = 0 then None else if n s > 1 \<and> n s < length s then Some (n s - 1) else Some (n s))"
  using length_takeWhile_le[of p s] by (auto simp: first_alt first_not_next first_plus n_def)

text \<open>The tail of a step, where nothing but white space can be in front.\<close>

lemma spaces_match:
  assumes st: "prev_end st = sp_pos st" "offset_ini c \<le> sp_pos st" "sp_pos st < offset_end c" "offset_end c \<le> length (sc_cpts c)"
    "OUT_OF_RANGE \<notin> set (sc_cpts c)"
    and ws: "is_whitespace (get_flags c (sp_pos st))"
    and r: "rx_first r (rest c (sp_pos st)) =
      rx_first (Alt (Seq (plus (cls is_whitespace (sc_tables c))) (Not_next (\<lambda>x. \<not> cls is_whitespace (sc_tables c) x)))
        (plus (cls is_whitespace (sc_tables c)))) (rest c (sp_pos st))"
  shows "step_matches r c st (split_spaces c (num_whitespaces c (sp_pos st)) st)"
proof -
  let ?n = "num_whitespaces c (sp_pos st)"
  have n: "?n = length (takeWhile (cls is_whitespace (sc_tables c)) (rest c (sp_pos st)))" using spaces_run[of "sp_pos st" c] st by simp
  have pos: "?n > 0" using ws flags_first[of c "sp_pos st" is_whitespace] st class_zero n by simp
  have fit: "sp_pos st + ?n \<le> offset_end c" using whitespace_run[of "sp_pos st" c] st by simp
  have oor: "get_cpt c (sp_pos st + ?n) \<noteq> OUT_OF_RANGE \<longleftrightarrow> ?n < length (rest c (sp_pos st))"
  proof (cases "sp_pos st + ?n < offset_end c")
    case True
    then have "sc_cpts c ! (sp_pos st + ?n) \<in> set (sc_cpts c)" using st(4) by simp
    moreover from this have "get_cpt c (sp_pos st + ?n) \<noteq> OUT_OF_RANGE"
      using rest_at(2)[of c "sp_pos st + ?n", OF _ True st(4)] st(2,5) by auto
    ultimately show ?thesis using True rest_length[OF st(4), of "sp_pos st"] by linarith
  next
    case False
    then show ?thesis using rest_end[of c "sp_pos st + ?n"] rest_length[OF st(4), of "sp_pos st"] fit by simp
  qed
  have first: "rx_first r (rest c (sp_pos st)) = (if ?n > 1 \<and> ?n < length (rest c (sp_pos st)) then Some (?n - 1) else Some ?n)"
    using pos n unfolding r first_spaces by auto
  show ?thesis
  proof (cases "?n > 1 \<and> get_cpt c (sp_pos st + ?n) \<noteq> OUT_OF_RANGE")
    case True
    then have "rx_first r (rest c (sp_pos st)) = Some (?n - 1)" using first oor by auto
    from one_match[OF st(1,3,4) this] True fit show ?thesis by (simp add: split_spaces_def)
  next
    case False
    then have "rx_first r (rest c (sp_pos st)) = Some ?n" using first oor by auto
    from one_match[OF st(1,3,4) this] False fit pos show ?thesis by (auto simp: split_spaces_def)
  qed
qed

text \<open>A run of a class, with a space in front of it or not.\<close>

lemma class_first:
  assumes st: "offset_ini c \<le> pos" "pos < offset_end c" "offset_end c \<le> length (sc_cpts c)"
    and f: "\<not> f 0" "\<not> cls f (sc_tables c) 32"
  defines "k \<equiv> if get_cpt c pos = 32 then 1 else 0"
  shows "rx_first (Seq opt_space (plus (cls f (sc_tables c)))) (rest c pos) =
    (if f (get_flags c (pos + k)) then Some (scan_while (offset_end c) (\<lambda>p. f (get_flags c p)) (pos + k) - pos) else None)"
proof -
  let ?x = "sc_cpts c ! pos" and ?t = "takeWhile (cls f (sc_tables c)) (rest c (pos + k))"
  note at = rest_at(1,2)[OF st]
  have i: "offset_ini c \<le> pos + k" "pos + k \<le> offset_end c" using st by (auto simp: k_def)
  have t: "?t \<noteq> [] \<longleftrightarrow> f (get_flags c (pos + k))" using flags_first[of c "pos + k" f] i(1) st(3) f(1) by simp
  have nf: "?x = 32 \<Longrightarrow> \<not> cls f (sc_tables c) ?x" using f(2) by simp
  have e: "scan_while (offset_end c) (\<lambda>p. f (get_flags c p)) (pos + k) = pos + (k + length ?t)"
    using flags_run[of "pos + k" c f] i st(3) by simp
  have s: "(if ?x = 32 then rest c (pos + 1) else ?x # rest c (pos + 1)) = rest c (pos + k)" using at by (simp add: k_def)
  have kx: "(if ?x = 32 then 1 else 0) = k" using at(2) by (simp add: k_def)
  have "rx_first (Seq opt_space (plus (cls f (sc_tables c)))) (?x # rest c (pos + 1)) =
    (let t = (if ?x = 32 then rest c (pos + 1) else ?x # rest c (pos + 1))
      in if takeWhile (cls f (sc_tables c)) t = [] then None else Some ((if ?x = 32 then 1 else 0) + length (takeWhile (cls f (sc_tables c)) t)))"
    by (rule first_opt_class) (rule nf)
  also have "\<dots> = (if f (get_flags c (pos + k)) then Some (k + length ?t) else None)"
    unfolding s Let_def t[symmetric] kx by simp
  finally show ?thesis unfolding at(1)[symmetric] e by simp
qed

lemma run_match:
  assumes st: "prev_end st = sp_pos st" "offset_ini c \<le> sp_pos st" "sp_pos st < offset_end c" "offset_end c \<le> length (sc_cpts c)"
    and start: "sp_pos st \<le> start" "start \<le> offset_end c"
    and r: "rx_first r (rest c (sp_pos st)) = Some (scan_while (offset_end c) g start - sp_pos st)"
    and g: "sp_pos st < scan_while (offset_end c) g start"
  shows "step_matches r c st (token_to (scan_while (offset_end c) g start) st)"
proof -
  have "scan_while (offset_end c) g start \<le> offset_end c" using start(2) by (rule scan_while_le)
  then show ?thesis using one_match[OF st(1,3,4) r] g by simp
qed

lemma contraction_match:
  assumes st: "prev_end st = sp_pos st" "offset_ini c \<le> sp_pos st" "sp_pos st < offset_end c" "offset_end c \<le> length (sc_cpts c)"
    and k: "contraction_length c low (sp_pos st) > 0"
    and r: "rx_first r (rest c (sp_pos st)) = Some (contraction_length c low (sp_pos st))"
  shows "step_matches r c st (advance_by_token (sp_pos st + contraction_length c low (sp_pos st)) st)"
  using one_match[OF st(1,3,4) r k contraction_fits[OF k]] st(1) by (simp add: advance_token_to)

lemma contraction_exact: "rx_first (contraction_rx (\<lambda>k x. x = k)) s = (if contraction_at (\<lambda>k x. x = k) s > 0 then Some (contraction_at (\<lambda>k x. x = k) s) else None)"
  by (rule first_contraction) simp

interpretation gpt2_ref: regex_scanner gpt2_step gpt2_rx space_tables
proof
  fix c :: split_ctx and st :: split_state
  assume tb: "space_tables (sc_tables c)" and st: "prev_end st = sp_pos st" "offset_ini c \<le> sp_pos st" "sp_pos st < offset_end c"
    "offset_end c \<le> length (sc_cpts c)" "OUT_OF_RANGE \<notin> set (sc_cpts c)"
  let ?pos = "sp_pos st" and ?tb = "sc_tables c"
  define k where "k = (if get_cpt c ?pos = 32 then 1 else 0 :: nat)"
  define con where "con = contraction_length c (\<lambda>x. x) ?pos"
  let ?stop = "\<lambda>f. scan_while (offset_end c) (\<lambda>p. f (get_flags c p)) (?pos + k)"
  have eq: "(\<lambda>k x. x = k) = ((=) :: cpt \<Rightarrow> cpt \<Rightarrow> bool)" by (auto simp: fun_eq_iff)
  have con': "rx_first (contraction_rx (=)) (rest c ?pos) = (if con > 0 then Some con else None)"
    using contraction_exact contraction_here[OF st(2-4), of "\<lambda>x. x"] by (simp add: con_def eq)
  have sp: "\<not> cls is_letter ?tb 32" "\<not> cls is_number ?tb 32" "\<not> cls is_other ?tb 32"
    using tb by (simp_all add: space_tables_def other_cls rx_other_def)
  note cf = class_first[OF st(2-4), folded k_def]
  have first: "rx_first (gpt2_rx ?tb) (rest c ?pos) =
    (if con > 0 then Some con
     else if is_letter (get_flags c (?pos + k)) then Some (?stop is_letter - ?pos)
     else if is_number (get_flags c (?pos + k)) then Some (?stop is_number - ?pos)
     else if is_other (get_flags c (?pos + k)) then Some (?stop is_other - ?pos)
     else rx_first (Alt (Seq (plus (cls is_whitespace ?tb)) (Not_next (\<lambda>x. \<not> cls is_whitespace ?tb x))) (plus (cls is_whitespace ?tb))) (rest c ?pos))"
    unfolding gpt2_rx_def alts.simps first_alt[of "contraction_rx (=)"] first_alt[of "Seq opt_space q" for q] con'
      cf[OF class_zero(1) sp(1)] cf[OF class_zero(2) sp(2)] cf[OF class_zero(3) sp(3), unfolded other_cls[OF tb]] by simp
  have run: "step_matches (gpt2_rx ?tb) c st (token_to (?stop f) st)"
    if "f = is_letter \<or> f = is_number \<or> f = is_other" "f (get_flags c (?pos + k))" "rx_first (gpt2_rx ?tb) (rest c ?pos) = Some (?stop f - ?pos)" for f
    using that letters_end[of "?pos + k" c f] st by (intro run_match) (auto simp: k_def)
  have ws: "is_whitespace (get_flags c ?pos)"
    if "\<not> is_letter (get_flags c (?pos + k))" "\<not> is_number (get_flags c (?pos + k))" "\<not> is_other (get_flags c (?pos + k))"
    using that tb rest_at(2)[OF st(2-4)] rest_at(3)[OF st(2-4), of is_whitespace] rest_at(3)[OF st(2-4), of is_letter]
      rest_at(3)[OF st(2-4), of is_number] rest_at(3)[OF st(2-4), of is_other]
    by (auto simp: k_def other_cls[OF tb] rx_other_def space_tables_def split: if_splits)
  have flags2: "(if get_cpt c ?pos = 32 then get_flags c (?pos + 1) else get_flags c ?pos) = get_flags c (?pos + k)"
    "?pos + (if get_cpt c ?pos = 32 then 1 else 0) = ?pos + k"
    by (simp_all add: k_def)
  show "step_matches (gpt2_rx ?tb) c st (gpt2_step c st)"
  proof (cases "con > 0")
    case True
    then show ?thesis using contraction_match[OF st(1-4), of "\<lambda>x. x" "gpt2_rx ?tb"] first
      by (simp add: gpt2_step_def con_def[symmetric] Let_def)
  next
    case False
    consider "is_letter (get_flags c (?pos + k))" | "\<not> is_letter (get_flags c (?pos + k))" "is_number (get_flags c (?pos + k))"
      | "\<not> is_letter (get_flags c (?pos + k))" "\<not> is_number (get_flags c (?pos + k))" "is_other (get_flags c (?pos + k))"
      | "\<not> is_letter (get_flags c (?pos + k))" "\<not> is_number (get_flags c (?pos + k))" "\<not> is_other (get_flags c (?pos + k))" by blast
    then show ?thesis unfolding gpt2_step_def Let_def flags2 con_def[symmetric]
      using first False run[of is_letter] run[of is_number] run[of is_other] ws spaces_match[OF st] by cases simp_all
  qed
qed

section \<open>Llama 3 and Qwen 2\<close>

lemma contraction_cong:
  "(\<And>k x. k \<in> {115, 116, 109, 100, 114, 101, 118, 108} \<Longrightarrow> ch k x = ch' k x) \<Longrightarrow> contraction_at ch s = contraction_at ch' s"
  by (auto simp: contraction_at_def split: list.splits)

lemma contraction_lower:
  assumes "class_tables (sc_tables c)" "offset_ini c \<le> pos" "pos < offset_end c" "offset_end c \<le> length (sc_cpts c)"
  defines "con \<equiv> contraction_length c (unicode_tolower (sc_tables c)) pos"
  shows "rx_first (contraction_rx either_case) (rest c pos) = (if con > 0 then Some con else None)"
proof -
  have "con = contraction_at (\<lambda>k x. unicode_tolower (sc_tables c) x = k) (rest c pos)"
    unfolding con_def by (rule contraction_here[OF assms(2-4)])
  also have "\<dots> = contraction_at either_case (rest c pos)"
    by (rule contraction_cong) (use assms(1) in \<open>unfold class_tables_def, blast\<close>)
  finally have con: "con = contraction_at either_case (rest c pos)" .
  have "j = k" if "either_case j x" "either_case k x" "j \<in> {115, 116, 109, 100, 114, 101, 118, 108}"
    "k \<in> {115, 116, 109, 100, 114, 101, 118, 108}" for j k x
    using that by (auto simp: either_case_def)
  then show ?thesis unfolding con by (rule first_contraction)
qed

lemma newline_run:
  assumes "pos \<le> offset_end c" "offset_end c \<le> length (sc_cpts c)" "offset_ini c \<le> pos"
  shows "scan_while (offset_end c) (\<lambda>p. is_newline (get_cpt c p)) pos = pos + length (takeWhile is_newline (rest c pos))"
  using assms by (intro scan_run) (simp_all add: rest_at(2))

lemma other_first:
  assumes "offset_ini c \<le> start" "start \<le> offset_end c" "offset_end c \<le> length (sc_cpts c)" "space_tables (sc_tables c)"
  shows "rx_first (Seq (plus (rx_other (sc_tables c))) (Rep 0 None is_newline)) (rest c start) =
    (if is_other (get_flags c start) then Some (other_end c start - start) else None)"
proof -
  let ?o = "rx_other (sc_tables c)" and ?e = "scan_while (offset_end c) (\<lambda>p. is_other (get_flags c p)) start"
  have o: "takeWhile ?o (rest c start) \<noteq> [] \<longleftrightarrow> is_other (get_flags c start)"
    using flags_first[of c start is_other] assms class_zero by (simp add: other_cls)
  have e: "?e = start + length (takeWhile ?o (rest c start))" using flags_run[of start c is_other] assms by (simp add: other_cls)
  then have d: "drop (length (takeWhile ?o (rest c start))) (rest c start) = rest c ?e" by (simp add: rest_def add.commute)
  have fit: "?e \<le> offset_end c" "offset_ini c \<le> ?e" using assms(1) e scan_while_le[OF assms(2), of "\<lambda>p. is_other (get_flags c p)"] by simp_all
  have nl: "rx_first (Rep 0 None is_newline) (rest c ?e) = Some (length (takeWhile is_newline (rest c ?e)))" by (simp add: first_rep Let_def)
  have end': "other_end c start = ?e + length (takeWhile is_newline (rest c ?e))"
    using newline_run[of ?e c] fit assms(3) by (simp add: other_end_def)
  show ?thesis
  proof (cases "is_other (get_flags c start)")
    case True
    then have "rx_first (plus ?o) (rest c start) = Some (length (takeWhile ?o (rest c start)))" using o by (simp add: first_plus)
    from first_seq[OF this, of "Rep 0 None is_newline"] d nl show ?thesis using True e end' by simp
  next
    case False
    then show ?thesis using o first_seq_none[of "plus ?o" "rest c start"] by (simp add: first_plus)
  qed
qed

lemma other_opt_first:
  assumes st: "offset_ini c \<le> pos" "pos < offset_end c" "offset_end c \<le> length (sc_cpts c)" "space_tables (sc_tables c)"
  defines "k \<equiv> if get_cpt c pos = 32 then 1 else 0"
  shows "rx_first (Seq opt_space (Seq (plus (rx_other (sc_tables c))) (Rep 0 None is_newline))) (rest c pos) =
    (if is_other (get_flags c (pos + k)) then Some (other_end c (pos + k) - pos) else None)"
proof -
  note at = rest_at[OF st(1-3)]
  show ?thesis
  proof (cases "get_cpt c pos = 32")
    case True
    have "\<not> is_other (get_flags c pos)" using True at(2) at(3)[of is_other] st(4) by (simp add: other_cls rx_other_def space_tables_def)
    then have "rx_first (Seq (plus (rx_other (sc_tables c))) (Rep 0 None is_newline)) (rest c pos) = None"
      using other_first[of c pos] st by simp
    moreover have "Suc (other_end c (pos + 1) - (pos + 1)) = other_end c (pos + 1) - pos"
      using other_end_bounds[of "pos + 1" c] st(2) by auto
    ultimately show ?thesis using True at(1,2) other_first[of c "pos + 1"] st by (simp add: first_opt k_def)
  next
    case False
    then show ?thesis using at(1,2) other_first[of c pos] st by (simp add: first_opt k_def)
  qed
qed

lemma word_first:
  assumes st: "offset_ini c \<le> pos" "pos < offset_end c" "offset_end c \<le> length (sc_cpts c)" "class_tables (sc_tables c)"
  shows "rx_first (Seq (Rep 0 (Some (Suc 0)) (rx_lead (sc_tables c))) (plus (cls is_letter (sc_tables c)))) (rest c pos) =
    (if \<not> (is_newline (get_cpt c pos) \<or> is_number (get_flags c pos)) \<and> (is_letter (get_flags c pos) \<or> is_letter (get_flags c (pos + 1)))
     then Some (scan_while (offset_end c) (\<lambda>p. is_letter (get_flags c p)) (pos + 1) - pos) else None)"
proof -
  note at = rest_at[OF st(1-3)]
  let ?L = "cls is_letter (sc_tables c)" and ?xs = "rest c (pos + 1)" and ?x = "sc_cpts c ! pos"
  have nxt: "is_letter (get_flags c (pos + 1)) \<longleftrightarrow> takeWhile ?L ?xs \<noteq> []" using flags_first[of c "pos + 1" is_letter] st class_zero by simp
  have e: "scan_while (offset_end c) (\<lambda>p. is_letter (get_flags c p)) (pos + 1) - pos = Suc (length (takeWhile ?L ?xs))"
    using flags_run[of "pos + 1" c is_letter] st by simp
  have dis: "?L ?x \<Longrightarrow> \<not> cls is_number (sc_tables c) ?x" "is_newline ?x \<Longrightarrow> \<not> ?L ?x"
    using st(4) by (auto simp: class_tables_def)
  show ?thesis unfolding at(1) first_opt e nxt at(3) at(2)
    using dis by (auto simp: first_plus rx_lead_def)
qed

lemma lines_first:
  assumes st: "offset_ini c \<le> pos" "pos < offset_end c" "offset_end c \<le> length (sc_cpts c)" "class_tables (sc_tables c)"
  defines "e \<equiv> last_end_newline c pos (num_whitespaces c pos)"
  shows "rx_first (Seq (Rep 0 None (cls is_whitespace (sc_tables c))) (plus is_newline)) (rest c pos) = (if e > 0 then Some (e - pos) else None)"
proof -
  let ?n = "num_whitespaces c pos"
  have n: "?n = length (takeWhile (cls is_whitespace (sc_tables c)) (rest c pos))" using spaces_run[of pos c] st by simp
  have m: "m \<le> length (rest c pos) \<Longrightarrow> last_end_newline c pos m = (if last_newline (rest c pos) m > 0 then pos + last_newline (rest c pos) m else 0)" for m
  proof (induction m)
    case (Suc m)
    then have "pos + m < offset_end c" using rest_length[OF st(3), of pos] by simp
    then have "get_cpt c (pos + m) = rest c pos ! m" using st by (simp add: get_cpt_def rest_def)
    then show ?case using Suc by simp
  qed simp
  have "?n \<le> length (rest c pos)" using n length_takeWhile_le by simp
  from m[OF this] have "e = (if last_newline (rest c pos) ?n > 0 then pos + last_newline (rest c pos) ?n else 0)" by (simp add: e_def)
  then show ?thesis using first_lines[of "cls is_whitespace (sc_tables c)" "rest c pos"] st(4) n by (auto simp: class_tables_def)
qed

text \<open>The first match of the whole expression, in the order of the tests of the step.\<close>

lemma llama3_first:
  assumes tb: "class_tables (sc_tables c)" and d: "digits > 0"
    and st: "offset_ini c \<le> pos" "pos < offset_end c" "offset_end c \<le> length (sc_cpts c)"
  defines "con \<equiv> contraction_length c (unicode_tolower (sc_tables c)) pos"
    and "k \<equiv> if get_cpt c pos = 32 then 1 else 0"
    and "e \<equiv> last_end_newline c pos (num_whitespaces c pos)"
    and "run \<equiv> length (takeWhile (cls is_number (sc_tables c)) (rest c pos))"
  shows "rx_first (llama3_rx digits (sc_tables c)) (rest c pos) =
    (if con > 0 then Some con
     else if \<not> (is_newline (get_cpt c pos) \<or> is_number (get_flags c pos)) \<and> (is_letter (get_flags c pos) \<or> is_letter (get_flags c (pos + 1)))
     then Some (scan_while (offset_end c) (\<lambda>p. is_letter (get_flags c p)) (pos + 1) - pos)
     else if is_number (get_flags c pos) then Some (min digits run)
     else if is_other (get_flags c (pos + k)) then Some (other_end c (pos + k) - pos)
     else if e > 0 then Some (e - pos)
     else rx_first (Alt (Seq (plus (cls is_whitespace (sc_tables c))) (Not_next (\<lambda>x. \<not> cls is_whitespace (sc_tables c) x)))
       (plus (cls is_whitespace (sc_tables c)))) (rest c pos))"
proof -
  have sp: "space_tables (sc_tables c)" using tb by (simp add: class_tables_def)
  have num: "run > 0 \<longleftrightarrow> is_number (get_flags c pos)" using flags_first[of c pos is_number] st class_zero by (simp add: run_def)
  have dig: "rx_first (Rep (Suc 0) (Some digits) (cls is_number (sc_tables c))) (rest c pos) = (if run > 0 then Some (min digits run) else None)"
    using d by (auto simp: first_rep Let_def run_def[symmetric])
  show ?thesis
    unfolding llama3_rx_def alts.simps first_alt[of "contraction_rx either_case"] first_alt[of "Rep lo hi p" for lo hi p]
      first_alt[of "Seq (Rep lo (Some hi) p) q" for lo hi p q] first_alt[of "Seq r (plus is_newline)" for r] dig num
      contraction_lower[OF tb st, folded con_def] word_first[OF st tb] other_opt_first[OF st sp, folded k_def] lines_first[OF st tb, folded e_def]
    by (simp split: if_splits)
qed

text \<open>The loop over a run of digits makes the same tokens as the expression does one at a time.\<close>

lemma takeWhile_run:
  assumes "ini \<le> pos" "pos \<le> offset_end c" "offset_end c \<le> length (sc_cpts c)" "\<forall>p \<in> {ini..<pos}. q (sc_cpts c ! p)"
  shows "pos - ini \<le> length (takeWhile q (rest c ini))"
    and "pos = offset_end c \<or> \<not> q (sc_cpts c ! pos) \<Longrightarrow> length (takeWhile q (rest c ini)) = pos - ini"
proof -
  have nth: "rest c ini ! i = sc_cpts c ! (ini + i)" if "i < length (rest c ini)" for i
    using that assms(3) rest_length[OF assms(3), of ini] by (simp add: rest_def)
  have len: "length (rest c ini) = offset_end c - ini" by (rule rest_length[OF assms(3)])
  have all: "q (rest c ini ! i)" if "i < pos - ini" for i
    using that nth[of i] len assms(1,2,4) by auto
  show "pos - ini \<le> length (takeWhile q (rest c ini))"
    using all len assms(2) by (intro length_takeWhile_less_P_nth) auto
  assume "pos = offset_end c \<or> \<not> q (sc_cpts c ! pos)"
  then have "takeWhile q (rest c ini) = take (pos - ini) (rest c ini)"
    using all nth[of "pos - ini"] len assms(1) by (intro takeWhile_eq_take_P_nth) auto
  then show "length (takeWhile q (rest c ini)) = pos - ini" using len assms(1,2) by simp
qed

lemma digits_first:
  assumes tb: "class_tables (sc_tables c)" and d: "digits > 0"
    and st: "offset_ini c \<le> pos" "pos < offset_end c" "offset_end c \<le> length (sc_cpts c)" and num: "cls is_number (sc_tables c) (sc_cpts c ! pos)"
  shows "rx_first (llama3_rx digits (sc_tables c)) (rest c pos) = Some (min digits (length (takeWhile (cls is_number (sc_tables c)) (rest c pos))))"
proof -
  have "is_number (get_flags c pos)" using num rest_at(3)[OF st] by simp
  moreover have "get_cpt c pos \<noteq> 39" using num tb rest_at(2)[OF st] by (auto simp: class_tables_def)
  then have "contraction_length c (unicode_tolower (sc_tables c)) pos = 0" by (simp add: contraction_length_def)
  ultimately show ?thesis unfolding llama3_first[OF tb d st] by simp
qed

lemma rx_split_step: "s \<noteq> [] \<Longrightarrow> rx_first r s = Some n \<Longrightarrow> n > 0 \<Longrightarrow> rx_split r (drop n s) = Some ls \<Longrightarrow> rx_split r s = Some (n # ls)"
  by (simp add: rx_split.simps[of r s])

lemma digit_groups_match:
  assumes tb: "class_tables (sc_tables c)" and len: "offset_end c \<le> length (sc_cpts c)"
    and "offset_ini c \<le> ini" "ini \<le> pos" "pos \<le> offset_end c" "pos < ini + 3" "prev_end st = ini"
      "\<forall>p \<in> {ini..<pos}. cls is_number (sc_tables c) (sc_cpts c ! p)"
  shows "\<exists>ls p. digit_groups c ini pos st = st\<lparr>sp_pos := p, prev_end := p, bpe_offsets := bpe_offsets st @ ls\<rparr> \<and>
    (\<forall>ls'. rx_split (llama3_rx 3 (sc_tables c)) (rest c p) = Some ls' \<longrightarrow> rx_split (llama3_rx 3 (sc_tables c)) (rest c ini) = Some (ls @ ls'))"
  using assms(1,2,3-8)
proof (induction c ini pos st rule: digit_groups.induct)
  case (1 c ini pos st)
  let ?r = "llama3_rx 3 (sc_tables c)" and ?N = "cls is_number (sc_tables c)"
  have at: "rest c ini \<noteq> []" "drop n (rest c ini) = rest c (ini + n)" if "ini < offset_end c" for n
    using that 1(4) by (simp_all add: rest_def add.commute)
  show ?case
  proof (cases "pos < offset_end c \<and> is_number (get_flags c pos)")
    case num: True
    then have N: "\<forall>p \<in> {ini..<pos + 1}. ?N (sc_cpts c ! p)"
      using 1(10) rest_at(3)[of c pos is_number] 1(4,5,6) by (auto simp: less_Suc_eq)
    show ?thesis
    proof (cases "pos + 1 - ini \<ge> 3")
      case True
      then have three: "pos + 1 = ini + 3" using 1(8) by simp
      have a: "fst (add_token (pos + 1) st) = st\<lparr>prev_end := pos + 1, bpe_offsets := bpe_offsets st @ [3]\<rparr>"
        using 1(9) three by (simp add: add_token_def Let_def)
      obtain ls p where rec: "digit_groups c (pos + 1) (pos + 1) (fst (add_token (pos + 1) st)) =
          (fst (add_token (pos + 1) st))\<lparr>sp_pos := p, prev_end := p, bpe_offsets := bpe_offsets (fst (add_token (pos + 1) st)) @ ls\<rparr>"
        "\<forall>ls'. rx_split ?r (rest c p) = Some ls' \<longrightarrow> rx_split ?r (rest c (pos + 1)) = Some (ls @ ls')"
        using 1(1)[OF num True 1(3,4)] a num 1(5,6) by auto
      have "3 \<le> length (takeWhile ?N (rest c ini))" using takeWhile_run(1)[of ini "pos + 1" c ?N] N num 1(4,6) three by simp
      then have "rx_first ?r (rest c ini) = Some 3"
        using digits_first[OF 1(3), of 3 ini] N num three 1(4,5) by simp
      then have "rx_split ?r (rest c (pos + 1)) = Some l \<Longrightarrow> rx_split ?r (rest c ini) = Some (3 # l)" for l
        unfolding three using rx_split_step[of "rest c ini" ?r 3 l] at(1) at(2)[of 3] num 1(6) by simp
      then show ?thesis using rec a num True
        by (intro exI[of _ "3 # ls"] exI[of _ p]) (subst digit_groups.simps, auto)
    next
      case False
      then have "digit_groups c ini pos st = digit_groups c ini (pos + 1) st" using num by (subst digit_groups.simps) simp
      then show ?thesis using 1(2)[OF num False 1(3-5)] num False 1(6,8,9) N by simp
    qed
  next
    case False
    have e: "digit_groups c ini pos st = token_to pos st" using False by (subst digit_groups.simps) auto
    show ?thesis
    proof (cases "pos = ini")
      case True
      then show ?thesis using 1(9) e by (intro exI[of _ "[]"] exI[of _ pos]) (simp add: token_to_def add_token_def Let_def)
    next
      case more: False
      then have ini: "ini < pos" "ini < offset_end c" using 1(6,7) by simp_all
      have "pos = offset_end c \<or> \<not> ?N (sc_cpts c ! pos)"
        using False 1(4-7) rest_at(3)[of c pos is_number] by auto
      then have "length (takeWhile ?N (rest c ini)) = pos - ini" using takeWhile_run(2)[of ini pos c ?N] 1(4,6,7,10) by simp
      then have "rx_first ?r (rest c ini) = Some (pos - ini)"
        using digits_first[OF 1(3), of 3 ini] ini 1(4,5,8,10) by simp
      then show ?thesis using rx_split_step[of "rest c ini" ?r "pos - ini"] at(1) at(2)[of "pos - ini"] ini 1(9) e
        by (intro exI[of _ "[pos - ini]"] exI[of _ pos]) (simp add: token_to_def add_token_def Let_def)
    qed
  qed
qed

lemma split_lines_match:
  assumes st: "prev_end st = sp_pos st" "offset_ini c \<le> sp_pos st" "sp_pos st < offset_end c" "offset_end c \<le> length (sc_cpts c)"
    "OUT_OF_RANGE \<notin> set (sc_cpts c)"
    and ws: "is_whitespace (get_flags c (sp_pos st))"
    and r: "rx_first r (rest c (sp_pos st)) =
      (let e = last_end_newline c (sp_pos st) (num_whitespaces c (sp_pos st))
       in if e > 0 then Some (e - sp_pos st)
          else rx_first (Alt (Seq (plus (cls is_whitespace (sc_tables c))) (Not_next (\<lambda>x. \<not> cls is_whitespace (sc_tables c) x)))
            (plus (cls is_whitespace (sc_tables c)))) (rest c (sp_pos st)))"
  shows "step_matches r c st (split_lines c st)"
proof (cases "last_end_newline c (sp_pos st) (num_whitespaces c (sp_pos st)) > 0")
  case True
  then show ?thesis
    using one_match[OF st(1,3,4) r[unfolded Let_def if_P[OF True]]] last_end_bounds[OF True] whitespace_run[of "sp_pos st" c] st
    by (simp add: split_lines_def Let_def)
next
  case False
  then show ?thesis using spaces_match[OF st ws, of r] r by (simp add: split_lines_def Let_def)
qed

lemma llama3_step_match:
  assumes tb: "class_tables (sc_tables c)" and d: "n > 0"
    and st: "prev_end st = sp_pos st" "offset_ini c \<le> sp_pos st" "sp_pos st < offset_end c" "offset_end c \<le> length (sc_cpts c)"
    "OUT_OF_RANGE \<notin> set (sc_cpts c)"
    and digits: "is_number (get_flags c (sp_pos st)) \<Longrightarrow> step_matches (llama3_rx n (sc_tables c)) c st (digits (sp_pos st) st)"
  shows "step_matches (llama3_rx n (sc_tables c)) c st (llama3_step digits c st)"
proof -
  let ?pos = "sp_pos st" and ?tb = "sc_tables c" and ?r = "llama3_rx n (sc_tables c)"
  define k where "k = (if get_cpt c ?pos = 32 then 1 else 0 :: nat)"
  define con where "con = contraction_length c (unicode_tolower ?tb) ?pos"
  let ?word = "\<not> (is_newline (get_cpt c ?pos) \<or> is_number (get_flags c ?pos)) \<and> (is_letter (get_flags c ?pos) \<or> is_letter (get_flags c (?pos + 1)))"
  let ?flags2 = "get_flags c (?pos + k)"
  note first = llama3_first[OF tb d st(2-4), folded con_def k_def]
  note at = rest_at[OF st(2-4)]
  have sp: "space_tables ?tb" using tb by (simp add: class_tables_def)
  have flags2: "(if get_cpt c ?pos = 32 then get_flags c (?pos + 1) else get_flags c ?pos) = ?flags2"
    "?pos + (if get_cpt c ?pos = 32 then 1 else 0) = ?pos + k"
    by (simp_all add: k_def)
  have nz: "get_flags c ?pos \<noteq> 0" using sp st by (simp add: get_flags_def space_tables_def)
  consider "con > 0" | "con = 0" ?word | "con = 0" "\<not> ?word" "is_number (get_flags c ?pos)"
    | "con = 0" "\<not> ?word" "\<not> is_number (get_flags c ?pos)" "is_other ?flags2"
    | "con = 0" "\<not> ?word" "\<not> is_number (get_flags c ?pos)" "\<not> is_other ?flags2" "?flags2 = 0"
    | "con = 0" "\<not> ?word" "\<not> is_number (get_flags c ?pos)" "\<not> is_other ?flags2" "?flags2 \<noteq> 0"
    by blast
  then show ?thesis
  proof cases
    case 1
    then show ?thesis using contraction_match[OF st(1-4), of "unicode_tolower ?tb" ?r] first
      by (simp add: llama3_step_def con_def[symmetric] Let_def)
  next
    case 2
    have "step_matches ?r c st (token_to (scan_while (offset_end c) (\<lambda>p. is_letter (get_flags c p)) (?pos + 1)) st)"
      using 2 first st scan_while_ge[of "?pos + 1" "offset_end c" "\<lambda>p. is_letter (get_flags c p)"] by (intro run_match) auto
    then show ?thesis using 2 by (simp add: llama3_step_def con_def[symmetric] Let_def)
  next
    case 3
    then show ?thesis using digits by (simp add: llama3_step_def con_def[symmetric] Let_def)
  next
    case 4
    have b: "?pos < other_end c (?pos + k)" "other_end c (?pos + k) \<le> offset_end c"
      using other_end_gt[of "?pos + k" c] other_end_bounds[of "?pos + k" c] flags_inside(4)[OF 4(4)] 4(4) by auto
    have "step_matches ?r c st (token_to (?pos + (other_end c (?pos + k) - ?pos)) st)"
      using 4 first b by (intro one_match[OF st(1,3,4)]) auto
    then show ?thesis using 4 b nz by (auto simp: llama3_step_def con_def[symmetric] Let_def flags2 is_other_def)
  next
    case 5
    then have k: "k = 1" "get_cpt c ?pos = 32" using nz by (auto simp: k_def split: if_splits)
    have e: "?pos + 1 = offset_end c"
      using 5(5) k st sp unfolding space_tables_def get_flags_def by (auto split: if_splits)
    have one: "rest c ?pos = [32]" using at(1,2) k(2) rest_end[of c "?pos + 1"] e by simp
    have c32: "cls is_whitespace ?tb 32" "\<not> is_newline 32" using sp by (simp_all add: space_tables_def is_newline_def)
    have l0: "last_end_newline c ?pos (num_whitespaces c ?pos) = 0" using spaces_run[of ?pos c] st one k(2) c32 by simp
    have "rx_first ?r (rest c ?pos) = rx_first (Alt (Seq (plus (cls is_whitespace ?tb)) (Not_next (\<lambda>x. \<not> cls is_whitespace ?tb x)))
        (plus (cls is_whitespace ?tb))) (rest c ?pos)"
      unfolding first using 5 l0 by auto
    also have "\<dots> = Some 1" unfolding one first_spaces using c32 by simp
    finally have "rx_first ?r (rest c ?pos) = Some 1" .
    moreover have "other_end c (?pos + 1) = ?pos + 1" using other_end_bounds[of "?pos + 1" c] e by simp
    ultimately show ?thesis using 5 k nz e one_match[OF st(1,3,4), of ?r 1] class_zero
      by (auto simp: llama3_step_def con_def[symmetric] Let_def)
  next
    case 6
    then have cl: "is_whitespace ?flags2 \<or> is_letter ?flags2 \<or> is_number ?flags2" by (simp add: is_other_def)
    have ws: "is_whitespace (get_flags c ?pos)"
    proof (cases "k = 1")
      case True
      then show ?thesis using at(2) at(3)[of is_whitespace] sp by (auto simp: k_def space_tables_def split: if_splits)
    next
      case False
      then have "k = 0" by (simp add: k_def split: if_splits)
      moreover have "is_letter (get_flags c ?pos) \<Longrightarrow> \<not> is_newline (get_cpt c ?pos)"
        using at(2) at(3)[of is_letter] tb by (auto simp: class_tables_def)
      ultimately show ?thesis using 6 cl by auto
    qed
    have "step_matches ?r c st (split_lines c st)"
      by (rule split_lines_match[OF st ws], unfold first Let_def) (use 6 in auto)
    then show ?thesis using 6 cl by (auto simp: llama3_step_def con_def[symmetric] Let_def flags2)
  qed
qed

interpretation llama3_ref: regex_scanner "\<lambda>c. llama3_step (llama3_digits c) c" "llama3_rx 3" class_tables
proof (unfold_locales, rule llama3_step_match)
  fix c :: split_ctx and st :: split_state
  assume st: "class_tables (sc_tables c)" "prev_end st = sp_pos st" "offset_ini c \<le> sp_pos st" "sp_pos st < offset_end c"
    "offset_end c \<le> length (sc_cpts c)" and num: "is_number (get_flags c (sp_pos st))"
  obtain ls p where g: "digit_groups c (sp_pos st) (sp_pos st) st = st\<lparr>sp_pos := p, prev_end := p, bpe_offsets := bpe_offsets st @ ls\<rparr>"
    "\<forall>ls'. rx_split (llama3_rx 3 (sc_tables c)) (rest c p) = Some ls' \<longrightarrow> rx_split (llama3_rx 3 (sc_tables c)) (rest c (sp_pos st)) = Some (ls @ ls')"
    using digit_groups_match[OF st(1,5,3), of "sp_pos st" st] st by auto
  obtain ls' p' where "digit_groups c (sp_pos st) (sp_pos st) st = st\<lparr>sp_pos := p', prev_end := p', bpe_offsets := bpe_offsets st @ ls'\<rparr>"
    "sp_pos st < p'" "p' \<le> offset_end c"
    using digits_advance[OF st(2,4) num] unfolding advances_def by blast
  moreover from this g(1) have "p' = p" by (metis split_state.select_convs(1) split_state.surjective split_state.update_convs(1,2,3))
  ultimately show "step_matches (llama3_rx 3 (sc_tables c)) c st (llama3_digits c (sp_pos st) st)"
    unfolding step_matches_def llama3_digits_def using g by blast
qed simp_all

interpretation qwen2_ref: regex_scanner "llama3_step qwen2_digits" "llama3_rx 1" class_tables
proof (unfold_locales, rule llama3_step_match)
  fix c :: split_ctx and st :: split_state
  assume st: "class_tables (sc_tables c)" "prev_end st = sp_pos st" "offset_ini c \<le> sp_pos st" "sp_pos st < offset_end c"
    "offset_end c \<le> length (sc_cpts c)" and num: "is_number (get_flags c (sp_pos st))"
  have "cls is_number (sc_tables c) (sc_cpts c ! sp_pos st)" using num rest_at(3)[OF st(3-5)] by simp
  then have "rx_first (llama3_rx 1 (sc_tables c)) (rest c (sp_pos st)) = Some 1"
    using digits_first[OF st(1) _ st(3-5), of 1] rest_at(1)[OF st(3-5)] by simp
  then show "step_matches (llama3_rx 1 (sc_tables c)) c st (qwen2_digits (sp_pos st) st)"
    using one_match[OF st(2,4,5), of "llama3_rx 1 (sc_tables c)" 1] st(4) by (simp add: qwen2_digits_def)
qed simp_all

section \<open>The splitters and their expressions\<close>

lemma decoded_not_out_of_range: "OUT_OF_RANGE \<notin> set (unicode_cpts_from_utf8 s)"
proof -
  have nb: "\<not> bit b 31" for b :: byte by (auto dest: bit_imp_le_length)
  then have w: "\<not> bit (widen b) 31" for b by (simp add: widen_def bit_simps)
  have one: "unicode_cpt_from_utf8 t i = Some (x, j) \<Longrightarrow> \<not> bit x 31" for t i x j
    by (auto simp: unicode_cpt_from_utf8_def cpt2_def cpt3_def cpt4_def w nb bit_simps widen_def split: if_splits)
  have "\<forall>x \<in> set (unicode_cpts_from_utf8_at s i). \<not> bit x 31" for i
  proof (induction s i rule: unicode_cpts_from_utf8_at.induct)
    case (1 s i)
    have fffd: "\<not> bit (0xFFFD :: cpt) 31" by simp
    show ?case
    proof (cases "unicode_cpt_from_utf8 s i")
      case None
      then have "i < length s \<Longrightarrow> \<forall>x \<in> set (unicode_cpts_from_utf8_at s (i + 1)). \<not> bit x 31" using 1 by blast
      then show ?thesis using None fffd by (subst unicode_cpts_from_utf8_at.simps) auto
    next
      case (Some p)
      obtain x j where p: "p = (x, j)" by (cases p)
      have "i < length s \<Longrightarrow> \<forall>x \<in> set (unicode_cpts_from_utf8_at s j). \<not> bit x 31" using 1 Some p by simp
      then show ?thesis using one[OF Some[unfolded p]] Some p by (subst unicode_cpts_from_utf8_at.simps) auto
    qed
  qed
  moreover have "bit OUT_OF_RANGE 31" by (simp add: OUT_OF_RANGE_def)
  ultimately show ?thesis unfolding unicode_cpts_from_utf8_def by blast
qed


definition contraction_letters :: "(cpt \<times> cpt) list" where
  "contraction_letters = [(68, 100), (69, 101), (76, 108), (77, 109), (82, 114), (83, 115), (84, 116), (86, 118)]"

lemma range_flags_values: "range_flags rs x = UNDEFINED \<or> range_flags rs x \<in> snd ` set rs"
proof -
  have "fold (\<lambda>(a, b) acc. if fst a \<le> x \<and> x < fst b then snd a else acc) ps acc \<in> insert acc ((snd \<circ> fst) ` set ps)" for ps :: "((cpt \<times> 16 word) \<times> cpt \<times> 16 word) list" and acc
    by (induction ps arbitrary: acc) fastforce+
  moreover have "(snd \<circ> fst) ` set (zip rs (tl rs)) \<subseteq> snd ` set rs" by (force dest: set_zip_leftD)
  ultimately show ?thesis unfolding range_flags_def by blast
qed

lemma letter_tables_class: "class_tables (letter_tables contraction_letters)"
proof -
  let ?tb = "letter_tables contraction_letters"
  have vals: "range_flags (unicode_ranges_flags ?tb) x \<in> {UNDEFINED, CONTROL, SEPARATOR, PUNCTUATION, NUMBER, LETTER}" for x
    using range_flags_values[of "unicode_ranges_flags ?tb" x] by (auto simp: letter_tables_def)
  have all: "unicode_cpt_flags_from_cpt ?tb x \<noteq> 0 \<and> \<not> (cls is_letter ?tb x \<and> cls is_number ?tb x)" for x
    using vals[of x] unfolding cls_def is_letter_def is_number_def unicode_cpt_flags_from_cpt_def unicode_cpt_flags_array_def Let_def
    by (auto split: if_splits)
  have at: "cls is_whitespace ?tb 32" "\<not> cls is_letter ?tb 32" "\<not> cls is_number ?tb 32" "\<not> cls is_number ?tb 39"
    "cls is_whitespace ?tb 10" "\<not> cls is_letter ?tb 10" "\<not> cls is_number ?tb 10"
    "cls is_whitespace ?tb 13" "\<not> cls is_letter ?tb 13" "\<not> cls is_number ?tb 13"
    by (simp_all add: cls_def unicode_cpt_flags_from_cpt_def unicode_cpt_flags_array_def range_flags_def letter_tables_def contraction_letters_def
        MAX_CODEPOINTS_def is_letter_def is_number_def is_whitespace_def)
  have srt: "sorted_wrt (\<lambda>x y. fst x < fst y) (unicode_map_lowercase ?tb)" by (simp add: letter_tables_def contraction_letters_def)
  have low: "unicode_tolower ?tb x = (case map_of contraction_letters x of Some d \<Rightarrow> d | None \<Rightarrow> x)" for x
    unfolding unicode_tolower_def lower_bound_sorted[OF srt]
    using map_of_sorted[OF srt, of x] by (auto simp: Let_def letter_tables_def)
  have "unicode_tolower ?tb x = k \<longleftrightarrow> either_case k x" if "k \<in> {115, 116, 109, 100, 114, 101, 118, 108}" for x k
    using that unfolding low by (auto simp: contraction_letters_def either_case_def)
  then show ?thesis using all at unfolding class_tables_def space_tables_def is_newline_def by blast
qed


section \<open>Kimi K2\<close>

text \<open>\<open>[\p{Han}]+\<close> and the two patterns for words that the comment of the splitter gives, where \<open>up\<close> and \<open>low\<close> are the classes
  \<open>[\p{Lu}\p{Lt}\p{Lm}\p{Lo}\p{M}&&[^\p{Han}]]\<close> and \<open>[\p{Ll}\p{Lm}\p{Lo}\p{M}&&[^\p{Han}]]\<close>.\<close>

definition kimi_words_rx :: "unicode_tables \<Rightarrow> (cpt \<Rightarrow> bool) \<Rightarrow> (cpt \<Rightarrow> bool) \<Rightarrow> cpt rx" where
  "kimi_words_rx tb up low =
     (let lead = Rep 0 (Some (Suc 0)) (rx_lead tb); tail = Alt (contraction_rx either_case) (lit [])
      in alts [plus unicode_cpt_is_han, Seq lead (Seq (Rep 0 None up) (Seq (plus low) tail)),
           Seq lead (Seq (plus up) (Seq (Rep 0 None low) tail))])"



end
