(* ===== verification/TokWpm.thy ===== *)
theory TokWpm
  imports Vocab UnicodeTables
begin

text \<open>
  The WPM (BERT) tokenizer of \<open>src/llama-vocab.cpp\<close>: the text is normalized and split into words, and every word, with the
  marker of a word start in front, is cut greedily into the longest tokens; a word that cannot be cut becomes the unknown
  token.  \<open>words\<close> is never empty while the text is split; its last element is the word that grows.  The \<open>assert\<close> on separators
  is only checked in debug builds.
\<close>

definition is_chinese_char :: "cpt \<Rightarrow> bool" where
  "is_chinese_char c \<longleftrightarrow>
     c \<ge> 0x04E00 \<and> c \<le> 0x09FFF \<or> c \<ge> 0x03400 \<and> c \<le> 0x04DBF \<or> c \<ge> 0x20000 \<and> c \<le> 0x2A6DF \<or> c \<ge> 0x2A700 \<and> c \<le> 0x2B73F \<or>
     c \<ge> 0x2B740 \<and> c \<le> 0x2B81F \<or> c \<ge> 0x2B920 \<and> c \<le> 0x2CEAF \<or> c \<ge> 0x0F900 \<and> c \<le> 0x0FAFF \<or> c \<ge> 0x2F800 \<and> c \<le> 0x2FA1F"

definition finish_word :: "str list \<Rightarrow> str list" where
  "finish_word words = (if last words \<noteq> [] then words @ [[]] else words)"

definition set_back :: "str \<Rightarrow> str list \<Rightarrow> str list" where
  "set_back s words = butlast words @ [s]"

definition wpm_char :: "unicode_tables \<Rightarrow> cpt \<Rightarrow> str list \<Rightarrow> str list vres" where
  "wpm_char tb c words =
     (let flags = unicode_cpt_flags_from_cpt tb c
      in if is_whitespace flags then Inr (finish_word words)
         else if c = 0 \<or> c = 0xFFFD \<or> is_control flags then Inr words
         else (case unicode_cpt_to_utf8 (unicode_tolower tb c) of
                 None \<Rightarrow> Inl Invalid_argument
               | Some s \<Rightarrow>
                   if is_punctuation flags \<or> c < 0x7F \<and> is_symbol flags \<or> is_chinese_char c
                   then Inr (set_back s (finish_word words) @ [[]])
                   else Inr (set_back (last words @ s) words)))"

fun wpm_chars :: "unicode_tables \<Rightarrow> cpt list \<Rightarrow> str list \<Rightarrow> str list vres" where
  "wpm_chars tb [] words = Inr words"
| "wpm_chars tb (c # cs) words = (case wpm_char tb c words of Inl e \<Rightarrow> Inl e | Inr words' \<Rightarrow> wpm_chars tb cs words')"

definition wpm_preprocess :: "unicode_tables \<Rightarrow> str \<Rightarrow> str list vres" where
  "wpm_preprocess tb txt =
     (case unicode_cpts_normalize_nfd tb (unicode_cpts_from_utf8 txt) of
        None \<Rightarrow> Inl Undefined
      | Some cpts_nfd \<Rightarrow>
          (case wpm_chars tb cpts_nfd [[]] of Inl e \<Rightarrow> Inl e
           | Inr words \<Rightarrow> Inr (if last words = [] then butlast words else words)))"

text \<open>The loop over \<open>j\<close>: the lengths from \<open>k\<close> down to 1 at offset \<open>i\<close>; the token and the offset behind it.\<close>

fun wpm_longest :: "'s llama_vocab \<Rightarrow> str \<Rightarrow> nat \<Rightarrow> nat \<Rightarrow> (llama_token \<times> nat) option" where
  "wpm_longest v word1 i 0 = None"
| "wpm_longest v word1 i (Suc k) =
     (let tok = text_to_token v (take (Suc k) (drop i word1))
      in if tok \<noteq> LLAMA_TOKEN_NULL then Some (tok, i + Suc k) else wpm_longest v word1 i k)"

lemma wpm_longest_advances: "wpm_longest v w i k = Some (t, j) \<Longrightarrow> i < j \<and> j \<le> i + k"
  by (induction k) (auto simp: Let_def split: if_splits)

text \<open>The loop over \<open>i\<close>; the second argument of the result says whether the word was cut to its end.\<close>

function wpm_cut :: "'s llama_vocab \<Rightarrow> str \<Rightarrow> nat \<Rightarrow> llama_token list \<Rightarrow> llama_token list \<times> bool" where
  "wpm_cut v word1 i output =
     (if i < length word1 then
        (case wpm_longest v word1 i (min (length word1) (i + max_token_len v + 1) - i) of
           Some (tok, j) \<Rightarrow> wpm_cut v word1 j (output @ [tok])
         | None \<Rightarrow> (output, False))
      else (output, True))"
  by pat_completeness auto
termination
  by (relation "measure (\<lambda>(v, w, i, out). length w - i)") (auto dest!: wpm_longest_advances)

declare wpm_cut.simps [simp del]

definition wpm_word :: "'s llama_vocab \<Rightarrow> str \<Rightarrow> llama_token list \<Rightarrow> llama_token list" where
  "wpm_word v word output =
     (if word = [] then output
      else
        (let (output1, matched) = wpm_cut v ([0xE2, 0x96, 0x81] @ word) 0 output;
             output2 = (if matched then output1 else take (length output) output1)
         in if length output = length output2 then output2 @ [special_unk_id v] else output2))"

definition wpm_tokenize :: "unicode_tables \<Rightarrow> 's llama_vocab \<Rightarrow> str \<Rightarrow> llama_token list \<Rightarrow> llama_token list vres" where
  "wpm_tokenize tb v txt output =
     (case wpm_preprocess tb txt of Inl e \<Rightarrow> Inl e | Inr words \<Rightarrow> Inr (fold (wpm_word v) words output))"

section \<open>Greedy longest match\<close>

text \<open>The lengths the tokenizer tries at the start of a text, and the longest of them that is a token.\<close>

definition longest_token :: "'s llama_vocab \<Rightarrow> str \<Rightarrow> nat \<Rightarrow> bool" where
  "longest_token v s k \<longleftrightarrow> 0 < k \<and> k \<le> min (length s) (max_token_len v + 1) \<and> text_to_token v (take k s) \<noteq> LLAMA_TOKEN_NULL \<and>
     (\<forall>k'. k < k' \<and> k' \<le> min (length s) (max_token_len v + 1) \<longrightarrow> text_to_token v (take k' s) = LLAMA_TOKEN_NULL)"

inductive greedy_cover :: "'s llama_vocab \<Rightarrow> str \<Rightarrow> llama_token list \<Rightarrow> bool" for v where
  cover_end: "greedy_cover v [] []"
| cover_step: "longest_token v s k \<Longrightarrow> greedy_cover v (drop k s) ts \<Longrightarrow> greedy_cover v s (text_to_token v (take k s) # ts)"

lemma longest_token_unique: "longest_token v s k \<Longrightarrow> longest_token v s k' \<Longrightarrow> k = k'"
  unfolding longest_token_def by (metis linorder_neqE_nat)

lemma longest_token_Nil: "\<not> longest_token v [] k"
  by (auto simp: longest_token_def)

lemma greedy_cover_unique: "greedy_cover v s ts \<Longrightarrow> greedy_cover v s ts' \<Longrightarrow> ts = ts'"
proof (induction arbitrary: ts' rule: greedy_cover.induct)
  case cover_end
  then show ?case by (auto elim: greedy_cover.cases simp: longest_token_Nil)
next
  case (cover_step s k ts)
  from cover_step.prems show ?case
    by (cases rule: greedy_cover.cases) (use cover_step longest_token_unique longest_token_Nil in blast)+
qed

lemma wpm_longest_spec:
  "k \<le> length w - i \<Longrightarrow> (case wpm_longest v w i k of
     Some (t, j) \<Rightarrow> i < j \<and> j \<le> i + k \<and> t = text_to_token v (take (j - i) (drop i w)) \<and> t \<noteq> LLAMA_TOKEN_NULL \<and>
        (\<forall>k'. j - i < k' \<and> k' \<le> k \<longrightarrow> text_to_token v (take k' (drop i w)) = LLAMA_TOKEN_NULL)
   | None \<Rightarrow> \<forall>k'. 0 < k' \<and> k' \<le> k \<longrightarrow> text_to_token v (take k' (drop i w)) = LLAMA_TOKEN_NULL)"
proof (induction k)
  case (Suc k)
  show ?case
  proof (cases "text_to_token v (take (Suc k) (drop i w)) = LLAMA_TOKEN_NULL")
    case True
    then have eq: "wpm_longest v w i (Suc k) = wpm_longest v w i k" by simp
    have last: "text_to_token v (take k' (drop i w)) = LLAMA_TOKEN_NULL" if "k' = Suc k" for k' using True that by simp
    show ?thesis using Suc.IH Suc.prems last unfolding eq
      by (cases "wpm_longest v w i k") (auto simp: le_Suc_eq split: prod.splits)
  next
    case False
    then show ?thesis by simp
  qed
qed simp

lemma wpm_cut_cover:
  "i \<le> length w \<Longrightarrow>
   (snd (wpm_cut v w i out) \<longrightarrow> (\<exists>ts. fst (wpm_cut v w i out) = out @ ts \<and> greedy_cover v (drop i w) ts)) \<and>
   (\<not> snd (wpm_cut v w i out) \<longrightarrow> (\<exists>ts. fst (wpm_cut v w i out) = out @ ts) \<and> (\<nexists>ts. greedy_cover v (drop i w) ts))"
proof (induction "length w - i" arbitrary: i out rule: less_induct)
  case less
  define m where "m = min (length w) (i + max_token_len v + 1) - i"
  have m: "m = min (length (drop i w)) (max_token_len v + 1)" by (simp add: m_def min_diff)
  have spec: "m \<le> length w - i" by (simp add: m_def)
  show ?case
  proof (cases "i < length w")
    case False
    then have "wpm_cut v w i out = (out, True)" by (simp add: wpm_cut.simps)
    then show ?thesis using False cover_end by simp
  next
    case i: True
    show ?thesis
    proof (cases "wpm_longest v w i m")
      case None
      then have eq: "wpm_cut v w i out = (out, False)" using i by (subst wpm_cut.simps) (simp add: m_def)
      have "\<not> longest_token v (drop i w) k" for k
        using wpm_longest_spec[OF spec, of v] None unfolding longest_token_def m[symmetric] by auto
      moreover have "drop i w \<noteq> []" using i by simp
      ultimately have "\<not> greedy_cover v (drop i w) ts" for ts by (metis greedy_cover.cases)
      then show ?thesis by (simp add: eq)
    next
      case (Some p)
      obtain t j where p: "p = (t, j)" by (cases p)
      have sp: "i < j" "j \<le> i + m" "t = text_to_token v (take (j - i) (drop i w))" "t \<noteq> LLAMA_TOKEN_NULL"
        "\<forall>k'. j - i < k' \<and> k' \<le> m \<longrightarrow> text_to_token v (take k' (drop i w)) = LLAMA_TOKEN_NULL"
        using wpm_longest_spec[OF spec, of v] Some p by auto
      have longest: "longest_token v (drop i w) (j - i)"
        using sp unfolding longest_token_def m[symmetric] by auto
      have eq: "wpm_cut v w i out = wpm_cut v w j (out @ [t])" using i Some p by (subst wpm_cut.simps) (simp add: m_def)
      have j: "j \<le> length w" "length w - j < length w - i" using sp(1,2) spec i by linarith+
      have dj: "drop (j - i) (drop i w) = drop j w" using sp(1) by simp
      note ih = less(1)[OF j(2,1), of "out @ [t]"]
      show ?thesis
      proof (cases "snd (wpm_cut v w j (out @ [t]))")
        case True
        then obtain ts where "fst (wpm_cut v w j (out @ [t])) = (out @ [t]) @ ts" "greedy_cover v (drop j w) ts" using ih by blast
        then show ?thesis using True cover_step[OF longest, of ts] sp(3) unfolding eq dj by auto
      next
        case False
        have no: "\<not> greedy_cover v (drop i w) ts" for ts
        proof
          assume "greedy_cover v (drop i w) ts"
          then obtain k ts' where "longest_token v (drop i w) k" "greedy_cover v (drop k (drop i w)) ts'"
            using i by (auto elim: greedy_cover.cases)
          then show False using longest_token_unique[OF longest] ih False dj by metis
        qed
        show ?thesis using ih False no unfolding eq by auto
      qed
    qed
  qed
qed

definition wpm_word_tokens :: "'s llama_vocab \<Rightarrow> str \<Rightarrow> llama_token list \<Rightarrow> bool" where
  "wpm_word_tokens v word ts \<longleftrightarrow>
     (if \<exists>cs. greedy_cover v ([0xE2, 0x96, 0x81] @ word) cs then greedy_cover v ([0xE2, 0x96, 0x81] @ word) ts
      else ts = [special_unk_id v])"

text \<open>C23. On every word (after the normalization, which leaves no empty words) the WPM tokenizer appends the greedy cover by longest
  tokens, which is unique, of the word with the word-start marker; a word that has no such cover becomes exactly one unknown
  token, whatever was matched before the failure.\<close>

theorem wpm_word_greedy:
  assumes "word \<noteq> []"
  shows "\<exists>ts. wpm_word v word out = out @ ts \<and> (\<forall>ts'. wpm_word_tokens v word ts' \<longleftrightarrow> ts' = ts)"
proof -
  let ?w = "[0xE2, 0x96, 0x81] @ word"
  note cut = wpm_cut_cover[of 0 ?w v out]
  obtain o1 ok where o1: "wpm_cut v ?w 0 out = (o1, ok)" by (cases "wpm_cut v ?w 0 out")
  show ?thesis
  proof (cases ok)
    case True
    then obtain ts where ts: "o1 = out @ ts" "greedy_cover v ?w ts" using cut o1 by auto
    from ts(2) have "ts \<noteq> []" by (cases rule: greedy_cover.cases) auto
    then have "wpm_word v word out = out @ ts" using assms o1 True ts(1) by (simp add: wpm_word_def)
    moreover have "wpm_word_tokens v word ts' \<longleftrightarrow> ts' = ts" for ts'
      using ts(2) greedy_cover_unique[of v ?w] unfolding wpm_word_tokens_def by metis
    ultimately show ?thesis by blast
  next
    case False
    then obtain ts where ts: "o1 = out @ ts" "\<nexists>cs. greedy_cover v ?w cs" using cut o1 by auto
    have "wpm_word v word out = out @ [special_unk_id v]" using assms o1 False ts(1) by (simp add: wpm_word_def)
    moreover have "wpm_word_tokens v word ts' \<longleftrightarrow> ts' = [special_unk_id v]" for ts'
      using ts(2) by (simp add: wpm_word_tokens_def)
    ultimately show ?thesis by blast
  qed
qed

definition word_vocab :: "int llama_vocab" where
  "word_vocab = (blank_vocab LLAMA_VOCAB_TYPE_WPM)\<lparr>token_to_id :=
     [[0xE2, 0x96, 0x81, 97] \<mapsto> 1, [0xE2, 0x96, 0x81] \<mapsto> 2, [98] \<mapsto> 3, [98, 98] \<mapsto> 4], max_token_len := 4, special_unk_id := 0\<rparr>"

lemma wpm_word_greedy_witness:
  "(\<exists>ts. wpm_word word_vocab [97, 98, 98] [9] = [9] @ ts \<and> (\<forall>ts'. wpm_word_tokens word_vocab [97, 98, 98] ts' \<longleftrightarrow> ts' = ts))
   \<and> wpm_word word_vocab [97, 98, 98] [9] = [9, 1, 4]"
proof -
  have "wpm_word word_vocab [97, 98, 98] [9] = [9, 1, 4]" by code_simp
  then show ?thesis using wpm_word_greedy[of "[97, 98, 98]" word_vocab "[9]"] by simp
qed

end
