(* ===== verification/TokPartition.thy ===== *)
theory TokPartition
  imports Vocab
begin

text \<open>
  The partition of a text by special tokens (\<open>llama_vocab::impl::tokenizer_st_partition\<close> in \<open>src/llama-vocab.cpp\<close>): a list of
  fragments, each a token or a range of the raw text, in which the occurrences of one special token after the other are cut
  out.  The \<open>std::forward_list\<close> is a list, an iterator an index into it; \<open>emplace_after\<close> inserts behind the index, and erasing
  an element in front of the iterator moves the index down.  All raw fragments refer to one text.
\<close>

datatype fragment =
    Raw_text (offset: nat) (frag_length: nat)
  | Token (token: llama_token)

definition isspace :: "byte \<Rightarrow> bool" where
  "isspace c \<longleftrightarrow> c = 32 \<or> 9 \<le> c \<and> c \<le> 13"

text \<open>\<open>std::string_view(raw_text.data(), limit).find(text, pos)\<close>\<close>

function find_text :: "str \<Rightarrow> str \<Rightarrow> nat \<Rightarrow> nat \<Rightarrow> nat option" where
  "find_text raw t limit pos =
     (if pos + length t \<le> limit then
        (if take (length t) (drop pos raw) = t then Some pos else find_text raw t limit (pos + 1))
      else None)"
  by pat_completeness auto
termination
  by (relation "measure (\<lambda>(raw, t, limit, pos). limit + 1 - pos)") auto

declare find_text.simps [simp del]

fun lstrip_length :: "str \<Rightarrow> nat \<Rightarrow> nat \<Rightarrow> nat" where
  "lstrip_length raw off 0 = 0"
| "lstrip_length raw off (Suc n) = (if isspace (raw ! (off + n)) then lstrip_length raw off n else Suc n)"

fun rstrip_range :: "str \<Rightarrow> nat \<Rightarrow> nat \<Rightarrow> nat \<times> nat" where
  "rstrip_range raw off 0 = (off, 0)"
| "rstrip_range raw off (Suc n) = (if isspace (raw ! off) then rstrip_range raw (Suc off) n else (off, Suc n))"

definition emplace_after :: "fragment list \<Rightarrow> nat \<Rightarrow> fragment \<Rightarrow> fragment list" where
  "emplace_after buffer it f = take (it + 1) buffer @ f # drop (it + 1) buffer"

definition erase_at :: "fragment list \<Rightarrow> nat \<Rightarrow> fragment list" where
  "erase_at buffer i = take i buffer @ drop (i + 1) buffer"

text \<open>One match: the text left of it, the token, the text right of it; the fragment itself is erased.\<close>

record part_state =
  pt_buffer :: "fragment list"
  pt_it :: nat

definition push_fragment :: "fragment \<Rightarrow> part_state \<Rightarrow> part_state" where
  "push_fragment f st = st\<lparr>pt_buffer := emplace_after (pt_buffer st) (pt_it st) f, pt_it := pt_it st + 1\<rparr>"

definition erase_source :: "nat \<Rightarrow> part_state \<Rightarrow> part_state" where
  "erase_source source st = st\<lparr>pt_buffer := erase_at (pt_buffer st) source, pt_it := pt_it st - 1\<rparr>"

definition push_left :: "str \<Rightarrow> token_attr \<Rightarrow> nat \<Rightarrow> nat \<Rightarrow> part_state \<Rightarrow> part_state" where
  "push_left raw attr base_offset match st =
     (if match > base_offset then
        (let left_reminder_length = (if attr AND LLAMA_TOKEN_ATTR_LSTRIP \<noteq> 0
               then lstrip_length raw base_offset (match - base_offset) else match - base_offset)
         in if left_reminder_length > 0 then push_fragment (Raw_text base_offset left_reminder_length) st else st)
      else st)"

partial_function (option) partition_fragment ::
  "str \<Rightarrow> llama_token \<Rightarrow> str \<Rightarrow> token_attr \<Rightarrow> nat \<Rightarrow> nat \<Rightarrow> part_state \<Rightarrow> part_state option" where
  "partition_fragment raw special_id t attr base_offset base_length st =
     (case find_text raw t (base_offset + base_length) base_offset of
        None \<Rightarrow> Some st
      | Some match \<Rightarrow>
          (let source = pt_it st;
               st1 = push_fragment (Token special_id) (push_left raw attr base_offset match st)
           in if match + length t < base_offset + base_length then
                (let right = (let r_off = match + length t; r_len = base_length - ((match - base_offset) + length t)
                              in if attr AND LLAMA_TOKEN_ATTR_RSTRIP \<noteq> 0 then rstrip_range raw r_off r_len else (r_off, r_len));
                     st2 = (if snd right > 0 then push_fragment (Raw_text (fst right) (snd right)) st1 else st1)
                 in partition_fragment raw special_id t attr (fst right) (snd right) (erase_source source st2))
              else Some (erase_source source st1)))"

text \<open>The loop over the fragments, for one special token.\<close>

partial_function (option) partition_buffer :: "str \<Rightarrow> llama_token \<Rightarrow> str \<Rightarrow> token_attr \<Rightarrow> part_state \<Rightarrow> fragment list option" where
  "partition_buffer raw special_id t attr st =
     (if pt_it st < length (pt_buffer st) then
        (case pt_buffer st ! pt_it st of
           Token _ \<Rightarrow> partition_buffer raw special_id t attr (st\<lparr>pt_it := pt_it st + 1\<rparr>)
         | Raw_text off len \<Rightarrow>
             Option.bind (partition_fragment raw special_id t attr off len st)
               (\<lambda>st'. partition_buffer raw special_id t attr (st'\<lparr>pt_it := pt_it st' + 1\<rparr>)))
      else Some (pt_buffer st))"

declare partition_fragment.simps [code] partition_buffer.simps [code]

fun partition_specials :: "'s llama_vocab \<Rightarrow> str \<Rightarrow> bool \<Rightarrow> llama_token list \<Rightarrow> fragment list \<Rightarrow> fragment list vres option" where
  "partition_specials v raw parse_special [] buffer = Some (Inr buffer)"
| "partition_specials v raw parse_special (special_id # ids) buffer =
     (case get_token_data v special_id of
        Inl e \<Rightarrow> Some (Inl e)
      | Inr data \<Rightarrow>
          if \<not> parse_special \<and> td_attr data AND (LLAMA_TOKEN_ATTR_CONTROL OR LLAMA_TOKEN_ATTR_UNKNOWN) \<noteq> 0
          then partition_specials v raw parse_special ids buffer
          else Option.bind (partition_buffer raw special_id (td_text data) (td_attr data) \<lparr>pt_buffer = buffer, pt_it = 0\<rparr>)
                 (partition_specials v raw parse_special ids))"

definition tokenizer_st_partition :: "'s llama_vocab \<Rightarrow> str \<Rightarrow> bool \<Rightarrow> fragment list \<Rightarrow> fragment list vres option" where
  "tokenizer_st_partition v raw parse_special buffer = partition_specials v raw parse_special (cache_special_tokens v) buffer"

section \<open>The fragments a special token makes of a range\<close>

lemma find_text_Some: "find_text raw t limit pos = Some p \<Longrightarrow>
    pos \<le> p \<and> p + length t \<le> limit \<and> take (length t) (drop p raw) = t \<and>
    (\<forall>q. pos \<le> q \<and> q < p \<longrightarrow> take (length t) (drop q raw) \<noteq> t)"
proof (induction raw t limit pos rule: find_text.induct)
  case (1 raw t limit pos)
  show ?case
  proof (cases "pos + length t \<le> limit \<and> take (length t) (drop pos raw) \<noteq> t")
    case True
    then have "find_text raw t limit (pos + 1) = Some p" using 1(2) by (simp add: find_text.simps[of raw t limit pos])
    then have ih: "pos + 1 \<le> p" "p + length t \<le> limit" "take (length t) (drop p raw) = t"
      "\<forall>q. pos + 1 \<le> q \<and> q < p \<longrightarrow> take (length t) (drop q raw) \<noteq> t" using 1(1) True by blast+
    then show ?thesis using True by (metis Suc_eq_plus1 Suc_leD le_eq_less_or_eq Suc_leI)
  next
    case False
    then show ?thesis using 1(2) by (simp add: find_text.simps[of raw t limit pos] split: if_splits) auto
  qed
qed

lemma find_text_None: "find_text raw t limit pos = None \<longleftrightarrow>
    (\<forall>q. pos \<le> q \<and> q + length t \<le> limit \<longrightarrow> take (length t) (drop q raw) \<noteq> t)"
proof (induction raw t limit pos rule: find_text.induct)
  case (1 raw t limit pos)
  have "(\<forall>q. pos \<le> q \<and> q + length t \<le> limit \<longrightarrow> take (length t) (drop q raw) \<noteq> t) \<longleftrightarrow>
    (pos + length t \<le> limit \<longrightarrow> take (length t) (drop pos raw) \<noteq> t) \<and>
    (\<forall>q. pos + 1 \<le> q \<and> q + length t \<le> limit \<longrightarrow> take (length t) (drop q raw) \<noteq> t)"
    by (metis Suc_eq_plus1 Suc_leD le_eq_less_or_eq Suc_leI)
  then show ?case using 1 by (subst find_text.simps) auto
qed

lemma rstrip_range_length: "snd (rstrip_range raw off n) \<le> n \<and> fst (rstrip_range raw off n) + snd (rstrip_range raw off n) = off + n"
  by (induction raw off n rule: rstrip_range.induct) auto

lemma lstrip_length_le: "lstrip_length raw off n \<le> n"
  by (induction raw off n rule: lstrip_length.induct) auto

definition right_range :: "str \<Rightarrow> token_attr \<Rightarrow> nat \<Rightarrow> nat \<Rightarrow> nat \<times> nat" where
  "right_range raw attr off n = (if attr AND LLAMA_TOKEN_ATTR_RSTRIP \<noteq> 0 then rstrip_range raw off n else (off, n))"

definition left_fragment :: "str \<Rightarrow> token_attr \<Rightarrow> nat \<Rightarrow> nat \<Rightarrow> fragment list" where
  "left_fragment raw attr off n =
     (let l = (if attr AND LLAMA_TOKEN_ATTR_LSTRIP \<noteq> 0 then lstrip_length raw off n else n)
      in if l > 0 then [Raw_text off l] else [])"

lemma right_range_length: "snd (right_range raw attr off n) \<le> n \<and> fst (right_range raw attr off n) + snd (right_range raw attr off n) = off + n"
  using rstrip_range_length[of raw off n] by (simp add: right_range_def)

text \<open>The fragments of a range, by recursion on its length; the special text is not empty.\<close>

function cut :: "str \<Rightarrow> llama_token \<Rightarrow> str \<Rightarrow> token_attr \<Rightarrow> nat \<Rightarrow> nat \<Rightarrow> fragment list" where
  "cut raw tok t attr off n =
     (if n = 0 \<or> t = [] then []
      else case find_text raw t (off + n) off of
        None \<Rightarrow> [Raw_text off n]
      | Some p \<Rightarrow>
          (let r = right_range raw attr (p + length t) (off + n - (p + length t))
           in left_fragment raw attr off (p - off) @ [Token tok] @ cut raw tok t attr (fst r) (snd r)))"
  by pat_completeness auto
termination
proof (relation "measure (\<lambda>(raw, tok, t, attr, off, n). n)", goal_cases)
  case (2 raw tok t attr off n p r)
  then have "snd r \<le> off + n - (p + length t)" using right_range_length by blast
  moreover have "off \<le> p" "0 < length t" using find_text_Some[OF 2(2)] 2(1) by auto
  ultimately have "snd r < n" using 2(1) by linarith
  then show ?case by (cases r) simp
qed simp

declare cut.simps [simp del]

lemma cut_ne: "0 < n \<Longrightarrow> t \<noteq> [] \<Longrightarrow> cut raw tok t attr off n \<noteq> []"
  by (subst cut.simps) (simp add: Let_def split: option.split)

lemma cut_zero: "cut raw tok t attr off 0 = []"
  by (subst cut.simps) simp

lemma push_left_eq:
  "off \<le> p \<Longrightarrow> push_left raw attr off p \<lparr>pt_buffer = pre @ f # post, pt_it = length pre\<rparr>
     = \<lparr>pt_buffer = pre @ f # left_fragment raw attr off (p - off) @ post, pt_it = length pre + length (left_fragment raw attr off (p - off))\<rparr>"
  by (auto simp: push_left_def left_fragment_def push_fragment_def emplace_after_def Let_def)

lemma push_fragment_eq:
  "length pre' = k + 1 \<Longrightarrow> push_fragment f \<lparr>pt_buffer = pre' @ post, pt_it = k\<rparr> = \<lparr>pt_buffer = (pre' @ [f]) @ post, pt_it = k + 1\<rparr>"
  by (simp add: push_fragment_def emplace_after_def)

lemma erase_source_eq:
  "erase_source (length pre) \<lparr>pt_buffer = pre @ f # rest, pt_it = k + 1\<rparr> = \<lparr>pt_buffer = pre @ rest, pt_it = k\<rparr>"
  by (simp add: erase_source_def erase_at_def)

lemma partition_fragment_cut:
  assumes t: "t \<noteq> []"
  shows "0 < n \<Longrightarrow> partition_fragment raw tok t attr off n \<lparr>pt_buffer = pre @ Raw_text off n # post, pt_it = length pre\<rparr>
     = Some \<lparr>pt_buffer = pre @ cut raw tok t attr off n @ post, pt_it = length pre + length (cut raw tok t attr off n) - 1\<rparr>"
proof (induction n arbitrary: off pre rule: less_induct)
  case (less n)
  show ?case
  proof (cases "find_text raw t (off + n) off")
    case None
    then have "cut raw tok t attr off n = [Raw_text off n]" using less(2) t by (subst cut.simps) simp
    then show ?thesis using None by (subst partition_fragment.simps) simp
  next
    case (Some p)
    note p = find_text_Some[OF Some]
    define left where "left = left_fragment raw attr off (p - off)"
    define r where "r = right_range raw attr (p + length t) (off + n - (p + length t))"
    have cut: "cut raw tok t attr off n = left @ Token tok # cut raw tok t attr (fst r) (snd r)"
      using Some less(2) t by (subst cut.simps) (simp add: Let_def left_def r_def)
    have st1: "push_fragment (Token tok) (push_left raw attr off p \<lparr>pt_buffer = pre @ Raw_text off n # post, pt_it = length pre\<rparr>)
      = \<lparr>pt_buffer = pre @ Raw_text off n # left @ Token tok # post, pt_it = length pre + length left + 1\<rparr>"
      using p push_fragment_eq[of "pre @ Raw_text off n # left" "length pre + length left" "Token tok" post]
      by (simp add: push_left_eq left_def[symmetric])
    have rl: "snd r \<le> off + n - (p + length t)" using right_range_length by (simp add: r_def)
    have len: "n - (p - off + length t) = off + n - (p + length t)" using p by simp
    have r': "(if attr AND LLAMA_TOKEN_ATTR_RSTRIP \<noteq> 0 then rstrip_range raw (p + length t) (n - (p - off + length t))
        else (p + length t, n - (p - off + length t))) = r" unfolding r_def right_range_def len by simp
    show ?thesis
    proof (cases "p + length t < off + n")
      case True
      have eq: "partition_fragment raw tok t attr off n \<lparr>pt_buffer = pre @ Raw_text off n # post, pt_it = length pre\<rparr>
        = partition_fragment raw tok t attr (fst r) (snd r) (erase_source (length pre)
            (if snd r > 0 then push_fragment (Raw_text (fst r) (snd r)) \<lparr>pt_buffer = pre @ Raw_text off n # left @ Token tok # post, pt_it = length pre + length left + 1\<rparr>
             else \<lparr>pt_buffer = pre @ Raw_text off n # left @ Token tok # post, pt_it = length pre + length left + 1\<rparr>))"
        using Some True by (subst partition_fragment.simps) (simp only: option.case Let_def st1 r' if_True part_state.simps)
      show ?thesis
      proof (cases "snd r = 0")
        case z: True
        have "find_text raw t (fst r + 0) (fst r) = None" using t by (subst find_text.simps) simp
        then have "partition_fragment raw tok t attr (fst r) 0 st = Some st" for st by (subst partition_fragment.simps) simp
        then show ?thesis unfolding eq z using erase_source_eq[of pre "Raw_text off n" "left @ Token tok # post" "length pre + length left"]
          by (simp add: cut z cut_zero)
      next
        case False
        have "snd r < n" using rl p t less(2) by (cases t) auto
        have push: "push_fragment (Raw_text (fst r) (snd r)) \<lparr>pt_buffer = pre @ Raw_text off n # left @ Token tok # post, pt_it = length pre + length left + 1\<rparr>
          = \<lparr>pt_buffer = pre @ Raw_text off n # left @ Token tok # Raw_text (fst r) (snd r) # post, pt_it = length pre + length left + 2\<rparr>"
          using push_fragment_eq[of "pre @ Raw_text off n # left @ [Token tok]" "length pre + length left + 1" "Raw_text (fst r) (snd r)" post] by simp
        have "erase_source (length pre) \<lparr>pt_buffer = pre @ Raw_text off n # left @ Token tok # Raw_text (fst r) (snd r) # post, pt_it = length pre + length left + 2\<rparr>
          = \<lparr>pt_buffer = (pre @ left @ [Token tok]) @ Raw_text (fst r) (snd r) # post, pt_it = length (pre @ left @ [Token tok])\<rparr>"
          using erase_source_eq[of pre "Raw_text off n" "left @ Token tok # Raw_text (fst r) (snd r) # post" "length pre + length left + 1"] by simp
        then show ?thesis unfolding eq using False push less(1)[OF \<open>snd r < n\<close>, of "fst r" "pre @ left @ [Token tok]"]
          cut_ne[of "snd r" t raw tok attr "fst r"] t by (simp add: cut)
      qed
    next
      case False
      then have "snd r = 0" using rl by simp
      then have "cut raw tok t attr off n = left @ [Token tok]" by (simp add: cut cut_zero)
      then show ?thesis using Some False erase_source_eq[of pre "Raw_text off n" "left @ Token tok # post" "length pre + length left"]
        by (subst partition_fragment.simps) (simp add: Let_def st1)
    qed
  qed
qed

text \<open>All fragments of a buffer.\<close>

definition raw_ok :: "str \<Rightarrow> fragment \<Rightarrow> bool" where
  "raw_ok raw f = (case f of Token _ \<Rightarrow> True | Raw_text off n \<Rightarrow> 0 < n \<and> off + n \<le> length raw)"

definition cut_fragment :: "str \<Rightarrow> llama_token \<Rightarrow> str \<Rightarrow> token_attr \<Rightarrow> fragment \<Rightarrow> fragment list" where
  "cut_fragment raw tok t attr f = (case f of Token x \<Rightarrow> [Token x] | Raw_text off n \<Rightarrow> cut raw tok t attr off n)"

lemma cut_fragment_simps [simp]:
  "cut_fragment raw tok t attr (Token x) = [Token x]"
  "cut_fragment raw tok t attr (Raw_text off n) = cut raw tok t attr off n"
  by (simp_all add: cut_fragment_def)

lemma partition_buffer_cut:
  assumes t: "t \<noteq> []"
  shows "\<forall>f \<in> set rest. raw_ok raw f \<Longrightarrow>
    partition_buffer raw tok t attr \<lparr>pt_buffer = pre @ rest, pt_it = length pre\<rparr> = Some (pre @ concat (map (cut_fragment raw tok t attr) rest))"
proof (induction rest arbitrary: pre)
  case Nil
  then show ?case by (subst partition_buffer.simps) simp
next
  case (Cons f rest)
  show ?case
  proof (cases f)
    case (Token x)
    then show ?thesis using Cons.IH[of "pre @ [f]"] Cons.prems
      by (subst partition_buffer.simps) simp
  next
    case (Raw_text off n)
    have n: "0 < n" using Cons.prems Raw_text by (simp add: raw_ok_def)
    define c where "c = cut raw tok t attr off n"
    have "length pre + length c - 1 + 1 = length (pre @ c)" using cut_ne[OF n t] by (simp add: c_def)
    then show ?thesis using partition_fragment_cut[OF t n, of raw tok attr off pre rest] Cons.IH[of "pre @ c"] Cons.prems Raw_text
      by (subst partition_buffer.simps) (simp add: c_def)
  qed
qed

section \<open>What the partition guarantees\<close>

definition occurs_in :: "str \<Rightarrow> str \<Rightarrow> fragment \<Rightarrow> bool" where
  "occurs_in raw t f = (case f of Token _ \<Rightarrow> False
     | Raw_text off n \<Rightarrow> find_text raw t (off + n) off \<noteq> None)"

definition within :: "nat \<Rightarrow> nat \<Rightarrow> fragment \<Rightarrow> bool" where
  "within off n f = (case f of Token _ \<Rightarrow> True | Raw_text o' n' \<Rightarrow> 0 < n' \<and> off \<le> o' \<and> o' + n' \<le> off + n)"

lemma left_fragment_within: "f \<in> set (left_fragment raw attr off k) \<Longrightarrow> \<exists>l. f = Raw_text off l \<and> 0 < l \<and> l \<le> k"
  using lstrip_length_le[of raw off k] by (auto simp: left_fragment_def Let_def split: if_splits)

lemma within_mono: "within o' n' f \<Longrightarrow> off \<le> o' \<Longrightarrow> o' + n' \<le> off + n \<Longrightarrow> within off n f"
  by (auto simp: within_def split: fragment.splits)

lemma cut_clean:
  assumes t: "t \<noteq> []"
  shows "f \<in> set (cut raw tok t attr off n) \<Longrightarrow> within off n f \<and> \<not> occurs_in raw t f"
proof (induction n arbitrary: off f rule: less_induct)
  case (less n)
  have n: "0 < n" using less(2) by (cases n) (simp_all add: cut_zero)
  show ?case
  proof (cases "find_text raw t (off + n) off")
    case None
    then have "f = Raw_text off n" using less(2) n t by (subst (asm) cut.simps) simp
    then show ?thesis using None n by (simp add: within_def occurs_in_def)
  next
    case (Some p)
    note p = find_text_Some[OF Some]
    define r where "r = right_range raw attr (p + length t) (off + n - (p + length t))"
    have r: "snd r \<le> off + n - (p + length t)" "fst r + snd r = off + n"
      using right_range_length[of raw attr "p + length t" "off + n - (p + length t)"] p by (simp_all add: r_def)
    have fr: "p + length t \<le> fst r" using r p by linarith
    have "0 < length t" using t by simp
    then have smaller: "snd r < n" using r p n by linarith
    have cut: "cut raw tok t attr off n = left_fragment raw attr off (p - off) @ Token tok # cut raw tok t attr (fst r) (snd r)"
      using Some n t by (subst cut.simps) (simp add: Let_def r_def)
    consider "f \<in> set (left_fragment raw attr off (p - off))" | "f = Token tok" | "f \<in> set (cut raw tok t attr (fst r) (snd r))"
      using less(2) unfolding cut by auto
    then show ?thesis
    proof cases
      case 1
      then obtain l where l: "f = Raw_text off l" "0 < l" "l \<le> p - off" using left_fragment_within by blast
      have "take (length t) (drop q raw) \<noteq> t" if "off \<le> q" "q + length t \<le> off + l" for q
      proof -
        have "q < p" using that(2) l(3) p \<open>0 < length t\<close> by linarith
        then show ?thesis using p that(1) by blast
      qed
      then have "find_text raw t (off + l) off = None" unfolding find_text_None by blast
      moreover have "l \<le> n" using l(3) p by linarith
      ultimately show ?thesis using l p by (simp add: within_def occurs_in_def)
    next
      case 2
      then show ?thesis by (simp add: within_def occurs_in_def)
    next
      case 3
      then have "within (fst r) (snd r) f \<and> \<not> occurs_in raw t f" using less(1)[OF smaller] by blast
      then show ?thesis using within_mono[of "fst r" "snd r" f off n] r fr p by simp
    qed
  qed
qed

lemma occurs_within: "within off n f \<Longrightarrow> \<not> occurs_in raw t (Raw_text off n) \<Longrightarrow> \<not> occurs_in raw t f"
  by (cases f) (auto simp: within_def occurs_in_def find_text_None simp del: not_None_eq)

definition fragment_text :: "'s llama_vocab \<Rightarrow> str \<Rightarrow> fragment \<Rightarrow> str" where
  "fragment_text v raw f = (case f of Token tok \<Rightarrow> td_text (id_to_token v ! nat tok) | Raw_text off n \<Rightarrow> take n (drop off raw))"

definition no_strip :: "token_attr \<Rightarrow> bool" where
  "no_strip attr \<longleftrightarrow> attr AND LLAMA_TOKEN_ATTR_LSTRIP = 0 \<and> attr AND LLAMA_TOKEN_ATTR_RSTRIP = 0"

lemma fragment_text_simps:
  "fragment_text v raw (Token tok) = td_text (id_to_token v ! nat tok)"
  "fragment_text v raw (Raw_text off n) = take n (drop off raw)"
  by (simp_all add: fragment_text_def)

lemma cut_lossless:
  assumes t: "t \<noteq> []" "no_strip attr" "td_text (id_to_token v ! nat tok) = t"
  shows "off + n \<le> length raw \<Longrightarrow> concat (map (fragment_text v raw) (cut raw tok t attr off n)) = take n (drop off raw)"
proof (induction n arbitrary: off rule: less_induct)
  case (less n)
  show ?case
  proof (cases "n = 0")
    case True
    then show ?thesis by (simp add: cut_zero)
  next
    case n: False
    show ?thesis
    proof (cases "find_text raw t (off + n) off")
      case None
      then show ?thesis using n t by (subst cut.simps) (simp add: fragment_text_def)
    next
      case (Some p)
      note p = find_text_Some[OF Some]
      define m where "m = off + n - (p + length t)"
      have t0: "0 < length t" using t(1) by simp
      have m2: "p + length t + m = off + n" using p by (simp add: m_def)
      have m1: "m < n" using m2 p t0 by linarith
      note m = m1 m2
      have cut: "cut raw tok t attr off n = left_fragment raw attr off (p - off) @ Token tok # cut raw tok t attr (p + length t) m"
        using Some n t by (subst cut.simps) (simp add: Let_def right_range_def no_strip_def m_def)
      have left: "concat (map (fragment_text v raw) (left_fragment raw attr off (p - off))) = take (p - off) (drop off raw)"
        using t(2) by (simp add: left_fragment_def no_strip_def fragment_text_def Let_def)
      have "take n (drop off raw) = take (p - off) (drop off raw) @ take (length t) (drop p raw) @ take m (drop (p + length t) raw)"
      proof -
        have n': "n = (p - off) + (length t + m)" using p m2 by linarith
        have o: "off + (p - off) = p" using p by simp
        have d: "drop (p - off) (drop off raw) = drop p raw" "drop (length t) (drop p raw) = drop (p + length t) raw"
          using o by (simp_all add: add.commute)
        have "take n (drop off raw) = take (p - off) (drop off raw) @ take (length t + m) (drop p raw)"
          using take_add[of "p - off" "length t + m" "drop off raw"] unfolding n'[symmetric] d(1) .
        also have "take (length t + m) (drop p raw) = take (length t) (drop p raw) @ take m (drop (p + length t) raw)"
          using take_add[of "length t" m "drop p raw"] unfolding d(2) .
        finally show ?thesis .
      qed
      then show ?thesis unfolding cut using left p t(3) less(1)[OF m(1), of "p + length t"] m(2) less(2) by (simp add: fragment_text_simps)
    qed
  qed
qed

definition special_active :: "'s llama_vocab \<Rightarrow> bool \<Rightarrow> llama_token \<Rightarrow> bool" where
  "special_active v parse_special i \<longleftrightarrow>
     parse_special \<or> td_attr (id_to_token v ! nat i) AND (LLAMA_TOKEN_ATTR_CONTROL OR LLAMA_TOKEN_ATTR_UNKNOWN) = 0"

lemma cut_tokens:
  assumes t: "t \<noteq> []"
  shows "Token x \<in> set (cut raw tok t attr off n) \<Longrightarrow> x = tok"
proof (induction n arbitrary: off rule: less_induct)
  case (less n)
  have n: "0 < n" using less(2) by (cases n) (simp_all add: cut_zero)
  show ?case
  proof (cases "find_text raw t (off + n) off")
    case None
    then show ?thesis using less(2) n t by (subst (asm) cut.simps) simp
  next
    case (Some p)
    note p = find_text_Some[OF Some]
    define r where "r = right_range raw attr (p + length t) (off + n - (p + length t))"
    have "snd r \<le> off + n - (p + length t)" using right_range_length by (simp add: r_def)
    moreover have "0 < length t" using t by simp
    ultimately have smaller: "snd r < n" using p n by linarith
    have "cut raw tok t attr off n = left_fragment raw attr off (p - off) @ Token tok # cut raw tok t attr (fst r) (snd r)"
      using Some n t by (subst cut.simps) (simp add: Let_def r_def)
    then have "Token x \<in> set (left_fragment raw attr off (p - off)) \<or> x = tok \<or> Token x \<in> set (cut raw tok t attr (fst r) (snd r))"
      using less(2) by auto
    then show ?thesis using left_fragment_within[of "Token x"] less(1)[OF smaller] by blast
  qed
qed

lemma in_concat_map: "f \<in> set (concat (map g fs)) \<Longrightarrow> \<exists>f0 \<in> set fs. f \<in> set (g f0)"
  by auto

lemma partition_specials_clean:
  assumes "\<forall>i \<in> set ids. \<exists>d. get_token_data v i = Inr d \<and> td_text d \<noteq> []" "\<forall>f \<in> set fs. raw_ok raw f"
  shows "\<exists>fs'. partition_specials v raw ps ids fs = Some (Inr fs') \<and> (\<forall>f \<in> set fs'. raw_ok raw f) \<and>
     (\<forall>x. Token x \<in> set fs' \<longrightarrow> x \<in> set ids \<or> Token x \<in> set fs) \<and>
     (\<forall>t. (\<forall>f \<in> set fs. \<not> occurs_in raw t f) \<longrightarrow> (\<forall>f \<in> set fs'. \<not> occurs_in raw t f)) \<and>
     (\<forall>i \<in> set ids. special_active v ps i \<longrightarrow> (\<forall>f \<in> set fs'. \<not> occurs_in raw (td_text (id_to_token v ! nat i)) f)) \<and>
     ((\<forall>i \<in> set ids. no_strip (td_attr (id_to_token v ! nat i))) \<longrightarrow>
        concat (map (fragment_text v raw) fs') = concat (map (fragment_text v raw) fs))"
  using assms
proof (induction ids arbitrary: fs)
  case Nil
  then show ?case by simp
next
  case (Cons i ids)
  define d where "d = id_to_token v ! nat i"
  have d: "get_token_data v i = Inr d" "td_text d \<noteq> []" using Cons.prems(1) by (auto simp: get_token_data_def d_def split: if_splits)
  show ?case
  proof (cases "special_active v ps i")
    case False
    then have "partition_specials v raw ps (i # ids) fs = partition_specials v raw ps ids fs"
      using d by (simp add: special_active_def d_def)
    then show ?thesis using Cons.IH[of fs] Cons.prems False by auto
  next
    case True
    define fs1 where "fs1 = concat (map (cut_fragment raw i (td_text d) (td_attr d)) fs)"
    have "partition_buffer raw i (td_text d) (td_attr d) \<lparr>pt_buffer = fs, pt_it = 0\<rparr> = Some fs1"
      using partition_buffer_cut[OF d(2) Cons.prems(2), of i "td_attr d" "[]"] by (simp add: fs1_def)
    then have eq: "partition_specials v raw ps (i # ids) fs = partition_specials v raw ps ids fs1"
      using d True by (auto simp: special_active_def d_def)
    have src: "\<exists>f0 \<in> set fs. f = f0 \<or> (\<exists>off n. f0 = Raw_text off n \<and> within off n f \<and> \<not> occurs_in raw (td_text d) f)"
      if m: "f \<in> set fs1" for f
    proof -
      obtain f0 where f0: "f0 \<in> set fs" "f \<in> set (cut_fragment raw i (td_text d) (td_attr d) f0)"
        using in_concat_map[of f "cut_fragment raw i (td_text d) (td_attr d)" fs] m unfolding fs1_def by blast
      show ?thesis
      proof (cases f0)
        case (Token x)
        then show ?thesis using f0 by auto
      next
        case (Raw_text off n)
        then show ?thesis using f0 cut_clean[OF d(2), of f raw i "td_attr d" off n] by auto
      qed
    qed
    have ok1: "\<forall>f \<in> set fs1. raw_ok raw f"
    proof
      fix f assume "f \<in> set fs1"
      from src[OF this] Cons.prems(2) show "raw_ok raw f" by (cases f) (force simp: raw_ok_def within_def)+
    qed
    have keep: "\<forall>f \<in> set fs1. \<not> occurs_in raw t f" if "\<forall>f \<in> set fs. \<not> occurs_in raw t f" for t
      using src occurs_within that by metis
    have new: "\<forall>f \<in> set fs1. \<not> occurs_in raw (td_text d) f"
    proof
      fix f assume "f \<in> set fs1"
      then obtain f0 where f0: "f0 \<in> set fs" "f \<in> set (cut_fragment raw i (td_text d) (td_attr d) f0)"
        using in_concat_map[of f "cut_fragment raw i (td_text d) (td_attr d)" fs] unfolding fs1_def by blast
      show "\<not> occurs_in raw (td_text d) f"
      proof (cases f0)
        case (Token x)
        then show ?thesis using f0 by (simp add: occurs_in_def)
      next
        case (Raw_text off n)
        then show ?thesis using f0 cut_clean[OF d(2), of f raw i "td_attr d" off n] by simp
      qed
    qed
    have lossless: "concat (map (fragment_text v raw) fs1) = concat (map (fragment_text v raw) fs)" if "no_strip (td_attr d)"
    proof -
      have one: "concat (map (fragment_text v raw) (cut_fragment raw i (td_text d) (td_attr d) f)) = fragment_text v raw f"
        if m: "f \<in> set fs" for f
      proof (cases f)
        case (Token x)
        then show ?thesis by simp
      next
        case (Raw_text off n)
        have "off + n \<le> length raw" using m Cons.prems(2) unfolding Raw_text raw_ok_def by fastforce
        then show ?thesis using cut_lossless[OF d(2) \<open>no_strip (td_attr d)\<close>, of v i] by (simp add: Raw_text fragment_text_simps d_def)
      qed
      have "concat (map (fragment_text v raw) (concat (map g gs))) = concat (map (fragment_text v raw) gs)"
        if "\<And>f. f \<in> set gs \<Longrightarrow> concat (map (fragment_text v raw) (g f)) = fragment_text v raw f" for g gs
        using that by (induction gs) auto
      from this[of fs, OF one] show ?thesis unfolding fs1_def .
    qed
    have toks: "x = i \<or> Token x \<in> set fs" if m: "Token x \<in> set fs1" for x
    proof -
      obtain f0 where f0: "f0 \<in> set fs" "Token x \<in> set (cut_fragment raw i (td_text d) (td_attr d) f0)"
        using in_concat_map[of "Token x" "cut_fragment raw i (td_text d) (td_attr d)" fs] m unfolding fs1_def by blast
      then show ?thesis using cut_tokens[OF d(2)] by - (cases f0; auto)
    qed
    obtain fs' where fs': "partition_specials v raw ps ids fs1 = Some (Inr fs')" "\<forall>f \<in> set fs'. raw_ok raw f"
      "\<forall>t. (\<forall>f \<in> set fs1. \<not> occurs_in raw t f) \<longrightarrow> (\<forall>f \<in> set fs'. \<not> occurs_in raw t f)"
      "\<forall>i \<in> set ids. special_active v ps i \<longrightarrow> (\<forall>f \<in> set fs'. \<not> occurs_in raw (td_text (id_to_token v ! nat i)) f)"
      "(\<forall>i \<in> set ids. no_strip (td_attr (id_to_token v ! nat i))) \<longrightarrow> concat (map (fragment_text v raw) fs') = concat (map (fragment_text v raw) fs1)"
      "\<forall>x. Token x \<in> set fs' \<longrightarrow> x \<in> set ids \<or> Token x \<in> set fs1"
      using Cons.IH[of fs1] Cons.prems(1) ok1 by auto
    show ?thesis
    proof (intro exI[of _ fs'] conjI)
      show "partition_specials v raw ps (i # ids) fs = Some (Inr fs')" using eq fs'(1) by simp
      show "\<forall>f \<in> set fs'. raw_ok raw f" by (rule fs'(2))
      show "\<forall>x. Token x \<in> set fs' \<longrightarrow> x \<in> set (i # ids) \<or> Token x \<in> set fs" using fs'(6) toks by (metis list.set_intros)
      show "\<forall>t. (\<forall>f \<in> set fs. \<not> occurs_in raw t f) \<longrightarrow> (\<forall>f \<in> set fs'. \<not> occurs_in raw t f)" using keep fs'(3) by blast
      have "\<forall>f \<in> set fs'. \<not> occurs_in raw (td_text (id_to_token v ! nat i)) f" using fs'(3) new unfolding d_def by blast
      then show "\<forall>i \<in> set (i # ids). special_active v ps i \<longrightarrow> (\<forall>f \<in> set fs'. \<not> occurs_in raw (td_text (id_to_token v ! nat i)) f)"
        using fs'(4) by (metis set_ConsD)
      show "(\<forall>i \<in> set (i # ids). no_strip (td_attr (id_to_token v ! nat i))) \<longrightarrow>
        concat (map (fragment_text v raw) fs') = concat (map (fragment_text v raw) fs)"
      proof
        assume ns: "\<forall>i \<in> set (i # ids). no_strip (td_attr (id_to_token v ! nat i))"
        then have "no_strip (td_attr d)" "\<forall>i \<in> set ids. no_strip (td_attr (id_to_token v ! nat i))" by (simp_all add: d_def)
        then show "concat (map (fragment_text v raw) fs') = concat (map (fragment_text v raw) fs)" using fs'(5) lossless by metis
      qed
    qed
  qed
qed

text \<open>C14. The special-token partition of a text terminates and returns fragments that are non-empty ranges of the text or tokens;
  no text fragment contains the text of a special token that takes part (with \<open>parse_special\<close> off, control and unknown tokens do
  not); and when no special token strips the blanks around it, the fragments and tokens, in their order, are exactly the text.\<close>
theorem partition_clean_lossless:
  assumes "\<forall>i \<in> set (cache_special_tokens v). \<exists>d. get_token_data v i = Inr d \<and> td_text d \<noteq> []" "raw \<noteq> []"
  shows "\<exists>fs. tokenizer_st_partition v raw ps [Raw_text 0 (length raw)] = Some (Inr fs) \<and> (\<forall>f \<in> set fs. raw_ok raw f) \<and>
     (\<forall>i \<in> set (cache_special_tokens v). special_active v ps i \<longrightarrow>
        (\<forall>f \<in> set fs. \<not> occurs_in raw (td_text (id_to_token v ! nat i)) f)) \<and>
     ((\<forall>i \<in> set (cache_special_tokens v). no_strip (td_attr (id_to_token v ! nat i))) \<longrightarrow>
        concat (map (fragment_text v raw) fs) = raw)"
proof -
  have "\<forall>f \<in> set [Raw_text 0 (length raw)]. raw_ok raw f" using assms(2) by (simp add: raw_ok_def)
  from partition_specials_clean[OF assms(1) this, of ps] show ?thesis
    unfolding tokenizer_st_partition_def by (force simp: fragment_text_simps)
qed

definition marker_vocab :: "int llama_vocab" where
  "marker_vocab = (blank_vocab LLAMA_VOCAB_TYPE_SPM)\<lparr>id_to_token :=
      [\<lparr>td_text = [60, 115, 62], td_score = 0, td_attr = LLAMA_TOKEN_ATTR_CONTROL\<rparr>], cache_special_tokens := [0]\<rparr>"

lemma partition_clean_lossless_witness:
  defines "raw \<equiv> [97, 60, 115, 62, 98] :: str"
  shows "tokenizer_st_partition marker_vocab raw True [Raw_text 0 (length raw)] = Some (Inr [Raw_text 0 1, Token 0, Raw_text 4 1])
   \<and> concat (map (fragment_text marker_vocab raw) [Raw_text 0 1, Token 0, Raw_text 4 1]) = raw"
proof -
  have ev: "tokenizer_st_partition marker_vocab raw True [Raw_text 0 (length raw)] = Some (Inr [Raw_text 0 1, Token 0, Raw_text 4 1])"
    unfolding raw_def by code_simp
  have tok: "\<forall>i \<in> set (cache_special_tokens marker_vocab). \<exists>d. get_token_data marker_vocab i = Inr d \<and> td_text d \<noteq> []"
    "\<forall>i \<in> set (cache_special_tokens marker_vocab). no_strip (td_attr (id_to_token marker_vocab ! nat i))"
    by (simp_all add: marker_vocab_def get_token_data_def no_strip_def)
  have "raw \<noteq> []" by (simp add: raw_def)
  from partition_clean_lossless[OF tok(1) this, of True] obtain fs where
    "tokenizer_st_partition marker_vocab raw True [Raw_text 0 (length raw)] = Some (Inr fs)"
    "concat (map (fragment_text marker_vocab raw) fs) = raw" using tok(2) by blast
  then show ?thesis using ev by (simp del: map_append list.map)
qed

end
