(* ===== verification/TokDecode.thy ===== *)
theory TokDecode
  imports TokTrie TokPartition
begin

text \<open>
  From tokens back to text (\<open>token_to_piece\<close> and \<open>detokenize\<close> of \<open>src/llama-vocab.cpp\<close>).  A function that writes to the
  caller's buffer takes the length of the buffer and returns the number of bytes and the bytes; a negative number is the
  negated size that would have been needed, and then nothing is written.  The running total of \<open>detokenize\<close> is an integer
  without bound: the texts are shorter than 2 GB.
\<close>

section \<open>Texts of tokens\<close>

function replace_from :: "str \<Rightarrow> str \<Rightarrow> str \<Rightarrow> nat \<Rightarrow> str" where
  "replace_from s search replace last_pos =
     (if search = [] then s
      else case find_text s search (length s) last_pos of
        None \<Rightarrow> drop last_pos s
      | Some pos \<Rightarrow> take (pos - last_pos) (drop last_pos s) @ replace @ replace_from s search replace (pos + length search))"
  by pat_completeness auto
termination
proof (relation "measure (\<lambda>(s, search, replace, last_pos). length s - last_pos)", goal_cases)
  case (2 s search replace last_pos pos)
  then have "last_pos \<le> pos" "pos + length search \<le> length s" using find_text_Some by blast+
  moreover have "0 < length search" using 2(1) by simp
  ultimately have "length s - (pos + length search) < length s - last_pos" by linarith
  then show ?case by simp
qed simp

declare replace_from.simps [simp del]

definition replace_all :: "str \<Rightarrow> str \<Rightarrow> str \<Rightarrow> str" where
  "replace_all s search replace = (if search = [] then s else replace_from s search replace 0)"

abbreviation lower_block :: str where "lower_block \<equiv> [0xE2, 0x96, 0x81]"

definition llama_escape_whitespace :: "str \<Rightarrow> str" where
  "llama_escape_whitespace text = replace_all text [32] lower_block"

definition llama_unescape_whitespace :: "str \<Rightarrow> str" where
  "llama_unescape_whitespace word = replace_all word lower_block [32]"

text \<open>\<open>format("%02x", c)\<close>\<close>

definition hex_digit_lower :: "byte \<Rightarrow> byte" where
  "hex_digit_lower b = (if b < 10 then 48 + b else 87 + b)"

definition hex_byte :: "byte \<Rightarrow> str" where
  "hex_byte c = [hex_digit_lower (drop_bit 4 c), hex_digit_lower (c AND 15)]"

definition decode_cpt :: "str \<Rightarrow> cpt \<Rightarrow> str vres" where
  "decode_cpt text c =
     (case unicode_cpt_to_utf8 c of
        None \<Rightarrow> Inl Invalid_argument
      | Some utf8 \<Rightarrow>
          (case unicode_utf8_to_byte utf8 of
             Some b \<Rightarrow> Inr [b]
           | None \<Rightarrow> Inr ([91, 85, 78, 75, 95, 66, 89, 84, 69, 95, 48, 120] @ concat (map hex_byte utf8) @ text @ [93])))"

fun decode_cpts :: "str \<Rightarrow> cpt list \<Rightarrow> str vres" where
  "decode_cpts text [] = Inr []"
| "decode_cpts text (c # cs) =
     (case decode_cpt text c of Inl e \<Rightarrow> Inl e
      | Inr s \<Rightarrow> (case decode_cpts text cs of Inl e \<Rightarrow> Inl e | Inr s' \<Rightarrow> Inr (s @ s')))"

definition llama_decode_text :: "str \<Rightarrow> str vres" where
  "llama_decode_text text = decode_cpts text (unicode_cpts_from_utf8 text)"

text \<open>\<open>strtol\<close> in base 16 of two characters (a prefix \<open>0x\<close> of two characters is the digit 0), and \<open>std::stoi\<close>, which throws
  when there is no digit.\<close>

definition hex_value :: "byte \<Rightarrow> nat option" where
  "hex_value c =
     (if 48 \<le> c \<and> c \<le> 57 then Some (unat c - 48)
      else if 97 \<le> c \<and> c \<le> 102 then Some (unat c - 87)
      else if 65 \<le> c \<and> c \<le> 70 then Some (unat c - 55) else None)"

fun hex_digits :: "str \<Rightarrow> int \<Rightarrow> int" where
  "hex_digits [] acc = acc"
| "hex_digits (c # cs) acc = (case hex_value c of None \<Rightarrow> acc | Some d \<Rightarrow> hex_digits cs (acc * 16 + int d))"

definition strtol16 :: "str \<Rightarrow> int option" where
  "strtol16 s =
     (let s1 = dropWhile isspace s;
          s2 = (case s1 of c # cs \<Rightarrow> if c = 43 \<or> c = 45 then cs else s1 | [] \<Rightarrow> s1);
          v = hex_digits s2 0
      in if s2 = [] \<or> hex_value (hd s2) = None then None else Some (if hd s1 = 45 then - v else v))"

definition substr :: "str \<Rightarrow> nat \<Rightarrow> nat \<Rightarrow> str vres" where
  "substr s pos n = (if pos \<le> length s then Inr (take n (drop pos s)) else Inl Out_of_range)"

definition token_to_byte :: "'s llama_vocab \<Rightarrow> llama_token \<Rightarrow> byte vres" where
  "token_to_byte v tok =
     (if v_type v = LLAMA_VOCAB_TYPE_NONE then Inl Abort
      else case is_byte v tok of Inl e \<Rightarrow> Inl e
      | Inr False \<Rightarrow> Inl Abort
      | Inr True \<Rightarrow>
          (case get_token_data v tok of Inl e \<Rightarrow> Inl e
           | Inr token_data \<Rightarrow>
               if v_type v \<in> {LLAMA_VOCAB_TYPE_SPM, LLAMA_VOCAB_TYPE_UGM, LLAMA_VOCAB_TYPE_BPE} then
                 (case substr (td_text token_data) 3 2 of Inl e \<Rightarrow> Inl e
                  | Inr buf \<Rightarrow> Inr (case strtol16 buf of None \<Rightarrow> 0 | Some n \<Rightarrow> word_of_int n))
               else Inl Abort))"

section \<open>The piece of a token\<close>

fun skip_spaces :: "nat \<Rightarrow> str \<Rightarrow> str" where
  "skip_spaces (Suc n) (c # cs) = (if c = 32 then skip_spaces n cs else c # cs)"
| "skip_spaces _ s = s"

definition try_copy :: "int \<Rightarrow> int \<Rightarrow> str \<Rightarrow> (int \<times> str) vres" where
  "try_copy len lstrip tok =
     (if 2147483647 \<le> length tok then Inl Abort
      else
        (let s = skip_spaces (nat lstrip) tok
         in if len < int (length s) then Inr (- int (length s), []) else Inr (int (length s), s)))"

abbreviation attr_special :: token_attr where
  "attr_special \<equiv> LLAMA_TOKEN_ATTR_UNKNOWN OR LLAMA_TOKEN_ATTR_CONTROL"

text \<open>The branches of the \<open>switch\<close> for the types whose normal tokens are texts in an encoding \<open>decode\<close>.\<close>

definition encoded_piece :: "'s llama_vocab \<Rightarrow> llama_token \<Rightarrow> token_attr \<Rightarrow> (str \<Rightarrow> str vres) \<Rightarrow> int \<Rightarrow> int \<Rightarrow> str \<Rightarrow> (int \<times> str) vres" where
  "encoded_piece v tok attr decode len lstrip token_text =
     (if attr AND (attr_special OR LLAMA_TOKEN_ATTR_USER_DEFINED) \<noteq> 0 then try_copy len lstrip token_text
      else if attr AND LLAMA_TOKEN_ATTR_NORMAL \<noteq> 0 then
        (case decode token_text of Inl e \<Rightarrow> Inl e | Inr result \<Rightarrow> try_copy len lstrip result)
      else if attr AND LLAMA_TOKEN_ATTR_BYTE \<noteq> 0 then
        (case token_to_byte v tok of Inl e \<Rightarrow> Inl e | Inr b \<Rightarrow> try_copy len lstrip [b])
      else Inr (0, []))"

definition rwkv_piece :: "int \<Rightarrow> str \<Rightarrow> (int \<times> str) vres" where
  "rwkv_piece len token_text =
     (let result = llama_unescape_rwkv_token token_text
      in if int (length result) > len then Inr (- int (length result), []) else Inr (int (length result), result))"

definition plamo2_piece :: "'s llama_vocab \<Rightarrow> llama_token \<Rightarrow> int \<Rightarrow> int \<Rightarrow> str \<Rightarrow> (int \<times> str) vres" where
  "plamo2_piece v tok len lstrip token_text =
     (case is_byte v tok of Inl e \<Rightarrow> Inl e
      | Inr byte \<Rightarrow>
          if byte \<and> length token_text = 6 \<and> take 3 token_text = [60, 48, 120] \<and> last token_text = 62 then
            (case strtol16 (take 2 (drop 3 token_text)) of
               None \<Rightarrow> Inl Invalid_argument
             | Some hex_val \<Rightarrow> if len < 1 then Inr (- 1, []) else Inr (1, [word_of_int hex_val]))
          else try_copy len lstrip token_text)"

definition token_to_piece :: "'s llama_vocab \<Rightarrow> llama_token \<Rightarrow> int \<Rightarrow> int \<Rightarrow> bool \<Rightarrow> (int \<times> str) vres" where
  "token_to_piece v tok len lstrip special =
     (if v_type v = LLAMA_VOCAB_TYPE_NONE then Inl Abort
      else case token_get_attr v tok of Inl e \<Rightarrow> Inl e
      | Inr attr \<Rightarrow>
          if \<not> special \<and> attr AND attr_special \<noteq> 0 then Inr (0, [])
          else if cache_token_to_piece v \<noteq> [] then
            (if 0 \<le> tok \<and> nat tok < length (cache_token_to_piece v) then try_copy len lstrip (cache_token_to_piece v ! nat tok)
             else Inl Out_of_range)
          else if 0 \<le> tok \<and> tok < sint (of_nat (length (id_to_token v)) :: 32 word) then
            (let token_text = td_text (id_to_token v ! nat tok)
             in case v_type v of
                  LLAMA_VOCAB_TYPE_NONE \<Rightarrow> Inl Abort
                | LLAMA_VOCAB_TYPE_BPE \<Rightarrow>
                    encoded_piece v tok attr
                      (if v_escape_whitespaces v then Inr \<circ> llama_unescape_whitespace else llama_decode_text) len lstrip token_text
                | LLAMA_VOCAB_TYPE_RWKV \<Rightarrow> rwkv_piece len token_text
                | LLAMA_VOCAB_TYPE_PLAMO2 \<Rightarrow> plamo2_piece v tok len lstrip token_text
                | _ \<Rightarrow> encoded_piece v tok attr (Inr \<circ> llama_unescape_whitespace) len lstrip token_text)
          else Inr (0, []))"

text \<open>The string that is cached: a first call on the capacity of a fresh string, a second one when that was too small.\<close>

definition token_to_piece_for_cache :: "'s llama_vocab \<Rightarrow> nat \<Rightarrow> llama_token \<Rightarrow> bool \<Rightarrow> str vres" where
  "token_to_piece_for_cache v capacity tok special =
     (case token_to_piece v tok (int capacity) 0 special of Inl e \<Rightarrow> Inl e
      | Inr (n_chars, piece) \<Rightarrow>
          if n_chars < 0 then
            (case token_to_piece v tok (- n_chars) 0 special of Inl e \<Rightarrow> Inl e
             | Inr (check, piece') \<Rightarrow> if check = - n_chars then Inr piece' else Inl Abort)
          else Inr piece)"

section \<open>Detokenization\<close>

text \<open>The bytes of a piece go to the buffer at the pointer \<open>text\<close>, an offset.\<close>

definition blit :: "str \<Rightarrow> nat \<Rightarrow> str \<Rightarrow> str" where
  "blit buf off bytes = take off buf @ bytes @ drop (off + length bytes) buf"

fun detok_loop :: "'s llama_vocab \<Rightarrow> bool \<Rightarrow> llama_token list \<Rightarrow> str \<Rightarrow> nat \<Rightarrow> int \<Rightarrow> int \<Rightarrow> bool \<Rightarrow> (str \<times> int) vres" where
  "detok_loop v unparse_special [] buf off avail total_n remove_space = Inr (buf, total_n)"
| "detok_loop v unparse_special (t # ts) buf off avail total_n remove_space =
     (if avail < 0 then Inl Abort
      else case token_to_piece v t avail (if remove_space then 1 else 0) unparse_special of Inl e \<Rightarrow> Inl e
      | Inr (n_chars, bytes) \<Rightarrow>
          if n_chars < 0 then detok_loop v unparse_special ts buf off 0 (total_n - n_chars) False
          else if n_chars > 0 then
            detok_loop v unparse_special ts (blit buf off bytes) (off + nat n_chars) (avail - n_chars) (total_n + n_chars) False
          else detok_loop v unparse_special ts buf off avail total_n False)"

text \<open>The passes of \<open>clean_spaces\<close> over the buffer, in place.\<close>

function clean_pass1 :: "nat \<Rightarrow> nat \<Rightarrow> str \<times> nat \<Rightarrow> str \<times> nat" where
  "clean_pass1 total1 i (text, t) =
     (if i < total1 then
        (let x = text ! i;
             t' = (if text ! (i - 1) = 32 \<and> (x = 63 \<or> x = 33 \<or> x = 46 \<or> x = 44) then t - 1 else t)
         in clean_pass1 total1 (i + 1) (text[t' := x], t' + 1))
      else (text, t))"
  by pat_completeness auto
termination
  by (relation "measure (\<lambda>(n, i, s). n - i)") auto

function clean_pass2 :: "nat \<Rightarrow> nat \<Rightarrow> str \<times> nat \<Rightarrow> str \<times> nat" where
  "clean_pass2 total2 i (text, t) =
     (if i < total2 then
        (let x = text ! i
         in if x = 39 \<and> i + 1 < total2 \<and> text ! (i - 1) = 32 \<and> text ! (i + 1) = 32
            then clean_pass2 total2 (i + 2) (text[i + 1 := 0, t - 1 := x], t - 1 + 1)
            else clean_pass2 total2 (i + 1) (text[t := x], t + 1))
      else (text, t))"
  by pat_completeness auto
termination
  by (relation "measure (\<lambda>(n, i, s). n - i)") auto

definition contraction :: "nat \<Rightarrow> nat \<Rightarrow> str \<Rightarrow> bool" where
  "contraction total3 i text =
     (let x1 = text ! (i + 1)
      in if x1 = 116 \<or> x1 = 100 then False
         else if x1 = 115 \<or> x1 = 109 then True
         else if i + 2 < total3 then
           (let x2 = text ! (i + 2)
            in if x1 = 108 \<and> x2 = 108 then False
               else x1 = 114 \<and> x2 = 101 \<or> x1 = 118 \<and> x2 = 101)
         else False)"

function clean_pass3 :: "nat \<Rightarrow> nat \<Rightarrow> str \<times> nat \<Rightarrow> str \<times> nat" where
  "clean_pass3 total3 i (text, t) =
     (if i < total3 then
        (let x = text ! i;
             t' = (if text ! (i - 1) = 32 \<and> x = 39 \<and> i + 1 < total3 \<and> contraction total3 i text then t - 1 else t)
         in clean_pass3 total3 (i + 1) (text[t' := x], t' + 1))
      else (text, t))"
  by pat_completeness auto
termination
  by (relation "measure (\<lambda>(n, i, s). n - i)") auto

declare clean_pass1.simps [simp del] clean_pass2.simps [simp del] clean_pass3.simps [simp del]

definition clean_passes :: "str \<Rightarrow> nat \<Rightarrow> str \<times> nat" where
  "clean_passes text n =
     (let start = (\<lambda>n. if n = 0 then 0 else 1);
          (text1, t1) = clean_pass1 n 1 (text, start n);
          (text2, t2) = clean_pass2 t1 1 (text1, start t1)
      in clean_pass3 t2 1 (text2, start t2))"

definition remove_bos_eos :: "'s llama_vocab \<Rightarrow> bool \<Rightarrow> llama_token list \<Rightarrow> llama_token list \<times> bool" where
  "remove_bos_eos v remove_special tokens =
     (let (tokens1, remove_space) =
            (if remove_special \<and> v_add_bos v \<and> tokens \<noteq> [] \<and> hd tokens = special_bos_id v
             then (tl tokens, False) else (tokens, v_add_space_prefix v))
      in (if remove_special \<and> v_add_eos v \<and> tokens1 \<noteq> [] \<and> last tokens1 = special_eos_id v then butlast tokens1 else tokens1,
          remove_space))"

text \<open>\<open>detokenize\<close> into a buffer, whose length is \<open>text_len_max\<close>: the buffer afterwards and the number returned.\<close>

definition detokenize_buf :: "'s llama_vocab \<Rightarrow> llama_token list \<Rightarrow> str \<Rightarrow> bool \<Rightarrow> bool \<Rightarrow> (str \<times> int) vres" where
  "detokenize_buf v tokens buf remove_special unparse_special =
     (if v_type v = LLAMA_VOCAB_TYPE_NONE then Inr (buf, 0)
      else
        (let (tokens', remove_space) = remove_bos_eos v remove_special tokens
         in case detok_loop v unparse_special tokens' buf 0 (int (length buf)) 0 remove_space of Inl e \<Rightarrow> Inl e
            | Inr (text, n) \<Rightarrow>
                if n > int (length buf) then Inr (text, - n)
                else
                  (let (text', n') = (if v_clean_spaces v then clean_passes text (nat n) else (text, nat n))
                   in if n' \<le> length buf then Inr (text', int n') else Inr (text', - int n'))))"

text \<open>\<open>text.resize(n)\<close>, and the overload that returns a string; \<open>capacity\<close> is the capacity of an empty string.\<close>

definition str_resize :: "str \<Rightarrow> nat \<Rightarrow> str" where
  "str_resize s n = take n s @ replicate (n - length s) 0"

definition detokenize :: "'s llama_vocab \<Rightarrow> nat \<Rightarrow> llama_token list \<Rightarrow> bool \<Rightarrow> str vres" where
  "detokenize v capacity tokens special =
     (let text = str_resize [] (max capacity (length tokens))
      in case detokenize_buf v tokens text False special of Inl e \<Rightarrow> Inl e
         | Inr (text1, n_chars) \<Rightarrow>
             if n_chars < 0 then
               (let text2 = str_resize text1 (nat (- n_chars))
                in case detokenize_buf v tokens text2 False special of Inl e \<Rightarrow> Inl e
                   | Inr (text3, n_chars') \<Rightarrow>
                       if n_chars' > int (length text3) then Inl Abort
                       else if n_chars' < 0 then Inl Length_error
                       else Inr (str_resize text3 (nat n_chars')))
             else Inr (str_resize text1 (nat n_chars)))"

end
