(* ===== verification/TokPlamo.thy ===== *)
theory TokPlamo
  imports TokDecode "HOL-Library.AList" "HOL-Library.List_Lexorder"
begin

text \<open>
  The PLaMo-2 tokenizer of \<open>src/llama-vocab.cpp\<close> (\<open>llm_tokenizer_plamo2\<close>): a table of all suffixes of the tokens, in the order
  of their reversals, in which the text is scanned from its end to its start, with dynamic programming over the scores.  A
  score is stored as \<open>round(score * 1e4)\<close>; this rounding and the test for finite scores are fields of \<open>plamo_ops\<close>, and the NaN of
  a suffix that is no token is None.  The table is written row after row, each row once, so it is built as a list.
\<close>

record 's plamo_ops =
  isfinite :: "'s \<Rightarrow> bool"
  round_score :: "'s \<Rightarrow> int"

record plamo_row =
  table_piece_length :: nat
  table_token_id :: llama_token
  table_score :: int
  table_piece_id :: nat

record llm_tokenizer_plamo2 =
  pl_bytes :: "llama_token list"
  to_suffix_id :: "(nat \<times> nat) list"
  pl_table :: "plamo_row list"

abbreviation INVALID_SCORE :: int where "INVALID_SCORE \<equiv> - 20000000"
abbreviation UNKNOWN_SCORE :: int where "UNKNOWN_SCORE \<equiv> - 10000000"

definition cpts_to_str :: "cpt list \<Rightarrow> str vres" where
  "cpts_to_str cs = (case unicode_cpts_to_utf8 cs of None \<Rightarrow> Inl Invalid_argument | Some s \<Rightarrow> Inr s)"

fun map_res :: "('b \<Rightarrow> 'c vres) \<Rightarrow> 'b list \<Rightarrow> 'c list vres" where
  "map_res f [] = Inr []"
| "map_res f (x # xs) = (case f x of Inl e \<Rightarrow> Inl e | Inr y \<Rightarrow> (case map_res f xs of Inl e \<Rightarrow> Inl e | Inr ys \<Rightarrow> Inr (y # ys)))"

fun fold_res :: "('b \<Rightarrow> 'c \<Rightarrow> 'c vres) \<Rightarrow> 'b list \<Rightarrow> 'c \<Rightarrow> 'c vres" where
  "fold_res f [] acc = Inr acc"
| "fold_res f (x # xs) acc = (case f x acc of Inl e \<Rightarrow> Inl e | Inr acc' \<Rightarrow> fold_res f xs acc')"

section \<open>Building the table\<close>

record 's plamo_scan =
  sc_score :: "(str \<times> 's option) list"
  sc_token :: "(str \<times> llama_token) list"
  sc_bytes :: "llama_token list"

definition plamo_byte :: "str \<Rightarrow> llama_token \<Rightarrow> 's plamo_scan \<Rightarrow> 's plamo_scan vres" where
  "plamo_byte txt tok st =
     (if length txt = 6 \<and> take 3 txt = [60, 48, 120] \<and> last txt = 62 then
        (case strtol16 (take 2 (drop 3 txt)) of
           None \<Rightarrow> Inl Invalid_argument
         | Some byte_val \<Rightarrow>
             if 0 \<le> byte_val \<and> byte_val < 256 then Inr (st\<lparr>sc_bytes := (sc_bytes st)[nat byte_val := tok]\<rparr>) else Inl Undefined)
      else Inr st)"

definition add_suffix :: "cpt list \<Rightarrow> nat \<Rightarrow> 's plamo_scan \<Rightarrow> 's plamo_scan vres" where
  "add_suffix cpts i st =
     (case cpts_to_str (drop i cpts) of Inl e \<Rightarrow> Inl e
      | Inr suffix \<Rightarrow>
          Inr (if map_of (sc_score st) suffix = None then st\<lparr>sc_score := AList.update suffix None (sc_score st)\<rparr> else st))"

definition plamo_token :: "'s llama_vocab \<Rightarrow> nat \<Rightarrow> 's plamo_scan \<Rightarrow> 's plamo_scan vres" where
  "plamo_token v tok st =
     (case get_token_data v (int tok) of Inl e \<Rightarrow> Inl e
      | Inr entry \<Rightarrow>
          (let st1 = st\<lparr>sc_token := AList.update (td_text entry) (int tok) (sc_token st)\<rparr>
           in case is_byte v (int tok) of Inl e \<Rightarrow> Inl e
              | Inr True \<Rightarrow> plamo_byte (td_text entry) (int tok) st1
              | Inr False \<Rightarrow>
                  (let cpts = unicode_cpts_from_utf8 (td_text entry)
                   in fold_res (add_suffix cpts) [1..<length cpts]
                        (st1\<lparr>sc_score := AList.update (td_text entry) (Some (td_score entry)) (sc_score st1)\<rparr>))))"

text \<open>The prefixes of a suffix, the longest first, that are in \<open>suffix_to_score\<close>.\<close>

definition plamo_pieces :: "(str \<times> 's option) list \<Rightarrow> cpt list \<Rightarrow> (nat \<times> str) list vres" where
  "plamo_pieces score cpts =
     (case map_res (\<lambda>piece_length. cpts_to_str (take piece_length cpts)) (rev [1..<length cpts + 1]) of Inl e \<Rightarrow> Inl e
      | Inr pieces \<Rightarrow> Inr (List.filter (\<lambda>(n, piece). map_of score piece \<noteq> None) (zip (rev [1..<length cpts + 1]) pieces)))"

definition piece_code :: "cpt \<Rightarrow> nat \<Rightarrow> nat" where
  "piece_code c suffix = unat c * 4294967296 + suffix"

definition index_at :: "(str \<times> nat) list \<Rightarrow> str \<Rightarrow> nat" where
  "index_at m s = (case map_of m s of None \<Rightarrow> 0 | Some n \<Rightarrow> n)"

text \<open>One suffix: the state is \<open>suffix_to_id\<close>, \<open>to_suffix_id_\<close> and \<open>num_pieces\<close>.\<close>

definition plamo_suffix :: "(str \<times> 's option) list \<Rightarrow> str \<Rightarrow> (str \<times> nat) list \<times> (nat \<times> nat) list \<times> nat \<Rightarrow>
    ((str \<times> nat) list \<times> (nat \<times> nat) list \<times> nat) vres" where
  "plamo_suffix score suffix acc =
     (let (suffix_to_id, to_suffix, num_pieces) = acc;
          suffix_to_id1 = AList.update suffix num_pieces suffix_to_id
      in if suffix = [] then Inr (suffix_to_id1, to_suffix, num_pieces + 1)
         else
           (let cpts = unicode_cpts_from_utf8 suffix
            in case cpts_to_str (tl cpts) of Inl e \<Rightarrow> Inl e
               | Inr remaining \<Rightarrow>
                   (case plamo_pieces score cpts of Inl e \<Rightarrow> Inl e
                    | Inr pieces \<Rightarrow>
                        Inr (suffix_to_id1,
                             AList.update (piece_code (hd cpts) (index_at suffix_to_id1 remaining)) num_pieces to_suffix,
                             num_pieces + length pieces + 1))))"

definition plamo_rows :: "'s plamo_ops \<Rightarrow> 's plamo_scan \<Rightarrow> (str \<times> nat) list \<Rightarrow> str \<Rightarrow> plamo_row list \<Rightarrow> plamo_row list vres" where
  "plamo_rows ops st suffix_to_id suffix rows =
     (case plamo_pieces (sc_score st) (unicode_cpts_from_utf8 suffix) of Inl e \<Rightarrow> Inl e
      | Inr pieces \<Rightarrow>
          Inr (rows @
            map (\<lambda>(n, piece). \<lparr>table_piece_length = n,
                   table_token_id = (case map_of (sc_token st) piece of None \<Rightarrow> - 1 | Some tok \<Rightarrow> tok),
                   table_score = (case map_of (sc_score st) piece of
                     Some (Some score) \<Rightarrow> if isfinite ops score then round_score ops score else INVALID_SCORE
                   | _ \<Rightarrow> INVALID_SCORE),
                   table_piece_id = index_at suffix_to_id piece\<rparr>) pieces
            @ [\<lparr>table_piece_length = 1, table_token_id = - 1, table_score = UNKNOWN_SCORE, table_piece_id = 0\<rparr>]))"

definition plamo_build :: "'s plamo_ops \<Rightarrow> 's llama_vocab \<Rightarrow> llm_tokenizer_plamo2 vres" where
  "plamo_build ops v =
     (case fold_res (plamo_token v) [0..<n_tokens v] \<lparr>sc_score = [], sc_token = [], sc_bytes = replicate 256 0\<rparr> of Inl e \<Rightarrow> Inl e
      | Inr st \<Rightarrow>
          if 0 \<in> set (sc_bytes st) then Inl Runtime_error
          else
            (let suffixes = sort_key rev (map fst (sc_score st) @ [[]])
             in case fold_res (plamo_suffix (sc_score st)) suffixes ([], [], 0) of Inl e \<Rightarrow> Inl e
                | Inr (suffix_to_id, to_suffix, num_pieces) \<Rightarrow>
                    (case fold_res (plamo_rows ops st suffix_to_id) suffixes [] of Inl e \<Rightarrow> Inl e
                     | Inr rows \<Rightarrow> Inr \<lparr>pl_bytes = sc_bytes st, to_suffix_id = to_suffix, pl_table = rows\<rparr>)))"

section \<open>Encoding\<close>

record plamo_path =
  path_token_length :: nat
  path_token_id :: llama_token
  path_num_tokens :: nat

text \<open>The loop that finds the next suffix: from row \<open>p\<close> on, until a suffix is found or a sentinel row ends the block.\<close>

function next_suffix :: "llm_tokenizer_plamo2 \<Rightarrow> cpt \<Rightarrow> nat \<Rightarrow> nat \<Rightarrow> nat" where
  "next_suffix tk c p suffix_id =
     (if p < length (pl_table tk) then
        (let row = pl_table tk ! p;
             found = (case map_of (to_suffix_id tk) (piece_code c (table_piece_id row)) of None \<Rightarrow> 0 | Some s \<Rightarrow> s)
         in if found > 0 \<or> table_score row = UNKNOWN_SCORE then found else next_suffix tk c (p + 1) found)
      else suffix_id)"
  by pat_completeness auto
termination
  by (relation "measure (\<lambda>(tk, c, p, s). length (pl_table tk) - p)") auto

definition extra_bytes :: "cpt \<Rightarrow> nat" where
  "extra_bytes c = (if c \<ge> 0x80 then 1 else 0) + (if c \<ge> 0x800 then 1 else 0) + (if c \<ge> 0x10000 then 1 else 0)"

definition better_path :: "cpt \<Rightarrow> nat \<Rightarrow> plamo_row \<Rightarrow> int list \<times> plamo_path list \<Rightarrow> (int list \<times> plamo_path list) vres" where
  "better_path c i row st =
     (let (scores, path) = st
      in if table_score row > INVALID_SCORE then
           (let j = i + table_piece_length row
            in if length scores \<le> j then Inl Undefined
               else
                 (let s = scores ! j - table_score row
                  in if s < scores ! i then
                       Inr (scores[i := s],
                            path[i := \<lparr>path_token_length = table_piece_length row, path_token_id = table_token_id row,
                                       path_num_tokens = path_num_tokens (path ! j) + 1 +
                                         (if table_score row = UNKNOWN_SCORE then extra_bytes c else 0)\<rparr>])
                     else Inr st))
         else Inr st)"

function best_path :: "llm_tokenizer_plamo2 \<Rightarrow> cpt \<Rightarrow> nat \<Rightarrow> nat \<Rightarrow> int list \<times> plamo_path list \<Rightarrow> (int list \<times> plamo_path list) vres" where
  "best_path tk c i p st =
     (if p < length (pl_table tk) then
        (let row = pl_table tk ! p
         in case better_path c i row st of Inl e \<Rightarrow> Inl e
            | Inr st' \<Rightarrow> if table_score row = UNKNOWN_SCORE then Inr st' else best_path tk c i (p + 1) st')
      else Inr st)"
  by pat_completeness auto
termination
  by (relation "measure (\<lambda>(tk, c, i, p, st). length (pl_table tk) - p)") auto

declare next_suffix.simps [simp del] best_path.simps [simp del]

text \<open>The loop from the end of the text, with \<open>i\<close> code points left.\<close>

fun plamo_scan_text :: "llm_tokenizer_plamo2 \<Rightarrow> cpt list \<Rightarrow> nat \<Rightarrow> nat \<Rightarrow> int list \<times> plamo_path list \<Rightarrow> (int list \<times> plamo_path list) vres" where
  "plamo_scan_text tk cs 0 suffix_id st = Inr st"
| "plamo_scan_text tk cs (Suc i) suffix_id st =
     (let suffix_id' = next_suffix tk (cs ! i) suffix_id suffix_id
      in case best_path tk (cs ! i) i suffix_id' st of Inl e \<Rightarrow> Inl e
         | Inr st' \<Rightarrow> plamo_scan_text tk cs i suffix_id' st')"

definition fallback_byte :: "cpt \<Rightarrow> nat \<Rightarrow> nat \<Rightarrow> byte" where
  "fallback_byte c s i = (if s = 1 then ucast c else if i = 0 then ucast (drop_bit s (0xF00 :: 32 word) AND 0xFF) else 0x80)"

definition fallback_index :: "cpt \<Rightarrow> nat \<Rightarrow> nat \<Rightarrow> nat" where
  "fallback_index c s i = unat ((ucast (fallback_byte c s i) :: 32 word) OR (drop_bit ((s - i - 1) * 6) c AND 0x3F))"

fun fallback_tokens :: "llama_token list \<Rightarrow> cpt \<Rightarrow> nat \<Rightarrow> nat list \<Rightarrow> llama_token list vres" where
  "fallback_tokens bytes c s [] = Inr []"
| "fallback_tokens bytes c s (i # is) =
     (if length bytes \<le> fallback_index c s i then Inl Undefined
      else case fallback_tokens bytes c s is of Inl e \<Rightarrow> Inl e | Inr ts \<Rightarrow> Inr (bytes ! fallback_index c s i # ts))"

partial_function (option) plamo_decode ::
  "llm_tokenizer_plamo2 \<Rightarrow> cpt list \<Rightarrow> plamo_path list \<Rightarrow> nat \<Rightarrow> llama_token list \<Rightarrow> llama_token list vres option" where
  "plamo_decode tk cs path pos token_ids =
     (if pos < length cs then
        (let p = path ! pos;
             added = (if path_token_id p \<ge> 0 then Inr [path_token_id p]
                      else fallback_tokens (pl_bytes tk) (cs ! pos) (1 + extra_bytes (cs ! pos)) [0..<1 + extra_bytes (cs ! pos)])
         in case added of Inl e \<Rightarrow> Some (Inl e)
            | Inr ts \<Rightarrow> plamo_decode tk cs path (pos + path_token_length p) (token_ids @ ts))
      else Some (Inr token_ids))"

declare plamo_decode.simps [code]

definition plamo_encode :: "llm_tokenizer_plamo2 \<Rightarrow> str \<Rightarrow> llama_token list vres option" where
  "plamo_encode tk txt =
     (let unicode_data = unicode_cpts_from_utf8 txt;
          cs = (if unicode_data \<noteq> [] \<and> hd unicode_data = 0xFEFF then tl unicode_data else unicode_data)
      in if cs = [] then Some (Inr [])
         else
           (let n = length cs
            in case plamo_scan_text tk cs n 0
                      ((replicate (n + 1) (2 ^ 60))[n := 0],
                       replicate (n + 1) \<lparr>path_token_length = 0, path_token_id = 0, path_num_tokens = 0\<rparr>) of
                 Inl e \<Rightarrow> Some (Inl e)
               | Inr (scores, path) \<Rightarrow> plamo_decode tk cs path 0 []))"

definition plamo_tokenize :: "llm_tokenizer_plamo2 \<Rightarrow> str \<Rightarrow> llama_token list \<Rightarrow> llama_token list vres option" where
  "plamo_tokenize tk txt output =
     map_option (\<lambda>r. case r of Inl e \<Rightarrow> Inl e | Inr tokens \<Rightarrow> Inr (output @ tokens)) (plamo_encode tk txt)"

section \<open>The byte fallback\<close>

lemma fallback_lead:
  "(c::cpt) < 0x800 \<Longrightarrow> (0xC0 :: 32 word) OR (drop_bit 6 c AND 0x3F) = widen (low_byte (0xc0 OR (drop_bit 6 c AND 0x1f)))"
  "(c::cpt) < 0x10000 \<Longrightarrow> (0xE0 :: 32 word) OR (drop_bit 12 c AND 0x3F) = widen (low_byte (0xe0 OR (drop_bit 12 c AND 0x0f)))"
  "(c::cpt) < 0x200000 \<Longrightarrow> (0xF0 :: 32 word) OR (drop_bit 18 c AND 0x3F) = widen (low_byte (0xf0 OR (drop_bit 18 c AND 0x07)))"
  "(0x80 :: 32 word) OR (x AND 0x3F) = widen (low_byte (0x80 OR (x AND 0x3f)))"
proof -
  have b11: "c < 0x800 \<Longrightarrow> bit c n \<Longrightarrow> n < 11" for n using low_bits[of c 11] by simp
  show "c < 0x800 \<Longrightarrow> (0xC0 :: 32 word) OR (drop_bit 6 c AND 0x3F) = widen (low_byte (0xc0 OR (drop_bit 6 c AND 0x1f)))"
    by (rule bit_word_eqI) (auto simp: utf8_bits dest: b11)
  have b16: "c < 0x10000 \<Longrightarrow> bit c n \<Longrightarrow> n < 16" for n using low_bits[of c 16] by simp
  show "c < 0x10000 \<Longrightarrow> (0xE0 :: 32 word) OR (drop_bit 12 c AND 0x3F) = widen (low_byte (0xe0 OR (drop_bit 12 c AND 0x0f)))"
    by (rule bit_word_eqI) (auto simp: utf8_bits dest: b16)
  have b21: "c < 0x200000 \<Longrightarrow> bit c n \<Longrightarrow> n < 21" for n using low_bits[of c 21] by simp
  show "c < 0x200000 \<Longrightarrow> (0xF0 :: 32 word) OR (drop_bit 18 c AND 0x3F) = widen (low_byte (0xf0 OR (drop_bit 18 c AND 0x07)))"
    by (rule bit_word_eqI) (auto simp: utf8_bits dest: b21)
  show "(0x80 :: 32 word) OR (x AND 0x3F) = widen (low_byte (0x80 OR (x AND 0x3f)))"
    by (rule bit_word_eqI) (auto simp: utf8_bits)
qed

lemma unat_widen: "unat (widen b) = unat b"
proof -
  have "unat b < 256" using unsigned_less[of b] by simp
  then show ?thesis by (simp add: widen_def unsigned_ucast_eq take_bit_nat_eq_self)
qed

lemmas fallback_units = fallback_lead[THEN arg_cong[where f = unat], unfolded unat_widen]

lemma upt_counts: "[0..<1 + 1] = [0, 1 :: nat]" "[0..<1 + 2] = [0, 1, 2 :: nat]" "[0..<1 + 3] = [0, 1, 2, 3 :: nat]"
  by code_simp+

lemma fallback_index_bytes:
  assumes "unicode_cpt_to_utf8 c = Some bs"
  shows "map (fallback_index c (1 + extra_bytes c)) [0..<1 + extra_bytes c] = map unat bs"
proof -
  consider (1) "c \<le> 0x7f" | (2) "\<not> c \<le> 0x7f" "c \<le> 0x7ff"
    | (3) "\<not> c \<le> 0x7f" "\<not> c \<le> 0x7ff" "c \<le> 0xffff"
    | (4) "\<not> c \<le> 0x7f" "\<not> c \<le> 0x7ff" "\<not> c \<le> 0xffff" "c \<le> 0x10ffff"
    using assms by (auto simp: unicode_cpt_to_utf8_def split: if_splits)
  then show ?thesis
  proof cases
    case 1
    have "c AND 0x3F OR c = c" by (rule bit_word_eqI) (auto simp: bit_simps)
    moreover have "\<not> 0x80 \<le> c" "\<not> 0x800 \<le> c" "\<not> 0x10000 \<le> c" using 1 by (simp_all add: cpt_gaps word_le_nat_alt)
    ultimately show ?thesis using assms 1 widen_low_byte[OF 1] unat_widen[of "low_byte c"]
      by (simp add: unicode_cpt_to_utf8_def fallback_index_def fallback_byte_def extra_bytes_def low_byte_def widen_def or.commute) auto
  next
    case 2
    then have c: "c < 0x800" by (simp add: word_le_nat_alt word_less_nat_alt)
    have e: "extra_bytes c = 1" using 2 by (simp add: extra_bytes_def word_le_nat_alt)
    have "bs = [low_byte (0xc0 OR (drop_bit 6 c AND 0x1f)), low_byte (0x80 OR (c AND 0x3f))]" using assms 2 by (simp add: unicode_cpt_to_utf8_def cpt_gaps)
    then show ?thesis unfolding e upt_counts
      by (simp add: fallback_index_def fallback_byte_def fallback_units(1)[OF c] fallback_units(4)[of c] fallback_units(4)[of "drop_bit 6 c"]
          fallback_units(4)[of "drop_bit 12 c"])
  next
    case 3
    then have c: "c < 0x10000" by (simp add: word_le_nat_alt word_less_nat_alt)
    have e: "extra_bytes c = 2" using 3 by (simp add: extra_bytes_def word_le_nat_alt)
    have "bs = [low_byte (0xe0 OR (drop_bit 12 c AND 0x0f)), low_byte (0x80 OR (drop_bit 6 c AND 0x3f)), low_byte (0x80 OR (c AND 0x3f))]" using assms 3 by (simp add: unicode_cpt_to_utf8_def cpt_gaps)
    then show ?thesis unfolding e upt_counts
      by (simp add: fallback_index_def fallback_byte_def fallback_units(2)[OF c] fallback_units(4)[of c] fallback_units(4)[of "drop_bit 6 c"]
          fallback_units(4)[of "drop_bit 12 c"])
  next
    case 4
    then have c: "c < 0x200000" by (simp add: word_le_nat_alt word_less_nat_alt)
    have e: "extra_bytes c = 3" using 4 by (simp add: extra_bytes_def word_le_nat_alt)
    have "bs = [low_byte (0xf0 OR (drop_bit 18 c AND 0x07)), low_byte (0x80 OR (drop_bit 12 c AND 0x3f)), low_byte (0x80 OR (drop_bit 6 c AND 0x3f)), low_byte (0x80 OR (c AND 0x3f))]" using assms 4 by (simp add: unicode_cpt_to_utf8_def cpt_gaps)
    then show ?thesis unfolding e upt_counts
      by (simp add: fallback_index_def fallback_byte_def fallback_units(3)[OF c] fallback_units(4)[of c] fallback_units(4)[of "drop_bit 6 c"]
          fallback_units(4)[of "drop_bit 12 c"])
  qed
qed

lemma fallback_tokens_map: "(\<forall>i \<in> set is. fallback_index c s i < length bytes) \<Longrightarrow>
    fallback_tokens bytes c s is = Inr (map (\<lambda>i. bytes ! fallback_index c s i) is)"
  by (induction "is") auto

text \<open>The byte fallback of the PLaMo-2 tokenizer emits, for every code point that has a UTF-8 encoding, the tokens of the bytes of
  that encoding in their order, although it computes them with one shift expression instead of the encoder.\<close>

theorem plamo_fallback_utf8:
  assumes "unicode_cpt_to_utf8 c = Some bs" "length bytes = 256"
  shows "fallback_tokens bytes c (1 + extra_bytes c) [0..<1 + extra_bytes c] = Inr (map (\<lambda>b. bytes ! unat b) bs)"
proof -
  let ?s = "1 + extra_bytes c"
  note idx = fallback_index_bytes[OF assms(1)]
  have "fallback_index c ?s i < 256" if "i \<in> set [0..<?s]" for i
  proof -
    have "fallback_index c ?s i \<in> set (map unat bs)" unfolding idx[symmetric] using that by (simp only: set_map imageI)
    then obtain b :: byte where "fallback_index c ?s i = unat b" by auto
    then show ?thesis using unsigned_less[of b] by simp
  qed
  then have "fallback_tokens bytes c ?s [0..<?s] = Inr (map (\<lambda>i. bytes ! fallback_index c ?s i) [0..<?s])"
    using assms(2) by (intro fallback_tokens_map) simp
  also have "map (\<lambda>i. bytes ! fallback_index c ?s i) [0..<?s] = map (\<lambda>n. bytes ! n) (map (fallback_index c ?s) [0..<?s])" by simp
  finally show ?thesis unfolding idx by (simp add: comp_def)
qed

lemma plamo_fallback_utf8_witness:
  "fallback_tokens (map int [0..<256]) 0x20ac 3 [0..<3] = Inr [0xe2, 0x82, 0xac]"
proof -
  have e: "1 + extra_bytes 0x20ac = 3" by (simp add: extra_bytes_def)
  have "unicode_cpt_to_utf8 0x20ac = Some [0xe2, 0x82, 0xac]" by (simp add: unicode_cpt_to_utf8_def low_byte_def)
  from plamo_fallback_utf8[OF this, of "map int [0..<256]"] show ?thesis unfolding e by simp
qed

end
