(* ===== verification/TokDecodeProps.thy ===== *)
theory TokDecodeProps
  imports TokDecode
begin

text \<open>
  What detokenization guarantees: the buffer protocol of \<open>token_to_piece\<close>, the text of a token sequence as the concatenation
  of the pieces whatever the size of the buffer, the in-place passes over the spaces as list functions, and the round trip of
  escaped whitespace.
\<close>

section \<open>The buffer protocol\<close>

text \<open>A function of the buffer length answers with a text if it fits and with the negated size if not.\<close>

definition answers :: "(int \<Rightarrow> (int \<times> str) vres) \<Rightarrow> str \<Rightarrow> bool" where
  "answers f s \<longleftrightarrow> (\<forall>len \<ge> 0. f len = Inr (if len < int (length s) then (- int (length s), []) else (int (length s), s)))"

lemma answers_fail: "(\<forall>len. f len = Inl e) \<or> answers f s \<Longrightarrow> f len = Inl e' \<Longrightarrow> 0 \<le> len \<Longrightarrow> \<forall>len. f len = Inl e'"
  by (auto simp: answers_def)

lemma try_copy_answers: "(\<forall>len. try_copy len lstrip s = Inl Abort) \<or> answers (\<lambda>len. try_copy len lstrip s) (skip_spaces (nat lstrip) s)"
  by (auto simp: answers_def try_copy_def Let_def)

lemma empty_answers: "answers (\<lambda>len. Inr (0, [])) []"
  by (simp add: answers_def)

lemma rwkv_piece_answers: "answers (\<lambda>len. rwkv_piece len s) (llama_unescape_rwkv_token s)"
  by (auto simp: answers_def rwkv_piece_def Let_def)

definition protocol :: "(int \<Rightarrow> (int \<times> str) vres) \<Rightarrow> bool" where
  "protocol f \<longleftrightarrow> (\<exists>e. \<forall>len. f len = Inl e) \<or> (\<exists>s. answers f s)"

lemma protocol_intros:
  "protocol (\<lambda>len. Inl e)" "protocol (\<lambda>len. Inr (0, []))" "protocol (\<lambda>len. try_copy len lstrip s)" "protocol (\<lambda>len. rwkv_piece len s)"
  "protocol (\<lambda>len. if len < 1 then Inr (- 1, []) else Inr (1, [b]))"
proof -
  have "answers (\<lambda>len. if len < 1 then Inr (- 1, []) else Inr (1, [b])) [b]" by (simp add: answers_def)
  then show "protocol (\<lambda>len. if len < 1 then Inr (- 1, []) else Inr (1, [b]))" unfolding protocol_def by blast
qed (use try_copy_answers[of lstrip s] empty_answers rwkv_piece_answers[of s] in \<open>unfold protocol_def, blast+\<close>)

lemma protocol_cases:
  "protocol f \<Longrightarrow> protocol g \<Longrightarrow> protocol (\<lambda>len. if c then f len else g len)"
  "(\<And>e. protocol (f' e)) \<Longrightarrow> (\<And>r. protocol (g' r)) \<Longrightarrow> protocol (\<lambda>len. case x of Inl e \<Rightarrow> f' e len | Inr r \<Rightarrow> g' r len)"
  "protocol f \<Longrightarrow> (\<And>r. protocol (h r)) \<Longrightarrow> protocol (\<lambda>len. case y of None \<Rightarrow> f len | Some r \<Rightarrow> h r len)"
  by ((cases c; simp), (cases x; simp), (cases y; simp))

lemma encoded_piece_protocol: "protocol (\<lambda>len. encoded_piece v tok attr decode len lstrip s)"
  unfolding encoded_piece_def by (intro protocol_cases protocol_intros)

lemma plamo2_piece_protocol: "protocol (\<lambda>len. plamo2_piece v tok len lstrip s)"
  unfolding plamo2_piece_def by (intro protocol_cases protocol_intros)

lemma token_to_piece_protocol: "protocol (\<lambda>len. token_to_piece v tok len lstrip special)"
  unfolding token_to_piece_def Let_def
proof (intro protocol_cases protocol_intros)
  show "protocol (\<lambda>len. case v_type v of
       LLAMA_VOCAB_TYPE_NONE \<Rightarrow> Inl Abort
     | LLAMA_VOCAB_TYPE_BPE \<Rightarrow> encoded_piece v tok attr (if v_escape_whitespaces v then Inr \<circ> llama_unescape_whitespace else llama_decode_text) len lstrip s
     | LLAMA_VOCAB_TYPE_RWKV \<Rightarrow> rwkv_piece len s
     | LLAMA_VOCAB_TYPE_PLAMO2 \<Rightarrow> plamo2_piece v tok len lstrip s
     | _ \<Rightarrow> encoded_piece v tok attr (Inr \<circ> llama_unescape_whitespace) len lstrip s)" for attr s
    by (cases "v_type v") (simp_all add: protocol_intros encoded_piece_protocol plamo2_piece_protocol del: o_apply)
qed

text \<open>The text of a token, as a buffer that is large enough shows it.\<close>

definition piece :: "'s llama_vocab \<Rightarrow> bool \<Rightarrow> bool \<Rightarrow> llama_token \<Rightarrow> str option" where
  "piece v special strip tok = (case token_to_piece v tok 2147483647 (if strip then 1 else 0) special of
     Inr (n, s) \<Rightarrow> if n \<ge> 0 then Some s else None | Inl e \<Rightarrow> None)"

lemma piece_answers:
  assumes "piece v special strip tok = Some s"
  shows "answers (\<lambda>len. token_to_piece v tok len (if strip then 1 else 0) special) s"
proof -
  obtain s' where "answers (\<lambda>len. token_to_piece v tok len (if strip then 1 else 0) special) s'"
    using token_to_piece_protocol[of v tok "if strip then 1 else 0" special] assms
    by (auto simp: protocol_def piece_def)
  moreover from this have "s' = s" using assms by (auto simp: answers_def piece_def split: if_splits)
  ultimately show ?thesis by simp
qed

section \<open>The loop over the tokens\<close>

text \<open>The pieces of a token sequence; only the first one may lose a leading space.\<close>

fun pieces_text :: "'s llama_vocab \<Rightarrow> bool \<Rightarrow> bool \<Rightarrow> llama_token list \<Rightarrow> str option" where
  "pieces_text v special strip [] = Some []"
| "pieces_text v special strip (t # ts) =
     (case piece v special strip t of None \<Rightarrow> None
      | Some s \<Rightarrow> map_option (\<lambda>s'. s @ s') (pieces_text v special False ts))"

lemma blit_length: "off + length bytes \<le> length buf \<Longrightarrow> length (blit buf off bytes) = length buf"
  by (simp add: blit_def)

lemma blit_take: "off + length bytes \<le> length buf \<Longrightarrow> take (off + length bytes) (blit buf off bytes) = take off buf @ bytes"
  by (simp add: blit_def)

lemma detok_loop_full:
  "pieces_text v special strip ts = Some out \<Longrightarrow> 0 \<le> total_n \<Longrightarrow>
   \<exists>buf'. detok_loop v special ts buf off 0 total_n strip = Inr (buf', total_n + int (length out)) \<and> (buf' = buf)"
proof (induction ts arbitrary: strip out total_n)
  case (Cons t ts)
  obtain s s' where s: "piece v special strip t = Some s" "pieces_text v special False ts = Some s'" "out = s @ s'"
    using Cons.prems(1) by (auto split: option.splits)
  have "token_to_piece v t 0 (if strip then 1 else 0) special = Inr (if s \<noteq> [] then (- int (length s), []) else (0, []))"
    using piece_answers[OF s(1)] by (auto simp: answers_def)
  then show ?case using Cons.IH[OF s(2), of "total_n + int (length s)"] Cons.prems(2) s(3)
    by (cases "s = []") (auto simp: algebra_simps)
qed simp

lemma detok_loop_pieces:
  "pieces_text v special strip ts = Some out \<Longrightarrow> off \<le> length buf \<Longrightarrow>
   \<exists>buf'. detok_loop v special ts buf off (int (length buf - off)) (int off) strip = Inr (buf', int off + int (length out)) \<and>
     length buf' = length buf \<and> (off + length out \<le> length buf \<longrightarrow> take (off + length out) buf' = take off buf @ out)"
proof (induction ts arbitrary: strip out buf off)
  case (Cons t ts)
  obtain s s' where s: "piece v special strip t = Some s" "pieces_text v special False ts = Some s'" "out = s @ s'"
    using Cons.prems(1) by (auto split: option.splits)
  have ans: "token_to_piece v t (int (length buf - off)) (if strip then 1 else 0) special
      = Inr (if length buf - off < length s then (- int (length s), []) else (int (length s), s))"
    using piece_answers[OF s(1)] by (auto simp: answers_def)
  show ?case
  proof (cases "length buf - off < length s")
    case True
    then show ?thesis using ans detok_loop_full[OF s(2), of "int off + int (length s)" buf off] Cons.prems(2) s(3)
      by (auto simp: algebra_simps)
  next
    case False
    note fits = this
    show ?thesis
    proof (cases "s = []")
      case True
      then show ?thesis using ans Cons.IH[OF s(2) Cons.prems(2)] s(3) by (simp add: algebra_simps)
    next
      case ne: False
      define buf1 where "buf1 = blit buf off s"
      have len: "off + length s \<le> length buf" using fits Cons.prems(2) by linarith
      have b1: "length buf1 = length buf" "take (off + length s) buf1 = take off buf @ s"
        using len by (simp_all add: buf1_def blit_length blit_take)
      have av: "int (length buf - off) - int (length s) = int (length buf1 - (off + length s))" using len b1 by linarith
      have le1: "off + length s \<le> length buf1" using len b1 by simp
      from Cons.IH[OF s(2) le1] obtain buf' where b':
        "detok_loop v special ts buf1 (off + length s) (int (length buf1 - (off + length s))) (int (off + length s)) False
           = Inr (buf', int (off + length s) + int (length s'))"
        "length buf' = length buf1"
        "off + length s + length s' \<le> length buf1 \<longrightarrow> take (off + length s + length s') buf' = take (off + length s) buf1 @ s'"
        by blast
      have "detok_loop v special (t # ts) buf off (int (length buf - off)) (int off) strip
        = detok_loop v special ts buf1 (off + length s) (int (length buf1 - (off + length s))) (int (off + length s)) False"
        using fits ne by (simp add: ans buf1_def[symmetric] av)
      then show ?thesis using b' b1 s(3) by (intro exI[of _ buf']) (simp add: add.assoc)
    qed
  qed
qed simp

section \<open>The passes as list functions\<close>

fun join_punct :: "str \<Rightarrow> str" where
  "join_punct (a # x # s) =
     (if a = 32 \<and> (x = 63 \<or> x = 33 \<or> x = 46 \<or> x = 44) then join_punct (x # s) else a # join_punct (x # s))"
| "join_punct s = s"

fun join_quote :: "str \<Rightarrow> str" where
  "join_quote (a # x # b # s) =
     (if a = 32 \<and> x = 39 \<and> b = 32 then 39 # join_quote s else a # join_quote (x # b # s))"
| "join_quote s = s"

definition contracts :: "str \<Rightarrow> bool" where
  "contracts s \<longleftrightarrow> (\<exists>t. s = 39 # 115 # t \<or> s = 39 # 109 # t \<or> s = 39 # 114 # 101 # t \<or> s = 39 # 118 # 101 # t)"

fun join_contraction :: "str \<Rightarrow> str" where
  "join_contraction (a # s) =
     (if a = 32 \<and> contracts s then join_contraction s else a # join_contraction s)"
| "join_contraction [] = []"

definition clean_text :: "str \<Rightarrow> str" where
  "clean_text s = join_contraction (join_quote (join_punct s))"

lemma join_punct_Nil: "join_punct s = [] \<longleftrightarrow> s = []"
  by (induction s rule: join_punct.induct) auto

lemma join_quote_Nil: "join_quote s = [] \<longleftrightarrow> s = []"
  by (induction s rule: join_quote.induct) auto

text \<open>The state of a pass at index \<open>i\<close>: \<open>pre\<close> and the character \<open>a\<close> are written, \<open>p\<close> is the character read before, \<open>s\<close> is
  what is left.\<close>

definition at_index :: "str \<Rightarrow> nat \<Rightarrow> nat \<Rightarrow> nat \<Rightarrow> str \<Rightarrow> byte \<Rightarrow> byte \<Rightarrow> str \<Rightarrow> bool" where
  "at_index buf n i t pre a p s \<longleftrightarrow> t = length pre + 1 \<and> t \<le> i \<and> i \<le> n \<and> n \<le> length buf \<and> take t buf = pre @ [a] \<and>
     buf ! (i - 1) = p \<and> take (n - i) (drop i buf) = s"

lemma at_indexD:
  assumes "at_index buf n i t pre a p s"
  shows "t = length pre + 1" "t \<le> i" "i \<le> n" "n \<le> length buf" "take t buf = pre @ [a]" "buf ! (i - 1) = p"
    "take (n - i) (drop i buf) = s"
  using assms unfolding at_index_def by blast+

lemma at_index_length: "at_index buf n i t pre a p s \<Longrightarrow> length s = n - i"
  by (auto simp: at_index_def)

lemma at_index_read:
  assumes "at_index buf n i t pre a p s"
  shows "i < n \<longleftrightarrow> s \<noteq> []" "s = x # s' \<Longrightarrow> buf ! i = x" "i + 1 < n \<longleftrightarrow> 1 < length s" "s = x # y # s' \<Longrightarrow> buf ! (i + 1) = y"
    "i + 2 < n \<longleftrightarrow> 2 < length s" "s = x # y # z # s' \<Longrightarrow> buf ! (i + 2) = z" "buf ! (i - 1) = p"
proof -
  have len: "length s = n - i" and at: "\<And>k. k < length s \<Longrightarrow> buf ! (i + k) = s ! k"
    using assms by (auto simp: at_index_def)
  show "i < n \<longleftrightarrow> s \<noteq> []" using len by (cases s) simp_all
  show "i + 1 < n \<longleftrightarrow> 1 < length s" "i + 2 < n \<longleftrightarrow> 2 < length s" using len by auto
  show "s = x # s' \<Longrightarrow> buf ! i = x" "s = x # y # s' \<Longrightarrow> buf ! (i + 1) = y" "s = x # y # z # s' \<Longrightarrow> buf ! (i + 2) = z"
    using at[of 0] at[of 1] at[of 2] by (simp_all add: numeral_2_eq_2)
  show "buf ! (i - 1) = p" using assms by (simp add: at_index_def)
qed

lemma at_index_keep:
  assumes "at_index buf n i t pre a p (x # s)"
  shows "at_index (buf[t := x]) n (i + 1) (t + 1) (pre @ [a]) x x s"
proof -
  have "length (x # s) = n - i" using assms by (rule at_index_length)
  then have i: "i < n" "t < length buf" "t \<le> i" "n \<le> length buf" using assms by (auto simp: at_index_def)
  have at: "buf ! i = x" using at_index_read(2)[OF assms] by simp
  have rest: "take (n - (i + 1)) (drop (i + 1) buf) = s"
    using assms i by (simp add: at_index_def Cons_nth_drop_Suc[symmetric] take_Cons')
  have "take t buf = pre @ [a]" using assms unfolding at_index_def by blast
  then have "take (t + 1) (buf[t := x]) = pre @ [a, x]" using i by (simp add: take_Suc_conv_app_nth)
  moreover have "buf[t := x] ! i = x" using at i by (cases "t = i") simp_all
  ultimately show ?thesis using assms i rest by (simp add: at_index_def)
qed

lemma at_index_pre: "at_index buf n i t pre a p s \<Longrightarrow> take (length pre) buf = pre"
proof -
  assume at: "at_index buf n i t pre a p s"
  have "take (length pre) buf = take (length pre) (take t buf)" using at_indexD(1)[OF at] by simp
  also have "\<dots> = pre" unfolding at_indexD(5)[OF at] by simp
  finally show ?thesis .
qed

lemma at_index_drop:
  assumes "at_index buf n i t pre a p (x # s)"
  shows "at_index (buf[t - 1 := x]) n (i + 1) (t - 1 + 1) pre x x s"
proof -
  have "length (x # s) = n - i" using assms by (rule at_index_length)
  then have i: "i < n" "t < length buf" "t \<le> i" "n \<le> length buf" "t = length pre + 1" using assms by (auto simp: at_index_def)
  have at: "buf ! i = x" using at_index_read(2)[OF assms] by simp
  have rest: "take (n - (i + 1)) (drop (i + 1) buf) = s"
    using assms i by (simp add: at_index_def Cons_nth_drop_Suc[symmetric] take_Cons')
  have "take (length pre) buf = pre" using assms by (rule at_index_pre)
  then have "take t (buf[t - 1 := x]) = pre @ [x]" using i by (simp add: take_Suc_conv_app_nth)
  moreover have "buf[t - 1 := x] ! i = x" using at i by simp
  ultimately show ?thesis using i rest by (simp add: at_index_def)
qed

lemma at_index_done: "at_index buf n i t pre a p [] \<Longrightarrow> take t buf = pre @ [a] \<and> i = n \<and> t = length pre + 1 \<and> t \<le> n"
proof -
  assume at: "at_index buf n i t pre a p []"
  have "i = n" using at_index_length[OF at] at_indexD(3)[OF at] by simp
  then show ?thesis using at_indexD(1,2,5)[OF at] by blast
qed

text \<open>The result of a pass: the text \<open>out\<close> at the start of a buffer of the same length.\<close>

definition yields :: "nat \<Rightarrow> nat \<Rightarrow> str \<times> nat \<Rightarrow> str \<Rightarrow> bool" where
  "yields n len r out \<longleftrightarrow> length (fst r) = len \<and> snd r \<le> n \<and> take (snd r) (fst r) = out \<and> snd r = length out"

lemma yieldsD:
  assumes "yields n len (b, t) out"
  shows "length b = len" "t \<le> n" "take t b = out" "t = length out"
  using assms unfolding yields_def fst_conv snd_conv by blast+

lemma at_index_yields: "at_index buf n i t pre a p [] \<Longrightarrow> yields n (length buf) (buf, t) (pre @ [a])"
  unfolding yields_def fst_conv snd_conv using at_index_done by fastforce

lemma clean_pass1_join:
  "at_index buf n i t pre a a s \<Longrightarrow> yields n (length buf) (clean_pass1 n i (buf, t)) (pre @ join_punct (a # s))"
proof (induction s arbitrary: buf i t pre a)
  case Nil
  then show ?case using at_index_done[OF Nil] at_index_yields[OF Nil] by (subst clean_pass1.simps) simp
next
  case (Cons x s)
  note r = at_index_read[OF Cons.prems]
  show ?case
  proof (cases "a = 32 \<and> (x = 63 \<or> x = 33 \<or> x = 46 \<or> x = 44)")
    case True
    then have "clean_pass1 n i (buf, t) = clean_pass1 n (i + 1) (buf[t - 1 := x], t - 1 + 1)"
      using r(1,2,7) by (subst clean_pass1.simps) (simp add: Let_def)
    moreover have "join_punct (a # x # s) = join_punct (x # s)" using True by simp
    ultimately show ?thesis using Cons.IH[OF at_index_drop[OF Cons.prems]] by simp
  next
    case False
    then have "clean_pass1 n i (buf, t) = clean_pass1 n (i + 1) (buf[t := x], t + 1)"
      using r(1,2,7) by (subst clean_pass1.simps) (auto simp: Let_def)
    moreover have "join_punct (a # x # s) = a # join_punct (x # s)" using False by auto
    ultimately show ?thesis using Cons.IH[OF at_index_keep[OF Cons.prems]] by simp
  qed
qed

lemma clean_pass3_join:
  "at_index buf n i t pre a a s \<Longrightarrow> yields n (length buf) (clean_pass3 n i (buf, t)) (pre @ join_contraction (a # s))"
proof (induction s arbitrary: buf i t pre a)
  case Nil
  then show ?case using at_index_done[OF Nil] at_index_yields[OF Nil] by (subst clean_pass3.simps) (simp add: contracts_def)
next
  case (Cons x s)
  note r = at_index_read[OF Cons.prems]
  have c: "x = 39 \<and> i + 1 < n \<and> contraction n i buf \<longleftrightarrow> contracts (x # s)"
  proof (cases s)
    case Nil
    then show ?thesis using r(3) by (simp add: contracts_def)
  next
    case (Cons y s')
    then show ?thesis using r(3-6) by (cases s') (auto simp: contracts_def contraction_def Let_def)
  qed
  show ?case
  proof (cases "a = 32 \<and> contracts (x # s)")
    case True
    then have "clean_pass3 n i (buf, t) = clean_pass3 n (i + 1) (buf[t - 1 := x], t - 1 + 1)"
      using r(1,2,7) c by (subst clean_pass3.simps) (simp add: Let_def)
    moreover have "join_contraction (a # x # s) = join_contraction (x # s)" using True by (subst join_contraction.simps) simp
    ultimately show ?thesis using Cons.IH[OF at_index_drop[OF Cons.prems]] by simp
  next
    case False
    then have "clean_pass3 n i (buf, t) = clean_pass3 n (i + 1) (buf[t := x], t + 1)"
      using r(1,2,7) c by (subst clean_pass3.simps) (auto simp: Let_def)
    moreover have "join_contraction (a # x # s) = a # join_contraction (x # s)" using False by (subst join_contraction.simps) auto
    ultimately show ?thesis using Cons.IH[OF at_index_keep[OF Cons.prems]] by simp
  qed
qed

text \<open>After a quote the second pass has overwritten the space behind it, so nothing matches at the next character.\<close>

lemma at_index_quote:
  assumes "at_index buf n i t pre a p (x # y # s)"
  shows "at_index (buf[i + 1 := 0, t - 1 := x]) n (i + 2) (t - 1 + 1) pre x 0 s"
proof -
  have "length (x # y # s) = n - i" using assms by (rule at_index_length)
  then have i: "i + 1 < n" "t \<le> i" "n \<le> length buf" "t = length pre + 1" using assms by (auto simp: at_index_def)
  have d: "drop i buf = buf ! i # buf ! (i + 1) # drop (i + 2) buf"
    using i by (simp add: Cons_nth_drop_Suc[symmetric])
  have n: "n - i = Suc (Suc (n - (i + 2)))" using i by simp
  have rest: "take (n - (i + 2)) (drop (i + 2) buf) = s" using assms unfolding at_index_def d n by simp
  have "take t (buf[i + 1 := 0, t - 1 := x]) = pre @ [x]"
    using i at_index_pre[OF assms] by (simp add: take_Suc_conv_app_nth)
  then show ?thesis using i rest by (simp add: at_index_def)
qed

lemma clean_pass2_join:
  "(at_index buf n i t pre a a s \<longrightarrow> yields n (length buf) (clean_pass2 n i (buf, t)) (pre @ join_quote (a # s))) \<and>
   (at_index buf n i t pre a 0 s \<longrightarrow> yields n (length buf) (clean_pass2 n i (buf, t)) (pre @ a # join_quote s))"
proof (induction "length s" arbitrary: s buf i t pre a rule: less_induct)
  case less
  show ?case
  proof (cases s)
    case Nil
    have "yields n (length buf) (clean_pass2 n i (buf, t)) (pre @ [a])" if "at_index buf n i t pre a p []" for p
      using at_index_done[OF that] at_index_yields[OF that] by (subst clean_pass2.simps) simp
    then show ?thesis using Nil by auto
  next
    case (Cons x s')
    have keep: "yields n (length buf) (clean_pass2 n i (buf, t)) (pre @ a # join_quote s)"
      if at: "at_index buf n i t pre a p s" and no: "\<not> (x = 39 \<and> s' \<noteq> [] \<and> p = 32 \<and> hd s' = 32)" for p
    proof -
      note at' = at_index_keep[OF at[unfolded Cons]]
      have eq: "clean_pass2 n i (buf, t) = clean_pass2 n (i + 1) (buf[t := x], t + 1)"
        using at_index_read[OF at] no Cons by (subst clean_pass2.simps) (cases s'; auto simp: Let_def)
      have "length s' < length s" using Cons by simp
      from less[OF this, of "buf[t := x]" "i + 1" "t + 1" "pre @ [a]" x] at'
      have "yields n (length (buf[t := x])) (clean_pass2 n (i + 1) (buf[t := x], t + 1)) ((pre @ [a]) @ join_quote (x # s'))" by blast
      then show ?thesis unfolding eq Cons by simp
    qed
    show ?thesis
    proof (intro conjI impI)
      assume at: "at_index buf n i t pre a 0 s"
      then show "yields n (length buf) (clean_pass2 n i (buf, t)) (pre @ a # join_quote s)" by (rule keep) simp
    next
      assume at: "at_index buf n i t pre a a s"
      show "yields n (length buf) (clean_pass2 n i (buf, t)) (pre @ join_quote (a # s))"
      proof (cases "x = 39 \<and> s' \<noteq> [] \<and> a = 32 \<and> hd s' = 32")
        case True
        then obtain s2 where s2: "s' = 32 # s2" by (cases s') auto
        have eq: "clean_pass2 n i (buf, t) = clean_pass2 n (i + 2) (buf[i + 1 := 0, t - 1 := x], t - 1 + 1)"
          using at_index_read[OF at] Cons s2 True by (subst clean_pass2.simps) (simp add: Let_def)
        have "at_index (buf[i + 1 := 0, t - 1 := x]) n (i + 2) (t - 1 + 1) pre x 0 s2"
          using at_index_quote at Cons s2 by metis
        moreover have "length s2 < length s" using Cons s2 by simp
        ultimately have "yields n (length (buf[i + 1 := 0, t - 1 := x])) (clean_pass2 n (i + 2) (buf[i + 1 := 0, t - 1 := x], t - 1 + 1)) (pre @ x # join_quote s2)"
          using less by blast
        then show ?thesis unfolding eq using True Cons s2 by simp
      next
        case False
        have "join_quote (a # s) = a # join_quote s" using False Cons by (cases s') auto
        then show ?thesis using keep[OF at False] by simp
      qed
    qed
  qed
qed

text \<open>All passes together, on a buffer that starts with \<open>out\<close>.\<close>

lemma start_at_index:
  "n \<le> length buf \<Longrightarrow> take n buf = a # s \<Longrightarrow> at_index buf n 1 1 [] a a s"
  by (cases buf; cases n) (auto simp: at_index_def)

lemma clean_passes_text:
  assumes "n \<le> length buf" "take n buf = out" "n = length out"
  shows "yields n (length buf) (clean_passes buf n) (clean_text out)"
proof (cases out)
  case Nil
  then show ?thesis using assms by (simp add: clean_passes_def yields_def clean_text_def clean_pass1.simps clean_pass2.simps clean_pass3.simps)
next
  case (Cons a s)
  have n0: "n \<noteq> 0" using assms(3) Cons by simp
  obtain b1 t1 where p1: "clean_pass1 n 1 (buf, 1) = (b1, t1)" by (cases "clean_pass1 n 1 (buf, 1)")
  have y1: "length b1 = length buf" "t1 \<le> n" "take t1 b1 = join_punct out" "t1 = length (join_punct out)"
    using yieldsD[of n "length buf" b1 t1 "join_punct out"] clean_pass1_join[OF start_at_index[OF assms(1)], of a s] assms(2) Cons p1 by auto
  obtain a1 s1 where j1: "join_punct out = a1 # s1" using Cons by (cases "join_punct out") (auto simp: join_punct_Nil)
  obtain b2 t2 where p2: "clean_pass2 t1 1 (b1, 1) = (b2, t2)" by (cases "clean_pass2 t1 1 (b1, 1)")
  have "at_index b1 t1 1 1 [] a1 a1 s1" using start_at_index[of t1 b1 a1 s1] y1 assms(1) j1 by simp
  then have y2: "length b2 = length buf" "t2 \<le> t1" "take t2 b2 = join_quote (join_punct out)" "t2 = length (join_quote (join_punct out))"
    using yieldsD[of t1 "length buf" b2 t2 "join_quote (join_punct out)"] clean_pass2_join[of b1 t1 1 1 "[]" a1 s1] j1 y1(1) p2 by auto
  obtain a2 s2 where j2: "join_quote (join_punct out) = a2 # s2"
    using j1 by (cases "join_quote (join_punct out)") (auto simp: join_quote_Nil)
  obtain b3 t3 where p3: "clean_pass3 t2 1 (b2, 1) = (b3, t3)" by (cases "clean_pass3 t2 1 (b2, 1)")
  have "at_index b2 t2 1 1 [] a2 a2 s2" using start_at_index[of t2 b2 a2 s2] y1 y2 assms(1) j2 by simp
  then have y3: "length b3 = length buf" "t3 \<le> t2" "take t3 b3 = clean_text out" "t3 = length (clean_text out)"
    using yieldsD[of t2 "length buf" b3 t3 "clean_text out"] clean_pass3_join[of b2 t2 1 1 "[]" a2 s2] j2 y2(1) p3
    unfolding clean_text_def by auto
  have "t1 \<noteq> 0" "t2 \<noteq> 0" using y1(4) y2(4) j1 j2 by simp_all
  then have "clean_passes buf n = (b3, t3)" using n0 p1 p2 p3 by (simp add: clean_passes_def)
  then show ?thesis using y1 y2 y3 by (simp add: yields_def)
qed

section \<open>The text of a token sequence\<close>

definition final_text :: "'s llama_vocab \<Rightarrow> str \<Rightarrow> str" where
  "final_text v out = (if v_clean_spaces v then clean_text out else out)"

lemma clean_text_length: "length (clean_text s) \<le> length s"
proof -
  have "length (join_contraction s) \<le> length s" for s by (induction s) auto
  moreover have "length (join_quote s) \<le> length s" for s by (induction s rule: join_quote.induct) auto
  moreover have "length (join_punct s) \<le> length s" for s by (induction s rule: join_punct.induct) auto
  ultimately show ?thesis unfolding clean_text_def by (meson le_trans)
qed

lemma detokenize_buf_text:
  assumes "v_type v \<noteq> LLAMA_VOCAB_TYPE_NONE"
    and out: "remove_bos_eos v remove_special tokens = (ts, strip)" "pieces_text v special strip ts = Some out"
  shows "\<exists>buf'. detokenize_buf v tokens buf remove_special special
      = Inr (buf', if length buf < length out then - int (length out) else int (length (final_text v out))) \<and>
    length buf' = length buf \<and> (length out \<le> length buf \<longrightarrow> take (length (final_text v out)) buf' = final_text v out)"
proof -
  obtain buf1 where b1: "detok_loop v special ts buf 0 (int (length buf)) 0 strip = Inr (buf1, int (length out))"
    "length buf1 = length buf" "length out \<le> length buf \<longrightarrow> take (length out) buf1 = out"
    using detok_loop_pieces[OF out(2), of 0 buf] by auto
  show ?thesis
  proof (cases "length buf < length out")
    case True
    then show ?thesis using assms(1) out(1) b1 by (simp add: detokenize_buf_def)
  next
    case False
    then have fits: "length out \<le> length buf1" "take (length out) buf1 = out" using b1 by simp_all
    show ?thesis
    proof (cases "v_clean_spaces v")
      case False
      then show ?thesis using fits b1 assms(1) out(1) by (simp add: detokenize_buf_def final_text_def)
    next
      case True
      obtain b' t' where c: "clean_passes buf1 (length out) = (b', t')" by (cases "clean_passes buf1 (length out)")
      have "yields (length out) (length buf1) (b', t') (clean_text out)" using clean_passes_text[OF fits refl] unfolding c .
      note y = yieldsD[OF this]
      have "detokenize_buf v tokens buf remove_special special = Inr (b', int t')"
        using True fits b1 y assms(1) out(1) by (simp add: detokenize_buf_def c)
      then show ?thesis using y True fits b1 by (simp add: final_text_def)
    qed
  qed
qed

lemma str_resize_take: "n \<le> length s \<Longrightarrow> str_resize s n = take n s"
  by (simp add: str_resize_def)

lemma str_resize_length: "length (str_resize s n) = n"
  by (auto simp: str_resize_def)

lemma detokenize_text:
  assumes "v_type v \<noteq> LLAMA_VOCAB_TYPE_NONE" "pieces_text v special (v_add_space_prefix v) tokens = Some out"
  shows "detokenize v capacity tokens special = Inr (final_text v out)"
proof -
  have rm: "remove_bos_eos v False tokens = (tokens, v_add_space_prefix v)" by (simp add: remove_bos_eos_def)
  note buf = detokenize_buf_text[OF assms(1) rm assms(2)]
  define b0 where "b0 = str_resize [] (max capacity (length tokens))"
  obtain b1 where b1: "detokenize_buf v tokens b0 False special
      = Inr (b1, if length b0 < length out then - int (length out) else int (length (final_text v out)))"
    "length b1 = length b0" "length out \<le> length b0 \<longrightarrow> take (length (final_text v out)) b1 = final_text v out"
    using buf[of b0] by blast
  have fl: "length (final_text v out) \<le> length out" using clean_text_length by (simp add: final_text_def)
  show ?thesis
  proof (cases "length b0 < length out")
    case True
    define b2 where "b2 = str_resize b1 (length out)"
    have l2: "length b2 = length out" by (simp add: b2_def str_resize_length)
    obtain b3 where b3: "detokenize_buf v tokens b2 False special = Inr (b3, int (length (final_text v out)))"
      "length b3 = length b2" "take (length (final_text v out)) b3 = final_text v out"
      using buf[of b2] l2 by auto
    have "out \<noteq> []" using True by auto
    then show ?thesis using True b1 b3 fl l2 by (simp add: detokenize_def b0_def[symmetric] b2_def[symmetric] str_resize_take)
  next
    case False
    then show ?thesis using b1 fl by (simp add: detokenize_def b0_def[symmetric] str_resize_take)
  qed
qed

text \<open>C19. \<open>detokenize\<close> returns the same text for every initial buffer capacity: the concatenation of the pieces of the tokens, the
  first without its leading space if a space prefix was added, and with the spaces cleaned as the three list functions say; the
  piece of a token is what \<open>token_to_piece\<close> writes to a buffer that is large enough.\<close>

theorem detokenize_any_capacity:
  assumes "v_type v \<noteq> LLAMA_VOCAB_TYPE_NONE" "pieces_text v special (v_add_space_prefix v) tokens = Some out"
  shows "detokenize v capacity tokens special = Inr (if v_clean_spaces v then clean_text out else out)"
  using detokenize_text[OF assms] by (simp add: final_text_def)

text \<open>A vocabulary of the pieces \<open>Hi\<close>, \<open> it\<close>, \<open> '\<close>, \<open>s\<close> and \<open> !\<close>, cached.\<close>

definition cached_vocab :: "int llama_vocab" where
  "cached_vocab = (blank_vocab LLAMA_VOCAB_TYPE_SPM)\<lparr>
     id_to_token := replicate 5 \<lparr>td_text = [], td_score = 0, td_attr = LLAMA_TOKEN_ATTR_NORMAL\<rparr>,
     cache_token_to_piece := [[32, 72, 105], [32, 105, 116], [32, 39], [115], [32, 33]],
     v_add_space_prefix := True, v_clean_spaces := True\<rparr>"

lemma detokenize_any_capacity_witness:
  "detokenize cached_vocab 3 [0, 1, 2, 3, 4] False = Inr [72, 105, 32, 105, 116, 39, 115, 33]"
proof -
  have p: "pieces_text cached_vocab False (v_add_space_prefix cached_vocab) [0, 1, 2, 3, 4]
    = Some [72, 105, 32, 105, 116, 32, 39, 115, 32, 33]"
    by (simp add: cached_vocab_def blank_vocab_def piece_def token_to_piece_def token_get_attr_def get_token_data_def
        try_copy_def)
  have c: "v_clean_spaces cached_vocab" "v_type cached_vocab \<noteq> LLAMA_VOCAB_TYPE_NONE"
    by (simp_all add: cached_vocab_def blank_vocab_def)
  show ?thesis using detokenize_any_capacity[OF c(2) p, of 3] c(1) by (simp add: clean_text_def contracts_def)
qed

end
