(* ===== verification/TokPreTypes.thy ===== *)
theory TokPreTypes
  imports UnicodeRegex Vocab
begin

text \<open>
  The regular expressions of the BPE pre-tokenizers, by \<open>enum llama_vocab_pre_type\<close> (constructor of \<open>llm_tokenizer_bpe\<close> in
  \<open>src/llama-vocab.cpp\<close>).  An expression is a string of bytes: \<open>re\<close> reads ASCII text in which \<open>%\<close> stands for a backslash, and
  \<open>utf8_literal\<close> gives the UTF-8 encoding of code points.
\<close>

definition utf8_literal :: "cpt list \<Rightarrow> str" where
  "utf8_literal cs = concat (map (\<lambda>c. case unicode_cpt_to_utf8 c of Some bs \<Rightarrow> bs | None \<Rightarrow> []) cs)"

definition regex_llama3 :: str where
  "regex_llama3 =
     re ''(?:'[sS]|'[tT]|'[rR][eE]|'[vV][eE]|'[mM]|'[lL][lL]|'[dD])|[^%r%n%p{L}%p{N}]?%p{L}+|%p{N}{1,3}| ?[^%s%p{L}%p{N}]+[%r%n]*|%s*[%r%n]+|%s+(?!%S)|%s+''"

definition regex_jais2 :: str where
  "regex_jais2 =
     re ''(?:'[sS]|'[tT]|'[rR][eE]|'[vV][eE]|'[mM]|'[lL][lL]|'[dD])|[^%r%n%p{L}%p{N}]?%p{L}+|%p{N}{1,3}| ?[^%s%p{L}%p{N}]+[%r%n]*|%s*[%r%n]+|%s{512}(?!%S)|%s{256}(?!%S)|%s{128}(?!%S)|%s{64}(?!%S)|%s{32}(?!%S)|%s{16}(?!%S)|%s{8}(?!%S)|%s{4}(?!%S)|%s{1,2}(?!%S)|%s{1}''"

definition regex_deepseek_llm_1 :: str where
  "regex_deepseek_llm_1 =
     re ''['' @ utf8_literal [0xD, 0xA] @ re '']''"

definition regex_deepseek_llm_2 :: str where
  "regex_deepseek_llm_2 =
     re ''%s?[A-Za-z'' @ utf8_literal [0xB5, 0xC0] @ re ''-'' @ utf8_literal [0xD6, 0xD8] @ re ''-''
     @ utf8_literal [0xF6, 0xF8] @ re ''-'' @ utf8_literal [0x1BA, 0x1BC] @ re ''-'' @ utf8_literal [0x1BF, 0x1C4] @ re ''-''
     @ utf8_literal [0x293, 0x295] @ re ''-'' @ utf8_literal [0x2AF, 0x370] @ re ''-''
     @ utf8_literal [0x373, 0x376, 0x377, 0x37B] @ re ''-'' @ utf8_literal [0x37D, 0x37F, 0x386, 0x388] @ re ''-''
     @ utf8_literal [0x38A, 0x38C, 0x38E] @ re ''-'' @ utf8_literal [0x3A1, 0x3A3] @ re ''-'' @ utf8_literal [0x3F5, 0x3F7]
     @ re ''-'' @ utf8_literal [0x481, 0x48A] @ re ''-'' @ utf8_literal [0x52F, 0x531] @ re ''-''
     @ utf8_literal [0x556, 0x10A0] @ re ''-'' @ utf8_literal [0x10C5, 0x13A0] @ re ''-'' @ utf8_literal [0x13F5, 0x13F8]
     @ re ''-'' @ utf8_literal [0x13FD, 0x1C90] @ re ''-'' @ utf8_literal [0x1CBA, 0x1CBD] @ re ''-''
     @ utf8_literal [0x1CBF, 0x1D00] @ re ''-'' @ utf8_literal [0x1D2B, 0x1D6B] @ re ''-'' @ utf8_literal [0x1D77, 0x1D79]
     @ re ''-'' @ utf8_literal [0x1D9A, 0x1E00] @ re ''-'' @ utf8_literal [0x1F15, 0x1F18] @ re ''-''
     @ utf8_literal [0x1F1D, 0x1F20] @ re ''-'' @ utf8_literal [0x1F45, 0x1F48] @ re ''-'' @ utf8_literal [0x1F4D, 0x1F50]
     @ re ''-'' @ utf8_literal [0x1F57, 0x1F59, 0x1F5B, 0x1F5D, 0x1F5F] @ re ''-'' @ utf8_literal [0x1F7D, 0x1F80] @ re ''-''
     @ utf8_literal [0x1FB4, 0x1FB6] @ re ''-'' @ utf8_literal [0x1FBC, 0x1FBE, 0x1FC2] @ re ''-''
     @ utf8_literal [0x1FC4, 0x1FC6] @ re ''-'' @ utf8_literal [0x1FCC, 0x1FD0] @ re ''-'' @ utf8_literal [0x1FD3, 0x1FD6]
     @ re ''-'' @ utf8_literal [0x1FDB, 0x1FE0] @ re ''-'' @ utf8_literal [0x1FEC, 0x1FF2] @ re ''-''
     @ utf8_literal [0x1FF4, 0x1FF6] @ re ''-'' @ utf8_literal [0x1FFC, 0x2102, 0x2107, 0x210A] @ re ''-''
     @ utf8_literal [0x2113, 0x2115, 0x2119] @ re ''-'' @ utf8_literal [0x211D, 0x2124, 0x2126, 0x2128, 0x212A] @ re ''-''
     @ utf8_literal [0x212D, 0x212F] @ re ''-'' @ utf8_literal [0x2134, 0x2139, 0x213C] @ re ''-''
     @ utf8_literal [0x213F, 0x2145] @ re ''-'' @ utf8_literal [0x2149, 0x214E, 0x2183, 0x2184, 0x2C00] @ re ''-''
     @ utf8_literal [0x2C7B, 0x2C7E] @ re ''-'' @ utf8_literal [0x2CE4, 0x2CEB] @ re ''-''
     @ utf8_literal [0x2CEE, 0x2CF2, 0x2CF3, 0xA640] @ re ''-'' @ utf8_literal [0xA66D, 0xA680] @ re ''-''
     @ utf8_literal [0xA69B, 0xA722] @ re ''-'' @ utf8_literal [0xA76F, 0xA771] @ re ''-'' @ utf8_literal [0xA787, 0xA78B]
     @ re ''-'' @ utf8_literal [0xA78E, 0xAB70] @ re ''-'' @ utf8_literal [0xABBF, 0xFB00] @ re ''-''
     @ utf8_literal [0xFB06, 0xFB13] @ re ''-'' @ utf8_literal [0xFB17, 0xFF21] @ re ''-'' @ utf8_literal [0xFF3A, 0xFF41]
     @ re ''-'' @ utf8_literal [0xFF5A, 0x10400] @ re ''-'' @ utf8_literal [0x1044F, 0x104B0] @ re ''-''
     @ utf8_literal [0x104D3, 0x104D8] @ re ''-'' @ utf8_literal [0x104FB, 0x10C80] @ re ''-''
     @ utf8_literal [0x10CB2, 0x10CC0] @ re ''-'' @ utf8_literal [0x10CF2, 0x118A0] @ re ''-''
     @ utf8_literal [0x118DF, 0x1E900] @ re ''-'' @ utf8_literal [0x1E943] @ re '']+''"

definition regex_deepseek_llm_3 :: str where
  "regex_deepseek_llm_3 =
     re ''%s?[!-/:-~'' @ utf8_literal [0xFF01] @ re ''-'' @ utf8_literal [0xFF0F, 0xFF1A] @ re ''-''
     @ utf8_literal [0xFF5E, 0x2018] @ re ''-'' @ utf8_literal [0x201F, 0x3000] @ re ''-'' @ utf8_literal [0x3002]
     @ re '']+''"

definition regex_deepseek_llm_4 :: str where
  "regex_deepseek_llm_4 =
     re ''%s+$''"

definition regex_deepseek_llm_5 :: str where
  "regex_deepseek_llm_5 =
     re ''['' @ utf8_literal [0x4E00] @ re ''-'' @ utf8_literal [0x9FA5, 0x800] @ re ''-'' @ utf8_literal [0x4E00, 0xAC00]
     @ re ''-'' @ utf8_literal [0xD7FF] @ re '']+''"

definition regex_deepseek_llm_6 :: str where
  "regex_deepseek_llm_6 =
     re ''%p{N}+''"

definition regex_deepseek3_llm_1 :: str where
  "regex_deepseek3_llm_1 =
     re ''%p{N}{1,3}''"

definition regex_deepseek3_llm_2 :: str where
  "regex_deepseek3_llm_2 =
     re ''['' @ utf8_literal [0x4E00] @ re ''-'' @ utf8_literal [0x9FA5, 0x3040] @ re ''-'' @ utf8_literal [0x309F, 0x30A0]
     @ re ''-'' @ utf8_literal [0x30FF] @ re '']+''"

definition regex_deepseek3_llm_3 :: str where
  "regex_deepseek3_llm_3 =
     re ''[!'' @ utf8_literal [0x22] @ re ''#$'' @ utf8_literal [0x25] @ re ''&'()*+,%-./:;<=>?@%[%%%]^_''
     @ utf8_literal [0x60] @ re ''{|}~][A-Za-z]+|[^'' @ utf8_literal [0xD, 0xA]
     @ re ''%p{L}%p{P}%p{S}]?[%p{L}%p{M}]+| ?[%p{P}%p{S}]+['' @ utf8_literal [0xD, 0xA] @ re '']*|%s*[''
     @ utf8_literal [0xD, 0xA] @ re '']+|%s+(?!%S)|%s+''"

definition regex_youtu_1 :: str where
  "regex_youtu_1 =
     re ''['' @ utf8_literal [0xAC00] @ re ''-'' @ utf8_literal [0xD7A3, 0x3131] @ re ''-'' @ utf8_literal [0x318E]
     @ re '']+|['' @ utf8_literal [0xFF01, 0x2026, 0x201C, 0x201D, 0x2018, 0x2019, 0x2014, 0xFF1A, 0xFF1B, 0xFF0C, 0x3001]
     @ re ''-'' @ utf8_literal [0x303F, 0xFE30] @ re ''-'' @ utf8_literal [0xFE4F] @ re '']+|['' @ utf8_literal [0x3105]
     @ re ''-'' @ utf8_literal [0x312F] @ re '']+|['' @ utf8_literal [0x4E00] @ re ''-'' @ utf8_literal [0x9FA5, 0x3040]
     @ re ''-'' @ utf8_literal [0x309F, 0x30A0] @ re ''-'' @ utf8_literal [0x30FF] @ re '']+''"

definition regex_youtu_2 :: str where
  "regex_youtu_2 =
     re ''[^%r%n%p{L}%p{N}]?[%p{Lu}%p{Lt}%p{Lm}%p{Lo}%p{M}]*[%p{Ll}%p{Lm}%p{Lo}%p{M}]+(?:'[sS]|'[tT]|'[rR][eE]|'[vV][eE]|'[mM]|'[lL][lL]|'[dD])?|[^%r%n%p{L}%p{N}]?[%p{Lu}%p{Lt}%p{Lm}%p{Lo}%p{M}]+[%p{Ll}%p{Lm}%p{Lo}%p{M}]*(?:'[sS]|'[tT]|'[rR][eE]|'[vV][eE]|'[mM]|'[lL][lL]|'[dD])?|%p{N}| ?[^%s%p{L}%p{N}]+[%r%n/]*|%s*[%r%n]+|%s+(?!%S)|%s+''"

definition regex_deepseek_coder_2 :: str where
  "regex_deepseek_coder_2 =
     re ''%s?%p{L}+''"

definition regex_deepseek_coder_3 :: str where
  "regex_deepseek_coder_3 =
     re ''%s?%p{P}+''"

definition regex_deepseek_coder_5 :: str where
  "regex_deepseek_coder_5 =
     re ''%p{N}''"

definition regex_falcon_1 :: str where
  "regex_falcon_1 =
     re ''[%p{P}%$%+<=>%^~%|'' @ utf8_literal [0x60] @ re '']+''"

definition regex_falcon_2 :: str where
  "regex_falcon_2 =
     re '''s|'t|'re|'ve|'m|'ll|'d| ?%p{L}+| ?%p{N}+| ?[^%s%p{L}%p{N}]+|%s+(?!%S)''"

definition regex_falcon_3 :: str where
  "regex_falcon_3 =
     re ''[0-9][0-9][0-9]''"

definition regex_stablelm2 :: str where
  "regex_stablelm2 =
     re ''(?:'[sS]|'[tT]|'[rR][eE]|'[vV][eE]|'[mM]|'[lL][lL]|'[dD])|[^%r%n%p{L}%p{N}]?%p{L}+|%p{N}| ?[^%s%p{L}%p{N}]+[%r%n]*|%s*[%r%n]+|%s+(?!%S)|%s+''"

definition regex_qwen35 :: str where
  "regex_qwen35 =
     re ''(?:'[sS]|'[tT]|'[rR][eE]|'[vV][eE]|'[mM]|'[lL][lL]|'[dD])|[^%r%n%p{L}%p{N}]?[%p{L}%p{M}]+|%p{N}| ?[^%s%p{L}%p{M}%p{N}]+[%r%n]*|%s*[%r%n]+|%s+(?!%S)|%s+''"

definition regex_poro :: str where
  "regex_poro =
     re '' ?[^(%s|.,!?'' @ utf8_literal [0x2026, 0x3002, 0xFF0C, 0x3001, 0x964, 0x6D4, 0x60C] @ re '')]+''"

definition regex_tekken :: str where
  "regex_tekken =
     re ''[^%r%n%p{L}%p{N}]?((?=[%p{L}])([^a-z]))*((?=[%p{L}])([^A-Z]))+|[^%r%n%p{L}%p{N}]?((?=[%p{L}])([^a-z]))+((?=[%p{L}])([^A-Z]))*|%p{N}| ?[^%s%p{L}%p{N}]+[%r%n/]*|%s*[%r%n]+|%s+(?!%S)|%s+''"

definition regex_chameleon_1 :: str where
  "regex_chameleon_1 =
     re ''<sentinel:[0-9]+>''"

definition regex_chameleon_2 :: str where
  "regex_chameleon_2 =
     re ''(IMGIMG)((A|B|C|D|E|F|G|H|I){1,4})Z''"

definition regex_chameleon_3 :: str where
  "regex_chameleon_3 =
     re ''([%t%n]|    |  )''"

definition regex_chameleon_5 :: str where
  "regex_chameleon_5 =
     re ''[%p{P}!-/:-@%[-'' @ utf8_literal [0x60] @ re ''{-~]''"

definition regex_gpt4o :: str where
  "regex_gpt4o =
     re ''[^%r%n%p{L}%p{N}]?((?=[%p{L}])([^a-z]))*((?=[%p{L}])([^A-Z]))+(?:'[sS]|'[tT]|'[rR][eE]|'[vV][eE]|'[mM]|'[lL][lL]|'[dD])?|[^%r%n%p{L}%p{N}]?((?=[%p{L}])([^a-z]))+((?=[%p{L}])([^A-Z]))*(?:'[sS]|'[tT]|'[rR][eE]|'[vV][eE]|'[mM]|'[lL][lL]|'[dD])?|%p{N}{1,3}| ?[^%s%p{L}%p{N}]+[%r%n/]*|%s*[%r%n]+|%s+(?!%S)|%s+''"

definition regex_tiny_aya_1 :: str where
  "regex_tiny_aya_1 =
     re ''%d{1,3}(?=(?:%d{3})*%b)''"

definition regex_tiny_aya_2 :: str where
  "regex_tiny_aya_2 =
     re ''[^%r%n%p{L}%p{N}]?[%p{Lu}%p{Lt}%p{Lm}%p{Lo}%p{M}]*[%p{Ll}%p{Lm}%p{Lo}%p{M}]+(?:'[sS]|'[tT]|'[rR][eE]|'[vV][eE]|'[mM]|'[lL][lL]|'[dD])?|[^%r%n%p{L}%p{N}]?[%p{Lu}%p{Lt}%p{Lm}%p{Lo}%p{M}]+[%p{Ll}%p{Lm}%p{Lo}%p{M}]*(?:'[sS]|'[tT]|'[rR][eE]|'[vV][eE]|'[mM]|'[lL][lL]|'[dD])?|%p{N}{1,3}| ?[^%s%p{L}%p{N}]+[%r%n/]*|%s*[%r%n]+|%s+(?!%S)|%s+''"

definition regex_kimi_k2 :: str where
  "regex_kimi_k2 =
     re ''%p{Han}+''"

definition regex_superbpe_2 :: str where
  "regex_superbpe_2 =
     re ''(?=(%d{3})+(?!%d))''"

definition regex_bailingmoe :: str where
  "regex_bailingmoe =
     re '''(?:[sSdDmMtT]|[lL][lL]|[vV][eE]|[rR][eE])|[^%r%n%p{L}%p{N}]?%p{L}+|%p{N}| ?[^%s%p{L}%p{N}]+[%r%n]*|%s*[%r%n]|%s+(?!%S)|%s+''"

definition regex_seed_coder :: str where
  "regex_seed_coder =
     re ''(?:'[sS]|'[tT]|'[rR][eE]|'[vV][eE]|'[mM]|'[lL][lL]|'[dD])|[^%r%n%p{L}%p{N}]?%p{L}+|%p{N}{1}| ?[^%s%p{L}%p{N}%r%n]+|%s*[%r%n]+|%s+(?!%S)|%s+''"

definition regex_afmoe_1 :: str where
  "regex_afmoe_1 =
     re ''%p{AFMoE_digits}''"

definition regex_afmoe_2 :: str where
  "regex_afmoe_2 =
     re ''['' @ utf8_literal [0x4E00] @ re ''-'' @ utf8_literal [0x9FFF, 0x3400] @ re ''-'' @ utf8_literal [0x4DBF, 0x8C48]
     @ re ''-'' @ utf8_literal [0xFAFF, 0x3040] @ re ''-'' @ utf8_literal [0x309F, 0x30A0] @ re ''-''
     @ utf8_literal [0x30FF, 0xFF65] @ re ''-'' @ utf8_literal [0xFF9F, 0x2F00] @ re ''-'' @ utf8_literal [0x2FDF, 0xE40]
     @ re ''-'' @ utf8_literal [0xE7F, 0xE80] @ re ''-'' @ utf8_literal [0xEFF, 0x1780] @ re ''-''
     @ utf8_literal [0x17FF, 0x1000] @ re ''-'' @ utf8_literal [0x109F, 0xAA60] @ re ''-'' @ utf8_literal [0xAA7F, 0xA9E0]
     @ re ''-'' @ utf8_literal [0xA9FF, 0xAC00] @ re ''-'' @ utf8_literal [0xD7AF, 0x1100] @ re ''-'' @ utf8_literal [0x11FF]
     @ re '']+''"

definition regex_afmoe_3 :: str where
  "regex_afmoe_3 =
     re ''[!'' @ utf8_literal [0x22] @ re ''#$'' @ utf8_literal [0x25] @ re ''&'()*+,%-./:;<=>?@%[%%%]^_''
     @ utf8_literal [0x60]
     @ re ''{|}~][A-Za-z]+|[^%r%n%p{L}%p{P}%p{S}]?[%p{L}%p{M}]+| ?[%p{P}%p{S}]+[%r%n]*|%s*[%r%n]+|%s+(?!%S)|%s+''"

definition regex_exaone_moe :: str where
  "regex_exaone_moe =
     re ''(?:'[sS]|'[tT]|'[rR][eE]|'[vV][eE]|'[mM]|'[lL][lL]|'[dD])|[^%r%n%p{L}%p{N}]?(?:%p{L}%p{M}*(?: %p{L}%p{M}*)*)+|%p{N}| ?[^%s%p{L}%p{N}]+[%r%n/]?|%s*[%r%n]|%s+(?!%S)|%s+''"

definition regex_gemma4 :: str where
  "regex_gemma4 =
     re ''[^%n]+|[%n]+''"

definition regex_default_1 :: str where
  "regex_default_1 =
     re ''[%p{P}%$%+<=>%^~%|]+''"

text \<open>The numbers are the values of the enumeration in \<open>src/llama-vocab.h\<close>.\<close>

definition bpe_regex_exprs :: "nat \<Rightarrow> str list" where
  "bpe_regex_exprs pre_type =
     (if pre_type = 1 then [regex_llama3]
      else if pre_type = 49 then [regex_jais2]
      else if pre_type = 13 \<or> pre_type = 14 then [regex_llama3]
      else if pre_type = 2 then [regex_deepseek_llm_1, regex_deepseek_llm_2, regex_deepseek_llm_3, regex_deepseek_llm_4, regex_deepseek_llm_5, regex_deepseek_llm_6]
      else if pre_type \<in> {28, 38, 48} then [regex_deepseek3_llm_1, regex_deepseek3_llm_2, regex_deepseek3_llm_3]
      else if pre_type = 44 then [regex_youtu_1, regex_youtu_2]
      else if pre_type = 3 then [regex_deepseek_llm_1, regex_deepseek_coder_2, regex_deepseek_coder_3, regex_deepseek_llm_5, regex_deepseek_coder_5]
      else if pre_type = 4 then [regex_falcon_1, regex_falcon_2, regex_falcon_3]
      else if pre_type \<in> {6, 8, 9, 21, 22, 25, 27, 51} then [regex_deepseek_coder_5, regex_falcon_2]
      else if pre_type \<in> {7, 5, 12, 19, 31, 40} then [regex_falcon_2]
      else if pre_type \<in> {10, 11, 36, 43} then [regex_stablelm2]
      else if pre_type = 46 then [regex_qwen35]
      else if pre_type \<in> {15, 23, 24} then [regex_poro]
      else if pre_type = 17 then [regex_llama3]
      else if pre_type = 18 then [regex_poro, regex_deepseek_coder_5]
      else if pre_type = 20 then [regex_tekken]
      else if pre_type = 26 then [regex_chameleon_1, regex_chameleon_2, regex_chameleon_3, regex_deepseek_coder_5, regex_chameleon_5, regex_falcon_2]
      else if pre_type = 29 \<or> pre_type = 41 then [regex_gpt4o]
      else if pre_type = 47 then [regex_tiny_aya_1, regex_tiny_aya_2]
      else if pre_type = 37 then [regex_kimi_k2]
      else if pre_type = 30 then [regex_deepseek_llm_6, regex_superbpe_2]
      else if pre_type = 32 then [regex_bailingmoe]
      else if pre_type = 35 then [regex_seed_coder]
      else if pre_type = 39 then [regex_stablelm2]
      else if pre_type = 42 then [regex_afmoe_1, regex_afmoe_2, regex_afmoe_3]
      else if pre_type = 45 then [regex_exaone_moe]
      else if pre_type = 50 then [regex_gemma4]
      else [regex_default_1, regex_falcon_2, regex_deepseek_llm_6, regex_falcon_3])"

end
