(* ===== verification/TokDispatch.thy ===== *)
theory TokDispatch
  imports TokMergeTheorems TokUgm TokWpm TokPlamo TokPartition TokDecodeProps TokPreTypes UnicodeSplitProps
begin

text \<open>
  \<open>llama_vocab::impl::tokenize\<close>: the text is partitioned by the special tokens, and each fragment of text goes to the tokenizer
  of the vocabulary.  The state that \<open>init_tokenizer\<close> builds is a record; the regular expressions of the standard library are
  two of its fields.  The warnings about doubled tokens only print.
\<close>

record 's tokenizer_env =
  te_tables :: unicode_tables
  te_regex :: "byte regex_lib"
  te_wregex :: "cpt regex_lib"
  te_ops :: "'s float_ops"
  te_ugm :: "'s ugm_tokenizer"
  te_rwkv :: naive_trie
  te_plamo :: llm_tokenizer_plamo2

definition fragment_sub :: "str \<Rightarrow> nat \<Rightarrow> nat \<Rightarrow> str" where
  "fragment_sub raw off n = take n (drop off raw)"

text \<open>The loop over the fragments; \<open>f\<close> is the session's \<open>tokenize\<close>.\<close>

fun each_fragment :: "(str \<Rightarrow> llama_token list \<Rightarrow> llama_token list vres option) \<Rightarrow> str \<Rightarrow> fragment list \<Rightarrow> llama_token list \<Rightarrow>
    llama_token list vres option" where
  "each_fragment f raw [] out = Some (Inr out)"
| "each_fragment f raw (Token tok # fs) out = each_fragment f raw fs (out @ [tok])"
| "each_fragment f raw (Raw_text off n # fs) out =
     Option.bind (f (fragment_sub raw off n) out) (\<lambda>r. case r of Inl e \<Rightarrow> Some (Inl e) | Inr out' \<Rightarrow> each_fragment f raw fs out')"

text \<open>The loop of SPM, which puts a space in front of a text that follows a special token or starts the input.\<close>

fun spm_fragments :: "('s::linorder) llama_vocab \<Rightarrow> str \<Rightarrow> fragment list \<Rightarrow> bool \<Rightarrow> llama_token list \<Rightarrow> llama_token list vres option" where
  "spm_fragments v raw [] is_prev_special out = Some (Inr out)"
| "spm_fragments v raw (Token tok # fs) is_prev_special out = spm_fragments v raw fs True (out @ [tok])"
| "spm_fragments v raw (Raw_text off n # fs) is_prev_special out =
     (let txt = (if v_add_space_prefix v \<and> is_prev_special then [32] else []) @ fragment_sub raw off n
      in Option.bind (spm_tokenize v (llama_escape_whitespace txt) out)
           (\<lambda>r. case r of Inl e \<Rightarrow> Some (Inl e) | Inr out' \<Rightarrow> spm_fragments v raw fs False out'))"

text \<open>\<open>GGML_ASSERT(id != LLAMA_TOKEN_NULL); output.push_back(id);\<close> under a condition.\<close>

definition push_special :: "bool \<Rightarrow> llama_token \<Rightarrow> llama_token list \<Rightarrow> llama_token list vres" where
  "push_special c tok out = (if c then (if tok = LLAMA_TOKEN_NULL then Inl Abort else Inr (out @ [tok])) else Inr out)"

definition with_special :: "bool \<Rightarrow> llama_token \<Rightarrow> (llama_token list \<Rightarrow> llama_token list vres option) \<Rightarrow> bool \<Rightarrow> llama_token \<Rightarrow>
    llama_token list vres option" where
  "with_special front_c front body back_c back_tok =
     (case push_special front_c front [] of Inl e \<Rightarrow> Some (Inl e)
      | Inr out \<Rightarrow>
          Option.bind (body out) (\<lambda>r. Some (case r of Inl e \<Rightarrow> Inl e | Inr out' \<Rightarrow> push_special back_c back_tok out')))"

text \<open>The BPE session on one text: \<open>unicode_regex_split\<close> with the expressions of the pre-tokenizer, then the words.\<close>

definition split_exception :: "split_error \<Rightarrow> vocab_error" where
  "split_exception e = (case e of Invalid_codepoint \<Rightarrow> Invalid_argument | _ \<Rightarrow> Runtime_error)"

definition bpe_session_tokenize :: "'s tokenizer_env \<Rightarrow> 's llama_vocab \<Rightarrow> str \<Rightarrow> llama_token list \<Rightarrow> llama_token list vres option" where
  "bpe_session_tokenize env v txt out =
     Option.bind (unicode_regex_split (te_tables env) (te_regex env) (te_wregex env) txt (bpe_regex_exprs (v_pre_type v)) (bpe_byte_encode v))
       (\<lambda>r. case r of Inl e \<Rightarrow> Some (Inl (split_exception e)) | Inr words \<Rightarrow> bpe_tokenize v words out)"

definition tokenize_fragments :: "('s::linorder) tokenizer_env \<Rightarrow> 's llama_vocab \<Rightarrow> str \<Rightarrow> bool \<Rightarrow> fragment list \<Rightarrow> llama_token list vres option" where
  "tokenize_fragments env v raw add_special buffer =
     (case v_type v of
        LLAMA_VOCAB_TYPE_SPM \<Rightarrow>
          with_special (add_special \<and> v_add_bos v) (special_bos_id v) (spm_fragments v raw buffer True)
            (add_special \<and> v_add_eos v) (special_eos_id v)
      | LLAMA_VOCAB_TYPE_BPE \<Rightarrow>
          with_special (add_special \<and> v_add_bos v) (special_bos_id v)
            (each_fragment (\<lambda>txt. bpe_session_tokenize env v (if v_escape_whitespaces v then llama_escape_whitespace txt else txt)) raw buffer)
            (add_special \<and> v_add_eos v) (special_eos_id v)
      | LLAMA_VOCAB_TYPE_WPM \<Rightarrow>
          with_special add_special (special_bos_id v)
            (each_fragment (\<lambda>txt out. Some (wpm_tokenize (te_tables env) v txt out)) raw buffer)
            add_special (special_sep_id v)
      | LLAMA_VOCAB_TYPE_UGM \<Rightarrow>
          with_special (add_special \<and> v_add_bos v) (special_bos_id v)
            (each_fragment (ugm_tokenize (te_ops env) v (te_ugm env)) raw buffer)
            (add_special \<and> v_add_eos v) (special_eos_id v)
      | LLAMA_VOCAB_TYPE_RWKV \<Rightarrow>
          each_fragment (\<lambda>txt. rwkv_tokenize (te_rwkv env) (special_unk_id v) txt 0) raw buffer []
      | LLAMA_VOCAB_TYPE_PLAMO2 \<Rightarrow> each_fragment (plamo_tokenize (te_plamo env)) raw buffer []
      | LLAMA_VOCAB_TYPE_NONE \<Rightarrow> Some (Inl Abort))"

definition tokenize :: "('s::linorder) tokenizer_env \<Rightarrow> 's llama_vocab \<Rightarrow> str \<Rightarrow> bool \<Rightarrow> bool \<Rightarrow> llama_token list vres option" where
  "tokenize env v raw add_special parse_special =
     Option.bind (if raw \<noteq> [] then tokenizer_st_partition v raw parse_special [Raw_text 0 (length raw)] else Some (Inr []))
       (\<lambda>r. case r of Inl e \<Rightarrow> Some (Inl e) | Inr buffer \<Rightarrow> tokenize_fragments env v raw add_special buffer)"

text \<open>The overload with a buffer of \<open>n_tokens_max\<close> tokens: the number returned and the tokens written.\<close>

definition tokenize_buf :: "('s::linorder) tokenizer_env \<Rightarrow> 's llama_vocab \<Rightarrow> str \<Rightarrow> int \<Rightarrow> bool \<Rightarrow> bool \<Rightarrow> (int \<times> llama_token list) vres option" where
  "tokenize_buf env v txt n_tokens_max add_special parse_special =
     map_option (\<lambda>r. case r of Inl e \<Rightarrow> Inl e
       | Inr res \<Rightarrow>
           Inr (if length res \<ge> 2147483647 then (- 2147483648, [])
                else if n_tokens_max < int (length res) then (- int (length res), []) else (int (length res), res)))
       (tokenize env v txt add_special parse_special)"

section \<open>From text to tokens and back\<close>

text \<open>An RWKV vocabulary whose special tokens are plain texts: they strip nothing, are not empty and need no unescaping.\<close>

definition plain_specials :: "'s llama_vocab \<Rightarrow> bool" where
  "plain_specials v \<longleftrightarrow> (\<forall>i \<in> set (cache_special_tokens v). 0 \<le> i \<and> nat i < n_tokens v \<and> td_text (id_to_token v ! nat i) \<noteq> [] \<and>
     no_strip (td_attr (id_to_token v ! nat i)) \<and> rwkv_text v (nat i) = td_text (id_to_token v ! nat i))"

definition small_texts :: "'s llama_vocab \<Rightarrow> bool" where
  "small_texts v \<longleftrightarrow> length (id_to_token v) < 2147483648 \<and> (\<forall>i < n_tokens v. length (rwkv_text v i) \<le> 2147483647)"

lemma small_n_tokens: "small_texts v \<Longrightarrow> n_tokens v = length (id_to_token v)"
  by (simp add: small_texts_def n_tokens_def u32_def)

lemma rwkv_piece_text:
  assumes "v_type v = LLAMA_VOCAB_TYPE_RWKV" "cache_token_to_piece v = []" "small_texts v" "0 \<le> tok" "nat tok < n_tokens v"
  shows "piece v True strip tok = Some (rwkv_text v (nat tok))"
proof -
  have len: "length (id_to_token v) < 2147483648" "length (rwkv_text v (nat tok)) \<le> 2147483647"
    using assms(3,5) by (simp_all add: small_texts_def)
  have "sint (word_of_nat (length (id_to_token v)) :: 32 word) = int (length (id_to_token v))"
    using len(1) by (simp add: signed_of_nat signed_take_bit_int_eq_self)
  moreover have "tok < int (length (id_to_token v))" using assms(4,5) small_n_tokens[OF assms(3)] by linarith
  ultimately have "token_to_piece v tok 2147483647 (if strip then 1 else 0) True = Inr (int (length (rwkv_text v (nat tok))), rwkv_text v (nat tok))"
    using assms(1,2,4,5) len small_n_tokens[OF assms(3)]
    by (simp add: token_to_piece_def token_get_attr_def get_token_data_def rwkv_piece_def rwkv_text_def Let_def)
  then show ?thesis by (simp add: piece_def)
qed

lemma rwkv_pieces_text:
  assumes "v_type v = LLAMA_VOCAB_TYPE_RWKV" "cache_token_to_piece v = []" "small_texts v"
  shows "\<forall>t \<in> set ts. 0 \<le> t \<and> nat t < n_tokens v \<Longrightarrow>
    pieces_text v True strip ts = Some (concat (map (\<lambda>t. rwkv_text v (nat t)) ts))"
  by (induction ts arbitrary: strip) (simp_all add: rwkv_piece_text[OF assms])

lemma rwkv_fragments:
  assumes "byte_complete v" "\<forall>f \<in> set fs. raw_ok raw f"
    "\<forall>f \<in> set fs. \<forall>tok. f = Token tok \<longrightarrow> 0 \<le> tok \<and> nat tok < n_tokens v \<and> rwkv_text v (nat tok) = td_text (id_to_token v ! nat tok)"
  shows "\<exists>ts. each_fragment (\<lambda>txt. rwkv_tokenize (llm_tokenizer_rwkv v) (special_unk_id v) txt 0) raw fs out = Some (Inr (out @ ts)) \<and>
     (\<forall>t \<in> set ts. 0 \<le> t \<and> nat t < n_tokens v) \<and>
     concat (map (\<lambda>t. rwkv_text v (nat t)) ts) = concat (map (fragment_text v raw) fs)"
  using assms(2,3)
proof (induction fs arbitrary: out)
  case (Cons f fs)
  show ?case
  proof (cases f)
    case (Token tok)
    have t: "0 \<le> tok" "nat tok < n_tokens v" "rwkv_text v (nat tok) = td_text (id_to_token v ! nat tok)"
      using Cons.prems(2) Token by auto
    obtain ts where "each_fragment (\<lambda>txt. rwkv_tokenize (llm_tokenizer_rwkv v) (special_unk_id v) txt 0) raw fs (out @ [tok]) = Some (Inr ((out @ [tok]) @ ts))"
      "\<forall>t \<in> set ts. 0 \<le> t \<and> nat t < n_tokens v"
      "concat (map (\<lambda>t. rwkv_text v (nat t)) ts) = concat (map (fragment_text v raw) fs)"
      using Cons.IH[of "out @ [tok]"] Cons.prems by auto
    then show ?thesis using t Token by (intro exI[of _ "tok # ts"]) (simp add: fragment_text_simps)
  next
    case (Raw_text off n)
    let ?g = "greedy_match (llm_tokenizer_rwkv v) (fragment_sub raw off n)"
    note g = rwkv_lossless(1)[OF assms(1), where s = "fragment_sub raw off n" and out = out and unk = "special_unk_id v"]
      rwkv_lossless(2,3)[OF assms(1), where s = "fragment_sub raw off n"]
    obtain ts where "each_fragment (\<lambda>txt. rwkv_tokenize (llm_tokenizer_rwkv v) (special_unk_id v) txt 0) raw fs (out @ ?g) = Some (Inr ((out @ ?g) @ ts))"
      "\<forall>t \<in> set ts. 0 \<le> t \<and> nat t < n_tokens v"
      "concat (map (\<lambda>t. rwkv_text v (nat t)) ts) = concat (map (fragment_text v raw) fs)"
      using Cons.IH[of "out @ ?g"] Cons.prems by auto
    then show ?thesis using g Raw_text
      by (intro exI[of _ "?g @ ts"]) (auto simp: fragment_text_simps fragment_sub_def)
  qed
qed simp

text \<open>The partition of a whole text by plain special tokens.\<close>

lemma whole_partition:
  assumes "\<forall>i \<in> set (cache_special_tokens v). \<exists>d. get_token_data v i = Inr d \<and> td_text d \<noteq> []"
    "\<forall>i \<in> set (cache_special_tokens v). no_strip (td_attr (id_to_token v ! nat i))"
  shows "\<exists>fs. (if raw \<noteq> [] then tokenizer_st_partition v raw ps [Raw_text 0 (length raw)] else Some (Inr [])) = Some (Inr fs) \<and>
    (\<forall>f \<in> set fs. raw_ok raw f) \<and> (\<forall>x. Token x \<in> set fs \<longrightarrow> x \<in> set (cache_special_tokens v)) \<and>
    concat (map (fragment_text v raw) fs) = raw"
proof (cases "raw = []")
  case False
  then have "\<forall>f \<in> set [Raw_text 0 (length raw)]. raw_ok raw f" by (simp add: raw_ok_def)
  from partition_specials_clean[OF assms(1) this, of ps] assms(2) obtain fs where
    "tokenizer_st_partition v raw ps [Raw_text 0 (length raw)] = Some (Inr fs)" "\<forall>f \<in> set fs. raw_ok raw f"
    "\<forall>x. Token x \<in> set fs \<longrightarrow> x \<in> set (cache_special_tokens v) \<or> Token x \<in> set [Raw_text 0 (length raw)]"
    "concat (map (fragment_text v raw) fs) = concat (map (fragment_text v raw) [Raw_text 0 (length raw)])"
    unfolding tokenizer_st_partition_def by blast
  then show ?thesis using False by (intro exI[of _ fs]) (simp add: fragment_text_simps)
qed simp


text \<open>The vocabulary of all bytes and \<open>ab\<close>, where \<open>ab\<close> is a special token.\<close>

definition special_vocab :: "int llama_vocab" where
  "special_vocab = byte_vocab\<lparr>cache_special_tokens := [256]\<rparr>"

definition rwkv_env :: "int llama_vocab \<Rightarrow> int tokenizer_env" where
  "rwkv_env v = \<lparr>te_tables = letter_tables [], te_regex = each_char_lib, te_wregex = each_char_lib,
     te_ops = \<lparr>fl_add = (+), fl_sub = (-), fl_zero = 0, fl_max = 100, fl_lowest = - 100, fl_penalty = 10\<rparr>,
     te_ugm = \<lparr>prefix_replacements = [], xcda_array = [], user_defined_token_matcher = empty_trie, token_matcher = empty_trie,
       unknown_token_score = 0\<rparr>,
     te_rwkv = llm_tokenizer_rwkv v, te_plamo = \<lparr>pl_bytes = [], to_suffix_id = [], pl_table = []\<rparr>\<rparr>"

lemma special_vocab_same: "n_tokens special_vocab = 257" "rwkv_text special_vocab = rwkv_text byte_vocab"
  "id_to_token special_vocab = id_to_token byte_vocab"
proof -
  show i: "id_to_token special_vocab = id_to_token byte_vocab" by (simp add: special_vocab_def)
  show "n_tokens special_vocab = 257" using byte_vocab_text(1) by (simp add: n_tokens_def i)
  show "rwkv_text special_vocab = rwkv_text byte_vocab" by (intro ext) (simp add: rwkv_text_def i)
qed

lemma special_vocab_ok: "byte_complete special_vocab" "plain_specials special_vocab" "small_texts special_vocab"
proof -
  show "byte_complete special_vocab"
    using byte_vocab_complete special_vocab_same byte_vocab_text(1) by (simp add: byte_complete_def)
  have t: "td_text (id_to_token byte_vocab ! 256) = [97, 98]" "td_attr (id_to_token byte_vocab ! 256) = LLAMA_TOKEN_ATTR_NORMAL"
    by (simp_all add: byte_vocab_def nth_append)
  show "plain_specials special_vocab"
    using t byte_vocab_text(3)[of 256] by (simp add: plain_specials_def special_vocab_same no_strip_def)
      (simp add: special_vocab_def)
  have "length (rwkv_text byte_vocab i) \<le> 2" if "i < 257" for i using byte_vocab_text(3)[OF that] by simp
  then show "small_texts special_vocab" unfolding small_texts_def special_vocab_same by (fastforce simp: byte_vocab_def)
qed


end
