(* ===== verification/TokBpeRoundtrip.thy ===== *)
theory TokBpeRoundtrip
  imports TokDispatch
begin

text \<open>
  The round trip of the BPE pipeline: partition, splitting by hand-written splitters, the byte alphabet, merging, lookup, and back
  through the pieces of the tokens.
\<close>

section \<open>The byte alphabet as UTF-8 characters\<close>

lemma fill_values:
  "fill_byte_to_utf8 chs n m b = Some s \<Longrightarrow> m b = Some s \<or> (\<exists>k. 256 + n \<le> k \<and> k < 256 + n + length chs \<and> s = utf8_of k)"
proof (induction chs arbitrary: n m)
  case (Cons ch chs)
  show ?case
  proof (cases "m ch = None")
    case True
    then have "fill_byte_to_utf8 chs (n + 1) (m(ch \<mapsto> utf8_of (256 + n))) b = Some s" using Cons.prems by simp
    from Cons.IH[OF this] have "m b = Some s \<or> s = utf8_of (256 + n) \<or>
        (\<exists>k. 256 + (n + 1) \<le> k \<and> k < 256 + (n + 1) + length chs \<and> s = utf8_of k)"
      by (auto split: if_splits)
    then show ?thesis
    proof (elim disjE exE)
      assume "s = utf8_of (256 + n)"
      then show ?thesis by (intro disjI2 exI[of _ "256 + n"]) simp
    next
      fix k assume "256 + (n + 1) \<le> k \<and> k < 256 + (n + 1) + length chs \<and> s = utf8_of k"
      then show ?thesis by (intro disjI2 exI[of _ k]) simp
    qed simp
  next
    case False
    then show ?thesis using Cons.IH[of n m] Cons.prems by fastforce
  qed
qed simp

lemma foldl_values: "foldl (\<lambda>m ch. m(ch \<mapsto> utf8_of ch)) m chs b = Some s \<Longrightarrow> m b = Some s \<or> (\<exists>k \<in> set chs. s = utf8_of k)"
  by (induction chs arbitrary: m) (fastforce split: if_splits)+

definition alphabet_char :: "nat \<Rightarrow> bool" where
  "alphabet_char k \<longleftrightarrow> unicode_cpt_to_utf8 (of_nat k) = Some (utf8_of k) \<and> 32 \<notin> set (utf8_of k) \<and> utf8_of k \<noteq> [] \<and>
     unicode_len_utf8 (hd (utf8_of k)) = length (utf8_of k)"

lemma lead_len_table: "\<not> is_cont b \<Longrightarrow> unicode_len_utf8 b = lead_len b"
proof -
  have "\<not> is_cont b \<longrightarrow> unicode_len_utf8 b = lead_len b" by (rule all_bytes[of "\<lambda>b. \<not> is_cont b \<longrightarrow> unicode_len_utf8 b = lead_len b"]) code_simp
  then show "\<not> is_cont b \<Longrightarrow> unicode_len_utf8 b = lead_len b" by simp
qed

lemma alphabet_chars:
  assumes "33 \<le> k" "k < 512"
  shows "alphabet_char k"
proof -
  have k: "(of_nat k :: cpt) \<le> 0x7ff" "(of_nat k :: cpt) \<noteq> 32"
    using assms by (simp_all add: word_le_nat_alt unat_of_nat word_unat_eq_iff)
  have some: "unicode_cpt_to_utf8 c \<noteq> None" if "c \<le> 0x7ff" for c using that by (simp add: unicode_cpt_to_utf8_def cpt_gaps)
  obtain bs where "unicode_cpt_to_utf8 (of_nat k) = Some bs" using some[OF k(1)] by (meson not_None_eq)
  then have enc: "unicode_cpt_to_utf8 (of_nat k) = Some (utf8_of k)" by (simp add: utf8_of_def)
  obtain l ts where s: "utf8_of k = l # ts" "\<not> is_cont l" "\<forall>t \<in> set ts. is_cont t" "lead_len l = length (utf8_of k)"
    by (rule encode_shape[OF enc]) 
  have "\<not> is_cont 32" "lead_len 32 = 1" by (simp_all add: is_cont_def lead_len_def)
  moreover have "l \<noteq> 32"
  proof
    assume l: "l = 32"
    then have "utf8_of k = [32]" using s \<open>lead_len 32 = 1\<close> by simp
    then have "unicode_cpt_from_utf8 [32] 0 = Some (of_nat k, 1)" using cpt_from_utf8_encode[OF enc, of "[]" "[]"] by simp
    then show False using k(2) by (simp add: unicode_cpt_from_utf8_def widen_def)
  qed
  ultimately show ?thesis using enc s by (auto simp: alphabet_char_def lead_len_table)
qed

lemma alphabet_cpt: "\<exists>k. byte_alphabet b = utf8_of k \<and> alphabet_char k"
proof -
  let ?p = "foldl (\<lambda>m ch. m(ch \<mapsto> utf8_of ch)) Map.empty printable_bytes"
  have "fill_byte_to_utf8 [0..<256] 0 ?p (unat b) = Some (byte_alphabet b)"
    using byte_alphabet(1)[of b] by (simp add: unicode_byte_to_utf8_def unicode_byte_to_utf8_map_def)
  then have "?p (unat b) = Some (byte_alphabet b) \<or> (\<exists>k. 256 \<le> k \<and> k < 512 \<and> byte_alphabet b = utf8_of k)"
    using fill_values[of "[0..<256]" 0 ?p "unat b" "byte_alphabet b"] by auto
  then have "\<exists>k. 33 \<le> k \<and> k < 512 \<and> byte_alphabet b = utf8_of k"
  proof
    assume "?p (unat b) = Some (byte_alphabet b)"
    then have "\<exists>k \<in> set printable_bytes. byte_alphabet b = utf8_of k" using foldl_values[of Map.empty printable_bytes] by auto
    moreover have "\<forall>k \<in> set printable_bytes. 33 \<le> k \<and> k < 512" by (simp add: printable_bytes_def)
    ultimately show ?thesis by blast
  next
    assume "\<exists>k. 256 \<le> k \<and> k < 512 \<and> byte_alphabet b = utf8_of k"
    then obtain k where "256 \<le> k" "k < 512" "byte_alphabet b = utf8_of k" by blast
    then show ?thesis by (intro exI[of _ k]) simp
  qed
  then show ?thesis using alphabet_chars by auto
qed

lemma byte_encoded_chars: "utf8_chars (byte_encoded w) = map byte_alphabet w"
proof (induction w)
  case (Cons b w)
  obtain k where k: "byte_alphabet b = utf8_of k" "alphabet_char k" using alphabet_cpt by blast
  then have "utf8_chars (byte_alphabet b @ byte_encoded w) = byte_alphabet b # utf8_chars (byte_encoded w)"
    by (subst utf8_chars.simps) (simp add: Let_def alphabet_char_def)
  then show ?case using Cons by (simp add: byte_encoded_def)
qed (simp add: byte_encoded_def utf8_chars.simps)

lemma byte_encoded_no_space: "no_space (byte_encoded w)"
proof (induction w)
  case (Cons b w)
  then show ?case using alphabet_cpt[of b] by (auto simp: no_space_def byte_encoded_def alphabet_char_def)
qed (simp add: byte_encoded_def no_space_def)

lemma byte_encoded_append: "byte_encoded (u @ w) = byte_encoded u @ byte_encoded w"
  by (simp add: byte_encoded_def)

lemma byte_encoded_decodes: "llama_decode_text (byte_encoded w) = Inr w"
proof -
  have cs: "\<exists>cs. unicode_cpts_to_utf8 cs = Some (byte_encoded w) \<and> (\<forall>t. decode_cpts t cs = Inr w)"
  proof (induction w)
    case Nil
    show ?case by (intro exI[of _ "[]"]) (simp add: byte_encoded_def)
  next
    case (Cons b w)
    obtain cs where cs: "unicode_cpts_to_utf8 cs = Some (byte_encoded w)" "\<forall>t. decode_cpts t cs = Inr w" using Cons by blast
    obtain k where k: "byte_alphabet b = utf8_of k" "alphabet_char k" using alphabet_cpt by blast
    then have c: "unicode_cpt_to_utf8 (of_nat k) = Some (byte_alphabet b)" by (simp add: alphabet_char_def)
    have "decode_cpt t (of_nat k) = Inr [b]" for t using c byte_alphabet(2)[of b] by (simp add: decode_cpt_def)
    then show ?case using cs c by (intro exI[of _ "of_nat k # cs"]) (simp add: byte_encoded_def)
  qed
  then obtain cs where "unicode_cpts_to_utf8 cs = Some (byte_encoded w)" "\<forall>t. decode_cpts t cs = Inr w" by blast
  then show ?thesis using cpts_from_utf8_at_encode[of cs "byte_encoded w" "[]"]
    by (simp add: llama_decode_text_def unicode_cpts_from_utf8_def)
qed

section \<open>The pieces of a word\<close>

lemma greedy_merge_all:
  assumes "\<And>a b k. P a \<Longrightarrow> P b \<Longrightarrow> key a b = Some k \<Longrightarrow> P (a @ b)"
  shows "\<forall>p \<in> set ps. P p \<Longrightarrow> \<forall>p \<in> set (greedy_merge better key ps). P p"
proof (induction "length ps" arbitrary: ps rule: less_induct)
  case less
  show ?case
  proof (cases "best_pair better key ps")
    case None
    then show ?thesis using less.prems by (subst greedy_merge.simps) simp
  next
    case (Some ik)
    obtain i k where ik: "ik = (i, k)" by (cases ik)
    note b = best_pair_bound[OF Some[unfolded ik]]
    have "\<forall>p \<in> set (merge_at i ps). P p"
      using less.prems b assms[of "ps ! i" "ps ! Suc i" k] by (auto simp: merge_at_def dest: in_set_takeD in_set_dropD)
    then have "\<forall>p \<in> set (greedy_merge better key (merge_at i ps)). P p"
      using less.hyps[of "merge_at i ps"] b length_merge_at[of i ps] by fastforce
    then show ?thesis using Some ik by (subst greedy_merge.simps) simp
  qed
qed

text \<open>The texts the lookup can be asked for: characters of the alphabet, results of merges, and whole words with a token if merges
  are ignored for them.  A complete vocabulary has a normal token for each.\<close>

definition bpe_text_of :: "'s llama_vocab \<Rightarrow> str \<Rightarrow> bool" where
  "bpe_text_of v t \<longleftrightarrow> (\<exists>b. t = byte_alphabet b) \<or> (\<exists>a b r. bpe_ranks v (a, b) = Some r \<and> t = a @ b) \<or>
     v_ignore_merges v \<and> token_to_id v t \<noteq> None \<and> (\<exists>w. t = byte_encoded w)"

definition bpe_complete :: "'s llama_vocab \<Rightarrow> bool" where
  "bpe_complete v \<longleftrightarrow> length (id_to_token v) < 2147483648 \<and>
     (\<forall>t. bpe_text_of v t \<longrightarrow> length t < 2147483647 \<and> (\<exists>tok. token_to_id v t = Some tok \<and> 0 \<le> tok \<and> nat tok < length (id_to_token v) \<and>
        td_text (id_to_token v ! nat tok) = t \<and> td_attr (id_to_token v ! nat tok) = LLAMA_TOKEN_ATTR_NORMAL))"

lemma word_pieces_texts:
  assumes "v_pre_type v \<noteq> LLAMA_VOCAB_PRE_TYPE_GEMMA4" "p \<in> set (bpe_word_pieces v (byte_encoded w))"
  shows "bpe_text_of v p \<and> (\<exists>u. p = byte_encoded u)"
proof (cases "text_to_token v (byte_encoded w) \<noteq> LLAMA_TOKEN_NULL \<and> v_ignore_merges v")
  case True
  then have "p = byte_encoded w" "token_to_id v p \<noteq> None"
    using assms by (auto simp: bpe_word_pieces_def text_to_token_def split: if_splits option.splits)
  then show ?thesis using True by (auto simp: bpe_text_of_def)
next
  case False
  then have p: "p \<in> set (greedy_merge (<) (bpe_key v) (map byte_alphabet w))"
    using assms by (auto simp: bpe_word_pieces_def byte_encoded_chars split: if_splits)
  have "\<forall>p \<in> set (greedy_merge (<) (bpe_key v) (map byte_alphabet w)). bpe_text_of v p \<and> (\<exists>u. p = byte_encoded u)"
  proof (rule greedy_merge_all)
    fix a b :: str and k
    assume "bpe_text_of v a \<and> (\<exists>u. a = byte_encoded u)" "bpe_text_of v b \<and> (\<exists>u. b = byte_encoded u)" "bpe_key v a b = Some k"
    then show "bpe_text_of v (a @ b) \<and> (\<exists>u. a @ b = byte_encoded u)"
      by (metis (no_types, lifting) bpe_key_def bpe_text_of_def byte_encoded_append option.case_eq_if option.distinct(1) option.expand option.sel)
  next
    have "byte_alphabet b = byte_encoded [b]" for b by (simp add: byte_encoded_def)
    then show "\<forall>p \<in> set (map byte_alphabet w). bpe_text_of v p \<and> (\<exists>u. p = byte_encoded u)"
      by (auto simp: bpe_text_of_def)
  qed
  then show ?thesis using p by blast
qed

lemma pieces_tokens:
  assumes "bpe_complete v" "\<forall>p \<in> set ps. bpe_text_of v p"
  shows "fold (bpe_piece v) ps out = out @ map (\<lambda>p. the (token_to_id v p)) ps"
  using assms(2)
proof (induction ps arbitrary: out)
  case (Cons p ps)
  obtain tok where "token_to_id v p = Some tok" "0 \<le> tok" using assms(1) Cons.prems unfolding bpe_complete_def by auto
  then show ?case using Cons by (simp add: bpe_piece_def text_to_token_def)
qed simp

section \<open>Expressions with a splitter of their own\<close>

definition has_splitter :: "str \<Rightarrow> bool" where
  "has_splitter e \<longleftrightarrow> e \<in> {regex_falcon_2, regex_llama3, regex_stablelm2, regex_kimi_k2, regex_afmoe_1, regex_gemma4, regex_tiny_aya_1}"

definition refines_strictly :: "nat list option \<Rightarrow> nat list \<Rightarrow> bool" where
  "refines_strictly res offsets \<longleftrightarrow> (\<exists>lss. res = Some (concat lss) \<and> list_all2 divides lss offsets)"

lemma strictly_ranges:
  assumes "\<And>acc. \<exists>lss. split_ranges scan tb cpts start offsets acc = Some (acc @ concat lss) \<and> list_all2 divides lss offsets"
  shows "refines_strictly (split_ranges scan tb cpts start offsets []) offsets"
  using assms[of "[]"] by (auto simp: refines_strictly_def)

lemma splitter_exprs:
  "regex_llama3 = re (''(?:'[sS]|'[tT]|'[rR][eE]|'[vV][eE]|'[mM]|'[lL][lL]|'[dD])'' @ llama3_tail ''%p{N}{1,3}'')"
  "regex_stablelm2 = re (''(?:'[sS]|'[tT]|'[rR][eE]|'[vV][eE]|'[mM]|'[lL][lL]|'[dD])'' @ llama3_tail ''%p{N}'')"
  by (simp_all add: regex_llama3_def regex_stablelm2_def llama3_tail_def)

lemma splitter_refines:
  assumes "has_splitter e"
  shows "refines_strictly (unicode_regex_split_custom tb cpts e offsets) offsets"
proof -
  note r = strictly_ranges[OF gpt2.ranges_refined] strictly_ranges[OF llama3.ranges_refined] strictly_ranges[OF qwen2.ranges_refined]
    strictly_ranges[OF kimi.ranges_refined] strictly_ranges[OF newlines.ranges_refined] strictly_ranges[OF afmoe.ranges_refined]
  have e: "e = re '''s|'t|'re|'ve|'m|'ll|'d| ?%p{L}+| ?%p{N}+| ?[^%s%p{L}%p{N}]+|%s+(?!%S)'' \<or>
    e = re (''(?:'[sS]|'[tT]|'[rR][eE]|'[vV][eE]|'[mM]|'[lL][lL]|'[dD])'' @ llama3_tail ''%p{N}{1,3}'') \<or>
    e = re (''(?:'[sS]|'[tT]|'[rR][eE]|'[vV][eE]|'[mM]|'[lL][lL]|'[dD])'' @ llama3_tail ''%p{N}'') \<or>
    e = re ''%p{Han}+'' \<or> e = re ''%p{AFMoE_digits}'' \<or> e = re ''[^%n]+|[%n]+'' \<or> e = re ''%d{1,3}(?=(?:%d{3})*%b)''"
    using assms unfolding has_splitter_def splitter_exprs regex_falcon_2_def regex_kimi_k2_def regex_afmoe_1_def regex_gemma4_def regex_tiny_aya_1_def
    by blast
  show ?thesis
    unfolding unicode_regex_split_custom_def unicode_regex_split_custom_gpt2_def unicode_regex_split_custom_llama3_def
      unicode_regex_split_custom_qwen2_def unicode_regex_split_custom_kimi_k2_def unicode_regex_split_custom_afmoe_def
      unicode_regex_split_custom_newlines_def
    using e r by (simp only: split: if_split) blast
qed

lemma splitters_no_error:
  assumes "\<forall>e \<in> set exprs. has_splitter e"
  shows "sum_list offsets = length cpts \<Longrightarrow> cpts \<noteq> [] \<Longrightarrow>
    \<exists>ls. regex_split_all tb lib wlib cpts exprs offsets = Some (Inr ls) \<and> sum_list ls = length cpts"
  using assms
proof (induction exprs arbitrary: offsets)
  case (Cons e exprs)
  obtain lss where l: "unicode_regex_split_custom tb cpts e offsets = Some (concat lss)" "list_all2 divides lss offsets"
    using splitter_refines[of e tb cpts offsets] Cons.prems(3) by (auto simp: refines_strictly_def)
  have sum: "sum_list (concat lss) = length cpts" using divides_sum[OF l(2)] Cons.prems(1) by simp
  then have "concat lss \<noteq> []" using Cons.prems(2) by fastforce
  then have "regex_split_one tb lib wlib cpts e offsets = Some (Inr (concat lss))" using l(1) by (simp add: regex_split_one_def)
  then show ?case using Cons.IH[OF sum Cons.prems(2)] Cons.prems(3) by simp
qed simp

definition valid_utf8 :: "str \<Rightarrow> bool" where
  "valid_utf8 s \<longleftrightarrow> unicode_cpts_to_utf8 (unicode_cpts_from_utf8 s) = Some s"

lemma split_valid:
  assumes "\<forall>e \<in> set exprs. has_splitter e" "valid_utf8 s" "s \<noteq> []"
  shows "\<exists>words. unicode_regex_split tb lib wlib s exprs True = Some (Inr (map byte_encoded words)) \<and> concat words = s"
proof -
  let ?cpts = "unicode_cpts_from_utf8 s"
  have ne: "?cpts \<noteq> []" using assms(2,3) by (auto simp: valid_utf8_def)
  obtain ls where ls: "regex_split_all tb lib wlib ?cpts exprs [length ?cpts] = Some (Inr ls)" "sum_list ls = length ?cpts"
    using splitters_no_error[OF assms(1), of "[length ?cpts]" ?cpts tb lib wlib] ne by auto
  obtain ws where ws: "split_words ?cpts ls = Some ws" using split_words_total[of ?cpts ls] assms(2) by (auto simp: valid_utf8_def)
  have "unicode_byte_encoding_process ws = Some (map byte_encoded ws)" using split_words_encoded[OF ws] byte_encoding_words by blast
  moreover have "concat ws = s" using split_words_concat[OF ws] ls(2) assms(2) by (simp add: valid_utf8_def)
  ultimately show ?thesis using ls(1) ws by (auto simp: unicode_regex_split_def Let_def)
qed

section \<open>From text to tokens and back\<close>

text \<open>A BPE vocabulary with GPT-2 byte encoding, and special tokens with a plain text.\<close>

definition bpe_plain :: "'s llama_vocab \<Rightarrow> bool" where
  "bpe_plain v \<longleftrightarrow> v_type v = LLAMA_VOCAB_TYPE_BPE \<and> v_pre_type v \<noteq> LLAMA_VOCAB_PRE_TYPE_GEMMA4 \<and> \<not> v_escape_whitespaces v \<and>
     \<not> v_clean_spaces v \<and> \<not> v_add_space_prefix v \<and> cache_token_to_piece v = [] \<and>
     (\<forall>i \<in> set (cache_special_tokens v). 0 \<le> i \<and> nat i < length (id_to_token v) \<and>
        td_text (id_to_token v ! nat i) \<noteq> [] \<and> length (td_text (id_to_token v ! nat i)) < 2147483647 \<and>
        no_strip (td_attr (id_to_token v ! nat i)) \<and>
        td_attr (id_to_token v ! nat i) AND (attr_special OR LLAMA_TOKEN_ATTR_USER_DEFINED) \<noteq> 0)"

lemma bpe_token_piece:
  assumes "bpe_plain v" "length (id_to_token v) < 2147483648" "0 \<le> tok" "nat tok < length (id_to_token v)" "length s < 2147483647"
    and t: "td_attr (id_to_token v ! nat tok) AND (attr_special OR LLAMA_TOKEN_ATTR_USER_DEFINED) \<noteq> 0 \<and> td_text (id_to_token v ! nat tok) = s \<or>
      td_attr (id_to_token v ! nat tok) = LLAMA_TOKEN_ATTR_NORMAL \<and> td_text (id_to_token v ! nat tok) = byte_encoded s"
  shows "piece v True False tok = Some s"
proof -
  have "sint (word_of_nat (length (id_to_token v)) :: 32 word) = int (length (id_to_token v))"
    using assms(2) by (simp add: signed_of_nat signed_take_bit_int_eq_self)
  moreover have "tok < int (length (id_to_token v))" using assms(3,4) by linarith
  ultimately have "token_to_piece v tok 2147483647 0 True = try_copy 2147483647 0 s"
    using assms(1,3,4) t byte_encoded_decodes[of s]
    by (auto simp: token_to_piece_def token_get_attr_def get_token_data_def bpe_plain_def encoded_piece_def Let_def)
  then show ?thesis using assms(5) by (simp add: piece_def try_copy_def)
qed

lemma byte_encoded_length: "length w \<le> length (byte_encoded w)"
proof (induction w)
  case (Cons b w)
  obtain k where "byte_alphabet b = utf8_of k" "alphabet_char k" using alphabet_cpt by blast
  then have "byte_alphabet b \<noteq> []" by (simp add: alphabet_char_def)
  then show ?case using Cons by (cases "byte_alphabet b") (simp_all add: byte_encoded_def)
qed simp

lemma byte_encoded_concat: "byte_encoded (concat ws) = concat (map byte_encoded ws)"
  by (induction ws) (simp_all add: byte_encoded_append, simp add: byte_encoded_def)

lemma byte_encoded_inj: "byte_encoded u = byte_encoded w \<Longrightarrow> u = w"
  by (metis byte_encoded_decodes sum.inject(2))

text \<open>The tokens of one text, and the text of their pieces.\<close>

lemma bpe_session_text:
  assumes v: "bpe_plain v" "bpe_complete v" and e: "\<forall>e \<in> set (bpe_regex_exprs (v_pre_type v)). has_splitter e" and s: "valid_utf8 s" "s \<noteq> []"
  shows "\<exists>ts. bpe_session_tokenize env v s out = Some (Inr (out @ ts)) \<and> pieces_text v True False ts = Some s"
proof -
  obtain words where w: "unicode_regex_split (te_tables env) (te_regex env) (te_wregex env) s (bpe_regex_exprs (v_pre_type v)) True =
      Some (Inr (map byte_encoded words))" "concat words = s"
    using split_valid[OF e s] by blast
  define ps where "ps = concat (map (bpe_word_pieces v) (map byte_encoded words))"
  have all: "\<forall>p \<in> set ps. bpe_text_of v p \<and> (\<exists>u. p = byte_encoded u)"
  proof
    fix p assume "p \<in> set ps"
    then obtain w where "p \<in> set (bpe_word_pieces v (byte_encoded w))" by (auto simp: ps_def)
    moreover have "v_pre_type v \<noteq> LLAMA_VOCAB_PRE_TYPE_GEMMA4" using v(1) unfolding bpe_plain_def by blast
    ultimately show "bpe_text_of v p \<and> (\<exists>u. p = byte_encoded u)" by (rule word_pieces_texts[rotated])
  qed
  then have "\<exists>us. ps = map byte_encoded us" unfolding ex_map_conv by blast
  then obtain us where us: "ps = map byte_encoded us" "\<forall>p \<in> set ps. bpe_text_of v p" using all by blast
  have "concat ps = concat (map byte_encoded words)"
  proof -
    have "concat (bpe_word_pieces v w) = w" for w by (simp add: bpe_word_pieces_def concat_greedy_merge concat_utf8_chars)
    then show ?thesis unfolding ps_def by (induction words) simp_all
  qed
  then have whole: "concat us = s" using us(1) w(2) byte_encoded_inj[of "concat us" s] by (simp add: byte_encoded_concat[symmetric])
  define ts where "ts = map (\<lambda>p. the (token_to_id v p)) ps"
  have "bpe_tokenize v (map byte_encoded words) out = Some (Inr (out @ ts))"
    using bpe_tokenize_greedy[of "map byte_encoded words" v out, folded ps_def] byte_encoded_no_space pieces_tokens[OF v(2) us(2), of out]
    by (simp add: ts_def)
  then have "bpe_session_tokenize env v s out = Some (Inr (out @ ts))"
    using w(1) v(1) by (simp add: bpe_session_tokenize_def bpe_byte_encode_def bpe_plain_def)
  moreover have "pieces_text v True False ts = Some s"
  proof -
    have "pieces_text v True False (map (\<lambda>p. the (token_to_id v p)) (map byte_encoded us)) = Some (concat us)"
      if "\<forall>u \<in> set us. bpe_text_of v (byte_encoded u)" for us
      using that
    proof (induction us)
      case (Cons u us)
      obtain tok where tok: "token_to_id v (byte_encoded u) = Some tok" "0 \<le> tok" "nat tok < length (id_to_token v)"
        "td_text (id_to_token v ! nat tok) = byte_encoded u" "td_attr (id_to_token v ! nat tok) = LLAMA_TOKEN_ATTR_NORMAL"
        "length (byte_encoded u) < 2147483647"
        using v(2) Cons.prems unfolding bpe_complete_def by auto
      have "length u < 2147483647" using tok(6) byte_encoded_length[of u] by linarith
      then have "piece v True False tok = Some u" using bpe_token_piece[OF v(1) _ tok(2,3)] v(2) tok by (simp add: bpe_complete_def)
      then show ?case using Cons tok(1) by simp
    qed simp
    then show ?thesis using us whole by (simp add: ts_def)
  qed
  ultimately show ?thesis by blast
qed

lemma pieces_text_append:
  "pieces_text v True False a = Some s \<Longrightarrow> pieces_text v True False b = Some t \<Longrightarrow> pieces_text v True False (a @ b) = Some (s @ t)"
proof (induction a arbitrary: s)
  case (Cons x a)
  then obtain p q where "piece v True False x = Some p" "pieces_text v True False a = Some q" "s = p @ q" by (auto split: option.splits)
  then show ?case using Cons.IH[of q] Cons.prems(2) by simp
qed simp

lemma bpe_fragments:
  assumes v: "bpe_plain v" "bpe_complete v" and e: "\<forall>e \<in> set (bpe_regex_exprs (v_pre_type v)). has_splitter e"
    and fs: "\<forall>f \<in> set fs. raw_ok raw f" "\<forall>x. Token x \<in> set fs \<longrightarrow> x \<in> set (cache_special_tokens v)"
      "\<forall>off n. Raw_text off n \<in> set fs \<longrightarrow> valid_utf8 (fragment_sub raw off n)"
  shows "\<exists>ts. each_fragment (bpe_session_tokenize env v) raw fs out = Some (Inr (out @ ts)) \<and>
    pieces_text v True False ts = Some (concat (map (fragment_text v raw) fs))"
  using fs
proof (induction fs arbitrary: out)
  case (Cons f fs)
  show ?case
  proof (cases f)
    case (Token tok)
    let ?d = "id_to_token v ! nat tok"
    have t: "0 \<le> tok" "nat tok < length (id_to_token v)" "length (td_text ?d) < 2147483647"
      "td_attr ?d AND (attr_special OR LLAMA_TOKEN_ATTR_USER_DEFINED) \<noteq> 0"
      using Cons.prems(2) Token v(1) by (auto simp: bpe_plain_def)
    have p: "piece v True False tok = Some (td_text ?d)"
      using bpe_token_piece[OF v(1) _ t(1-3)] t(4) v(2) by (simp add: bpe_complete_def)
    obtain ts where "each_fragment (bpe_session_tokenize env v) raw fs (out @ [tok]) = Some (Inr ((out @ [tok]) @ ts))"
      "pieces_text v True False ts = Some (concat (map (fragment_text v raw) fs))"
      using Cons.IH[of "out @ [tok]"] Cons.prems by auto
    then show ?thesis using p Token by (intro exI[of _ "tok # ts"]) (simp add: fragment_text_simps)
  next
    case (Raw_text off n)
    have "valid_utf8 (fragment_sub raw off n)" "fragment_sub raw off n \<noteq> []"
      using Cons.prems(1,3) Raw_text by (auto simp: raw_ok_def fragment_sub_def)
    from bpe_session_text[OF v e this, of env out] obtain t1 where
      t1: "bpe_session_tokenize env v (fragment_sub raw off n) out = Some (Inr (out @ t1))" "pieces_text v True False t1 = Some (fragment_sub raw off n)"
      by blast
    obtain ts where "each_fragment (bpe_session_tokenize env v) raw fs (out @ t1) = Some (Inr ((out @ t1) @ ts))"
      "pieces_text v True False ts = Some (concat (map (fragment_text v raw) fs))"
      using Cons.IH[of "out @ t1"] Cons.prems by auto
    then show ?thesis using t1 pieces_text_append[OF t1(2), of ts] Raw_text
      by (intro exI[of _ "t1 @ ts"]) (simp add: fragment_text_simps fragment_sub_def)
  qed
qed simp


text \<open>The vocabulary of the byte alphabet and the token \<open>ab\<close>, with the merge of \<open>a\<close> and \<open>b\<close>, for the pre-tokenizer of Llama 3.\<close>

definition alphabet_vocab :: "int llama_vocab" where
  "alphabet_vocab = (blank_vocab LLAMA_VOCAB_TYPE_BPE)\<lparr>
     v_pre_type := 1, v_escape_whitespaces := False,
     id_to_token := map (\<lambda>b. \<lparr>td_text = byte_alphabet (word_of_nat b), td_score = 0, td_attr = LLAMA_TOKEN_ATTR_NORMAL\<rparr>) [0..<256] @
       [\<lparr>td_text = [97, 98], td_score = 0, td_attr = LLAMA_TOKEN_ATTR_NORMAL\<rparr>],
     token_to_id := (\<lambda>t. if t = [97, 98] then Some 256 else map_option (\<lambda>b. int (unat b)) (unicode_utf8_to_byte t)),
     bpe_ranks := [([97], [98]) \<mapsto> 0]\<rparr>"

lemma alphabet_vocab_complete: "bpe_complete alphabet_vocab"
proof -
  have one: "byte_alphabet b \<noteq> [97, 98] \<and> length (byte_alphabet b) < 2147483647" for b
  proof -
    obtain k where k: "byte_alphabet b = utf8_of k" "alphabet_char k" using alphabet_cpt by blast
    have "\<not> is_cont 97" "lead_len 97 = 1" by (simp_all add: is_cont_def lead_len_def)
    then have "unicode_len_utf8 97 = 1" by (simp add: lead_len_table)
    then have "byte_alphabet b \<noteq> [97, 98]" using k by (auto simp: alphabet_char_def)
    moreover have "length (byte_alphabet b) \<le> 4" using k cpt_to_utf8_length by (auto simp: alphabet_char_def)
    ultimately show ?thesis by simp
  qed
  have len: "length (id_to_token alphabet_vocab) = 257" by (simp add: alphabet_vocab_def)
  have tok: "token_to_id alphabet_vocab (byte_alphabet b) = Some (int (unat b))" for b
    using one[of b] byte_alphabet(2)[of b] by (simp add: alphabet_vocab_def)
  have td: "id_to_token alphabet_vocab ! unat b = \<lparr>td_text = byte_alphabet b, td_score = 0, td_attr = LLAMA_TOKEN_ATTR_NORMAL\<rparr>" for b
  proof -
    have "unat b < 256" using unsigned_less[of b] by simp
    then show ?thesis by (simp add: alphabet_vocab_def nth_append)
  qed
  have "\<exists>tok. token_to_id alphabet_vocab t = Some tok \<and> 0 \<le> tok \<and> nat tok < length (id_to_token alphabet_vocab) \<and>
      td_text (id_to_token alphabet_vocab ! nat tok) = t \<and> td_attr (id_to_token alphabet_vocab ! nat tok) = LLAMA_TOKEN_ATTR_NORMAL"
    "length t < 2147483647" if "bpe_text_of alphabet_vocab t" for t
  proof -
    from that consider b where "t = byte_alphabet b" | "t = [97, 98]"
      by (auto simp: bpe_text_of_def alphabet_vocab_def blank_vocab_def split: if_splits)
    then have "(\<exists>tok. token_to_id alphabet_vocab t = Some tok \<and> 0 \<le> tok \<and> nat tok < length (id_to_token alphabet_vocab) \<and>
      td_text (id_to_token alphabet_vocab ! nat tok) = t \<and> td_attr (id_to_token alphabet_vocab ! nat tok) = LLAMA_TOKEN_ATTR_NORMAL) \<and> length t < 2147483647"
    proof cases
      case 1
      have "unat b < 256" using unsigned_less[of b] by simp
      then have "unat b < 257" by simp
      then show ?thesis using 1 tok[of b] td[of b] one[of b] len by simp
    qed (simp add: alphabet_vocab_def nth_append)
    then show "\<exists>tok. token_to_id alphabet_vocab t = Some tok \<and> 0 \<le> tok \<and> nat tok < length (id_to_token alphabet_vocab) \<and>
      td_text (id_to_token alphabet_vocab ! nat tok) = t \<and> td_attr (id_to_token alphabet_vocab ! nat tok) = LLAMA_TOKEN_ATTR_NORMAL"
      "length t < 2147483647" by blast+
  qed
  then show ?thesis using len by (simp add: bpe_complete_def)
qed


end
